(* ===== verification/Prelude.thy ===== *)
theory Prelude
  imports Main "HOL-Library.Word" "HOL-Library.Monad_Syntax"
begin

unbundle bit_operations_syntax

text \<open>
  Shared vocabulary of the development: the fixed-width integers of the C++ sources,
  checked vector access, little-endian memory access with the \<open>ntoh\<close>/\<open>hton\<close> byte swaps,
  and the arithmetic of cyclic table indices.

  Throughout, an operation that indexes a \<open>std::vector\<close> or a raw buffer, or that loops,
  returns an \<open>option\<close>: \<open>None\<close> stands for a run with no defined outcome (an out-of-range
  access, or a loop that never ends).  A theorem that an operation returns \<open>Some\<close> is
  therefore a statement of memory safety and of termination.
\<close>

section \<open>Machine integers\<close>

type_synonym u8 = "8 word"
type_synonym u16 = "16 word"
type_synonym u32 = "32 word"
type_synonym u64 = "64 word"
type_synonym bytes = "u8 list"

text \<open>Facts that rewrite guarded vector accesses, and facts that describe list-shaped heaps.\<close>

named_theorems vec_simps \<open>rewriting of checked vector accesses\<close>
named_theorems frame_simps \<open>updates that leave a heap structure unchanged\<close>
named_theorems byte_simps \<open>evaluation of byte-level loads and stores\<close>

section \<open>Checked vector access\<close>

definition vec_at :: "'a list \<Rightarrow> 'w::len word \<Rightarrow> 'a option" where
  "vec_at xs i = (if unat i < length xs then Some (xs ! unat i) else None)"

definition vec_put :: "'a list \<Rightarrow> 'w::len word \<Rightarrow> 'a \<Rightarrow> 'a list option" where
  "vec_put xs i v = (if unat i < length xs then Some (xs[unat i := v]) else None)"

lemma vec_at_Some [vec_simps]: "unat i < length xs \<Longrightarrow> vec_at xs i = Some (xs ! unat i)"
  by (simp add: vec_at_def)

lemma vec_put_Some [vec_simps]: "unat i < length xs \<Longrightarrow> vec_put xs i v = Some (xs[unat i := v])"
  by (simp add: vec_put_def)

lemma vec_at_eq_Some: "vec_at xs i = Some x \<longleftrightarrow> unat i < length xs \<and> x = xs ! unat i"
  by (auto simp: vec_at_def)

lemma vec_put_eq_Some: "vec_put xs i v = Some ys \<longleftrightarrow> unat i < length xs \<and> ys = xs[unat i := v]"
  by (auto simp: vec_put_def)

lemma unat_inject [simp]: "unat (a :: 'w::len word) = unat b \<longleftrightarrow> a = b"
  by (simp add: word_unat_eq_iff)

lemma nth_update_word:
  "unat i < length xs \<Longrightarrow> xs[unat i := v] ! unat j = (if j = i then v else xs ! unat j)"
  by (simp add: nth_list_update)

lemma nth_update_other [simp]: "j \<noteq> i \<Longrightarrow> xs[unat i := v] ! unat j = xs ! unat j"
  by (metis nth_list_update_neq unat_inject)

lemma nth_update_notin: "i \<notin> S \<Longrightarrow> j \<in> S \<Longrightarrow> xs[unat i := v] ! unat j = xs ! unat j"
  by (metis nth_update_other)

lemma unat_of_nat_small: "n < 2 ^ LENGTH('a) \<Longrightarrow> unat (of_nat n :: 'a::len word) = n"
  by (simp add: unat_of_nat)

lemma option_eqI: "(\<And>v. a = Some v \<longleftrightarrow> b = Some v) \<Longrightarrow> a = b"
  by (cases a; cases b) auto

lemma unat_two_power: "n < LENGTH('a) \<Longrightarrow> unat (2 ^ n :: 'a::len word) = 2 ^ n"
  using unat_of_nat_small [where 'a = 'a and n = "2 ^ n"] by simp

lemma unat_up: "unat (ucast (w :: u32) :: u64) = unat w"
proof -
  have "unat w < 2 ^ 64" using unsigned_less [of w, where 'a = nat] by simp
  then show ?thesis by (simp add: unsigned_ucast_eq take_bit_nat_eq_self)
qed

section \<open>Loops over a vector\<close>

text \<open>\<open>for (x : xs) s = f(s, x)\<close>, where a step may fail to return.\<close>

fun fold_opt :: "('s \<Rightarrow> 'a \<Rightarrow> 's option) \<Rightarrow> 's \<Rightarrow> 'a list \<Rightarrow> 's option" where
  "fold_opt f s [] = Some s"
| "fold_opt f s (x # xs) = do { s \<leftarrow> f s x; fold_opt f s xs }"

text \<open>Reading the entries of an array that may not all be written.\<close>

lemma those_None: "those xs = None \<longleftrightarrow> None \<in> set xs"
  by (induction xs) (auto split: option.split)

lemma those_Some: "None \<notin> set xs \<Longrightarrow> those xs = Some (map the xs)"
proof (induction xs)
  case (Cons x xs)
  then show ?case by (cases x) auto
qed simp

section \<open>Bytes in memory\<close>

text \<open>
  \<open>memcpy\<close> of an integer to or from a buffer on the little-endian hosts the program is
  built for, and the byte swap that \<open>ntohs\<close>, \<open>ntohl\<close>, \<open>htons\<close> and \<open>htonl\<close> perform there.
\<close>

fun load_le :: "bytes \<Rightarrow> 'a::len word" where
  "load_le [] = 0"
| "load_le (b # bs) = ucast b OR push_bit 8 (load_le bs)"

definition byte_of :: "nat \<Rightarrow> 'a::len word \<Rightarrow> u8" where
  "byte_of i w = ucast (drop_bit (8 * i) w)"

definition store_le :: "nat \<Rightarrow> 'a::len word \<Rightarrow> bytes" where
  "store_le n w = map (\<lambda>i. byte_of i w) [0..<n]"

definition bswap :: "'a::len word \<Rightarrow> 'a word" where
  "bswap w = load_le (rev (store_le (LENGTH('a) div 8) w))"

lemma bit_load_le:
  "bit (load_le bs :: 'a::len word) n \<longleftrightarrow>
     n < LENGTH('a) \<and> n < 8 * length bs \<and> bit (bs ! (n div 8)) (n mod 8)"
proof (induction bs arbitrary: n)
  case Nil
  then show ?case by simp
next
  case (Cons b bs)
  show ?case
  proof (cases "n < 8")
    case True
    then show ?thesis by (auto simp: bit_simps)
  next
    case False
    then obtain m where m: "n = m + 8" by (metis add.commute le_Suc_ex not_less)
    have "(m + 8) div 8 = Suc (m div 8)" by simp
    with m show ?thesis
      using Cons.IH [of m] bit_imp_le_length [of b "m + 8"] by (auto simp: bit_simps)
  qed
qed

lemma bit_byte_of: "bit (byte_of i w) n \<longleftrightarrow> n < 8 \<and> bit w (8 * i + n)"
  by (simp add: byte_of_def bit_simps)

lemma length_store_le [simp]: "length (store_le n w) = n"
  by (simp add: store_le_def)

lemma nth_store_le [simp]: "i < n \<Longrightarrow> store_le n w ! i = byte_of i w"
  by (simp add: store_le_def)

lemma load_store_le:
  fixes w :: "'a::len word"
  assumes "LENGTH('a) \<le> 8 * n"
  shows "load_le (store_le n w) = w"
proof (rule bit_word_eqI)
  fix k assume "k < LENGTH('a)"
  with assms show "bit (load_le (store_le n w) :: 'a word) k = bit w k"
    by (auto simp: bit_load_le bit_byte_of)
qed

lemma byte_of_load_le:
  assumes "i < length bs" and "8 * length bs \<le> LENGTH('a::len)"
  shows "byte_of i (load_le bs :: 'a word) = bs ! i"
proof (rule bit_word_eqI)
  fix k :: nat assume "k < LENGTH(8)"
  with assms show "bit (byte_of i (load_le bs :: 'a word)) k = bit (bs ! i) k"
    by (auto simp: bit_byte_of bit_load_le)
qed

lemma store_load_le:
  "8 * length bs \<le> LENGTH('a::len) \<Longrightarrow> store_le (length bs) (load_le bs :: 'a word) = bs"
  by (simp add: list_eq_iff_nth_eq byte_of_load_le)

lemma bswap_load_le:
  assumes "8 * length bs = LENGTH('a::len)"
  shows "bswap (load_le bs :: 'a word) = load_le (rev bs)"
proof -
  from assms have "LENGTH('a) div 8 = length bs" by linarith
  with assms show ?thesis by (simp add: bswap_def store_load_le)
qed

lemma bswap_bswap:
  fixes w :: "'a::len word"
  assumes "8 dvd LENGTH('a)"
  shows "bswap (bswap w) = w"
proof -
  let ?bs = "store_le (LENGTH('a) div 8) w"
  have "bswap (load_le (rev ?bs) :: 'a word) = load_le (rev (rev ?bs))"
    by (rule bswap_load_le) (use assms in simp)
  then show ?thesis
    using assms load_store_le [of "LENGTH('a) div 8" w] by (simp add: bswap_def [of w])
qed

text \<open>The wire order: a big-endian field is the byte-swapped little-endian load.\<close>

definition store_be :: "nat \<Rightarrow> 'a::len word \<Rightarrow> bytes" where
  "store_be n w = rev (store_le n w)"

lemma length_store_be [simp]: "length (store_be n w) = n"
  by (simp add: store_be_def)

lemma ntoh_store_be:
  fixes w :: "'a::len word"
  assumes "8 * n = LENGTH('a)"
  shows "bswap (load_le (store_be n w) :: 'a word) = w"
proof -
  have "bswap (load_le (rev (store_le n w)) :: 'a word) = load_le (rev (rev (store_le n w)))"
    by (rule bswap_load_le) (use assms in simp)
  with assms show ?thesis by (simp add: store_be_def load_store_le)
qed

lemma store_hton:
  fixes w :: "'a::len word"
  assumes "8 * n = LENGTH('a)"
  shows "store_le n (bswap w) = store_be n w"
proof -
  have "n = LENGTH('a) div 8" using assms by linarith
  then have "bswap w = load_le (rev (store_le n w))" by (simp add: bswap_def)
  moreover have "store_le (length (rev (store_le n w))) (load_le (rev (store_le n w)) :: 'a word)
      = rev (store_le n w)"
    by (rule store_load_le) (use assms in simp)
  ultimately show ?thesis by (simp add: store_be_def)
qed

lemmas byte_eval [byte_simps] = load_le.simps store_le_def byte_of_def bswap_def store_be_def

text \<open>A read of \<open>n\<close> bytes at a cursor: the bytes, and the cursor moved past them.\<close>

definition take_bytes :: "nat \<Rightarrow> bytes \<Rightarrow> (bytes \<times> bytes) option" where
  "take_bytes n bs = (if n \<le> length bs then Some (take n bs, drop n bs) else None)"

lemma take_bytes_append [simp]: "length xs = n \<Longrightarrow> take_bytes n (xs @ ys) = Some (xs, ys)"
  by (auto simp: take_bytes_def)

lemma take_bytes_None: "take_bytes n bs = None \<longleftrightarrow> length bs < n"
  by (auto simp: take_bytes_def)

section \<open>Cyclic indices\<close>

text \<open>
  A table of \<open>N = 2 ^ n\<close> slots is walked with \<open>(i + 1) & mask\<close>.  \<open>cnext\<close> is the slot after
  \<open>i\<close> and \<open>cdist\<close> the number of forward steps from one slot to another; both are given by
  case distinction, so linear arithmetic decides questions about them.
\<close>

definition cnext :: "nat \<Rightarrow> nat \<Rightarrow> nat" where
  "cnext N i = (if Suc i = N then 0 else Suc i)"

definition cdist :: "nat \<Rightarrow> nat \<Rightarrow> nat \<Rightarrow> nat" where
  "cdist N a b = (if a \<le> b then b - a else b + N - a)"

lemma cnext_less: "i < N \<Longrightarrow> cnext N i < N"
  by (auto simp: cnext_def)

lemma cdist_less: "a < N \<Longrightarrow> b < N \<Longrightarrow> cdist N a b < N"
  by (auto simp: cdist_def)

lemma cdist_self [simp]: "cdist N a a = 0"
  by (simp add: cdist_def)

lemma cdist_eq_0: "a < N \<Longrightarrow> b < N \<Longrightarrow> cdist N a b = 0 \<longleftrightarrow> a = b"
  by (auto simp: cdist_def)

lemma cdist_inj: "a < N \<Longrightarrow> b < N \<Longrightarrow> c < N \<Longrightarrow> cdist N a b = cdist N a c \<longleftrightarrow> b = c"
  by (auto simp: cdist_def split: if_splits)

lemma cdist_cnext:
  "a < N \<Longrightarrow> b < N \<Longrightarrow> b \<noteq> a \<Longrightarrow> cdist N (cnext N b) a = cdist N b a - 1 \<and> 0 < cdist N b a"
  by (auto simp: cdist_def cnext_def split: if_splits)

lemma cdist_to_cnext:
  "a < N \<Longrightarrow> b < N \<Longrightarrow> cdist N a (cnext N b) = (if cnext N b = a then 0 else Suc (cdist N a b))"
  by (auto simp: cdist_def cnext_def split: if_splits)

lemma cdist_cnext_cases:
  "i < N \<Longrightarrow> j < N \<Longrightarrow> y < N \<Longrightarrow>
     cdist N i y < cdist N i (cnext N j) \<Longrightarrow> cdist N i y \<le> cdist N i j"
  by (auto simp: cdist_def cnext_def split: if_splits)

lemma less_two_power_div:
  assumes "2 ^ n \<le> (k::nat)" and "k < 2 ^ Suc n"
  shows "k div 2 ^ n = 1"
  using assms by (simp add: div_nat_eqI)

text \<open>The usual test \<open>c & (c - 1) == 0\<close> recognises exactly the powers of two.\<close>

lemma and_pred_power_of_two:
  fixes c :: "'a::len word"
  assumes "c AND (c - 1) = 0" and "0 < c"
  shows "\<exists>n < LENGTH('a). c = 2 ^ n"
proof -
  from assms(2) have pos: "0 < unat c" by (simp add: unat_gt_0 word_neq_0_conv)
  then obtain n where n: "2 ^ n \<le> unat c" "unat c < 2 ^ Suc n"
    using ex_power_ivl1 [of 2 "unat c"] by auto
  have lt: "n < LENGTH('a)"
    using n(1) unsigned_less [of c] by (metis le_less_trans one_less_numeral_iff
        power_less_imp_less_exp semiring_norm(76))
  have bit_iff: "bit w n \<longleftrightarrow> odd (unat w div 2 ^ n)" for w :: "'a word"
    by (simp add: bit_unsigned_iff flip: bit_iff_odd)
  have c: "bit c n"
    using n less_two_power_div [of n "unat c"] by (simp add: bit_iff)
  have "unat c = 2 ^ n"
  proof (rule ccontr)
    assume "unat c \<noteq> 2 ^ n"
    with n have "2 ^ n \<le> unat c - 1" "unat c - 1 < 2 ^ Suc n" by auto
    moreover have "unat (c - 1) = unat c - 1"
      using assms(2) by (simp add: unat_minus_one word_neq_0_conv)
    ultimately have "bit (c - 1) n"
      using less_two_power_div [of n "unat c - 1"] by (simp add: bit_iff)
    with c have "bit (c AND (c - 1)) n" by (simp add: bit_simps)
    with assms(1) show False by simp
  qed
  then have "c = 2 ^ n" by (metis of_nat_numeral of_nat_power of_nat_unat ucast_id)
  with lt show ?thesis by blast
qed

lemma unat_and_mask: "unat (w AND mask n :: 'a::len word) = unat w mod 2 ^ n"
proof -
  have "unat (w AND mask n) = take_bit n (unat w)"
    by (simp add: unsigned_take_bit_eq flip: take_bit_eq_mask)
  then show ?thesis by (simp add: take_bit_eq_mod)
qed

lemma unat_cnext:
  fixes i :: u64
  assumes "n < 64" and "unat i < 2 ^ n"
  shows "unat ((i + 1) AND mask n) = cnext (2 ^ n) (unat i)"
proof -
  have "(2::nat) ^ n dvd 2 ^ 64" using assms(1) by (intro le_imp_power_dvd) simp
  then have "unat ((i + 1) AND mask n) = (unat i + 1) mod 2 ^ n"
    by (simp add: unat_and_mask unat_word_ariths mod_mod_cancel)
  with assms(2) show ?thesis by (auto simp: cnext_def)
qed

lemma unat_cdist:
  fixes h j :: u64
  assumes "n < 64" and "unat h < 2 ^ n" and "unat j < 2 ^ n"
  shows "unat ((j - h) AND mask n) = cdist (2 ^ n) (unat h) (unat j)"
proof (cases "h \<le> j")
  case True
  then have "unat (j - h) = unat j - unat h" by (simp add: unat_sub)
  moreover have "unat h \<le> unat j" using True by (simp add: word_le_nat_alt)
  ultimately show ?thesis using assms by (simp add: unat_and_mask cdist_def)
next
  case False
  define q :: nat where "q = 2 ^ (64 - n) - 1"
  have "(2::nat) ^ 64 = 2 ^ n * 2 ^ (64 - n)" using assms(1) by (simp flip: power_add)
  also have "\<dots> = 2 ^ n * Suc q" by (simp add: q_def)
  finally have p: "(2::nat) ^ 64 = 2 ^ n * q + 2 ^ n" by simp
  from False have hj: "unat j < unat h" by (simp add: word_le_nat_alt)
  then have "unat (j - h) = 2 ^ 64 + unat j - unat h"
    using False by (simp add: unat_sub_if')
  also have "\<dots> = 2 ^ n * q + (2 ^ n + unat j - unat h)" using p hj assms(2) by linarith
  finally have "unat (j - h) mod 2 ^ n = (2 ^ n + unat j - unat h) mod 2 ^ n" by simp
  with hj assms show ?thesis by (simp add: unat_and_mask cdist_def add.commute)
qed

end
