(* ===== verification/Release_Acquire.thy ===== *)
theory Release_Acquire
  imports Prelude
begin

text \<open>
  The part of the C++ memory model that the lock-free structures rely on, as an operational model with views.
  An atomic object is the list of its stores in modification order, each with what the storing thread
  knew when it released it.  A load may return any store that is not older than what the thread has seen of that object,
  and an acquire load takes over the knowledge of the store it reads.  Plain accesses are logged; one that
  conflicts with an access the thread does not know of is a data race, which is undefined behaviour.
\<close>

section \<open>Views\<close>

text \<open>What a thread knows: the plain accesses, by their numbers in the log, that happen before its next action, and
  for every atomic object the newest store it has seen.\<close>

record 'a view =
  vknown :: "nat set"
  vseen :: "'a \<Rightarrow> nat"

definition view_new :: "'a view" where
  "view_new = \<lparr>vknown = {}, vseen = (\<lambda>a. 0)\<rparr>"

definition view_join :: "'a view \<Rightarrow> 'a view \<Rightarrow> 'a view" where
  "view_join V W = \<lparr>vknown = vknown V \<union> vknown W, vseen = (\<lambda>a. max (vseen V a) (vseen W a))\<rparr>"

lemma view_join_simps [simp]:
  "vknown (view_join V W) = vknown V \<union> vknown W" "vseen (view_join V W) a = max (vseen V a) (vseen W a)"
  by (simp_all add: view_join_def)

section \<open>Atomic accesses\<close>

type_synonym ('v, 'a) history = "('v \<times> 'a view) list"

text \<open>Which store a load returns: \<open>back\<close> stores before the newest one, or the newest the thread has seen.\<close>

definition load_index :: "nat \<Rightarrow> ('v, 'a) history \<Rightarrow> 'a view \<Rightarrow> 'a \<Rightarrow> nat" where
  "load_index back h V a = max (vseen V a) (length h - 1 - back)"

definition see :: "'a \<Rightarrow> nat \<Rightarrow> 'a view \<Rightarrow> 'a view" where
  "see a k V = V\<lparr>vseen := (vseen V)(a := k)\<rparr>"

definition relaxed_load :: "nat \<Rightarrow> 'a \<Rightarrow> ('v, 'a) history \<Rightarrow> 'a view \<Rightarrow> 'v \<times> 'a view" where
  "relaxed_load back a h V = (let k = load_index back h V a in (fst (h ! k), see a k V))"

definition acquire_load :: "nat \<Rightarrow> 'a \<Rightarrow> ('v, 'a) history \<Rightarrow> 'a view \<Rightarrow> 'v \<times> 'a view" where
  "acquire_load back a h V = (let k = load_index back h V a in (fst (h ! k), view_join (see a k V) (snd (h ! k))))"

text \<open>A store of an object that no other thread stores to is its newest.\<close>

definition release_store :: "'a \<Rightarrow> 'v \<Rightarrow> ('v, 'a) history \<Rightarrow> 'a view \<Rightarrow> ('v, 'a) history \<times> 'a view" where
  "release_store a v h V = (let V = see a (length h) V in (h @ [(v, V)], V))"

text \<open>\<open>compare_exchange_weak\<close> with \<open>memory_order_acq_rel\<close>, and \<open>memory_order_acquire\<close> on failure: if it succeeds it
  has read the newest store and follows it; it may fail for no reason, and it is then an acquire load.\<close>

definition compare_exchange :: "bool \<Rightarrow> nat \<Rightarrow> 'a \<Rightarrow> 'v \<Rightarrow> 'v \<Rightarrow> ('v, 'a) history \<Rightarrow> 'a view \<Rightarrow>
    (bool \<times> 'v) \<times> ('v, 'a) history \<times> 'a view" where
  "compare_exchange fails back a expected desired h V =
     (if \<not> fails \<and> fst (last h) = expected
      then ((True, expected), release_store a desired h (view_join V (snd (last h))))
      else let (v, V) = acquire_load back a h V in ((False, v), h, V))"

section \<open>Plain accesses\<close>

datatype access = Read | Write

type_synonym 'l accesses = "(access \<times> 'l) list"

text \<open>The view knows all accesses to a location, or all writes to it.\<close>

definition covers :: "'l accesses \<Rightarrow> 'a view \<Rightarrow> 'l \<Rightarrow> bool" where
  "covers acc V l \<longleftrightarrow> (\<forall>e < length acc. snd (acc ! e) = l \<longrightarrow> e \<in> vknown V)"

definition covers_writes :: "'l accesses \<Rightarrow> 'a view \<Rightarrow> 'l \<Rightarrow> bool" where
  "covers_writes acc V l \<longleftrightarrow> (\<forall>e < length acc. acc ! e = (Write, l) \<longrightarrow> e \<in> vknown V)"

definition log_access :: "access \<Rightarrow> 'l \<Rightarrow> 'l accesses \<Rightarrow> 'a view \<Rightarrow> 'l accesses \<times> 'a view" where
  "log_access x l acc V = (acc @ [(x, l)], V\<lparr>vknown := insert (length acc) (vknown V)\<rparr>)"

text \<open>A read races with a write, a write with any access; \<open>None\<close> is the undefined behaviour.\<close>

definition plain_read :: "'l \<Rightarrow> 'l accesses \<Rightarrow> 'a view \<Rightarrow> ('l accesses \<times> 'a view) option" where
  "plain_read l acc V = (if covers_writes acc V l then Some (log_access Read l acc V) else None)"

definition plain_write :: "'l \<Rightarrow> 'l accesses \<Rightarrow> 'a view \<Rightarrow> ('l accesses \<times> 'a view) option" where
  "plain_write l acc V = (if covers acc V l then Some (log_access Write l acc V) else None)"

section \<open>Laws\<close>

lemma covers_mono: "covers acc V l \<Longrightarrow> vknown V \<subseteq> vknown W \<Longrightarrow> covers acc W l"
  by (auto simp: covers_def)

lemma covers_writes_mono: "covers_writes acc V l \<Longrightarrow> vknown V \<subseteq> vknown W \<Longrightarrow> covers_writes acc W l"
  by (auto simp: covers_writes_def)

lemma covers_covers_writes: "covers acc V l \<Longrightarrow> covers_writes acc V l"
  by (auto simp: covers_def covers_writes_def)

lemma covers_see [simp]: "covers acc (see a k V) l = covers acc V l" "covers_writes acc (see a k V) l = covers_writes acc V l"
  by (simp_all add: covers_def covers_writes_def see_def)

lemma see_simps [simp]: "vknown (see a k V) = vknown V" "vseen (see a k V) b = (if b = a then k else vseen V b)"
  by (simp_all add: see_def)

lemma covers_empty [simp]: "covers [] V l" "covers_writes [] V l"
  by (simp_all add: covers_def covers_writes_def)

text \<open>Another thread's access to a location takes the knowledge of that location away, and of no other.\<close>

lemma covers_append:
  "covers (acc @ [(x, l')]) V l \<longleftrightarrow> covers acc V l \<and> (l = l' \<longrightarrow> length acc \<in> vknown V)"
  by (auto simp: covers_def nth_append less_Suc_eq)

lemma covers_writes_append:
  "covers_writes (acc @ [(x, l')]) V l \<longleftrightarrow> covers_writes acc V l \<and> (x = Write \<and> l = l' \<longrightarrow> length acc \<in> vknown V)"
  by (auto simp: covers_writes_def nth_append less_Suc_eq)

text \<open>Reading everything a location has seen is reading its writes and its reads.\<close>

lemma covers_split:
  "covers acc V l \<longleftrightarrow> covers_writes acc V l \<and> (\<forall>e < length acc. acc ! e = (Read, l) \<longrightarrow> e \<in> vknown V)"
  (is "?l \<longleftrightarrow> ?r")
proof
  assume r: ?r
  show ?l unfolding covers_def
  proof (intro allI impI)
    fix e assume e: "e < length acc" "snd (acc ! e) = l"
    then have "acc ! e = (Read, l) \<or> acc ! e = (Write, l)" by (cases "acc ! e"; cases "fst (acc ! e)") auto
    with r e(1) show "e \<in> vknown V" by (auto simp: covers_writes_def)
  qed
qed (auto simp: covers_def covers_writes_def)

lemma load_index_bounds:
  assumes "vseen V a < length h"
  shows "load_index back h V a < length h" "vseen V a \<le> load_index back h V a"
  using assms by (auto simp: load_index_def)

text \<open>Where every store carries its own number, an acquire load joins the views.\<close>

lemma acquire_load_join:
  assumes "vseen V a < length h" and "\<And>k. k < length h \<Longrightarrow> vseen (snd (h ! k)) a = k"
  obtains k where "k < length h" "vseen V a \<le> k" "acquire_load back a h V = (fst (h ! k), view_join V (snd (h ! k)))"
proof -
  let ?k = "load_index back h V a"
  have k: "?k < length h" "vseen V a \<le> ?k" using load_index_bounds [OF assms(1)] by auto
  have "view_join (see a ?k V) (snd (h ! ?k)) = view_join V (snd (h ! ?k))"
    using k assms(2) [OF k(1)] by (auto simp: view_join_def max_def)
  with k show thesis by (intro that [of ?k]) (simp_all add: acquire_load_def Let_def)
qed

lemma relaxed_load_own:
  assumes "vseen V a = length h - 1"
  shows "relaxed_load back a h V = (fst (h ! (length h - 1)), V)"
proof -
  have "see a (vseen V a) V = V" by (simp add: see_def)
  with assms show ?thesis by (simp add: relaxed_load_def load_index_def Let_def)
qed

end
