(* ===== verification/Itch.thy ===== *)
theory Itch
  imports Prelude
begin

text \<open>
  ITCH 5.0 messages (\<^verbatim>\<open>include/itch.hpp\<close>, \<^verbatim>\<open>src/itch.cpp\<close>): the parsed records and the
  parser.  A \<open>const char*&\<close> cursor is the list of bytes from the cursor to the end of the
  readable memory; every read returns the advanced cursor, and a read past the end of the
  memory is \<open>None\<close>.
\<close>

section \<open>Parsed records\<close>

record Order =
  orderReferenceNumberHigh :: u32
  orderReferenceNumberLow :: u32
  shares :: u32
  price :: u32
  buySellIndicator :: u8

record DeleteOrder =
  delRefHigh :: u32
  delRefLow :: u32

record OrderExecutedMsg =
  orderRef :: u64
  msgShares :: u32

record OrderReplaceMsg =
  originalOrderRef :: u64
  newOrderRef :: u64
  repShares :: u32
  repPrice :: u32

text \<open>The character constants the sources compare with.\<close>

abbreviation ch_A :: u8 where "ch_A \<equiv> 65"
abbreviation ch_B :: u8 where "ch_B \<equiv> 66"
abbreviation ch_C :: u8 where "ch_C \<equiv> 67"
abbreviation ch_D :: u8 where "ch_D \<equiv> 68"
abbreviation ch_E :: u8 where "ch_E \<equiv> 69"
abbreviation ch_F :: u8 where "ch_F \<equiv> 70"
abbreviation ch_S :: u8 where "ch_S \<equiv> 83"
abbreviation ch_U :: u8 where "ch_U \<equiv> 85"
abbreviation ch_X :: u8 where "ch_X \<equiv> 88"

section \<open>Reference numbers as two halves\<close>

definition join_ref :: "u32 \<Rightarrow> u32 \<Rightarrow> u64" where
  "join_ref hi lo = push_bit 32 (ucast hi) OR ucast lo"

definition ref_high :: "u64 \<Rightarrow> u32" where
  "ref_high r = ucast (drop_bit 32 r)"

definition ref_low :: "u64 \<Rightarrow> u32" where
  "ref_low r = ucast r"

lemma join_split_ref [simp]: "join_ref (ref_high r) (ref_low r) = r"
  by (rule bit_word_eqI) (auto simp: join_ref_def ref_high_def ref_low_def bit_simps)

lemma ref_high_join [simp]: "ref_high (join_ref hi lo) = hi"
  by (rule bit_word_eqI)
    (auto simp: join_ref_def ref_high_def bit_simps dest: bit_imp_le_length)

lemma ref_low_join [simp]: "ref_low (join_ref hi lo) = lo"
  by (rule bit_word_eqI) (auto simp: join_ref_def ref_low_def bit_simps)

lemma join_ref_inject: "join_ref a b = join_ref c d \<longleftrightarrow> a = c \<and> b = d"
  by (metis ref_high_join ref_low_join)

definition order_ref :: "Order \<Rightarrow> u64" where
  "order_ref ord = join_ref (orderReferenceNumberHigh ord) (orderReferenceNumberLow ord)"

section \<open>The parser\<close>

definition skipHeader :: "bytes \<Rightarrow> bytes option" where
  "skipHeader data = map_option snd (take_bytes 10 data)"

definition readByte :: "bytes \<Rightarrow> (u8 \<times> bytes) option" where
  "readByte data = (case data of [] \<Rightarrow> None | b # rest \<Rightarrow> Some (b, rest))"

definition readU32 :: "bytes \<Rightarrow> (u32 \<times> bytes) option" where
  "readU32 data = do { (v, data) \<leftarrow> take_bytes 4 data; Some (bswap (load_le v), data) }"

definition readRef :: "bytes \<Rightarrow> (u64 \<times> bytes) option" where
  "readRef data = do {
     (hi, data) \<leftarrow> readU32 data;
     (lo, data) \<leftarrow> readU32 data;
     Some (join_ref hi lo, data) }"

definition readDeleteOrder :: "bytes \<Rightarrow> (DeleteOrder \<times> bytes) option" where
  "readDeleteOrder data = do {
     data \<leftarrow> skipHeader data;
     (ref, data) \<leftarrow> readRef data;
     Some (\<lparr>delRefHigh = ref_high ref, delRefLow = ref_low ref\<rparr>, data) }"

definition readAddOrder :: "bytes \<Rightarrow> (Order \<times> bytes) option" where
  "readAddOrder data = do {
     data \<leftarrow> skipHeader data;
     (ref, data) \<leftarrow> readRef data;
     (side, data) \<leftarrow> readByte data;
     (shrs, data) \<leftarrow> readU32 data;
     (_, data) \<leftarrow> take_bytes 8 data;
     (prc, data) \<leftarrow> readU32 data;
     Some (\<lparr>orderReferenceNumberHigh = ref_high ref, orderReferenceNumberLow = ref_low ref,
            shares = shrs, price = prc, buySellIndicator = side\<rparr>, data) }"

definition readOrderExecuted :: "bytes \<Rightarrow> (OrderExecutedMsg \<times> bytes) option" where
  "readOrderExecuted data = do {
     data \<leftarrow> skipHeader data;
     (ref, data) \<leftarrow> readRef data;
     (shrs, data) \<leftarrow> readU32 data;
     Some (\<lparr>orderRef = ref, msgShares = shrs\<rparr>, data) }"

definition readOrderReplace :: "bytes \<Rightarrow> (OrderReplaceMsg \<times> bytes) option" where
  "readOrderReplace data = do {
     data \<leftarrow> skipHeader data;
     (origRef, data) \<leftarrow> readRef data;
     (newRef, data) \<leftarrow> readRef data;
     (shrs, data) \<leftarrow> readU32 data;
     (prc, data) \<leftarrow> readU32 data;
     Some (\<lparr>originalOrderRef = origRef, newOrderRef = newRef, repShares = shrs,
            repPrice = prc\<rparr>, data) }"

lemmas parser_defs = skipHeader_def readByte_def readU32_def readRef_def readDeleteOrder_def
  readAddOrder_def readOrderExecuted_def readOrderReplace_def

section \<open>The wire layout\<close>

text \<open>
  The layout the messages have on the wire, big-endian, as the engine tests write them
  (\<open>w16\<close>, \<open>w32\<close>, \<open>w64\<close> of \<^verbatim>\<open>tests/test.cpp\<close>): a ten-byte header after the type byte, then
  the fields of the message.
\<close>

definition w64 :: "u64 \<Rightarrow> bytes" where
  "w64 v = store_be 4 (ref_high v) @ store_be 4 (ref_low v)"

definition wire_header :: "u16 \<Rightarrow> u16 \<Rightarrow> bytes \<Rightarrow> bytes" where
  "wire_header loc tracking stamp = store_be 2 loc @ store_be 2 tracking @ stamp"

definition wire_add :: "Order \<Rightarrow> bytes \<Rightarrow> bytes" where
  "wire_add ord symb = w64 (order_ref ord) @ [buySellIndicator ord] @ store_be 4 (shares ord)
     @ symb @ store_be 4 (price ord)"

definition wire_exec :: "OrderExecutedMsg \<Rightarrow> bytes" where
  "wire_exec m = w64 (orderRef m) @ store_be 4 (msgShares m)"

definition wire_replace :: "OrderReplaceMsg \<Rightarrow> bytes" where
  "wire_replace m = w64 (originalOrderRef m) @ w64 (newOrderRef m) @ store_be 4 (repShares m)
     @ store_be 4 (repPrice m)"

lemma length_wire_header: "length (wire_header loc trk ts) = 4 + length ts"
  by (simp add: wire_header_def)

lemma skipHeader_wire [simp]:
  "length ts = 6 \<Longrightarrow> skipHeader (wire_header loc trk ts @ rest) = Some rest"
  by (simp add: skipHeader_def length_wire_header)

lemma readU32_store [simp]: "readU32 (store_be 4 v @ rest) = Some (v, rest)"
  by (simp add: readU32_def ntoh_store_be)

lemma readRef_w64 [simp]: "readRef (w64 r @ rest) = Some (r, rest)"
  by (simp add: readRef_def w64_def)

lemma order_ref_halves:
  "ref_high (order_ref ord) = orderReferenceNumberHigh ord"
  "ref_low (order_ref ord) = orderReferenceNumberLow ord"
  by (simp_all add: order_ref_def)

lemma readAddOrder_wire:
  assumes "length ts = 6" and "length symb = 8"
  shows "readAddOrder (wire_header loc trk ts @ wire_add ord symb @ rest) = Some (ord, rest)"
  using assms by (simp add: readAddOrder_def wire_add_def order_ref_halves readByte_def)

lemma readDeleteOrder_wire:
  assumes "length ts = 6"
  shows "readDeleteOrder (wire_header loc trk ts @ w64 ref @ rest)
    = Some (\<lparr>delRefHigh = ref_high ref, delRefLow = ref_low ref\<rparr>, rest)"
  using assms by (simp add: readDeleteOrder_def)

lemma readOrderExecuted_wire:
  assumes "length ts = 6"
  shows "readOrderExecuted (wire_header loc trk ts @ wire_exec m @ rest) = Some (m, rest)"
  using assms by (simp add: readOrderExecuted_def wire_exec_def)

lemma readOrderReplace_wire:
  assumes "length ts = 6"
  shows "readOrderReplace (wire_header loc trk ts @ wire_replace m @ rest) = Some (m, rest)"
  using assms by (simp add: readOrderReplace_def wire_replace_def)

section \<open>Properties\<close>

text \<open>C36: Parsing the wire form of an Add Order message gives the order back, whatever bytes
  follow: every field is read at its place and width, and the cursor stops at the end.\<close>

theorem add_order_roundtrip:
  assumes "length ts = 6" and "length symb = 8"
  shows "readAddOrder (wire_header loc trk ts @ wire_add ord symb @ rest) = Some (ord, rest)"
  using assms by (rule readAddOrder_wire)

theorem add_order_roundtrip_witness:
  "readAddOrder (wire_header 7 1 [0, 0, 0, 0, 0, 9] @
     wire_add \<lparr>orderReferenceNumberHigh = 3, orderReferenceNumberLow = 5, shares = 100, price = 1500000,
       buySellIndicator = ch_B\<rparr> [65, 65, 80, 76, 32, 32, 32, 32] @ [1, 2])
   = Some (\<lparr>orderReferenceNumberHigh = 3, orderReferenceNumberLow = 5, shares = 100, price = 1500000,
       buySellIndicator = ch_B\<rparr>, [1, 2])"
  by (rule add_order_roundtrip) simp_all

text \<open>The other three messages also parse back from their wire form: the halves of a deleted
  reference join to the reference, and executions and replacements keep all their fields.\<close>

lemma other_messages_roundtrip:
  assumes "length ts = 6"
  shows "(\<exists>d. readDeleteOrder (wire_header loc trk ts @ w64 ref @ rest) = Some (d, rest) \<and>
           join_ref (delRefHigh d) (delRefLow d) = ref) \<and>
         readOrderExecuted (wire_header loc trk ts @ wire_exec x @ rest) = Some (x, rest) \<and>
         readOrderReplace (wire_header loc trk ts @ wire_replace r @ rest) = Some (r, rest)"
  using assms by (simp add: readDeleteOrder_wire readOrderExecuted_wire readOrderReplace_wire)

end
