(* ===== verification/Mold_Udp64.thy ===== *)
theory Mold_Udp64
  imports Itch
begin

text \<open>
  MoldUDP64 framing (\<^verbatim>\<open>include/moldudp64.hpp\<close>): the header parser, the iterator over the messages
  of a packet and the packet builder.  A pointer into a packet is an offset into its bytes; the
  iterator keeps the offsets of its cursor and its end.  Building a packet and taking it apart
  again gives the header and the messages back.
\<close>

section \<open>Model\<close>

definition kMoldHeaderBytes :: nat where "kMoldHeaderBytes = 20"

definition kMoldEndOfSession :: u16 where "kMoldEndOfSession = 0xFFFF"

definition kMoldHeartbeat :: u16 where "kMoldHeartbeat = 0"

record MoldHeader =
  session :: bytes
  sequenceNumber :: u64
  messageCount :: u16

definition parseMoldHeader :: "bytes \<Rightarrow> MoldHeader option" where
  "parseMoldHeader data = do {
     (sess, data) \<leftarrow> take_bytes 10 data;
     (sq, data) \<leftarrow> take_bytes 8 data;
     let seqBe = (load_le sq :: u64);
     let hi = bswap (ucast (seqBe AND 0xFFFFFFFF) :: u32);
     let lo = bswap (ucast (drop_bit 32 seqBe) :: u32);
     (cnt, data) \<leftarrow> take_bytes 2 data;
     Some \<lparr>session = sess, sequenceNumber = push_bit 32 (ucast hi) OR ucast lo,
           messageCount = bswap (load_le cnt)\<rparr> }"

record MoldMessageIterator =
  cursor :: nat
  iend :: nat

definition MoldMessageIterator_new :: "nat \<Rightarrow> nat \<Rightarrow> MoldMessageIterator" where
  "MoldMessageIterator_new body bodyBytes = \<lparr>cursor = body, iend = body + bodyBytes\<rparr>"

text \<open>\<open>next\<close>: the offset and length of the message, or \<open>nullptr\<close>; \<open>mem\<close> is the packet buffer, and the
  two bytes of the length are read from it.\<close>

definition mold_next :: "bytes \<Rightarrow> MoldMessageIterator \<Rightarrow> ((nat \<times> u16) option \<times> MoldMessageIterator) option" where
  "mold_next mem it =
     (if cursor it + 2 > iend it then Some (None, it)
      else do {
        (lenBe, _) \<leftarrow> take_bytes 2 (drop (cursor it) mem);
        let len = (bswap (load_le lenBe) :: u16);
        let it = it\<lparr>cursor := cursor it + 2\<rparr>;
        if cursor it + unat len > iend it then Some (None, it)
        else Some (Some (cursor it, len), it\<lparr>cursor := cursor it + unat len\<rparr>) })"

text \<open>\<open>while (msg = it.next(len))\<close>: all messages the iterator yields, as (offset, length).\<close>

function mold_messages :: "bytes \<Rightarrow> MoldMessageIterator \<Rightarrow> (nat \<times> u16) list option" where
  "mold_messages mem it =
     (case mold_next mem it of
        None \<Rightarrow> None
      | Some (None, _) \<Rightarrow> Some []
      | Some (Some msg, it') \<Rightarrow> map_option (Cons msg) (mold_messages mem it'))"
  by pat_completeness auto
termination
  by (relation "measure (\<lambda>(mem, it). iend it - cursor it)")
    (auto simp: mold_next_def Let_def split: if_splits bind_splits)

declare mold_messages.simps [simp del]

text \<open>
  The builder.  \<open>messages\<close> and \<open>messageLengths\<close> are two parallel arrays, here a list of (memory from
  the pointer on, length); \<open>out\<close> is what has been written so far, so its length is \<open>off\<close>.
  The returned pair is the result of the function and the bytes written.
\<close>

fun build_messages :: "nat \<Rightarrow> bytes \<Rightarrow> (bytes \<times> u16) list \<Rightarrow> (nat \<times> bytes) option" where
  "build_messages outCap out [] = Some (length out, out)"
| "build_messages outCap out ((msg, len) # msgs) =
     (if length out + 2 + unat len > outCap then Some (0, out)
      else do {
        let out = out @ store_le 2 (bswap len);
        (payload, _) \<leftarrow> take_bytes (unat len) msg;
        build_messages outCap (out @ payload) msgs })"

definition mold_header_bytes :: "bytes \<Rightarrow> u64 \<Rightarrow> u16 \<Rightarrow> bytes" where
  "mold_header_bytes sess sq cnt =
     (let hi = bswap (ucast (drop_bit 32 sq) :: u32);
          lo = bswap (ucast (sq AND 0xFFFFFFFF) :: u32);
          seqBe = (push_bit 32 (ucast lo) OR ucast hi :: u64)
      in sess @ store_le 8 seqBe @ store_le 2 (bswap cnt))"

definition buildMoldPacket :: "nat \<Rightarrow> bytes \<Rightarrow> u64 \<Rightarrow> (bytes \<times> u16) list \<Rightarrow> u16 \<Rightarrow> (nat \<times> bytes) option" where
  "buildMoldPacket outCap sess sq msgs cnt =
     (if outCap < kMoldHeaderBytes then Some (0, [])
      else do {
        (sess, _) \<leftarrow> take_bytes 10 sess;
        if length msgs < unat cnt then None
        else build_messages outCap (mold_header_bytes sess sq cnt) (take (unat cnt) msgs) })"

section \<open>The header\<close>

lemma ucast_low [simp]: "(ucast (w AND 0xFFFFFFFF :: u64) :: u32) = ucast w"
proof (rule bit_word_eqI)
  fix n assume n: "n < LENGTH(32)"
  have m: "(0xFFFFFFFF :: u64) = mask 32" by (simp add: mask_eq_exp_minus_1)
  show "bit (ucast (w AND 0xFFFFFFFF) :: u32) n = bit (ucast w :: u32) n"
    unfolding m using n by (simp add: bit_simps)
qed

lemma mold_halves:
  "(ucast (push_bit 32 (ucast lo) OR ucast hi :: u64) :: u32) = (hi :: u32)"
  "(ucast (drop_bit 32 (push_bit 32 (ucast lo) OR ucast hi :: u64)) :: u32) = (lo :: u32)"
  using ref_low_join [of lo hi] ref_high_join [of lo hi] by (simp_all add: join_ref_def ref_low_def ref_high_def)

lemma length_mold_header [simp]: "length (mold_header_bytes sess sq cnt) = length sess + 10"
  by (simp add: mold_header_bytes_def Let_def)

lemma parse_header:
  assumes "length sess = 10"
  shows "parseMoldHeader (mold_header_bytes sess sq cnt @ rest) =
    Some \<lparr>session = sess, sequenceNumber = sq, messageCount = cnt\<rparr>"
proof -
  define hi :: u32 where "hi = ucast (drop_bit 32 sq)"
  define lo :: u32 where "lo = ucast sq"
  define be :: u64 where "be = push_bit 32 (ucast (bswap lo)) OR ucast (bswap hi)"
  have halves: "(ucast be :: u32) = bswap hi" "(ucast (drop_bit 32 be) :: u32) = bswap lo"
    unfolding be_def by (rule mold_halves)+
  have bytes: "mold_header_bytes sess sq cnt = sess @ store_le 8 be @ store_le 2 (bswap cnt)"
    by (simp add: mold_header_bytes_def be_def hi_def lo_def)
  have "load_le (store_le 8 be) = be" by (rule load_store_le) simp
  moreover have "bswap (load_le (store_le 2 (bswap cnt)) :: u16) = cnt"
    using load_store_le [of 2 "bswap cnt"] bswap_bswap [of cnt] by simp
  moreover have "push_bit 32 (ucast hi) OR ucast lo = sq"
    using join_split_ref [of sq] by (simp add: join_ref_def ref_high_def ref_low_def hi_def lo_def)
  ultimately show ?thesis
    using assms bswap_bswap [of hi] bswap_bswap [of lo]
    by (simp add: parseMoldHeader_def bytes halves)
qed

text \<open>The sequence number is on the wire in big-endian order, as its two halves.\<close>

lemma store_le_halves: "store_le 8 (push_bit 32 (ucast (lo :: u32)) OR ucast (hi :: u32) :: u64) = store_le 4 hi @ store_le 4 lo"
proof (rule nth_equalityI)
  let ?w = "push_bit 32 (ucast lo) OR ucast hi :: u64"
  show "length (store_le 8 ?w) = length (store_le 4 hi @ store_le 4 lo)" by simp
  fix i assume "i < length (store_le 8 ?w)"
  then have i: "i < 8" by simp
  show "store_le 8 ?w ! i = (store_le 4 hi @ store_le 4 lo) ! i"
  proof (cases "i < 4")
    case True
    have "byte_of i ?w = byte_of i hi"
      by (rule bit_word_eqI) (use True in \<open>auto simp: bit_byte_of bit_simps\<close>)
    with True i show ?thesis by (simp add: nth_append)
  next
    case False
    have "byte_of i ?w = byte_of (i - 4) lo"
      by (rule bit_word_eqI)
        (use False i in \<open>auto simp: bit_byte_of bit_simps algebra_simps dest: bit_imp_le_length\<close>)
    with False i show ?thesis by (simp add: nth_append)
  qed
qed

lemma mold_header_wire: "mold_header_bytes sess sq cnt = sess @ w64 sq @ store_be 2 cnt"
proof -
  have "store_le 4 (bswap (w :: u32)) = store_be 4 w" for w by (rule store_hton) simp
  moreover have "store_le 2 (bswap cnt) = store_be 2 cnt" by (rule store_hton) simp
  ultimately show ?thesis
    by (simp add: mold_header_bytes_def Let_def store_le_halves w64_def ref_high_def ref_low_def)
qed

text \<open>The parser reads the first twenty bytes only.\<close>

lemma parse_prefix: "kMoldHeaderBytes \<le> length a \<Longrightarrow> parseMoldHeader (a @ b) = parseMoldHeader a"
  by (simp add: parseMoldHeader_def take_bytes_def kMoldHeaderBytes_def Let_def)

lemma parse_total: "kMoldHeaderBytes \<le> length b \<Longrightarrow> \<exists>h. parseMoldHeader b = Some h"
  by (auto simp: parseMoldHeader_def take_bytes_def kMoldHeaderBytes_def Let_def)

section \<open>Building and iterating\<close>

definition wire_messages :: "bytes list \<Rightarrow> bytes" where
  "wire_messages ms = concat (map (\<lambda>m. store_be 2 (of_nat (length m) :: u16) @ m) ms)"

lemma wire_messages_simps [simp]:
  "wire_messages [] = []"
  "wire_messages (m # ms) = store_be 2 (of_nat (length m) :: u16) @ m @ wire_messages ms"
  by (simp_all add: wire_messages_def)

text \<open>The payloads the builder is given: the first \<open>len\<close> bytes behind each pointer.\<close>

definition payloads :: "(bytes \<times> u16) list \<Rightarrow> bytes list" where
  "payloads msgs = map (\<lambda>(p, len). take (unat len) p) msgs"

definition readable :: "(bytes \<times> u16) list \<Rightarrow> bool" where
  "readable msgs \<longleftrightarrow> (\<forall>(p, len) \<in> set msgs. unat len \<le> length p)"

lemma build_messages_spec:
  assumes "readable msgs"
  shows "\<exists>w. build_messages cap out msgs =
    Some (if length out + length (wire_messages (payloads msgs)) \<le> cap \<or> msgs = []
          then (length out + length (wire_messages (payloads msgs)), out @ wire_messages (payloads msgs)) else (0, w))"
  using assms
proof (induction msgs arbitrary: out)
  case Nil
  then show ?case by (simp add: payloads_def)
next
  case (Cons m msgs)
  obtain p len where m: "m = (p, len)" by (cases m)
  have len: "unat len \<le> length p" and rd: "readable msgs" using Cons.prems by (auto simp: readable_def m)
  have tb: "take_bytes (unat len) p = Some (take (unat len) p, drop (unat len) p)"
    using len by (simp add: take_bytes_def)
  have hd: "store_le 2 (bswap len) = store_be 2 len" by (rule store_hton) simp
  have ul: "of_nat (unat len) = len" by simp
  have wm: "wire_messages (payloads (m # msgs)) = store_be 2 len @ take (unat len) p @ wire_messages (payloads msgs)"
    using len by (simp add: payloads_def m)
  show ?case
  proof (cases "length out + 2 + unat len > cap")
    case True
    then show ?thesis using len by (auto simp: wm [unfolded m] m)
  next
    case False
    let ?out = "out @ store_be 2 len @ take (unat len) p"
    have run: "build_messages cap out (m # msgs) = build_messages cap ?out msgs"
      using False tb by (simp add: m hd)
    obtain w where w: "build_messages cap ?out msgs =
      Some (if length ?out + length (wire_messages (payloads msgs)) \<le> cap \<or> msgs = []
          then (length ?out + length (wire_messages (payloads msgs)), ?out @ wire_messages (payloads msgs)) else (0, w))"
      using Cons.IH [OF rd] by blast
    have "length ?out + length (wire_messages (payloads msgs)) = length out + length (wire_messages (payloads (m # msgs)))"
      using len by (simp add: wm)
    moreover have "?out @ wire_messages (payloads msgs) = out @ wire_messages (payloads (m # msgs))" by (simp add: wm)
    moreover have "length ?out \<le> cap" using False len by simp
    moreover have "wire_messages (payloads msgs) = []" if "msgs = []" using that by (simp add: payloads_def)
    ultimately show ?thesis unfolding run w by (intro exI [of _ w]) auto
  qed
qed

text \<open>The bytes of a message the iterator returned.\<close>

definition message_at :: "bytes \<Rightarrow> nat \<times> u16 \<Rightarrow> bytes" where
  "message_at mem = (\<lambda>(off, len). take (unat len) (drop off mem))"

definition short_messages :: "bytes list \<Rightarrow> bool" where
  "short_messages ms \<longleftrightarrow> (\<forall>m \<in> set ms. length m < 2 ^ 16)"

lemma mold_next_message:
  assumes "length m < 2 ^ 16" and "mem = pre @ store_be 2 (of_nat (length m) :: u16) @ m @ rest"
    and "cursor it = length pre" and "length pre + 2 + length m \<le> iend it"
  shows "mold_next mem it = Some (Some (length pre + 2, of_nat (length m)), it\<lparr>cursor := length pre + 2 + length m\<rparr>)"
proof -
  have ul: "unat (of_nat (length m) :: u16) = length m" using assms(1) by (simp add: unat_of_nat_small)
  have be: "bswap (load_le (store_be 2 (of_nat (length m) :: u16))) = (of_nat (length m) :: u16)"
    by (rule ntoh_store_be) simp
  have "take_bytes 2 (drop (length pre) mem) = Some (store_be 2 (of_nat (length m) :: u16), m @ rest)"
    by (simp add: assms(2))
  then show ?thesis using assms(3,4) ul be by (simp add: mold_next_def)
qed

lemma mold_messages_wire:
  assumes "short_messages ms" and "mem = pre @ wire_messages ms @ rest"
    and "cursor it = length pre" and "iend it = length pre + length (wire_messages ms)"
  shows "\<exists>offs. mold_messages mem it = Some offs \<and> map (message_at mem) offs = ms \<and>
    list_all (\<lambda>(off, len). length pre + 2 \<le> off \<and> off + unat len \<le> iend it) offs"
  using assms
proof (induction ms arbitrary: pre it)
  case Nil
  then show ?case by (subst mold_messages.simps) (simp add: mold_next_def)
next
  case (Cons m ms)
  let ?len = "of_nat (length m) :: u16" and ?off = "length pre + 2"
  let ?pre = "pre @ store_be 2 ?len @ m" and ?it = "it\<lparr>cursor := length pre + 2 + length m\<rparr>"
  have lm: "length m < 2 ^ 16" and sm: "short_messages ms" using Cons.prems(1) by (auto simp: short_messages_def)
  have ul: "unat ?len = length m" using lm by (simp add: unat_of_nat_small)
  have nx: "mold_next mem it = Some (Some (?off, ?len), ?it)"
    by (rule mold_next_message [OF lm, of _ _ "wire_messages ms @ rest"]) (use Cons.prems in simp_all)
  obtain offs where offs: "mold_messages mem ?it = Some offs" "map (message_at mem) offs = ms"
    "list_all (\<lambda>(off, len). length ?pre + 2 \<le> off \<and> off + unat len \<le> iend ?it) offs"
    using Cons.IH [OF sm, of ?pre ?it] Cons.prems by auto
  have "mold_messages mem it = Some ((?off, ?len) # offs)"
    using offs(1) by (subst mold_messages.simps) (simp add: nx)
  moreover have "message_at mem (?off, ?len) = m" using Cons.prems(2) ul by (simp add: message_at_def)
  moreover have "list_all (\<lambda>(off, len). length pre + 2 \<le> off \<and> off + unat len \<le> iend it) offs"
    using offs(3) by (auto simp: list_all_iff)
  ultimately show ?case using offs(2) Cons.prems(4) ul by auto
qed

section \<open>Properties\<close>

text \<open>C33: A packet the builder reports as built parses back: the header has the session, sequence number
  and count given, the iterator yields exactly the messages given, in order, each within the packet,
  and the packet is as long as reported and fits the buffer.\<close>

theorem mold_packet_roundtrip:
  assumes "length sess = 10" and "readable msgs" and "length msgs = unat cnt"
    and "buildMoldPacket cap sess sq msgs cnt = Some (n, packet)" and "0 < n"
  shows "length packet = n \<and> n \<le> cap \<and>
    parseMoldHeader packet = Some \<lparr>session = sess, sequenceNumber = sq, messageCount = cnt\<rparr> \<and>
    (\<exists>offs. mold_messages packet (MoldMessageIterator_new kMoldHeaderBytes (n - kMoldHeaderBytes)) = Some offs \<and>
       map (message_at packet) offs = payloads msgs \<and>
       list_all (\<lambda>(off, len). kMoldHeaderBytes \<le> off \<and> off + unat len \<le> n) offs)"
proof -
  let ?h = "mold_header_bytes sess sq cnt" and ?w = "wire_messages (payloads msgs)"
  have cap: "kMoldHeaderBytes \<le> cap" using assms(4,5) by (auto simp: buildMoldPacket_def split: if_splits)
  have tb: "take_bytes 10 sess = Some (sess, [])" using assms(1) by (simp add: take_bytes_def)
  have run: "build_messages cap ?h msgs = Some (n, packet)"
    using assms(3,4) cap tb by (simp add: buildMoldPacket_def)
  have lh: "length ?h = 20" using assms(1) by simp
  have w0: "?w = []" if "msgs = []" using that by (simp add: payloads_def)
  have np: "n = length ?h + length ?w" "packet = ?h @ ?w" "n \<le> cap"
    using build_messages_spec [OF assms(2), of cap ?h] run assms(5) cap w0 lh
    by (auto simp: kMoldHeaderBytes_def split: if_splits)
  have short: "short_messages (payloads msgs)"
  proof -
    have "length m < 2 ^ 16" if mem: "m \<in> set (payloads msgs)" for m
    proof -
      obtain e where e: "m = (case e of (p, len) \<Rightarrow> take (unat (len :: u16)) p)"
        using mem by (auto simp: payloads_def)
      obtain p len where "e = (p, len)" by (cases e)
      with e have "m = take (unat len) p" by simp
      then show ?thesis using unsigned_less [of len, where 'a = nat] by simp
    qed
    then show ?thesis by (simp add: short_messages_def)
  qed
  let ?it = "MoldMessageIterator_new kMoldHeaderBytes (n - kMoldHeaderBytes)"
  have it: "iend ?it = n" "cursor ?it = 20"
    using np(1) lh by (simp_all add: MoldMessageIterator_new_def kMoldHeaderBytes_def)
  obtain offs where offs: "mold_messages packet ?it = Some offs" "map (message_at packet) offs = payloads msgs"
    "list_all (\<lambda>(off, len). length ?h + 2 \<le> off \<and> off + unat len \<le> iend ?it) offs"
    using mold_messages_wire [OF short, of packet ?h "[]" ?it] np it lh by auto
  have "list_all (\<lambda>(off, len). kMoldHeaderBytes \<le> off \<and> off + unat len \<le> n) offs"
    using offs(3) unfolding it lh by (rule list.pred_mono_strong) (auto simp: kMoldHeaderBytes_def)
  then show ?thesis
    using np lh parse_header [OF assms(1)] offs(1,2) by auto
qed

theorem mold_packet_roundtrip_witness:
  "\<exists>n packet. buildMoldPacket 1500 (replicate 10 65) 7 [([1, 2, 3, 9], 3), ([5], 1)] 2 = Some (n, packet) \<and> n = 28 \<and>
     parseMoldHeader packet = Some \<lparr>session = replicate 10 65, sequenceNumber = 7, messageCount = 2\<rparr>"
proof -
  let ?msgs = "[([1, 2, 3, 9], 3), ([5], 1)] :: (bytes \<times> u16) list"
  have rd: "readable ?msgs" by (simp add: readable_def)
  have "\<exists>p. buildMoldPacket 1500 (replicate 10 65) 7 ?msgs 2 = Some (28, p)"
    using build_messages_spec [OF rd, of 1500 "mold_header_bytes (replicate 10 65) 7 2"]
    by (simp add: buildMoldPacket_def kMoldHeaderBytes_def take_bytes_def payloads_def)
  then obtain p where p: "buildMoldPacket 1500 (replicate 10 65) 7 ?msgs 2 = Some (28, p)" by blast
  have "length (replicate 10 (65 :: u8)) = 10" "length ?msgs = unat (2 :: u16)" "(0::nat) < 28" by simp_all
  with mold_packet_roundtrip [OF _ rd _ p] p show ?thesis by blast
qed

text \<open>C35: The iterator is safe on arbitrary bytes: if the body lies within the buffer, iterating ends, and
  every message it yields lies entirely within the body, whatever lengths the bytes claim.\<close>

theorem mold_iterator_stays_in_bounds:
  assumes "iend it \<le> length mem"
  shows "\<exists>offs. mold_messages mem it = Some offs \<and>
    list_all (\<lambda>(off, len). cursor it + 2 \<le> off \<and> off + unat len \<le> iend it) offs"
  using assms
proof (induction mem it rule: mold_messages.induct)
  case (1 mem it)
  show ?case
  proof (cases "cursor it + 2 > iend it")
    case True
    then show ?thesis by (subst mold_messages.simps) (simp add: mold_next_def)
  next
    case False
    then have "take_bytes 2 (drop (cursor it) mem) = Some (take 2 (drop (cursor it) mem), drop (cursor it + 2) mem)"
      using 1(2) by (simp add: take_bytes_def add.commute)
    moreover define len :: u16 where "len = bswap (load_le (take 2 (drop (cursor it) mem)))"
    ultimately have nx: "mold_next mem it = (if cursor it + 2 + unat len > iend it then Some (None, it\<lparr>cursor := cursor it + 2\<rparr>)
        else Some (Some (cursor it + 2, len), it\<lparr>cursor := cursor it + 2 + unat len\<rparr>))"
      using False by (simp add: mold_next_def Let_def)
    show ?thesis
    proof (cases "cursor it + 2 + unat len > iend it")
      case True
      then show ?thesis by (subst mold_messages.simps) (simp add: nx)
    next
      case False
      let ?it = "it\<lparr>cursor := cursor it + 2 + unat len\<rparr>"
      have nx': "mold_next mem it = Some (Some (cursor it + 2, len), ?it)" using False by (simp add: nx)
      obtain offs where offs: "mold_messages mem ?it = Some offs"
        "list_all (\<lambda>(off, len). cursor ?it + 2 \<le> off \<and> off + unat len \<le> iend ?it) offs"
        using 1(1) [OF nx' refl refl] 1(2) by auto
      then show ?thesis using False
        by (subst mold_messages.simps) (auto simp: nx' list_all_iff)
    qed
  qed
qed

theorem mold_iterator_stays_in_bounds_witness:
  "\<exists>offs. mold_messages [0, 9, 1, 2] (MoldMessageIterator_new 0 4) = Some offs \<and>
     list_all (\<lambda>(off, len). 2 \<le> off \<and> off + unat len \<le> 4) offs"
  using mold_iterator_stays_in_bounds [of "MoldMessageIterator_new 0 4" "[0, 9, 1, 2]"]
  by (simp add: MoldMessageIterator_new_def numeral_2_eq_2)

end
