(* ===== verification/Interfaces.thy ===== *)
theory Interfaces
  imports Prelude
begin

text \<open>
  The contracts the components rely on, as locales: a finite map with bounded capacity (the
  engine's order index), a stack of free slots (the two arenas), and a strict price priority
  (the two sides of a book).  Each is interpreted on the model's own operations in the theory
  of the component that provides it.
\<close>

section \<open>A finite map with bounded capacity\<close>

locale key_map =
  fixes inv :: "'m \<Rightarrow> bool"
    and look :: "'m \<Rightarrow> 'k \<Rightarrow> 'v option"
    and cap :: "'m \<Rightarrow> nat"
    and storable :: "'k \<Rightarrow> bool"
    and find :: "'m \<Rightarrow> 'k \<Rightarrow> 'v option option"
    and ins :: "'m \<Rightarrow> 'k \<Rightarrow> 'v \<Rightarrow> 'm option"
    and del :: "'m \<Rightarrow> 'k \<Rightarrow> 'm option"
  assumes find: "inv m \<Longrightarrow> find m k = Some (look m k)"
    and finite_look: "inv m \<Longrightarrow> finite (dom (look m))"
    and ins: "inv m \<Longrightarrow> storable k \<Longrightarrow> k \<in> dom (look m) \<or> card (dom (look m)) + 1 < cap m \<Longrightarrow>
      \<exists>m'. ins m k v = Some m' \<and> inv m' \<and> look m' = (look m)(k \<mapsto> v) \<and> cap m' = cap m"
    and del: "inv m \<Longrightarrow>
      \<exists>m'. del m k = Some m' \<and> inv m' \<and> look m' = (look m)(k := None) \<and> cap m' = cap m"
begin

text \<open>Deleting a list of keys, one after the other, restricts the map to the other keys.\<close>

lemma del_all:
  assumes "inv m"
  shows "\<exists>m'. fold_opt del m ks = Some m' \<and> inv m' \<and> look m' = look m |` (- set ks) \<and>
    cap m' = cap m"
  using assms
proof (induction ks arbitrary: m)
  case Nil
  then show ?case by (auto simp: restrict_map_def)
next
  case (Cons k ks)
  obtain m1 where m1: "del m k = Some m1" "inv m1" "look m1 = (look m)(k := None)" "cap m1 = cap m"
    using del [OF Cons.prems] by blast
  obtain m2 where m2: "fold_opt del m1 ks = Some m2" "inv m2" "look m2 = look m1 |` (- set ks)"
      "cap m2 = cap m1"
    using Cons.IH [OF m1(2)] by blast
  have "look m2 = look m |` (- set (k # ks))"
    by (rule ext) (simp add: m1 m2 restrict_map_def)
  with m1 m2 show ?case by simp
qed

lemma find_after_ins:
  assumes "inv m" and "storable k" and "card (dom (look m)) + 1 < cap m"
  shows "\<exists>m'. ins m k v = Some m' \<and> inv m' \<and>
    (\<forall>k'. find m' k' = Some (if k' = k then Some v else look m k'))"
  using ins [OF assms(1,2), of v] assms(3) by (auto simp: find)

lemma find_after_del:
  assumes "inv m"
  shows "\<exists>m'. del m k = Some m' \<and> inv m' \<and>
    (\<forall>k'. find m' k' = Some (if k' = k then None else look m k'))"
  using del [OF assms, of k] by (auto simp: find)

end

section \<open>Price priority\<close>

text \<open>
  A side of a book, listed best price first and oldest first within a price.  \<open>bt p q\<close> says
  that price \<open>p\<close> is strictly better than \<open>q\<close>; \<open>rest_in\<close> puts a new entry behind every entry
  whose price is at least as good.
\<close>

fun rest_in :: "('p \<Rightarrow> 'p \<Rightarrow> bool) \<Rightarrow> ('e \<Rightarrow> 'p) \<Rightarrow> 'e \<Rightarrow> 'e list \<Rightarrow> 'e list" where
  "rest_in bt pr e [] = [e]"
| "rest_in bt pr e (x # xs) = (if bt (pr e) (pr x) then e # x # xs else x # rest_in bt pr e xs)"

definition prioritised :: "('p \<Rightarrow> 'p \<Rightarrow> bool) \<Rightarrow> ('e \<Rightarrow> 'p) \<Rightarrow> 'e list \<Rightarrow> bool" where
  "prioritised bt pr xs \<longleftrightarrow> sorted_wrt (\<lambda>a b. \<not> bt (pr b) (pr a)) xs"

lemma set_rest_in [simp]: "set (rest_in bt pr e xs) = insert e (set xs)"
  by (induction xs) auto

lemma prioritised_Nil [simp]: "prioritised bt pr []"
  by (simp add: prioritised_def)

lemma prioritised_Cons:
  "prioritised bt pr (x # xs) \<longleftrightarrow> (\<forall>y \<in> set xs. \<not> bt (pr y) (pr x)) \<and> prioritised bt pr xs"
  by (simp add: prioritised_def)

lemma prioritised_prices: "prioritised bt pr xs \<longleftrightarrow> sorted_wrt (\<lambda>p q. \<not> bt q p) (map pr xs)"
  by (simp add: prioritised_def sorted_wrt_map)

lemma prioritised_filter: "prioritised bt pr xs \<Longrightarrow> prioritised bt pr (filter P xs)"
  by (simp add: prioritised_def sorted_wrt_filter)

locale price_priority =
  fixes bt :: "'p \<Rightarrow> 'p \<Rightarrow> bool"
  assumes irrefl: "\<not> bt p p"
    and trans: "bt p q \<Longrightarrow> bt q r \<Longrightarrow> bt p r"
    and total: "p \<noteq> q \<Longrightarrow> bt p q \<or> bt q p"
begin

lemma asym: "bt p q \<Longrightarrow> \<not> bt q p"
  using irrefl trans by blast

lemma rest_in_prioritised:
  "prioritised bt pr xs \<Longrightarrow> prioritised bt pr (rest_in bt pr e xs)"
  by (induction xs) (auto simp: prioritised_Cons irrefl dest: asym trans)

text \<open>First in, first out: within its own price the new entry goes last; other prices keep theirs.\<close>

lemma rest_in_fifo:
  assumes "prioritised bt pr xs"
  shows "filter (\<lambda>y. pr y = p) (rest_in bt pr e xs)
    = filter (\<lambda>y. pr y = p) xs @ (if pr e = p then [e] else [])"
  using assms
proof (induction xs)
  case Nil
  then show ?case by simp
next
  case (Cons x xs)
  show ?case
  proof (cases "bt (pr e) (pr x)")
    case True
    have "pr y \<noteq> pr e" if "y \<in> set (x # xs)" for y
      using that Cons.prems True irrefl trans by (auto simp: prioritised_Cons)
    then have "filter (\<lambda>y. pr y = pr e) (x # xs) = []" by (simp add: filter_empty_conv)
    with True show ?thesis by auto
  next
    case False
    with Cons show ?thesis by (simp add: prioritised_Cons)
  qed
qed

lemma head_is_best:
  assumes "prioritised bt pr (x # xs)" and "y \<in> set (x # xs)"
    and "\<And>z. z \<in> set (x # xs) \<Longrightarrow> \<not> bt (pr z) (pr y)"
  shows "pr x = pr y"
  using assms total [of "pr x" "pr y"] irrefl by (auto simp: prioritised_Cons)

end

section \<open>A bounded queue\<close>

locale bounded_fifo =
  fixes inv :: "'r \<Rightarrow> bool"
    and queue :: "'r \<Rightarrow> 'a list"
    and cap :: "'r \<Rightarrow> nat"
    and push :: "'r \<Rightarrow> 'a \<Rightarrow> (bool \<times> 'r) option"
    and pop :: "'r \<Rightarrow> ('a option \<times> 'r) option"
  assumes push_room: "inv r \<Longrightarrow> length (queue r) < cap r \<Longrightarrow>
      \<exists>r'. push r x = Some (True, r') \<and> inv r' \<and> queue r' = queue r @ [x] \<and> cap r' = cap r"
    and push_full: "inv r \<Longrightarrow> length (queue r) = cap r \<Longrightarrow> push r x = Some (False, r)"
    and pop_some: "inv r \<Longrightarrow> queue r = x # xs \<Longrightarrow>
      \<exists>r'. pop r = Some (Some x, r') \<and> inv r' \<and> queue r' = xs \<and> cap r' = cap r"
    and pop_none: "inv r \<Longrightarrow> queue r = [] \<Longrightarrow> pop r = Some (None, r)"
    and bounded: "inv r \<Longrightarrow> length (queue r) \<le> cap r"
begin

lemma push_all:
  assumes "inv r" and "length (queue r) + length xs \<le> cap r"
  shows "\<exists>r'. fold_opt (\<lambda>r x. map_option snd (push r x)) r xs = Some r' \<and> inv r' \<and>
    queue r' = queue r @ xs \<and> cap r' = cap r"
  using assms
proof (induction xs arbitrary: r)
  case (Cons x xs)
  obtain r1 where r1: "push r x = Some (True, r1)" "inv r1" "queue r1 = queue r @ [x]" "cap r1 = cap r"
    using push_room [OF Cons.prems(1), of x] Cons.prems(2) by auto
  then show ?case using Cons.IH [OF r1(2)] Cons.prems(2) by auto
qed simp

text \<open>A queue accepts a value exactly while it is not full, and the value comes out last.\<close>

lemma push_result:
  assumes "inv r"
  shows "\<exists>r'. push r x = Some (length (queue r) < cap r, r') \<and> inv r' \<and> cap r' = cap r \<and>
    queue r' = (if length (queue r) < cap r then queue r @ [x] else queue r)"
  using push_room [OF assms, of x] push_full [OF assms, of x] bounded [OF assms] assms
  by (cases "length (queue r) < cap r") auto

lemma pop_result:
  assumes "inv r"
  shows "\<exists>r'. pop r = Some (case queue r of [] \<Rightarrow> None | x # _ \<Rightarrow> Some x, r') \<and> inv r' \<and> cap r' = cap r \<and>
    queue r' = tl (queue r)"
  using pop_some [OF assms] pop_none [OF assms] assms by (cases "queue r") auto

end

text \<open>
  A pool of slots with a free list: \<open>ok p fs\<close> says that \<open>fs\<close> are the free slots in the order they
  will be handed out, \<open>none\<close> is the value that reports exhaustion, and \<open>content\<close> is what clients
  keep in a slot.
\<close>

locale slot_pool =
  fixes ok :: "'p \<Rightarrow> 'i list \<Rightarrow> bool"
    and valid :: "'p \<Rightarrow> 'i set"
    and content :: "'p \<Rightarrow> 'i \<Rightarrow> 'c"
    and none :: 'i
    and acquire :: "'p \<Rightarrow> ('i \<times> 'p) option"
    and release :: "'p \<Rightarrow> 'i \<Rightarrow> 'p option"
  assumes free_valid: "ok p fs \<Longrightarrow> distinct fs \<and> set fs \<subseteq> valid p \<and> none \<notin> valid p"
    and acquire_some: "ok p (x # fs) \<Longrightarrow>
      \<exists>p'. acquire p = Some (x, p') \<and> ok p' fs \<and> valid p' = valid p \<and> content p' = content p"
    and acquire_none: "ok p [] \<Longrightarrow> acquire p = Some (none, p)"
    and release_ok: "ok p fs \<Longrightarrow> x \<in> valid p \<Longrightarrow> x \<notin> set fs \<Longrightarrow>
      \<exists>p'. release p x = Some p' \<and> ok p' (x # fs) \<and> valid p' = valid p \<and> (\<forall>y \<in> valid p. content p' y = content p y)"
begin

text \<open>What a client sees of \<open>acquire\<close>: exhaustion exactly if nothing is free, else a slot of the free list.\<close>

lemma acquire_result:
  assumes "ok p fs"
  shows "\<exists>x p'. acquire p = Some (x, p') \<and> valid p' = valid p \<and> content p' = content p \<and>
    (if fs = [] then x = none \<and> p' = p else x = hd fs \<and> x \<noteq> none \<and> x \<in> valid p \<and> ok p' (tl fs))"
proof (cases fs)
  case Nil
  then show ?thesis using acquire_none assms by simp
next
  case (Cons x xs)
  have "x \<noteq> none" "x \<in> valid p" using free_valid [OF assms] Cons by auto
  then show ?thesis using acquire_some [of p x xs] assms Cons by auto
qed

lemma release_then_acquire:
  assumes "ok p fs" and "x \<in> valid p" and "x \<notin> set fs"
  shows "\<exists>p' p''. release p x = Some p' \<and> acquire p' = Some (x, p'') \<and> ok p'' fs"
  using release_ok [OF assms] acquire_some by metis

end

end
