(* ===== verification/Spsc_Ring.thy ===== *)
theory Spsc_Ring
  imports Interfaces
begin

text \<open>
  The single-producer single-consumer ring (\<^verbatim>\<open>include/spsc_ring.hpp\<close>).  First \<open>push\<close> and \<open>pop\<close> as
  whole operations, which implement a bounded queue of \<open>capacity - 1\<close> elements; then both threads
  as interleaved sequences of their atomic accesses, with the fields they hold in registers.  Here the
  loads and stores of the two indices are single steps of one shared memory; \<^theory_text>\<open>Handover\<close> takes them with the memory
  orders of the code.
\<close>

section \<open>Model\<close>

record 'a SpscRing =
  rhead :: u64
  rtail :: u64
  rmask :: u64
  rbuffer :: "'a list"

text \<open>\<open>None\<close> is \<open>std::abort\<close>; \<open>v0\<close> is the value-initialised element.\<close>

definition SpscRing_new :: "'a \<Rightarrow> u64 \<Rightarrow> 'a SpscRing option" where
  "SpscRing_new v0 capacity =
     (if capacity AND (capacity - 1) \<noteq> 0 \<or> capacity = 0 then None
      else Some \<lparr>rhead = 0, rtail = 0, rmask = capacity - 1, rbuffer = replicate (unat capacity) v0\<rparr>)"

definition ring_push :: "'a SpscRing \<Rightarrow> 'a \<Rightarrow> (bool \<times> 'a SpscRing) option" where
  "ring_push r v =
     (let t = rtail r; nxt = (t + 1) AND rmask r in
      if nxt = rhead r then Some (False, r)
      else do {
        b \<leftarrow> vec_put (rbuffer r) t v;
        Some (True, r\<lparr>rbuffer := b, rtail := nxt\<rparr>) })"

definition ring_pop :: "'a SpscRing \<Rightarrow> ('a option \<times> 'a SpscRing) option" where
  "ring_pop r =
     (let h = rhead r in
      if h = rtail r then Some (None, r)
      else do {
        v \<leftarrow> vec_at (rbuffer r) h;
        Some (Some v, r\<lparr>rhead := (h + 1) AND rmask r\<rparr>) })"

text \<open>\<open>spinPop\<close> against a given environment: \<open>env\<close> is the ring the other thread has made of it before
  each attempt.  It may spin forever.\<close>

partial_function (option) spinPop :: "(nat \<Rightarrow> 'a SpscRing) \<Rightarrow> nat \<Rightarrow> ('a \<times> 'a SpscRing) option" where
  "spinPop env k = do {
     (out, r) \<leftarrow> ring_pop (env k);
     (case out of Some v \<Rightarrow> Some (v, r) | None \<Rightarrow> spinPop env (Suc k)) }"

section \<open>The queue a ring represents\<close>

definition ring_shape :: "'a SpscRing \<Rightarrow> bool" where
  "ring_shape r \<longleftrightarrow> (\<exists>n < 64. rmask r = mask n \<and> length (rbuffer r) = 2 ^ n)"

definition ring_ok :: "'a SpscRing \<Rightarrow> bool" where
  "ring_ok r \<longleftrightarrow> ring_shape r \<and> unat (rhead r) < length (rbuffer r) \<and> unat (rtail r) < length (rbuffer r)"

definition ring_queue :: "'a SpscRing \<Rightarrow> 'a list" where
  "ring_queue r = (let N = length (rbuffer r) in
     map (\<lambda>i. rbuffer r ! ((unat (rhead r) + i) mod N)) [0..<cdist N (unat (rhead r)) (unat (rtail r))])"

definition ring_cap :: "'a SpscRing \<Rightarrow> nat" where
  "ring_cap r = length (rbuffer r) - 1"

lemma cdist_pos: "a < N \<Longrightarrow> b < N \<Longrightarrow> (a + cdist N a b) mod N = b"
  by (auto simp: cdist_def mod_if)

lemma cdist_pos_inj:
  assumes "a < N" and "b < N" and "i < cdist N a b"
  shows "(a + i) mod N \<noteq> b"
proof
  assume "(a + i) mod N = b"
  with assms show False by (auto simp: cdist_def mod_if split: if_splits)
qed

lemma cnext_pos: "a < N \<Longrightarrow> (cnext N a + i) mod N = (a + Suc i) mod N"
proof (cases "Suc a = N")
  case True
  then have "a + Suc i = i + N" by simp
  then have "(a + Suc i) mod N = i mod N" by (simp only: mod_add_self2)
  with True show ?thesis by (simp add: cnext_def)
qed (simp add: cnext_def)

lemma ring_next:
  assumes "ring_shape r" and "unat i < length (rbuffer r)"
  shows "unat ((i + 1) AND rmask r) = cnext (length (rbuffer r)) (unat i)"
  using assms unat_cnext by (auto simp: ring_shape_def)

lemma length_ring_queue [simp]:
  "length (ring_queue r) = cdist (length (rbuffer r)) (unat (rhead r)) (unat (rtail r))"
  by (simp add: ring_queue_def Let_def)

lemma ring_full_iff:
  assumes "ring_ok r"
  shows "(rtail r + 1) AND rmask r = rhead r \<longleftrightarrow> length (ring_queue r) = ring_cap r"
proof -
  let ?N = "length (rbuffer r)" and ?h = "unat (rhead r)" and ?t = "unat (rtail r)"
  have b: "?h < ?N" "?t < ?N" using assms by (auto simp: ring_ok_def)
  have "unat ((rtail r + 1) AND rmask r) = cnext ?N ?t"
    using assms by (intro ring_next) (auto simp: ring_ok_def)
  then have "(rtail r + 1) AND rmask r = rhead r \<longleftrightarrow> cnext ?N ?t = ?h"
    by (metis unat_inject)
  also have "\<dots> \<longleftrightarrow> cdist ?N ?h ?t = ?N - 1" using b by (auto simp: cnext_def cdist_def)
  finally show ?thesis by (simp add: ring_cap_def)
qed

text \<open>Writing the slot at the tail does not change the queue; publishing it appends the value.\<close>

lemma queue_write_tail:
  assumes "ring_ok r"
  shows "ring_queue (r\<lparr>rbuffer := (rbuffer r)[unat (rtail r) := v]\<rparr>) = ring_queue r"
proof -
  let ?N = "length (rbuffer r)" and ?h = "unat (rhead r)" and ?t = "unat (rtail r)"
  have "(rbuffer r)[?t := v] ! ((?h + i) mod ?N) = rbuffer r ! ((?h + i) mod ?N)" if "i < cdist ?N ?h ?t" for i
    using cdist_pos_inj [of ?h ?N ?t i] assms that by (auto simp: ring_ok_def)
  then show ?thesis by (auto simp: ring_queue_def Let_def)
qed

lemma queue_publish:
  assumes ok: "ring_ok r" and v: "rbuffer r ! unat (rtail r) = v"
    and nxt: "nxt = (rtail r + 1) AND rmask r" "nxt \<noteq> rhead r"
  shows "ring_queue (r\<lparr>rtail := nxt\<rparr>) = ring_queue r @ [v]" "ring_ok (r\<lparr>rtail := nxt\<rparr>)"
proof -
  let ?N = "length (rbuffer r)" and ?h = "unat (rhead r)" and ?t = "unat (rtail r)"
  have b: "?h < ?N" "?t < ?N" "ring_shape r" using ok by (auto simp: ring_ok_def)
  have un: "unat nxt = cnext ?N ?t" using ring_next [OF b(3,2)] by (simp add: nxt(1))
  have "cnext ?N ?t \<noteq> ?h" using nxt(2) un by (metis unat_inject)
  then have d: "cdist ?N ?h (cnext ?N ?t) = Suc (cdist ?N ?h ?t)" using cdist_to_cnext [OF b(1,2)] by simp
  show "ring_queue (r\<lparr>rtail := nxt\<rparr>) = ring_queue r @ [v]"
    using cdist_pos [OF b(1,2)] v by (simp add: ring_queue_def Let_def un d)
  show "ring_ok (r\<lparr>rtail := nxt\<rparr>)"
    using ok un cnext_less [OF b(2)] by (simp add: ring_ok_def ring_shape_def)
qed

lemma queue_consume:
  assumes ok: "ring_ok r" and ne: "rhead r \<noteq> rtail r"
  shows "ring_queue r = rbuffer r ! unat (rhead r) # ring_queue (r\<lparr>rhead := (rhead r + 1) AND rmask r\<rparr>)"
    "ring_ok (r\<lparr>rhead := (rhead r + 1) AND rmask r\<rparr>)"
proof -
  let ?N = "length (rbuffer r)" and ?h = "unat (rhead r)" and ?t = "unat (rtail r)"
  have b: "?h < ?N" "?t < ?N" "ring_shape r" using ok by (auto simp: ring_ok_def)
  have un: "unat ((rhead r + 1) AND rmask r) = cnext ?N ?h" by (rule ring_next [OF b(3,1)])
  have "?t \<noteq> ?h" using ne by simp
  then have d: "cdist ?N ?h ?t = Suc (cdist ?N (cnext ?N ?h) ?t)"
    using cdist_cnext [OF b(2,1)] by auto
  show "ring_queue r = rbuffer r ! ?h # ring_queue (r\<lparr>rhead := (rhead r + 1) AND rmask r\<rparr>)"
    using b(1) by (simp add: ring_queue_def Let_def un d cnext_pos [OF b(1)] upt_conv_Cons map_Suc_upt [symmetric]
        del: upt_Suc)
  show "ring_ok (r\<lparr>rhead := (rhead r + 1) AND rmask r\<rparr>)"
    using ok un cnext_less [OF b(1)] by (simp add: ring_ok_def ring_shape_def)
qed

lemma ring_ok_write [simp]: "ring_ok (r\<lparr>rbuffer := (rbuffer r)[i := v]\<rparr>) = ring_ok r"
  by (simp add: ring_ok_def ring_shape_def)

interpretation spsc: bounded_fifo ring_ok ring_queue ring_cap ring_push ring_pop
proof
  fix r :: "'a SpscRing" and x xs
  assume ok: "ring_ok r"
  have t: "unat (rtail r) < length (rbuffer r)" "unat (rhead r) < length (rbuffer r)"
    using ok by (auto simp: ring_ok_def)
  show "length (ring_queue r) \<le> ring_cap r"
    using cdist_less [OF t(2,1)] by (simp add: ring_cap_def)
  show "ring_push r x = Some (False, r)" if "length (ring_queue r) = ring_cap r"
    using that ring_full_iff [OF ok] by (simp add: ring_push_def Let_def)
  show "ring_pop r = Some (None, r)" if "ring_queue r = []"
  proof -
    have "cdist (length (rbuffer r)) (unat (rhead r)) (unat (rtail r)) = 0" using that length_ring_queue [of r] by simp
    then have "rhead r = rtail r" using cdist_eq_0 [OF t(2,1)] by simp
    then show ?thesis by (simp add: ring_pop_def)
  qed
  show "\<exists>r'. ring_push r x = Some (True, r') \<and> ring_ok r' \<and> ring_queue r' = ring_queue r @ [x] \<and> ring_cap r' = ring_cap r"
    if "length (ring_queue r) < ring_cap r"
  proof -
    let ?nxt = "(rtail r + 1) AND rmask r" and ?w = "r\<lparr>rbuffer := (rbuffer r)[unat (rtail r) := x]\<rparr>"
    have ne: "?nxt \<noteq> rhead r" using that ring_full_iff [OF ok] by simp
    have w: "ring_ok ?w" "ring_queue ?w = ring_queue r" using ok queue_write_tail [OF ok] by simp_all
    have "rbuffer ?w ! unat (rtail ?w) = x" using t by simp
    note pub = queue_publish [OF w(1) this, of ?nxt]
    have "ring_push r x = Some (True, ?w\<lparr>rtail := ?nxt\<rparr>)"
      using ne t by (simp add: ring_push_def Let_def vec_simps)
    then show ?thesis using pub w(2) ne by (simp add: ring_cap_def)
  qed
  show "\<exists>r'. ring_pop r = Some (Some x, r') \<and> ring_ok r' \<and> ring_queue r' = xs \<and> ring_cap r' = ring_cap r"
    if q: "ring_queue r = x # xs"
  proof -
    have "cdist (length (rbuffer r)) (unat (rhead r)) (unat (rtail r)) \<noteq> 0" using q length_ring_queue [of r] by simp
    then have ne: "rhead r \<noteq> rtail r" by auto
    note c = queue_consume [OF ok ne]
    have "ring_pop r = Some (Some (rbuffer r ! unat (rhead r)), r\<lparr>rhead := (rhead r + 1) AND rmask r\<rparr>)"
      using ne t by (simp add: ring_pop_def Let_def vec_simps)
    then show ?thesis using c q by (simp add: ring_cap_def)
  qed
qed

lemma SpscRing_new_ok:
  assumes "SpscRing_new v0 c = Some r"
  shows "ring_ok r \<and> ring_queue r = [] \<and> ring_cap r = unat c - 1"
proof -
  have c0: "c AND (c - 1) = 0" "c \<noteq> 0"
    and r: "r = \<lparr>rhead = 0, rtail = 0, rmask = c - 1, rbuffer = replicate (unat c) v0\<rparr>"
    using assms by (auto simp: SpscRing_new_def split: if_splits)
  have c: "c AND (c - 1) = 0" "0 < c" using c0 unfolding word_neq_0_conv by simp_all
  obtain n where n: "n < 64" "c = 2 ^ n" using and_pred_power_of_two [OF c] by auto
  have "unat c = 2 ^ n" "c - 1 = mask n" using n by (simp_all add: unat_two_power mask_eq_exp_minus_1)
  then have "ring_shape r" using n(1) by (auto simp: r ring_shape_def)
  moreover have "0 < unat c" using c(2) by (simp add: unat_gt_0 word_neq_0_conv)
  ultimately show ?thesis by (simp add: r ring_ok_def ring_queue_def ring_cap_def)
qed

section \<open>Two threads\<close>

text \<open>
  What each thread holds between its accesses: the producer the value it pushes and the tail it
  loaded, the consumer the head it loaded and the value it read.  \<open>pushed\<close> and \<open>popped\<close> record
  the values of the calls that returned true, in the order of their index stores.
\<close>

datatype 'a push_pc = PushIdle | PushTail 'a u64 | PushRoom 'a u64 | PushWritten 'a u64

datatype 'a pop_pc = PopIdle | PopHead u64 | PopReady u64 | PopRead 'a u64

record 'a RingThreads =
  ring :: "'a SpscRing"
  push_pc :: "'a push_pc"
  pop_pc :: "'a pop_pc"
  pushed :: "'a list"
  popped :: "'a list"

text \<open>One access of \<open>push\<close>: the tail load, the head load with the full test, the slot write, the tail
  store.  The value is the argument of the call when one starts.\<close>

definition push_step :: "'a \<Rightarrow> 'a RingThreads \<Rightarrow> 'a RingThreads option" where
  "push_step value s = (case push_pc s of
      PushIdle \<Rightarrow> Some (s\<lparr>push_pc := PushTail value (rtail (ring s))\<rparr>)
    | PushTail v t \<Rightarrow>
        (if (t + 1) AND rmask (ring s) = rhead (ring s) then Some (s\<lparr>push_pc := PushIdle\<rparr>)
         else Some (s\<lparr>push_pc := PushRoom v t\<rparr>))
    | PushRoom v t \<Rightarrow> do {
        b \<leftarrow> vec_put (rbuffer (ring s)) t v;
        Some (s\<lparr>ring := (ring s)\<lparr>rbuffer := b\<rparr>, push_pc := PushWritten v t\<rparr>) }
    | PushWritten v t \<Rightarrow>
        Some (s\<lparr>ring := (ring s)\<lparr>rtail := (t + 1) AND rmask (ring s)\<rparr>, push_pc := PushIdle,
                pushed := pushed s @ [v]\<rparr>))"

text \<open>One access of \<open>pop\<close>: the head load, the tail load with the empty test, the slot read, the head store.\<close>

definition pop_step :: "'a RingThreads \<Rightarrow> 'a RingThreads option" where
  "pop_step s = (case pop_pc s of
      PopIdle \<Rightarrow> Some (s\<lparr>pop_pc := PopHead (rhead (ring s))\<rparr>)
    | PopHead h \<Rightarrow>
        (if h = rtail (ring s) then Some (s\<lparr>pop_pc := PopIdle\<rparr>)
         else Some (s\<lparr>pop_pc := PopReady h\<rparr>))
    | PopReady h \<Rightarrow> do {
        v \<leftarrow> vec_at (rbuffer (ring s)) h;
        Some (s\<lparr>pop_pc := PopRead v h\<rparr>) }
    | PopRead v h \<Rightarrow>
        Some (s\<lparr>ring := (ring s)\<lparr>rhead := (h + 1) AND rmask (ring s)\<rparr>, pop_pc := PopIdle,
                popped := popped s @ [v]\<rparr>))"

inductive ring_step :: "'a RingThreads \<Rightarrow> 'a RingThreads \<Rightarrow> bool" where
  produce: "push_step v s = Some s' \<Longrightarrow> ring_step s s'"
| consume: "pop_step s = Some s' \<Longrightarrow> ring_step s s'"

inductive ring_reachable :: "'a SpscRing \<Rightarrow> 'a RingThreads \<Rightarrow> bool" for r where
  init: "ring_reachable r \<lparr>ring = r, push_pc = PushIdle, pop_pc = PopIdle, pushed = [], popped = []\<rparr>"
| step: "ring_reachable r s \<Longrightarrow> ring_step s s' \<Longrightarrow> ring_reachable r s'"

inductive_cases ring_stepE: "ring_step s s'"

definition push_inv :: "'a SpscRing \<Rightarrow> 'a push_pc \<Rightarrow> bool" where
  "push_inv r pc = (case pc of
      PushIdle \<Rightarrow> True
    | PushTail v t \<Rightarrow> t = rtail r
    | PushRoom v t \<Rightarrow> t = rtail r \<and> length (ring_queue r) < ring_cap r
    | PushWritten v t \<Rightarrow> t = rtail r \<and> length (ring_queue r) < ring_cap r \<and> rbuffer r ! unat t = v)"

definition pop_inv :: "'a SpscRing \<Rightarrow> 'a pop_pc \<Rightarrow> bool" where
  "pop_inv r pc = (case pc of
      PopIdle \<Rightarrow> True
    | PopHead h \<Rightarrow> h = rhead r
    | PopReady h \<Rightarrow> h = rhead r \<and> ring_queue r \<noteq> []
    | PopRead v h \<Rightarrow> h = rhead r \<and> ring_queue r \<noteq> [] \<and> hd (ring_queue r) = v)"

definition threads_inv :: "'a RingThreads \<Rightarrow> bool" where
  "threads_inv s \<longleftrightarrow> ring_ok (ring s) \<and> push_inv (ring s) (push_pc s) \<and> pop_inv (ring s) (pop_pc s) \<and>
     pushed s = popped s @ ring_queue (ring s)"

lemma ring_empty_iff: "ring_ok r \<Longrightarrow> rhead r = rtail r \<longleftrightarrow> ring_queue r = []"
proof -
  assume "ring_ok r"
  then have "cdist (length (rbuffer r)) (unat (rhead r)) (unat (rtail r)) = 0 \<longleftrightarrow> rhead r = rtail r"
    by (auto simp: ring_ok_def cdist_eq_0)
  then show ?thesis by (metis length_0_conv length_ring_queue)
qed

lemma ring_head_value: "ring_ok r \<Longrightarrow> ring_queue r \<noteq> [] \<Longrightarrow> hd (ring_queue r) = rbuffer r ! unat (rhead r)"
  using queue_consume(1) [of r] ring_empty_iff [of r] by (metis list.sel(1))

text \<open>The two threads only interfere through the queue: a store of one keeps what the other relies on.\<close>

lemma push_step_inv:
  assumes "threads_inv s"
  shows "\<exists>s'. push_step v s = Some s' \<and> threads_inv s'"
proof -
  let ?r = "ring s"
  have ok: "ring_ok ?r" and pi: "push_inv ?r (push_pc s)" and ci: "pop_inv ?r (pop_pc s)"
    and h: "pushed s = popped s @ ring_queue ?r" using assms by (auto simp: threads_inv_def)
  have len: "length (ring_queue ?r) \<le> ring_cap ?r" by (rule spsc.bounded [OF ok])
  show ?thesis
  proof (cases "push_pc s")
    case PushIdle
    then show ?thesis using assms by (simp add: push_step_def threads_inv_def push_inv_def)
  next
    case (PushTail v t)
    then show ?thesis using assms ring_full_iff [OF ok] len pi
      by (auto simp: push_step_def threads_inv_def push_inv_def)
  next
    case (PushRoom v t)
    let ?w = "?r\<lparr>rbuffer := (rbuffer ?r)[unat t := v]\<rparr>"
    have t: "t = rtail ?r" "length (ring_queue ?r) < ring_cap ?r" using pi PushRoom by (auto simp: push_inv_def)
    have in_range: "unat t < length (rbuffer ?r)" using ok t by (auto simp: ring_ok_def)
    have w: "ring_ok ?w" "ring_queue ?w = ring_queue ?r" "ring_cap ?w = ring_cap ?r" "rhead ?w = rhead ?r"
      "rtail ?w = t" "rbuffer ?w ! unat t = v"
      using ok queue_write_tail [OF ok, of v] t in_range by (simp_all add: ring_cap_def)
    have "pop_inv ?w (pop_pc s)" using ci w(2,4) by (simp add: pop_inv_def split: pop_pc.splits)
    moreover have "push_inv ?w (PushWritten v t)" using w t by (simp add: push_inv_def)
    ultimately show ?thesis using PushRoom in_range w h by (simp add: push_step_def threads_inv_def vec_simps)
  next
    case (PushWritten v t)
    let ?w = "?r\<lparr>rtail := (t + 1) AND rmask ?r\<rparr>"
    have t: "t = rtail ?r" "length (ring_queue ?r) < ring_cap ?r" "rbuffer ?r ! unat (rtail ?r) = v"
      using pi PushWritten by (auto simp: push_inv_def)
    have ne: "(t + 1) AND rmask ?r \<noteq> rhead ?r" using ring_full_iff [OF ok] t by simp
    have w: "ring_ok ?w" "ring_queue ?w = ring_queue ?r @ [v]"
      using queue_publish [OF ok t(3) _ ne] t(1) by simp_all
    have "pop_inv ?w (pop_pc s)" using ci w(2) by (auto simp: pop_inv_def split: pop_pc.splits)
    then show ?thesis using PushWritten w h by (simp add: push_step_def threads_inv_def push_inv_def)
  qed
qed

lemma pop_step_inv:
  assumes "threads_inv s"
  shows "\<exists>s'. pop_step s = Some s' \<and> threads_inv s'"
proof -
  let ?r = "ring s"
  have ok: "ring_ok ?r" and pi: "push_inv ?r (push_pc s)" and ci: "pop_inv ?r (pop_pc s)"
    and h: "pushed s = popped s @ ring_queue ?r" using assms by (auto simp: threads_inv_def)
  show ?thesis
  proof (cases "pop_pc s")
    case PopIdle
    then show ?thesis using assms by (simp add: pop_step_def threads_inv_def pop_inv_def)
  next
    case (PopHead x)
    then show ?thesis using assms ring_empty_iff [OF ok] ci
      by (auto simp: pop_step_def threads_inv_def pop_inv_def)
  next
    case (PopReady x)
    have x: "x = rhead ?r" "ring_queue ?r \<noteq> []" using ci PopReady by (auto simp: pop_inv_def)
    have "unat x < length (rbuffer ?r)" using ok x by (auto simp: ring_ok_def)
    then show ?thesis using PopReady assms x ring_head_value [OF ok]
      by (simp add: pop_step_def threads_inv_def pop_inv_def vec_simps)
  next
    case (PopRead v x)
    let ?w = "?r\<lparr>rhead := (x + 1) AND rmask ?r\<rparr>"
    have x: "x = rhead ?r" "ring_queue ?r \<noteq> []" "hd (ring_queue ?r) = v" using ci PopRead by (auto simp: pop_inv_def)
    have "rhead ?r \<noteq> rtail ?r" using ring_empty_iff [OF ok] x(2) by simp
    note c = queue_consume [OF ok this]
    have w: "ring_ok ?w" "ring_queue ?r = v # ring_queue ?w" using c x by (simp_all add: ring_head_value [OF ok, symmetric])
    have "push_inv ?w (push_pc s)" using pi w(2) by (auto simp: push_inv_def ring_cap_def simp del: length_ring_queue split: push_pc.splits)
    then show ?thesis using PopRead w h by (simp add: pop_step_def threads_inv_def pop_inv_def)
  qed
qed

lemma ring_step_inv: "ring_step s s' \<Longrightarrow> threads_inv s \<Longrightarrow> threads_inv s'"
  by (erule ring_stepE) (metis option.inject push_step_inv, metis option.inject pop_step_inv)

lemma ring_reachable_inv: "ring_reachable r s \<Longrightarrow> ring_ok r \<Longrightarrow> ring_queue r = [] \<Longrightarrow> threads_inv s"
  by (induction rule: ring_reachable.induct)
    (simp add: threads_inv_def push_inv_def pop_inv_def, blast intro: ring_step_inv)

text \<open>Run alone, the accesses of a call are the whole operation.\<close>

fun push_alone :: "nat \<Rightarrow> 'a \<Rightarrow> 'a RingThreads \<Rightarrow> 'a RingThreads option" where
  "push_alone 0 v s = Some s"
| "push_alone (Suc n) v s = do { s \<leftarrow> push_step v s; if push_pc s = PushIdle then Some s else push_alone n v s }"

fun pop_alone :: "nat \<Rightarrow> 'a RingThreads \<Rightarrow> 'a RingThreads option" where
  "pop_alone 0 s = Some s"
| "pop_alone (Suc n) s = do { s \<leftarrow> pop_step s; if pop_pc s = PopIdle then Some s else pop_alone n s }"

lemma push_alone_ring_push:
  assumes "push_pc s = PushIdle"
  shows "push_alone 4 v s = map_option (\<lambda>(ok, r). s\<lparr>ring := r, pushed := pushed s @ (if ok then [v] else [])\<rparr>)
    (ring_push (ring s) v)"
  using assms by (simp add: eval_nat_numeral push_step_def ring_push_def Let_def vec_put_def)

lemma pop_alone_ring_pop:
  assumes "pop_pc s = PopIdle"
  shows "pop_alone 4 s = map_option (\<lambda>(out, r). s\<lparr>ring := r, popped := popped s @ (case out of Some v \<Rightarrow> [v] | None \<Rightarrow> [])\<rparr>)
    (ring_pop (ring s))"
  using assms by (simp add: eval_nat_numeral pop_step_def ring_pop_def Let_def vec_at_def)

text \<open>The slot of the next buffer access of each thread.\<close>

fun write_slot :: "'a push_pc \<Rightarrow> u64 option" where
  "write_slot (PushRoom v t) = Some t"
| "write_slot _ = None"

fun read_slot :: "'a pop_pc \<Rightarrow> u64 option" where
  "read_slot (PopReady h) = Some h"
| "read_slot _ = None"

lemma slots_apart:
  assumes "threads_inv s" and "write_slot (push_pc s) = Some t" and "read_slot (pop_pc s) = Some h"
  shows "t \<noteq> h \<and> unat t < length (rbuffer (ring s)) \<and> unat h < length (rbuffer (ring s))"
proof -
  have "t = rtail (ring s)" using assms(1,2) by (cases "push_pc s") (auto simp: threads_inv_def push_inv_def)
  moreover have "h = rhead (ring s)" "ring_queue (ring s) \<noteq> []"
    using assms(1,3) by (cases "pop_pc s"; auto simp: threads_inv_def pop_inv_def)+
  ultimately show ?thesis
    using assms(1) ring_empty_iff [of "ring s"] by (auto simp: threads_inv_def ring_ok_def)
qed

lemma ring_step_cap:
  assumes "ring_step s s'"
  shows "ring_cap (ring s') = ring_cap (ring s)"
  using assms
proof (cases rule: ring_step.cases)
  case (produce v)
  then show ?thesis
    by (auto simp: push_step_def ring_cap_def vec_put_def bind_eq_Some_conv split: push_pc.splits if_splits)
next
  case consume
  then show ?thesis
    by (auto simp: pop_step_def ring_cap_def bind_eq_Some_conv split: pop_pc.splits if_splits)
qed

lemma ring_reachable_cap: "ring_reachable r s \<Longrightarrow> ring_cap (ring s) = ring_cap r"
  by (induction rule: ring_reachable.induct) (simp_all add: ring_step_cap)

section \<open>A bounded queue\<close>

datatype 'a ring_op = Push 'a | Pop

datatype 'a ring_out = Pushed bool | Popped "'a option"

definition ring_apply :: "'a SpscRing \<Rightarrow> 'a ring_op \<Rightarrow> ('a ring_out \<times> 'a SpscRing) option" where
  "ring_apply r oper = (case oper of
      Push v \<Rightarrow> map_option (\<lambda>(ok, r). (Pushed ok, r)) (ring_push r v)
    | Pop \<Rightarrow> map_option (\<lambda>(out, r). (Popped out, r)) (ring_pop r))"

fun ring_ops :: "'a SpscRing \<Rightarrow> 'a ring_op list \<Rightarrow> ('a ring_out list \<times> 'a SpscRing) option" where
  "ring_ops r [] = Some ([], r)"
| "ring_ops r (oper # opers) = do {
     (out, r) \<leftarrow> ring_apply r oper;
     (outs, r) \<leftarrow> ring_ops r opers;
     Some (out # outs, r) }"

fun queue_ops :: "nat \<Rightarrow> 'a list \<Rightarrow> 'a ring_op list \<Rightarrow> 'a ring_out list \<times> 'a list" where
  "queue_ops c q [] = ([], q)"
| "queue_ops c q (Push v # opers) =
     (let room = length q < c; (outs, q') = queue_ops c (if room then q @ [v] else q) opers
      in (Pushed room # outs, q'))"
| "queue_ops c q (Pop # opers) =
     (let (outs, q') = queue_ops c (tl q) opers
      in (Popped (case q of [] \<Rightarrow> None | x # _ \<Rightarrow> Some x) # outs, q'))"

lemma ring_ops_refine:
  assumes "ring_ok r"
  shows "\<exists>outs r'. ring_ops r opers = Some (outs, r') \<and> ring_ok r' \<and>
    queue_ops (ring_cap r) (ring_queue r) opers = (outs, ring_queue r')"
  using assms
proof (induction opers arbitrary: r)
  case (Cons oper opers)
  show ?case
  proof (cases oper)
    case (Push v)
    obtain r1 where r1: "ring_push r v = Some (length (ring_queue r) < ring_cap r, r1)" "ring_ok r1"
      "ring_cap r1 = ring_cap r" "ring_queue r1 = (if length (ring_queue r) < ring_cap r then ring_queue r @ [v] else ring_queue r)"
      using spsc.push_result [OF Cons.prems, of v] by blast
    from Cons.IH [OF r1(2)] show ?thesis
      using r1 by (auto simp: Push ring_apply_def Let_def simp del: length_ring_queue)
  next
    case Pop
    obtain r1 where r1: "ring_pop r = Some (case ring_queue r of [] \<Rightarrow> None | x # _ \<Rightarrow> Some x, r1)" "ring_ok r1"
      "ring_cap r1 = ring_cap r" "ring_queue r1 = tl (ring_queue r)"
      using spsc.pop_result [OF Cons.prems] by blast
    from Cons.IH [OF r1(2)] show ?thesis using r1 by (auto simp: Pop ring_apply_def)
  qed
qed simp

section \<open>Spinning\<close>

lemma spinPop_some:
  assumes "ring_ok (env k)" and "ring_queue (env k) = x # xs"
  shows "\<exists>r. spinPop env k = Some (x, r) \<and> ring_ok r \<and> ring_queue r = xs"
  using spsc.pop_some [OF assms] by (subst spinPop.simps) auto

lemma spinPop_wait:
  assumes "ring_ok (env k)" and "ring_queue (env k) = []"
  shows "spinPop env k = spinPop env (Suc k)"
  using spsc.pop_none [OF assms] by (subst spinPop.simps) simp

lemma spinPop_first:
  assumes "\<And>j. ring_ok (env j)" and "\<And>j. j < n \<Longrightarrow> ring_queue (env (k + j)) = []" and "ring_queue (env (k + n)) = x # xs"
  shows "\<exists>r. spinPop env k = Some (x, r) \<and> ring_ok r \<and> ring_queue r = xs"
  using assms(2,3)
proof (induction n arbitrary: k)
  case 0
  then have "ring_queue (env k) = x # xs" by simp
  then show ?case by (rule spinPop_some [OF assms(1)])
next
  case (Suc n)
  have "ring_queue (env k) = []" using Suc.prems(1) [of 0] by simp
  moreover have "\<exists>r. spinPop env (Suc k) = Some (x, r) \<and> ring_ok r \<and> ring_queue r = xs"
  proof (rule Suc.IH)
    show "ring_queue (env (Suc k + j)) = []" if "j < n" for j using Suc.prems(1) [of "Suc j"] that by simp
    show "ring_queue (env (Suc k + n)) = x # xs" using Suc.prems(2) by simp
  qed
  ultimately show ?case using spinPop_wait [where k = k, OF assms(1)] by (simp only:)
qed

section \<open>Properties\<close>

text \<open>In every interleaving of the accesses of one producer and one consumer, what was popped is a
  prefix of what was pushed and the rest is in the ring, at most \<open>capacity - 1\<close> values; no access
  is outside the buffer; and the slot the producer is about to write is never the one the consumer
  is about to read.\<close>

lemma ring_fifo_interleaved:
  assumes "SpscRing_new v0 capacity = Some r" and "ring_reachable r s"
  shows "pushed s = popped s @ ring_queue (ring s) \<and> length (ring_queue (ring s)) < unat capacity \<and>
    push_step v s \<noteq> None \<and> pop_step s \<noteq> None \<and>
    (write_slot (push_pc s) = None \<or> write_slot (push_pc s) \<noteq> read_slot (pop_pc s))"
proof -
  note new = SpscRing_new_ok [OF assms(1)]
  have inv: "threads_inv s" using ring_reachable_inv [OF assms(2)] new by blast
  have ok: "ring_ok (ring s)" using inv by (simp add: threads_inv_def)
  have "0 < unat capacity" using assms(1) by (auto simp: SpscRing_new_def unat_gt_0 split: if_splits)
  moreover have "length (ring_queue (ring s)) \<le> unat capacity - 1"
    using spsc.bounded [OF ok] ring_reachable_cap [OF assms(2)] new by simp
  ultimately have "length (ring_queue (ring s)) < unat capacity" by linarith
  moreover have "write_slot (push_pc s) = None \<or> write_slot (push_pc s) \<noteq> read_slot (pop_pc s)"
    using slots_apart [OF inv] by (metis option.exhaust)
  moreover have "push_step v s \<noteq> None" "pop_step s \<noteq> None" using push_step_inv [OF inv] pop_step_inv [OF inv] by auto
  ultimately show ?thesis using inv by (simp add: threads_inv_def)
qed

text \<open>Any sequence of pushes and pops returns, and returns what a queue bounded by \<open>capacity - 1\<close>
  returns: a push succeeds exactly if there is room, a pop takes the oldest value.\<close>

lemma ring_is_bounded_queue:
  assumes "SpscRing_new v0 capacity = Some r"
  shows "map_option fst (ring_ops r opers) = Some (fst (queue_ops (unat capacity - 1) [] opers))"
  using ring_ops_refine [of r opers] SpscRing_new_ok [OF assms] by auto

end
