(* ===== verification/Packet_Pool.thy ===== *)
theory Packet_Pool
  imports Interfaces
begin

text \<open>
  The packet buffers the ring refers to (\<^verbatim>\<open>include/packet_pool.hpp\<close>): an array of slots whose free
  ones form a Treiber stack through \<open>nextFree\<close>.  First \<open>acquire\<close> and \<open>release\<close> as whole calls, which
  implement the pool interface; then every thread as a sequence of its atomic accesses, where one
  thread acquires and any number release.
\<close>

section \<open>Model\<close>

definition kMaxPacketBytes :: nat where "kMaxPacketBytes = 2048"

definition kPoolInvalid :: u32 where "kPoolInvalid = 0xFFFFFFFF"

record BufferSlot =
  sdata :: bytes
  slength :: u16
  nextFree :: u32

record PacketPool =
  pslots :: "BufferSlot list"
  pfree :: u32

text \<open>The constructor links every slot to the following one; with no slot at all it would write outside
  the array.\<close>

definition BufferSlot_zero :: BufferSlot where
  "BufferSlot_zero = \<lparr>sdata = replicate kMaxPacketBytes 0, slength = 0, nextFree = 0\<rparr>"

definition link_slot :: "nat \<Rightarrow> BufferSlot list \<Rightarrow> BufferSlot list" where
  "link_slot i ss = ss[i := (ss ! i)\<lparr>nextFree := of_nat (i + 1)\<rparr>]"

definition PacketPool_new :: "nat \<Rightarrow> PacketPool option" where
  "PacketPool_new numSlots =
     (if numSlots = 0 then None
      else let ss = fold link_slot [0..<numSlots - 1] (replicate numSlots BufferSlot_zero)
        in Some \<lparr>pslots = ss[numSlots - 1 := (ss ! (numSlots - 1))\<lparr>nextFree := kPoolInvalid\<rparr>], pfree = 0\<rparr>)"

text \<open>The calls, run without interference.  A spurious failure of \<open>compare_exchange_weak\<close> only repeats an
  iteration with the same values.\<close>

definition acquire :: "PacketPool \<Rightarrow> (u32 \<times> PacketPool) option" where
  "acquire p = (let head = pfree p in
     if head \<noteq> kPoolInvalid then do {
       slot \<leftarrow> vec_at (pslots p) head;
       Some (head, p\<lparr>pfree := nextFree slot\<rparr>) }
     else Some (kPoolInvalid, p))"

definition release :: "PacketPool \<Rightarrow> u32 \<Rightarrow> PacketPool option" where
  "release p idx = (let head = pfree p in do {
     slot \<leftarrow> vec_at (pslots p) idx;
     ss \<leftarrow> vec_put (pslots p) idx (slot\<lparr>nextFree := head\<rparr>);
     Some (p\<lparr>pslots := ss, pfree := idx\<rparr>) })"

section \<open>The free list\<close>

fun pchain :: "BufferSlot list \<Rightarrow> u32 \<Rightarrow> u32 list \<Rightarrow> bool" where
  "pchain ss h [] \<longleftrightarrow> h = kPoolInvalid"
| "pchain ss h (x # xs) \<longleftrightarrow>
     h = x \<and> x \<noteq> kPoolInvalid \<and> unat x < length ss \<and> pchain ss (nextFree (ss ! unat x)) xs"

definition pool_slots :: "PacketPool \<Rightarrow> u32 set" where
  "pool_slots p = {i. unat i < length (pslots p)}"

definition ppool_ok :: "PacketPool \<Rightarrow> u32 list \<Rightarrow> bool" where
  "ppool_ok p fs \<longleftrightarrow> pchain (pslots p) (pfree p) fs \<and> distinct fs \<and> length (pslots p) \<le> unat kPoolInvalid"

definition slot_content :: "PacketPool \<Rightarrow> u32 \<Rightarrow> bytes \<times> u16" where
  "slot_content p i = (let s = pslots p ! unat i in (sdata s, slength s))"

lemma pchain_frame:
  "length ss' = length ss \<Longrightarrow> (\<And>x. x \<in> set fs \<Longrightarrow> nextFree (ss' ! unat x) = nextFree (ss ! unat x)) \<Longrightarrow>
   pchain ss' h fs = pchain ss h fs"
  by (induction fs arbitrary: h) auto

lemma pchain_valid: "pchain ss h fs \<Longrightarrow> x \<in> set fs \<Longrightarrow> unat x < length ss \<and> x \<noteq> kPoolInvalid"
  by (induction fs arbitrary: h) auto

lemma pchain_nil: "pchain ss kPoolInvalid fs \<longleftrightarrow> fs = []"
  by (cases fs) auto

lemma pchain_head: "h \<noteq> kPoolInvalid \<Longrightarrow> pchain ss h fs \<Longrightarrow> \<exists>xs. fs = h # xs \<and> pchain ss (nextFree (ss ! unat h)) xs"
  by (cases fs) auto

lemma invalid_not_slot: "length (pslots p) \<le> unat kPoolInvalid \<Longrightarrow> kPoolInvalid \<notin> pool_slots p"
  by (simp add: pool_slots_def)

interpretation packet_pool: slot_pool ppool_ok pool_slots slot_content kPoolInvalid acquire release
proof
  fix p fs x
  assume ok: "ppool_ok p fs"
  then show "distinct fs \<and> set fs \<subseteq> pool_slots p \<and> kPoolInvalid \<notin> pool_slots p"
    by (auto simp: ppool_ok_def pool_slots_def dest: pchain_valid)
  show "\<exists>p'. release p x = Some p' \<and> ppool_ok p' (x # fs) \<and> pool_slots p' = pool_slots p \<and>
      (\<forall>y \<in> pool_slots p. slot_content p' y = slot_content p y)"
    if "x \<in> pool_slots p" "x \<notin> set fs"
  proof -
    have x: "unat x < length (pslots p)" "x \<noteq> kPoolInvalid"
      using that(1) ok by (auto simp: pool_slots_def ppool_ok_def)
    let ?ss = "(pslots p)[unat x := (pslots p ! unat x)\<lparr>nextFree := pfree p\<rparr>]"
    have "pchain ?ss (pfree p) fs = pchain (pslots p) (pfree p) fs"
      by (rule pchain_frame) (use that(2) in \<open>auto simp: nth_update_notin\<close>)
    then show ?thesis using ok that x
      by (auto simp: release_def Let_def vec_simps ppool_ok_def pool_slots_def slot_content_def nth_list_update)
  qed
qed (auto simp: ppool_ok_def acquire_def pool_slots_def slot_content_def vec_simps)

lemma nth_link_slots:
  "n \<le> length ss \<Longrightarrow> i < length ss \<Longrightarrow>
   fold link_slot [0..<n] ss ! i = (if i < n then (ss ! i)\<lparr>nextFree := of_nat (i + 1)\<rparr> else ss ! i) \<and>
   length (fold link_slot [0..<n] ss) = length ss"
  by (induction n) (auto simp: link_slot_def nth_list_update less_Suc_eq)

lemma pchain_upt:
  assumes "\<And>i. i < n \<Longrightarrow> nextFree (ss ! i) = (if i + 1 < n then of_nat (i + 1) else kPoolInvalid)"
    and "length ss = n" and "n \<le> unat kPoolInvalid" and "k \<le> n"
  shows "pchain ss (if k < n then of_nat k else kPoolInvalid) (map of_nat [k..<n])"
  using assms(4)
proof (induction "n - k" arbitrary: k)
  case (Suc d)
  then have k: "k < n" by simp
  have u: "unat (of_nat k :: u32) = k"
    by (rule unat_of_nat_small) (use k assms(3) in \<open>simp add: kPoolInvalid_def\<close>)
  have "(of_nat k :: u32) \<noteq> kPoolInvalid" using u k assms(3) by auto
  moreover have "pchain ss (if Suc k < n then of_nat (Suc k) else kPoolInvalid) (map of_nat [Suc k..<n])"
    using Suc.hyps(1) [of "Suc k"] Suc.hyps(2) k by simp
  moreover have "[k..<n] = k # [Suc k..<n]" using k by (simp add: upt_conv_Cons)
  ultimately show ?case using k u assms(1) [OF k] assms(2) by (simp del: of_nat_Suc split: if_splits)
qed (simp)

lemma PacketPool_new_ok:
  assumes "PacketPool_new n = Some p" and "n \<le> unat kPoolInvalid"
  shows "ppool_ok p (map of_nat [0..<n])" "length (pslots p) = n"
proof -
  define s1 where "s1 = fold link_slot [0..<n - 1] (replicate n BufferSlot_zero)"
  have n: "0 < n" and p: "p = \<lparr>pslots = s1[n - 1 := (s1 ! (n - 1))\<lparr>nextFree := kPoolInvalid\<rparr>], pfree = 0\<rparr>"
    using assms(1) by (auto simp: PacketPool_new_def Let_def s1_def split: if_splits)
  have s1: "s1 ! i = (if i < n - 1 then BufferSlot_zero\<lparr>nextFree := of_nat (i + 1)\<rparr> else BufferSlot_zero) \<and> length s1 = n"
    if "i < n" for i
    using nth_link_slots [of "n - 1" "replicate n BufferSlot_zero" i] that by (simp add: s1_def)
  then have len1: "length s1 = n" using n by blast
  then show len: "length (pslots p) = n" by (simp add: p)
  have links: "nextFree (pslots p ! i) = (if i + 1 < n then of_nat (i + 1) else kPoolInvalid)" if "i < n" for i
  proof (cases "i = n - 1")
    case True
    with that len1 show ?thesis by (simp add: p)
  next
    case False
    with that s1 [OF that] show ?thesis by (auto simp: p)
  qed
  have "pchain (pslots p) (if 0 < n then of_nat 0 else kPoolInvalid) (map of_nat [0..<n])"
    by (rule pchain_upt [OF links len assms(2)]) simp_all
  moreover have bound: "n < 2 ^ 32" using assms(2) by (simp add: kPoolInvalid_def)
  moreover have "inj_on (of_nat :: nat \<Rightarrow> u32) {0..<n}"
  proof (rule inj_onI)
    fix i j assume "i \<in> {0..<n}" "j \<in> {0..<n}" "(of_nat i :: u32) = of_nat j"
    moreover have "unat (of_nat i :: u32) = i" "unat (of_nat j :: u32) = j"
      by (rule unat_of_nat_small; use \<open>i \<in> {0..<n}\<close> \<open>j \<in> {0..<n}\<close> bound in simp)+
    ultimately show "i = j" by metis
  qed
  moreover have "pfree p = 0" by (simp add: p)
  ultimately show "ppool_ok p (map of_nat [0..<n])" using n len assms(2) by (simp add: ppool_ok_def distinct_map)
qed

lemma PacketPool_new_content:
  assumes "PacketPool_new n = Some p" and "unat i < n"
  shows "slot_content p i = (replicate kMaxPacketBytes 0, 0)"
proof -
  define s1 where "s1 = fold link_slot [0..<n - 1] (replicate n BufferSlot_zero)"
  have p: "p = \<lparr>pslots = s1[n - 1 := (s1 ! (n - 1))\<lparr>nextFree := kPoolInvalid\<rparr>], pfree = 0\<rparr>"
    using assms(1) by (auto simp: PacketPool_new_def Let_def s1_def split: if_splits)
  have "sdata (s1 ! j) = replicate kMaxPacketBytes 0 \<and> slength (s1 ! j) = 0 \<and> length s1 = n" if "j < n" for j
    using nth_link_slots [of "n - 1" "replicate n BufferSlot_zero" j] that by (simp add: s1_def BufferSlot_zero_def)
  then show ?thesis using assms(2) by (simp add: slot_content_def p nth_list_update Let_def)
qed

section \<open>Interleaved accesses\<close>

text \<open>
  What a thread holds between its accesses: in \<open>acquire\<close> the head it loaded and then that slot's
  link; in \<open>release\<close> the slot it returns and the head it loaded, before and after writing the link.
  \<open>held\<close> are the slots handed out and not yet given back; clients pass them from thread to thread.
\<close>

datatype pool_pc = PoolIdle | AcqHead u32 | AcqNext u32 u32 | RelHead u32 u32 | RelLinked u32 u32

record PoolThreads =
  pshared :: PacketPool
  pcs :: "nat \<Rightarrow> pool_pc"
  held :: "u32 set"

text \<open>The loop test of \<open>acquire\<close> on a loaded head.\<close>

definition acq_test :: "u32 \<Rightarrow> pool_pc" where
  "acq_test head = (if head \<noteq> kPoolInvalid then AcqHead head else PoolIdle)"

text \<open>One access of \<open>acquire\<close> by thread \<open>t\<close>: the head load, the link read, the compare-exchange, which may
  fail spuriously.\<close>

definition acquire_step :: "nat \<Rightarrow> bool \<Rightarrow> PoolThreads \<Rightarrow> PoolThreads option" where
  "acquire_step t spurious s = (let p = pshared s in case pcs s t of
      PoolIdle \<Rightarrow> Some (s\<lparr>pcs := (pcs s)(t := acq_test (pfree p))\<rparr>)
    | AcqHead h \<Rightarrow> do {
        slot \<leftarrow> vec_at (pslots p) h;
        Some (s\<lparr>pcs := (pcs s)(t := AcqNext h (nextFree slot))\<rparr>) }
    | AcqNext h n \<Rightarrow>
        (if pfree p = h \<and> \<not> spurious
         then Some (s\<lparr>pshared := p\<lparr>pfree := n\<rparr>, pcs := (pcs s)(t := PoolIdle), held := insert h (held s)\<rparr>)
         else Some (s\<lparr>pcs := (pcs s)(t := acq_test (pfree p))\<rparr>))
    | _ \<Rightarrow> Some s)"

text \<open>One access of \<open>release\<close> by thread \<open>t\<close>; a new call returns the slot \<open>idx\<close>.\<close>

definition release_step :: "nat \<Rightarrow> u32 \<Rightarrow> bool \<Rightarrow> PoolThreads \<Rightarrow> PoolThreads option" where
  "release_step t idx spurious s = (let p = pshared s in case pcs s t of
      PoolIdle \<Rightarrow> Some (s\<lparr>pcs := (pcs s)(t := RelHead idx (pfree p)), held := held s - {idx}\<rparr>)
    | RelHead i h \<Rightarrow> do {
        slot \<leftarrow> vec_at (pslots p) i;
        ss \<leftarrow> vec_put (pslots p) i (slot\<lparr>nextFree := h\<rparr>);
        Some (s\<lparr>pshared := p\<lparr>pslots := ss\<rparr>, pcs := (pcs s)(t := RelLinked i h)\<rparr>) }
    | RelLinked i h \<Rightarrow>
        (if pfree p = h \<and> \<not> spurious
         then Some (s\<lparr>pshared := p\<lparr>pfree := i\<rparr>, pcs := (pcs s)(t := PoolIdle)\<rparr>)
         else Some (s\<lparr>pcs := (pcs s)(t := RelHead i (pfree p))\<rparr>))
    | _ \<Rightarrow> Some s)"

text \<open>Thread 0 is the only one that acquires; a release starts on a slot that is held.\<close>

inductive pool_step1 :: "PoolThreads \<Rightarrow> PoolThreads \<Rightarrow> bool" where
  acq: "acquire_step 0 b s = Some s' \<Longrightarrow> pool_step1 s s'"
| rel: "release_step t idx b s = Some s' \<Longrightarrow> idx \<in> held s \<Longrightarrow> pool_step1 s s'"
| rel_more: "release_step t idx b s = Some s' \<Longrightarrow> pcs s t \<noteq> PoolIdle \<Longrightarrow> pool_step1 s s'"

inductive pool_reachable :: "PacketPool \<Rightarrow> PoolThreads \<Rightarrow> bool" for p where
  init: "pool_reachable p \<lparr>pshared = p, pcs = (\<lambda>t. PoolIdle), held = {}\<rparr>"
| step: "pool_reachable p s \<Longrightarrow> pool_step1 s s' \<Longrightarrow> pool_reachable p s'"

fun returning :: "pool_pc \<Rightarrow> u32 set" where
  "returning (RelHead i h) = {i}"
| "returning (RelLinked i h) = {i}"
| "returning _ = {}"

definition in_flight :: "PoolThreads \<Rightarrow> u32 set" where
  "in_flight s = (\<Union>t. returning (pcs s t))"

text \<open>What thread \<open>t\<close> relies on; \<open>fs\<close> is the free list.\<close>

fun pool_pc_ok :: "BufferSlot list \<Rightarrow> u32 list \<Rightarrow> pool_pc \<Rightarrow> bool" where
  "pool_pc_ok ss fs (AcqHead h) \<longleftrightarrow> h \<in> set fs"
| "pool_pc_ok ss fs (AcqNext h n) \<longleftrightarrow> h \<in> set fs \<and> nextFree (ss ! unat h) = n"
| "pool_pc_ok ss fs (RelLinked i h) \<longleftrightarrow> nextFree (ss ! unat i) = h"
| "pool_pc_ok ss fs _ \<longleftrightarrow> True"

fun acquiring :: "pool_pc \<Rightarrow> bool" where
  "acquiring (AcqHead h) \<longleftrightarrow> True"
| "acquiring (AcqNext h n) \<longleftrightarrow> True"
| "acquiring _ \<longleftrightarrow> False"

definition pool_inv :: "PoolThreads \<Rightarrow> u32 list \<Rightarrow> bool" where
  "pool_inv s fs \<longleftrightarrow> ppool_ok (pshared s) fs \<and>
     (\<forall>t. pool_pc_ok (pslots (pshared s)) fs (pcs s t)) \<and> (\<forall>t. acquiring (pcs s t) \<longrightarrow> t = 0) \<and>
     (\<forall>t u. t \<noteq> u \<longrightarrow> returning (pcs s t) \<inter> returning (pcs s u) = {}) \<and>
     set fs \<inter> held s = {} \<and> set fs \<inter> in_flight s = {} \<and> held s \<inter> in_flight s = {} \<and>
     set fs \<union> held s \<union> in_flight s = pool_slots (pshared s)"

lemma in_flight_upd:
  "in_flight (s\<lparr>pcs := (pcs s)(t := pc)\<rparr>) = returning pc \<union> (\<Union>u\<in>- {t}. returning (pcs s u))"
  by (auto simp: in_flight_def split: if_splits)

lemma in_flight_other: "in_flight s = returning (pcs s t) \<union> (\<Union>u\<in>- {t}. returning (pcs s u))"
  by (auto simp: in_flight_def)

lemma acq_test_cases [simp]: "returning (acq_test h) = {}" "acquiring (acq_test h) = (h \<noteq> kPoolInvalid)"
  by (simp_all add: acq_test_def)

lemma acq_test_ok: "ppool_ok p fs \<Longrightarrow> pool_pc_ok (pslots p) fs (acq_test (pfree p))"
  using pchain_head by (fastforce simp: acq_test_def ppool_ok_def)

lemma pool_invD:
  assumes "pool_inv s fs"
  shows "ppool_ok (pshared s) fs" "\<And>t. pool_pc_ok (pslots (pshared s)) fs (pcs s t)"
    "\<And>t. acquiring (pcs s t) \<Longrightarrow> t = 0" "\<And>t u. t \<noteq> u \<Longrightarrow> returning (pcs s t) \<inter> returning (pcs s u) = {}"
    "set fs \<inter> held s = {}" "set fs \<inter> in_flight s = {}" "held s \<inter> in_flight s = {}"
    "set fs \<union> held s \<union> in_flight s = pool_slots (pshared s)"
  using assms by (auto simp: pool_inv_def)

lemma slot_range: "x \<in> pool_slots p \<Longrightarrow> unat x < length (pslots p)"
  by (simp add: pool_slots_def)

lemma returning_in_flight: "i \<in> returning (pcs s t) \<Longrightarrow> i \<in> in_flight s"
  by (auto simp: in_flight_def)

text \<open>A thread that only moves on keeps the invariant.\<close>

lemma pool_inv_move:
  assumes inv: "pool_inv s fs" and "returning pc = returning (pcs s t)" and "pool_pc_ok (pslots (pshared s)) fs pc"
    and "acquiring pc \<Longrightarrow> t = 0"
  shows "pool_inv (s\<lparr>pcs := (pcs s)(t := pc)\<rparr>) fs"
proof -
  note D = pool_invD [OF inv]
  have "in_flight (s\<lparr>pcs := (pcs s)(t := pc)\<rparr>) = in_flight s"
    using assms(2) in_flight_other [of s t] by (simp add: in_flight_upd)
  then show ?thesis using D assms by (simp add: pool_inv_def)
qed

lemma pool_inv_acquired:
  assumes inv: "pool_inv s fs" and pc: "pcs s 0 = AcqNext h n" and head: "pfree (pshared s) = h"
  shows "pool_inv (s\<lparr>pshared := (pshared s)\<lparr>pfree := n\<rparr>, pcs := (pcs s)(0 := PoolIdle), held := insert h (held s)\<rparr>) (tl fs)"
    and "h \<notin> held s" "h \<notin> in_flight s"
proof -
  note D = pool_invD [OF inv]
  let ?p = "pshared s" and ?s = "s\<lparr>pshared := (pshared s)\<lparr>pfree := n\<rparr>, pcs := (pcs s)(0 := PoolIdle), held := insert h (held s)\<rparr>"
  have h: "h \<in> set fs" "nextFree (pslots ?p ! unat h) = n" using D(2) [of 0] pc by simp_all
  have ch: "pchain (pslots ?p) h fs" "distinct fs" using D(1) head by (auto simp: ppool_ok_def)
  have "h \<noteq> kPoolInvalid" using pchain_valid [OF ch(1) h(1)] by simp
  then obtain fs' where fs: "fs = h # fs'" "pchain (pslots ?p) n fs'" using pchain_head [OF _ ch(1)] h(2) by blast
  show nh: "h \<notin> held s" "h \<notin> in_flight s" using D(5,6) h(1) by auto
  have fl: "in_flight ?s = in_flight s"
    using in_flight_other [of s 0] pc by (auto simp: in_flight_def split: if_splits)
  have pcs_ok: "pool_pc_ok (pslots ?p) fs' (pcs s t)" if "t \<noteq> 0" for t
    using D(2,3) [of t] that by (cases "pcs s t") auto
  have "set fs' \<inter> insert h (held s) = {}" "set fs' \<inter> in_flight s = {}" "insert h (held s) \<inter> in_flight s = {}"
    "set fs' \<union> insert h (held s) \<union> in_flight s = pool_slots ?p"
    using D(5-8) ch(2) nh fs(1) by auto
  then show "pool_inv ?s (tl fs)"
    using D(1,3,4) fs ch(2) pcs_ok by (simp add: pool_inv_def fl ppool_ok_def pool_slots_def)
qed

lemma pool_inv_release:
  assumes inv: "pool_inv s fs" and pc: "pcs s t = PoolIdle" and idx: "idx \<in> held s"
  shows "pool_inv (s\<lparr>pcs := (pcs s)(t := RelHead idx h), held := held s - {idx}\<rparr>) fs"
proof -
  note D = pool_invD [OF inv]
  let ?s = "s\<lparr>pcs := (pcs s)(t := RelHead idx h), held := held s - {idx}\<rparr>"
  have fl: "in_flight ?s = insert idx (in_flight s)"
    using in_flight_other [of s t] pc by (auto simp: in_flight_def split: if_splits)
  have "idx \<notin> returning (pcs s u)" for u using D(7) idx returning_in_flight [of idx s u] by blast
  then have "returning (pcs ?s u) \<inter> returning (pcs ?s v) = {}" if "u \<noteq> v" for u v using D(4) that by simp
  moreover have "idx \<notin> set fs" using D(5) idx by blast
  ultimately show ?thesis using D idx unfolding pool_inv_def fl by auto
qed

lemma pool_inv_link:
  assumes inv: "pool_inv s fs" and pc: "pcs s t = RelHead i h"
  shows "pool_inv (s\<lparr>pshared := (pshared s)\<lparr>pslots := (pslots (pshared s))[unat i := (pslots (pshared s) ! unat i)\<lparr>nextFree := h\<rparr>]\<rparr>,
      pcs := (pcs s)(t := RelLinked i h)\<rparr>) fs" (is "pool_inv ?s fs")
proof -
  note D = pool_invD [OF inv]
  let ?ss = "pslots (pshared s)" and ?ss' = "(pslots (pshared s))[unat i := (pslots (pshared s) ! unat i)\<lparr>nextFree := h\<rparr>]"
  have fi: "i \<in> in_flight s" using returning_in_flight [of i s t] pc by simp
  then have i: "i \<notin> set fs" "unat i < length ?ss" using D(6,8) slot_range by blast+
  have "pchain ?ss' (pfree (pshared s)) fs = pchain ?ss (pfree (pshared s)) fs"
    by (rule pchain_frame) (use i in \<open>auto simp: nth_update_notin\<close>)
  then have ok: "ppool_ok (pshared ?s) fs" using D(1) by (simp add: ppool_ok_def)
  have "in_flight ?s = in_flight s"
    using in_flight_other [of s t] pc by (auto simp: in_flight_def split: if_splits)
  moreover have "pool_pc_ok ?ss' fs (pcs s u)" if "u \<noteq> t" for u
    using D(2) [of u] D(4) [OF that] i(1) pc by (cases "pcs s u") (auto simp: nth_update_notin)
  moreover have "i \<notin> returning (pcs s u)" if "u \<noteq> t" for u using D(4) [OF that] pc by auto
  ultimately show ?thesis using D ok pc i unfolding pool_inv_def by (auto simp: pool_slots_def)
qed

lemma pool_inv_returned:
  assumes inv: "pool_inv s fs" and pc: "pcs s t = RelLinked i h" and head: "pfree (pshared s) = h"
  shows "pool_inv (s\<lparr>pshared := (pshared s)\<lparr>pfree := i\<rparr>, pcs := (pcs s)(t := PoolIdle)\<rparr>) (i # fs)" (is "pool_inv ?s _")
proof -
  note D = pool_invD [OF inv]
  have fi: "i \<in> in_flight s" using returning_in_flight [of i s t] pc by simp
  have i: "i \<notin> set fs" "i \<in> pool_slots (pshared s)" "i \<notin> held s" using D(6,7,8) fi by blast+
  have "i \<noteq> kPoolInvalid" using i(2) D(1) invalid_not_slot by (auto simp: ppool_ok_def)
  then have ok: "ppool_ok (pshared ?s) (i # fs)"
    using D(1) D(2) [of t] pc head i by (auto simp: ppool_ok_def slot_range)
  have others: "i \<notin> returning (pcs s u)" if "u \<noteq> t" for u using D(4) [OF that] pc by auto
  then have "in_flight ?s = in_flight s - {i}"
    using in_flight_other [of s t] pc by (auto simp: in_flight_def split: if_splits)
  moreover have "pool_pc_ok (pslots (pshared s)) (i # fs) (pcs s u)" for u
    using D(2) [of u] by (cases "pcs s u") auto
  ultimately show ?thesis using D ok i unfolding pool_inv_def by (auto simp: pool_slots_def)
qed

lemma acquire_step_inv:
  assumes inv: "pool_inv s fs"
  shows "\<exists>s' fs'. acquire_step 0 b s = Some s' \<and> pool_inv s' fs'"
proof -
  note D = pool_invD [OF inv]
  have retry: "pool_inv (s\<lparr>pcs := (pcs s)(0 := acq_test (pfree (pshared s)))\<rparr>) fs" if "returning (pcs s 0) = {}"
    by (rule pool_inv_move [OF inv]) (use that acq_test_ok [OF D(1)] in simp_all)
  show ?thesis
  proof (cases "pcs s 0")
    case (AcqHead h)
    have "h \<in> pool_slots (pshared s)" using D(2) [of 0] D(8) AcqHead by auto
    moreover have "pool_inv (s\<lparr>pcs := (pcs s)(0 := AcqNext h (nextFree (pslots (pshared s) ! unat h)))\<rparr>) fs"
      by (rule pool_inv_move [OF inv]) (use D(2) [of 0] AcqHead in simp_all)
    ultimately show ?thesis using AcqHead by (auto simp: acquire_step_def slot_range vec_simps)
  next
    case (AcqNext h n)
    then show ?thesis using retry pool_inv_acquired(1) [OF inv AcqNext] by (auto simp: acquire_step_def Let_def)
  qed (use retry inv in \<open>auto simp: acquire_step_def Let_def\<close>)
qed

lemma release_step_inv:
  assumes inv: "pool_inv s fs" and idx: "idx \<in> held s \<or> pcs s t \<noteq> PoolIdle"
  shows "\<exists>s' fs'. release_step t idx b s = Some s' \<and> pool_inv s' fs'"
proof -
  note D = pool_invD [OF inv]
  show ?thesis
  proof (cases "pcs s t")
    case PoolIdle
    then show ?thesis using idx pool_inv_release [OF inv PoolIdle] by (auto simp: release_step_def)
  next
    case (RelHead i h)
    have "i \<in> pool_slots (pshared s)" using returning_in_flight [of i s t] D(8) RelHead by auto
    then show ?thesis using RelHead pool_inv_link [OF inv RelHead] by (auto simp: release_step_def slot_range vec_simps Let_def)
  next
    case (RelLinked i h)
    have "pool_inv (s\<lparr>pcs := (pcs s)(t := RelHead i (pfree (pshared s)))\<rparr>) fs"
      by (rule pool_inv_move [OF inv]) (use RelLinked in simp_all)
    then show ?thesis using RelLinked pool_inv_returned [OF inv RelLinked] by (auto simp: release_step_def Let_def)
  qed (use inv in \<open>auto simp: release_step_def\<close>)
qed

lemma pool_reachable_inv:
  assumes "pool_reachable p s" and "ppool_ok p fs0" and "set fs0 = pool_slots p"
  shows "\<exists>fs. pool_inv s fs"
  using assms(1)
proof (induction rule: pool_reachable.induct)
  case init
  show ?case using assms(2,3) by (auto simp: pool_inv_def in_flight_def)
next
  case (step s s')
  then obtain fs where inv: "pool_inv s fs" by blast
  from step.hyps(2) show ?case
    by (cases rule: pool_step1.cases) (use acquire_step_inv [OF inv] release_step_inv [OF inv] in \<open>metis option.inject\<close>)+
qed

lemma pool_step1_slots: "pool_step1 s s' \<Longrightarrow> length (pslots (pshared s')) = length (pslots (pshared s))"
  by (induction rule: pool_step1.induct)
    (auto simp: acquire_step_def release_step_def Let_def vec_put_def bind_eq_Some_conv split: pool_pc.splits if_splits)

lemma pool_reachable_slots: "pool_reachable p s \<Longrightarrow> length (pslots (pshared s)) = length (pslots p)"
  by (induction rule: pool_reachable.induct) (simp_all add: pool_step1_slots)

lemma PacketPool_new_slots:
  assumes "PacketPool_new n = Some p" and "n \<le> unat kPoolInvalid"
  shows "set (map of_nat [0..<n]) = pool_slots p"
proof -
  have "unat (of_nat i :: u32) = i" if "i < n" for i
    by (rule unat_of_nat_small) (use that assms(2) in \<open>simp add: kPoolInvalid_def\<close>)
  moreover have "x = of_nat (unat x)" for x :: u32 by (simp add: ucast_id)
  ultimately show ?thesis
    using PacketPool_new_ok(2) [OF assms] by (force simp: pool_slots_def image_iff)
qed

text \<open>Two threads that acquire at once can corrupt the list: thread 0 stops between its link read and
  its compare-exchange while thread 1 takes two slots and returns the first.\<close>

fun pool_run :: "(nat \<times> u32 option) list \<Rightarrow> PoolThreads \<Rightarrow> PoolThreads option" where
  "pool_run [] s = Some s"
| "pool_run ((t, None) # xs) s = do { s \<leftarrow> acquire_step t False s; pool_run xs s }"
| "pool_run ((t, Some i) # xs) s = do { s \<leftarrow> release_step t i False s; pool_run xs s }"

section \<open>Properties\<close>

lemma acquire_step_held:
  assumes "pool_inv s fs" and "acquire_step 0 b s = Some s'"
  shows "held s' = held s \<or> (\<exists>h \<in> set fs. held s' = insert h (held s))"
proof (cases "pcs s 0")
  case (AcqNext h n)
  then have "h \<in> set fs" using pool_invD(2) [OF assms(1), of 0] by simp
  then show ?thesis using assms(2) AcqNext by (auto simp: acquire_step_def Let_def split: if_splits)
qed (use assms(2) in \<open>auto simp: acquire_step_def Let_def split: bind_splits\<close>)

text \<open>C16: While one thread acquires and any number of threads release, in every interleaving of their
  accesses and under every pattern of spurious failures each slot of the pool is free, held or on
  its way back, and only one of these; a slot handed out was free; no access is outside the array.\<close>

theorem pool_slots_have_one_owner:
  assumes "PacketPool_new n = Some p" and "n \<le> unat kPoolInvalid" and "pool_reachable p s"
  shows "\<exists>fs. ppool_ok (pshared s) fs \<and> set fs \<inter> held s = {} \<and> set fs \<inter> in_flight s = {} \<and> held s \<inter> in_flight s = {} \<and>
    set fs \<union> held s \<union> in_flight s = {i. unat i < n} \<and>
    (\<exists>s'. acquire_step 0 b s = Some s' \<and> (held s' = held s \<or> (\<exists>h \<in> set fs. held s' = insert h (held s))))"
proof -
  note new = PacketPool_new_ok [OF assms(1,2)] PacketPool_new_slots [OF assms(1,2)]
  obtain fs where inv: "pool_inv s fs" using pool_reachable_inv [OF assms(3) new(1,3)] by blast
  note D = pool_invD [OF inv]
  obtain s' where "acquire_step 0 b s = Some s'" using acquire_step_inv [OF inv] by blast
  moreover from this have "held s' = held s \<or> (\<exists>h \<in> set fs. held s' = insert h (held s))"
    by (rule acquire_step_held [OF inv])
  moreover have "pool_slots (pshared s) = {i. unat i < n}"
    using pool_reachable_slots [OF assms(3)] new(2) by (simp add: pool_slots_def)
  ultimately show ?thesis using D(1,5-8) by metis
qed

theorem pool_slots_have_one_owner_witness:
  "\<exists>p s fs. PacketPool_new 2 = Some p \<and> pool_reachable p s \<and> pcs s 0 = AcqHead 0 \<and> ppool_ok (pshared s) fs \<and>
     set fs \<union> held s \<union> in_flight s = {i. unat i < 2}"
proof -
  obtain p where p: "PacketPool_new 2 = Some p" "pfree p = 0" by (simp add: PacketPool_new_def Let_def)
  let ?s0 = "\<lparr>pshared = p, pcs = (\<lambda>t. PoolIdle), held = {}\<rparr>"
  let ?s1 = "?s0\<lparr>pcs := (pcs ?s0)(0 := AcqHead 0)\<rparr>"
  have "acquire_step 0 False ?s0 = Some ?s1" by (simp add: acquire_step_def acq_test_def p(2) kPoolInvalid_def)
  then have r: "pool_reachable p ?s1" by (blast intro: pool_reachable.intros pool_step1.acq)
  have "2 \<le> unat kPoolInvalid" by (simp add: kPoolInvalid_def)
  from pool_slots_have_one_owner [OF p(1) this r, of False] obtain fs where
    "ppool_ok (pshared ?s1) fs" "set fs \<union> held ?s1 \<union> in_flight ?s1 = {i. unat i < 2}" by blast
  with p(1) r show ?thesis by (intro exI [of _ p] exI [of _ ?s1] exI [of _ fs]) simp
qed

text \<open>With two acquiring threads the pool is not safe: in a pool of three slots there is an interleaving,
  without spurious failures, after which a thread holds a slot that is still the head of the free list,
  so that the next acquisition hands it out again.\<close>

lemma two_acquirers_share_a_slot:
  "\<exists>p s. PacketPool_new 3 = Some p \<and>
     pool_run [(0, None), (0, None), (1, None), (1, None), (1, None), (1, None), (1, None), (1, None),
       (1, Some 0), (1, Some 0), (1, Some 0), (0, None)]
       \<lparr>pshared = p, pcs = (\<lambda>t. PoolIdle), held = {}\<rparr> = Some s \<and>
     1 \<in> held s \<and> pfree (pshared s) = 1"
  by (simp add: PacketPool_new_def acquire_step_def release_step_def acq_test_def vec_at_def vec_put_def
      kPoolInvalid_def link_slot_def numeral_3_eq_3 Let_def upt_rec)

end
