(* ===== verification/Feed_Handler.thy ===== *)
theory Feed_Handler
  imports Mold_Udp64 Spsc_Ring Packet_Pool
begin

text \<open>
  The network thread (\<^verbatim>\<open>include/feed_handler.hpp\<close>, \<^verbatim>\<open>src/feed_handler.cpp\<close>).  The sequence tracker
  decides what becomes of a packet; \<open>net_step\<close> is one step of the receive loop, cut at its calls of
  the pool and the ring, between which the matching thread may run.  What the socket returns and
  the time stamps are arguments.
\<close>

section \<open>Model\<close>

record PacketRef =
  refIdx :: u32
  tWireCycles :: u64

record FeedStats =
  packetsReceived :: u64
  packetsDropped :: u64
  bytesReceived :: u64
  gapsDetected :: u64
  duplicatesIgnored :: u64
  endOfSession :: u64

definition FeedStats_new :: FeedStats where
  "FeedStats_new = \<lparr>packetsReceived = 0, packetsDropped = 0, bytesReceived = 0, gapsDetected = 0,
     duplicatesIgnored = 0, endOfSession = 0\<rparr>"

text \<open>The three locals of the loop that track the session.\<close>

record SeqTracker =
  activeSession :: bytes
  sessionInit :: bool
  nextExpected :: u64

definition SeqTracker_new :: SeqTracker where
  "SeqTracker_new = \<lparr>activeSession = replicate 10 0, sessionInit = False, nextExpected = 1\<rparr>"

datatype verdict = EndSession | Heartbeat | Duplicate | Accept

text \<open>From the parsed header on: what the loop decides, with its counters.\<close>

definition trackHeader :: "MoldHeader \<Rightarrow> SeqTracker \<Rightarrow> FeedStats \<Rightarrow> verdict \<times> SeqTracker \<times> FeedStats" where
  "trackHeader hdr k st =
     (let k = (if \<not> sessionInit k
        then k\<lparr>activeSession := session hdr, sessionInit := True, nextExpected := sequenceNumber hdr\<rparr> else k) in
      if messageCount hdr = kMoldEndOfSession then (EndSession, k, st\<lparr>endOfSession := endOfSession st + 1\<rparr>)
      else if messageCount hdr = kMoldHeartbeat then (Heartbeat, k, st)
      else if sequenceNumber hdr < nextExpected k
      then (Duplicate, k, st\<lparr>duplicatesIgnored := duplicatesIgnored st + 1\<rparr>)
      else
        (let (k, st) = (if sequenceNumber hdr > nextExpected k
               then (k\<lparr>nextExpected := sequenceNumber hdr\<rparr>, st\<lparr>gapsDetected := gapsDetected st + 1\<rparr>) else (k, st))
         in (Accept, k\<lparr>nextExpected := nextExpected k + ucast (messageCount hdr)\<rparr>, st)))"

text \<open>What \<open>recv\<close> returns: a datagram, an interrupted call, or another error.\<close>

datatype recv_result = Datagram bytes | Interrupted | Failed

text \<open>Where the loop goes after giving a slot back.\<close>

datatype after_release = Continue | Break | SendSentinel u64

datatype net_pc =
    NetTop
  | NetScratch
  | NetRecv u32
  | NetPush u32 u64
  | NetDrop u32
  | NetRelease u32 after_release
  | NetSentinel u64
  | NetDone

text \<open>What both threads share.\<close>

record Shared =
  spool :: PacketPool
  sring :: "PacketRef SpscRing"
  sstop :: bool

record NetThread =
  npc :: net_pc
  tracker :: SeqTracker
  nstats :: FeedStats

text \<open>The loop starts if the socket could be set up, else the function returns.\<close>

definition NetThread_new :: "bool \<Rightarrow> NetThread" where
  "NetThread_new setup_ok =
     \<lparr>npc = (if setup_ok then NetTop else NetDone), tracker = SeqTracker_new, nstats = FeedStats_new\<rparr>"

text \<open>\<open>recv\<close> into a buffer of \<open>kMaxPacketBytes\<close>: a longer datagram is cut off.\<close>

definition recv_into :: "bytes \<Rightarrow> bytes \<Rightarrow> nat \<times> bytes" where
  "recv_into datagram buf =
     (let d = take kMaxPacketBytes datagram in (length d, d @ drop (length d) buf))"

definition countReceived :: "nat \<Rightarrow> FeedStats \<Rightarrow> FeedStats" where
  "countReceived n st = st\<lparr>packetsReceived := packetsReceived st + 1, bytesReceived := bytesReceived st + of_nat n\<rparr>"

definition countDropped :: "FeedStats \<Rightarrow> FeedStats" where
  "countDropped st = st\<lparr>packetsDropped := packetsDropped st + 1\<rparr>"

text \<open>A packet received into the slot \<open>slotIdx\<close>.\<close>

definition net_receive :: "bytes \<Rightarrow> u64 \<Rightarrow> u32 \<Rightarrow> Shared \<times> NetThread \<Rightarrow> (Shared \<times> NetThread) option" where
  "net_receive datagram tWire slotIdx = (\<lambda>(sh, t). do {
     slot \<leftarrow> vec_at (pslots (spool sh)) slotIdx;
     let (n, buf) = recv_into datagram (sdata slot);
     if n < kMoldHeaderBytes then do {
       ss \<leftarrow> vec_put (pslots (spool sh)) slotIdx (slot\<lparr>sdata := buf\<rparr>);
       Some (sh\<lparr>spool := (spool sh)\<lparr>pslots := ss\<rparr>\<rparr>, t\<lparr>npc := NetRelease slotIdx Continue\<rparr>) }
     else do {
       ss \<leftarrow> vec_put (pslots (spool sh)) slotIdx (slot\<lparr>sdata := buf, slength := of_nat n\<rparr>);
       hdr \<leftarrow> parseMoldHeader buf;
       let (v, k, st) = trackHeader hdr (tracker t) (countReceived n (nstats t));
       Some (sh\<lparr>spool := (spool sh)\<lparr>pslots := ss\<rparr>\<rparr>,
             \<lparr>npc = (case v of
                 EndSession \<Rightarrow> NetRelease slotIdx (SendSentinel tWire)
               | Heartbeat \<Rightarrow> NetRelease slotIdx Continue
               | Duplicate \<Rightarrow> NetRelease slotIdx Continue
               | Accept \<Rightarrow> NetPush slotIdx tWire),
              tracker = k, nstats = st\<rparr>) } })"

definition net_step :: "recv_result \<Rightarrow> u64 \<Rightarrow> Shared \<times> NetThread \<Rightarrow> (Shared \<times> NetThread) option" where
  "net_step inp tWire = (\<lambda>(sh, t). case npc t of
      NetTop \<Rightarrow>
        (if sstop sh then Some (sh, t\<lparr>npc := NetDone\<rparr>)
         else do {
           (slotIdx, p) \<leftarrow> acquire (spool sh);
           Some (sh\<lparr>spool := p\<rparr>, t\<lparr>npc := (if slotIdx = kPoolInvalid then NetScratch else NetRecv slotIdx)\<rparr>) })
    | NetScratch \<Rightarrow>
        (case inp of
           Datagram d \<Rightarrow>
             (let n = length (take kMaxPacketBytes d) in
              if n = 0 then Some (sh, t\<lparr>npc := NetTop\<rparr>)
              else Some (sh, t\<lparr>npc := NetTop, nstats := countDropped (countReceived n (nstats t))\<rparr>))
         | _ \<Rightarrow> Some (sh, t\<lparr>npc := NetTop\<rparr>))
    | NetRecv slotIdx \<Rightarrow>
        (case inp of
           Datagram d \<Rightarrow> net_receive d tWire slotIdx (sh, t)
         | Interrupted \<Rightarrow> Some (sh, t\<lparr>npc := NetRelease slotIdx Continue\<rparr>)
         | Failed \<Rightarrow> Some (sh, t\<lparr>npc := NetRelease slotIdx Break\<rparr>))
    | NetPush slotIdx tw \<Rightarrow> do {
        (ok, r) \<leftarrow> ring_push (sring sh) \<lparr>refIdx = slotIdx, tWireCycles = tw\<rparr>;
        Some (sh\<lparr>sring := r\<rparr>, t\<lparr>npc := (if ok then NetTop else NetDrop slotIdx)\<rparr>) }
    | NetDrop slotIdx \<Rightarrow> do {
        p \<leftarrow> release (spool sh) slotIdx;
        Some (sh\<lparr>spool := p\<rparr>, t\<lparr>npc := NetTop, nstats := countDropped (nstats t)\<rparr>) }
    | NetRelease slotIdx k \<Rightarrow> do {
        p \<leftarrow> release (spool sh) slotIdx;
        Some (sh\<lparr>spool := p\<rparr>,
              t\<lparr>npc := (case k of Continue \<Rightarrow> NetTop | Break \<Rightarrow> NetDone | SendSentinel tw \<Rightarrow> NetSentinel tw)\<rparr>) }
    | NetSentinel tw \<Rightarrow> do {
        (ok, r) \<leftarrow> ring_push (sring sh) \<lparr>refIdx = kPoolInvalid, tWireCycles = tw\<rparr>;
        Some (sh\<lparr>sring := r\<rparr>, t\<lparr>npc := (if ok \<or> sstop sh then NetDone else NetSentinel tw)\<rparr>) }
    | NetDone \<Rightarrow> Some (sh, t))"

text \<open>Receiving into a slot is always defined.\<close>

lemma net_receive_total:
  assumes "unat i < length (pslots (spool sh))"
  shows "\<exists>sh' n'. net_receive d w i (sh, n) = Some (sh', n')"
proof -
  obtain m buf where rv: "recv_into d (sdata (pslots (spool sh) ! unat i)) = (m, buf)" by fastforce
  show ?thesis
  proof (cases "m < kMoldHeaderBytes")
    case True
    then show ?thesis using assms rv by (simp add: net_receive_def vec_simps)
  next
    case False
    moreover have "m \<le> length buf" using rv by (auto simp: recv_into_def Let_def)
    ultimately obtain h where h: "parseMoldHeader buf = Some h" using parse_total [of buf] by auto
    obtain v k st where "trackHeader h (tracker n) (countReceived m (nstats n)) = (v, k, st)" by (metis prod_cases3)
    then show ?thesis using assms rv False h by (simp add: net_receive_def vec_simps)
  qed
qed

section \<open>The tracker on a stream of headers\<close>

fun track_all :: "MoldHeader list \<Rightarrow> SeqTracker \<Rightarrow> FeedStats \<Rightarrow> MoldHeader list \<times> SeqTracker \<times> FeedStats" where
  "track_all [] k st = ([], k, st)"
| "track_all (hdr # hdrs) k st =
     (let (v, k, st) = trackHeader hdr k st; (acc, k, st) = track_all hdrs k st
      in (if v = Accept then hdr # acc else acc, k, st))"

definition last_number :: "MoldHeader \<Rightarrow> nat" where
  "last_number h = unat (sequenceNumber h) + unat (messageCount h)"

text \<open>A header whose message numbers do not run past 64 bits.\<close>

definition no_wrap :: "MoldHeader \<Rightarrow> bool" where
  "no_wrap h \<longleftrightarrow> last_number h < 2 ^ 64"

lemma unat_up16: "unat (ucast (w :: u16) :: u64) = unat w"
proof -
  have "unat w < 2 ^ 64" using unsigned_less [of w, where 'a = nat] by simp
  then show ?thesis by (simp add: unsigned_ucast_eq take_bit_nat_eq_self)
qed

lemma unat_next:
  assumes "no_wrap h"
  shows "unat (sequenceNumber h + ucast (messageCount h)) = last_number h"
  using assms by (simp add: no_wrap_def last_number_def unat_word_ariths unat_up16)

text \<open>One decision, once the session is known.\<close>

lemma trackHeader_init:
  assumes "trackHeader h k st = (v, k', st')"
  shows "sessionInit k'"
  using assms by (auto simp: trackHeader_def Let_def split: if_splits)

lemma trackHeader_accept:
  assumes "trackHeader h k st = (v, k', st')" and "sessionInit k" and "no_wrap h"
  shows "if v = Accept then unat (nextExpected k) \<le> unat (sequenceNumber h) \<and> unat (nextExpected k') = last_number h
    else nextExpected k' = nextExpected k"
proof -
  have "sequenceNumber h = nextExpected k" if "\<not> sequenceNumber h < nextExpected k" "\<not> nextExpected k < sequenceNumber h"
    using that by simp
  then show ?thesis
    using assms(1,2) unat_next [OF assms(3)]
    by (auto simp: trackHeader_def Let_def word_less_nat_alt word_le_nat_alt split: if_splits)
qed

lemma track_all_increasing:
  assumes "track_all hdrs k st = (acc, k', st')" and "sessionInit k" and "list_all no_wrap hdrs"
  shows "sorted_wrt (\<lambda>a b. last_number a \<le> unat (sequenceNumber b)) acc \<and>
    list_all (\<lambda>h. unat (nextExpected k) \<le> unat (sequenceNumber h)) acc"
  using assms
proof (induction hdrs arbitrary: k st acc)
  case (Cons h hdrs)
  obtain v k1 st1 where 1: "trackHeader h k st = (v, k1, st1)" by (metis prod_cases3)
  obtain acc1 where 2: "track_all hdrs k1 st1 = (acc1, k', st')" "acc = (if v = Accept then h # acc1 else acc1)"
    using Cons.prems(1) 1 by (auto split: prod.splits)
  have "no_wrap h" using Cons.prems(3) by simp
  note t = trackHeader_accept [OF 1 Cons.prems(2) this]
  have ih: "sorted_wrt (\<lambda>a b. last_number a \<le> unat (sequenceNumber b)) acc1"
    "list_all (\<lambda>h. unat (nextExpected k1) \<le> unat (sequenceNumber h)) acc1"
    using Cons.IH [OF 2(1) trackHeader_init [OF 1]] Cons.prems(3) by auto
  show ?case
  proof (cases "v = Accept")
    case True
    then have "unat (nextExpected k1) = last_number h" "unat (nextExpected k) \<le> unat (sequenceNumber h)" using t by simp_all
    moreover have "unat (sequenceNumber h) \<le> last_number h" by (simp add: last_number_def)
    ultimately show ?thesis using ih 2(2) True by (auto simp: list_all_iff)
  next
    case False
    then show ?thesis using t ih 2(2) by simp
  qed
qed simp

text \<open>The first header fixes the session and the number expected.\<close>

lemma trackHeader_first:
  assumes "\<not> sessionInit k"
  shows "trackHeader h k st =
    trackHeader h (k\<lparr>activeSession := session h, sessionInit := True, nextExpected := sequenceNumber h\<rparr>) st"
  using assms by (simp add: trackHeader_def)

definition is_data :: "MoldHeader \<Rightarrow> bool" where
  "is_data h \<longleftrightarrow> messageCount h \<noteq> kMoldEndOfSession \<and> messageCount h \<noteq> kMoldHeartbeat"

text \<open>A stream that carries on at number \<open>n\<close>; a heartbeat or an end-of-session marker names the next number.\<close>

fun unbroken :: "u64 \<Rightarrow> MoldHeader list \<Rightarrow> bool" where
  "unbroken n [] \<longleftrightarrow> True"
| "unbroken n (h # hs) \<longleftrightarrow> sequenceNumber h = n \<and> unbroken (if is_data h then n + ucast (messageCount h) else n) hs"

lemma trackHeader_in_sequence:
  assumes "sessionInit k \<Longrightarrow> nextExpected k = sequenceNumber h"
  obtains v k' st' where "trackHeader h k st = (v, k', st')" "v = Accept \<longleftrightarrow> is_data h" "sessionInit k'"
    "nextExpected k' = (if is_data h then sequenceNumber h + ucast (messageCount h) else sequenceNumber h)"
    "gapsDetected st' = gapsDetected st" "duplicatesIgnored st' = duplicatesIgnored st"
proof -
  obtain v k' st' where T: "trackHeader h k st = (v, k', st')" by (metis prod_cases3)
  show ?thesis
    by (rule that [OF T]; use T assms in \<open>cases "sessionInit k"; auto simp: trackHeader_def is_data_def Let_def split: if_splits\<close>)
qed

lemma track_all_unbroken:
  assumes "unbroken n hdrs" and "sessionInit k \<Longrightarrow> nextExpected k = n"
  shows "\<exists>k' st'. track_all hdrs k st = (filter is_data hdrs, k', st') \<and> gapsDetected st' = gapsDetected st \<and>
    duplicatesIgnored st' = duplicatesIgnored st"
  using assms
proof (induction hdrs arbitrary: n k st)
  case (Cons h hdrs)
  have k: "sessionInit k \<Longrightarrow> nextExpected k = sequenceNumber h" using Cons.prems by simp
  obtain v k1 st1 where 1: "trackHeader h k st = (v, k1, st1)" "v = Accept \<longleftrightarrow> is_data h" "sessionInit k1"
    "nextExpected k1 = (if is_data h then sequenceNumber h + ucast (messageCount h) else sequenceNumber h)"
    "gapsDetected st1 = gapsDetected st" "duplicatesIgnored st1 = duplicatesIgnored st"
    by (rule trackHeader_in_sequence [OF k])
  have "unbroken (nextExpected k1) hdrs" using Cons.prems(1) 1(4) by (simp split: if_splits)
  from Cons.IH [OF this, of k1 st1] show ?case using 1 by auto
qed simp

section \<open>Properties\<close>


definition hdr :: "u64 \<Rightarrow> u16 \<Rightarrow> MoldHeader" where
  "hdr n c = \<lparr>session = replicate 10 65, sequenceNumber = n, messageCount = c\<rparr>"


text \<open>Behind the last number a session can have, the numbers of accepted packets start again.\<close>

lemma accepted_numbers_wrap:
  "\<exists>k st. track_all [hdr (- 1) 2, hdr 1 1] SeqTracker_new FeedStats_new = ([hdr (- 1) 2, hdr 1 1], k, st) \<and> gapsDetected st = 0"
  by (simp add: trackHeader_def hdr_def SeqTracker_new_def FeedStats_new_def kMoldEndOfSession_def kMoldHeartbeat_def)

text \<open>Accepting a packet moves the tracker behind it.\<close>

lemma accepted_moves_tracker:
  assumes "net_receive d w i (sh0, t0) = Some (sh1, t)" and "npc t = NetPush i w" and "parseMoldHeader d = Some hd0"
  shows "sessionInit (tracker t)" "nextExpected (tracker t) = sequenceNumber hd0 + ucast (messageCount hd0)"
    "packetsDropped (nstats t) = packetsDropped (nstats t0)"
proof -
  let ?p = "take kMaxPacketBytes d"
  obtain slot where slot: "vec_at (pslots (spool sh0)) i = Some slot" using assms(1) by (auto simp: net_receive_def split: bind_splits)
  let ?buf = "?p @ drop (length ?p) (sdata slot)"
  have rv: "recv_into d (sdata slot) = (length ?p, ?buf)" by (simp add: recv_into_def Let_def)
  have long: "kMoldHeaderBytes \<le> length ?p"
    using assms(1,2) slot rv by (auto simp: net_receive_def split: bind_splits if_splits)
  have "parseMoldHeader ?buf = parseMoldHeader d" using parse_prefix [OF long] by (metis append_take_drop_id)
  then have h: "parseMoldHeader ?buf = Some hd0" using assms(3) by simp
  obtain v k st where T: "trackHeader hd0 (tracker t0) (countReceived (length ?p) (nstats t0)) = (v, k, st)" by (metis prod_cases3)
  have eq: "sequenceNumber hd0 = nextExpected (tracker t0)"
    if "\<not> sequenceNumber hd0 < nextExpected (tracker t0)" "\<not> nextExpected (tracker t0) < sequenceNumber hd0" using that by simp
  have K: "sessionInit k \<and> nextExpected k = sequenceNumber hd0 + ucast (messageCount hd0) \<and> packetsDropped st = packetsDropped (nstats t0)"
    if "v = Accept" using T that eq by (auto simp: trackHeader_def countReceived_def Let_def split: if_splits)
  have "unat i < length (pslots (spool sh0))" using slot by (simp add: vec_at_eq_Some)
  then have "t = \<lparr>npc = (case v of EndSession \<Rightarrow> NetRelease i (SendSentinel w) | Heartbeat \<Rightarrow> NetRelease i Continue
        | Duplicate \<Rightarrow> NetRelease i Continue | Accept \<Rightarrow> NetPush i w), tracker = k, nstats = st\<rparr>"
    using assms(1) slot rv long h T by (simp add: net_receive_def vec_simps del: length_take)
  then have "v = Accept" "tracker t = k" "nstats t = st" using assms(2) by (auto split: verdict.splits)
  then show "sessionInit (tracker t)" "nextExpected (tracker t) = sequenceNumber hd0 + ucast (messageCount hd0)"
    "packetsDropped (nstats t) = packetsDropped (nstats t0)" using K by simp_all
qed

text \<open>C30: A packet that was accepted and then does not fit into the ring is dropped and counted, and its slot is given back;
  the tracker moved past it when it was accepted, so the packet that follows it in sequence is accepted without a gap
  being counted: the loss is not detected.  Between acceptance and push the matching thread may change ring and pool.\<close>

theorem ring_full_loss_undetected:
  assumes "npc t0 = NetRecv slotIdx" and "net_step (Datagram d) w (sh0, t0) = Some (sh1, t)" and "npc t = NetPush slotIdx w"
    and "parseMoldHeader d = Some hd0"
    and "ring_ok (sring sh)" and "length (ring_queue (sring sh)) = ring_cap (sring sh)"
    and "ppool_ok (spool sh) fs" and "slotIdx \<in> pool_slots (spool sh)" and "slotIdx \<notin> set fs"
    and "sequenceNumber h = sequenceNumber hd0 + ucast (messageCount hd0)" and "is_data h"
  shows "\<exists>sh' t'. Option.bind (net_step i1 w1 (sh, t)) (net_step i2 w2) = Some (sh', t') \<and>
    npc t' = NetTop \<and> sring sh' = sring sh \<and> ppool_ok (spool sh') (slotIdx # fs) \<and>
    packetsDropped (nstats t') = packetsDropped (nstats t0) + 1 \<and>
    (\<exists>k st. trackHeader h (tracker t') (nstats t') = (Accept, k, st) \<and> gapsDetected st = gapsDetected (nstats t))"
proof -
  have "net_receive d w slotIdx (sh0, t0) = Some (sh1, t)" using assms(1,2) by (simp add: net_step_def)
  note A = accepted_moves_tracker [OF this assms(3,4)]
  have push: "ring_push (sring sh) x = Some (False, sring sh)" for x by (rule spsc.push_full [OF assms(5,6)])
  obtain p where p: "release (spool sh) slotIdx = Some p" "ppool_ok p (slotIdx # fs)"
    using packet_pool.release_ok [OF assms(7-9)] by blast
  let ?t = "t\<lparr>npc := NetTop, nstats := countDropped (nstats t)\<rparr>"
  have "Option.bind (net_step i1 w1 (sh, t)) (net_step i2 w2) = Some (sh\<lparr>spool := p\<rparr>, ?t)"
    using assms(3) push p(1) by (simp add: net_step_def)
  moreover obtain v k st where "trackHeader h (tracker t) (countDropped (nstats t)) = (v, k, st)" "v = Accept"
    "gapsDetected st = gapsDetected (nstats t)"
    by (rule trackHeader_in_sequence [of "tracker t" h "countDropped (nstats t)"])
      (use A(2) assms(10,11) in \<open>auto simp: countDropped_def\<close>)
  ultimately show ?thesis using p(2) A(3) by (auto simp: countDropped_def)
qed

theorem ring_full_loss_undetected_witness:
  "\<exists>sh t t0 sh' t'. npc t0 = NetRecv 0 \<and> net_step (Datagram (mold_header_bytes (replicate 10 65) 8 1)) 5 (sh, t0) = Some (sh, t) \<and>
     Option.bind (net_step Failed 0 (sh, t)) (net_step Failed 0) = Some (sh', t') \<and> npc t' = NetTop \<and>
     (\<exists>k st. trackHeader (hdr 9 1) (tracker t') (nstats t') = (Accept, k, st) \<and> gapsDetected st = 0) \<and> packetsDropped (nstats t') = 1"
proof -
  let ?d = "mold_header_bytes (replicate 10 65) 8 1" and ?rcv = "(NetThread_new True)\<lparr>npc := NetRecv 0\<rparr>"
  let ?v = "\<lparr>refIdx = 0, tWireCycles = 0\<rparr>"
  obtain r where r: "SpscRing_new ?v 1 = Some r" by (simp add: SpscRing_new_def)
  note rok = SpscRing_new_ok [OF r]
  let ?slot = "\<lparr>sdata = ?d, slength = 20, nextFree = kPoolInvalid\<rparr>" and ?p = "\<lparr>pslots = [\<lparr>sdata = ?d, slength = 20, nextFree = kPoolInvalid\<rparr>], pfree = kPoolInvalid\<rparr>"
  let ?sh = "\<lparr>spool = ?p, sring = r, sstop = False\<rparr>"
  let ?t = "\<lparr>npc = NetPush 0 5, tracker = \<lparr>activeSession = replicate 10 65, sessionInit = True, nextExpected = 9\<rparr>,
    nstats = FeedStats_new\<lparr>packetsReceived := 1, bytesReceived := 20\<rparr>\<rparr>"
  have len: "length ?d = 20" by simp
  have hd0: "parseMoldHeader ?d = Some \<lparr>session = replicate 10 65, sequenceNumber = 8, messageCount = 1\<rparr>"
    using parse_header [of "replicate 10 65" 8 1 "[]"] by simp
  have "recv_into ?d ?d = (20, ?d)" using len by (simp add: recv_into_def kMaxPacketBytes_def Let_def)
  then have run: "net_step (Datagram ?d) 5 (?sh, ?rcv) = Some (?sh, ?t)"
    using hd0 by (simp add: net_step_def net_receive_def NetThread_new_def vec_simps trackHeader_def countReceived_def SeqTracker_new_def
      FeedStats_new_def kMoldHeaderBytes_def kMoldEndOfSession_def kMoldHeartbeat_def)
  have pool: "ppool_ok (spool ?sh) []" "0 \<in> pool_slots (spool ?sh)" by (simp_all add: ppool_ok_def pool_slots_def kPoolInvalid_def)
  have nxt: "is_data (hdr 9 1)" "sequenceNumber (hdr 9 1) = 8 + ucast (1 :: u16)"
    by (simp_all add: is_data_def hdr_def kMoldEndOfSession_def kMoldHeartbeat_def)
  have "\<exists>sh' t'. Option.bind (net_step Failed 0 (?sh, ?t)) (net_step Failed 0) = Some (sh', t') \<and> npc t' = NetTop \<and>
    sring sh' = sring ?sh \<and> ppool_ok (spool sh') [0] \<and> packetsDropped (nstats t') = packetsDropped (nstats ?rcv) + 1 \<and>
    (\<exists>k st. trackHeader (hdr 9 1) (tracker t') (nstats t') = (Accept, k, st) \<and> gapsDetected st = gapsDetected (nstats ?t))"
    by (rule ring_full_loss_undetected [OF _ run _ hd0]) (use rok pool nxt in simp_all)
  then obtain sh' t' where "Option.bind (net_step Failed 0 (?sh, ?t)) (net_step Failed 0) = Some (sh', t')" "npc t' = NetTop"
    "packetsDropped (nstats t') = 1" "\<exists>k st. trackHeader (hdr 9 1) (tracker t') (nstats t') = (Accept, k, st) \<and> gapsDetected st = 0"
    by (auto simp: NetThread_new_def FeedStats_new_def)
  moreover have "npc ?rcv = NetRecv 0" by simp
  ultimately show ?thesis using run by blast
qed

end
