(* ===== verification/Handover.thy ===== *)
theory Handover
  imports Release_Acquire Feed_Handler "HOL-Library.Multiset"
begin

text \<open>
  How packets are handed from the network thread to the matching thread and their buffers back, on the
  memory of \<^theory_text>\<open>Release_Acquire\<close>: every access of \<open>SpscRing::push\<close> and \<open>pop\<close>
  (\<^verbatim>\<open>include/spsc_ring.hpp\<close>) and of \<open>PacketPool::acquire\<close> and \<open>release\<close> (\<^verbatim>\<open>include/packet_pool.hpp\<close>) with the
  memory order it has in the code, and the accesses of both threads to the buffers themselves.  The
  network thread is either of the two in the program: what it does between its calls is its choice.
\<close>

section \<open>Memory\<close>

datatype atomic = RingHead | RingTail | FreeHead

text \<open>The plain locations: a cell of the ring, the link and the packet of a buffer slot.\<close>

datatype location = RingCell nat | Link u32 | Packet u32

type_synonym tview = "atomic view"

record Memory =
  mlog :: "location accesses"
  mhead :: "(u64, atomic) history"
  mtail :: "(u64, atomic) history"
  mfree :: "(u32, atomic) history"
  mmask :: u64
  mcells :: "PacketRef list"
  mslots :: "BufferSlot list"

text \<open>Ring and pool as the constructors leave them, before the threads start.\<close>

definition Memory_new :: "PacketRef SpscRing \<Rightarrow> PacketPool \<Rightarrow> Memory" where
  "Memory_new r p = \<lparr>mlog = [], mhead = [(rhead r, view_new)], mtail = [(rtail r, view_new)],
     mfree = [(pfree p, view_new)], mmask = rmask r, mcells = rbuffer r, mslots = pslots p\<rparr>"

text \<open>A call that is still running, or has returned.\<close>

datatype ('pc, 'r) call = Running 'pc | Returned 'r

section \<open>Ring calls, access by access\<close>

text \<open>\<open>back\<close> chooses among the stores a load may return.\<close>

definition push_access :: "nat \<Rightarrow> PacketRef \<Rightarrow> PacketRef push_pc \<Rightarrow> Memory \<times> tview \<Rightarrow>
    (Memory \<times> tview \<times> (PacketRef push_pc, bool) call) option" where
  "push_access back value pc = (\<lambda>(m, V). case pc of
      PushIdle \<Rightarrow> (let (t, V) = relaxed_load back RingTail (mtail m) V in Some (m, V, Running (PushTail value t)))
    | PushTail v t \<Rightarrow>
        (let (h, V) = acquire_load back RingHead (mhead m) V in
         Some (m, V, if (t + 1) AND mmask m = h then Returned False else Running (PushRoom v t)))
    | PushRoom v t \<Rightarrow> do {
        (acc, V) \<leftarrow> plain_write (RingCell (unat t)) (mlog m) V;
        b \<leftarrow> vec_put (mcells m) t v;
        Some (m\<lparr>mlog := acc, mcells := b\<rparr>, V, Running (PushWritten v t)) }
    | PushWritten v t \<Rightarrow>
        (let (h, V) = release_store RingTail ((t + 1) AND mmask m) (mtail m) V in
         Some (m\<lparr>mtail := h\<rparr>, V, Returned True)))"

definition pop_access :: "nat \<Rightarrow> PacketRef pop_pc \<Rightarrow> Memory \<times> tview \<Rightarrow>
    (Memory \<times> tview \<times> (PacketRef pop_pc, PacketRef option) call) option" where
  "pop_access back pc = (\<lambda>(m, V). case pc of
      PopIdle \<Rightarrow> (let (h, V) = relaxed_load back RingHead (mhead m) V in Some (m, V, Running (PopHead h)))
    | PopHead h \<Rightarrow>
        (let (t, V) = acquire_load back RingTail (mtail m) V in
         Some (m, V, if h = t then Returned None else Running (PopReady h)))
    | PopReady h \<Rightarrow> do {
        (acc, V) \<leftarrow> plain_read (RingCell (unat h)) (mlog m) V;
        v \<leftarrow> vec_at (mcells m) h;
        Some (m\<lparr>mlog := acc\<rparr>, V, Running (PopRead v h)) }
    | PopRead v h \<Rightarrow>
        (let (hs, V) = release_store RingHead ((h + 1) AND mmask m) (mhead m) V in
         Some (m\<lparr>mhead := hs\<rparr>, V, Returned (Some v))))"

section \<open>Pool calls, access by access\<close>

text \<open>The loop test of \<open>acquire\<close>.\<close>

definition acquire_test :: "u32 \<Rightarrow> (pool_pc, u32) call" where
  "acquire_test head = (if head \<noteq> kPoolInvalid then Running (AcqHead head) else Returned kPoolInvalid)"

definition acquire_access :: "bool \<Rightarrow> nat \<Rightarrow> pool_pc \<Rightarrow> Memory \<times> tview \<Rightarrow>
    (Memory \<times> tview \<times> (pool_pc, u32) call) option" where
  "acquire_access fails back pc = (\<lambda>(m, V). case pc of
      AcqHead h \<Rightarrow> do {
        (acc, V) \<leftarrow> plain_read (Link h) (mlog m) V;
        slot \<leftarrow> vec_at (mslots m) h;
        Some (m\<lparr>mlog := acc\<rparr>, V, Running (AcqNext h (nextFree slot))) }
    | AcqNext h n \<Rightarrow>
        (let ((ok, v), fs, V) = compare_exchange fails back FreeHead h n (mfree m) V in
         Some (m\<lparr>mfree := fs\<rparr>, V, if ok then Returned h else acquire_test v))
    | _ \<Rightarrow> (let (h, V) = acquire_load back FreeHead (mfree m) V in Some (m, V, acquire_test h)))"

definition release_access :: "bool \<Rightarrow> nat \<Rightarrow> u32 \<Rightarrow> pool_pc \<Rightarrow> Memory \<times> tview \<Rightarrow>
    (Memory \<times> tview \<times> (pool_pc, unit) call) option" where
  "release_access fails back idx pc = (\<lambda>(m, V). case pc of
      RelHead i h \<Rightarrow> do {
        (acc, V) \<leftarrow> plain_write (Link i) (mlog m) V;
        slot \<leftarrow> vec_at (mslots m) i;
        ss \<leftarrow> vec_put (mslots m) i (slot\<lparr>nextFree := h\<rparr>);
        Some (m\<lparr>mlog := acc, mslots := ss\<rparr>, V, Running (RelLinked i h)) }
    | RelLinked i h \<Rightarrow>
        (let ((ok, v), fs, V) = compare_exchange fails back FreeHead h i (mfree m) V in
         Some (m\<lparr>mfree := fs\<rparr>, V, if ok then Returned () else Running (RelHead i v)))
    | _ \<Rightarrow> (let (h, V) = acquire_load back FreeHead (mfree m) V in Some (m, V, Running (RelHead idx h))))"

section \<open>The threads\<close>

text \<open>The network thread between its calls, and inside one.  It gives a buffer back and then goes on, ends, or sends
  the sentinel.\<close>

datatype feed_pc =
    FeedTop
  | FeedAcquire pool_pc
  | FeedHold u32
  | FeedPush u32 u64 "PacketRef push_pc"
  | FeedRelease u32 after_release pool_pc
  | FeedSentinel u64 "PacketRef push_pc"
  | FeedDone

text \<open>What the thread does next where it can choose: see the stop flag and end, send the sentinel, store received bytes in the buffer it holds,
  look at them, hand the buffer over, give it back.\<close>

datatype feed_choice = Go | Stop | EndStream u64 | Receive bytes u16 | Parse | HandOver u64 | GiveBack after_release

record choices =
  cback :: nat
  cfails :: bool
  cfeed :: feed_choice

text \<open>The matching thread: popping, using a packet, giving its buffer back.\<close>

datatype match_pc = MatchPop "PacketRef pop_pc" | MatchUse PacketRef | MatchRelease u32 pool_pc | MatchDone

text \<open>\<open>hpushed\<close> records every reference the network thread has published with the packet in its buffer at that
  time, \<open>hused\<close> every reference the matching thread has taken with what it read; a sentinel has no packet.\<close>

record Handover =
  hmem :: Memory
  nview :: tview
  mview :: tview
  hnpc :: feed_pc
  hmpc :: match_pc
  hpushed :: "(PacketRef \<times> bytes \<times> u16) list"
  hused :: "(PacketRef \<times> bytes \<times> u16) list"

definition packet_in :: "Memory \<Rightarrow> u32 \<Rightarrow> bytes \<times> u16" where
  "packet_in m i = (if i = kPoolInvalid then ([], 0) else (sdata (mslots m ! unat i), slength (mslots m ! unat i)))"

definition Handover_new :: "PacketRef SpscRing \<Rightarrow> PacketPool \<Rightarrow> Handover" where
  "Handover_new r p = \<lparr>hmem = Memory_new r p, nview = view_new, mview = view_new, hnpc = FeedTop,
     hmpc = MatchPop PopIdle, hpushed = [], hused = []\<rparr>"

definition feed_push :: "nat \<Rightarrow> PacketRef \<Rightarrow> (PacketRef push_pc \<Rightarrow> feed_pc) \<Rightarrow> feed_pc \<Rightarrow> feed_pc \<Rightarrow> PacketRef push_pc \<Rightarrow>
    Handover \<Rightarrow> Handover option" where
  "feed_push back ref run full next pc s = do {
     (m, V, c) \<leftarrow> push_access back ref pc (hmem s, nview s);
     let s = s\<lparr>hmem := m, nview := V\<rparr>;
     Some (case c of
         Running pc \<Rightarrow> s\<lparr>hnpc := run pc\<rparr>
       | Returned False \<Rightarrow> s\<lparr>hnpc := full\<rparr>
       | Returned True \<Rightarrow> s\<lparr>hnpc := next, hpushed := hpushed s @ [(ref, packet_in m (refIdx ref))]\<rparr>) }"

definition after_pc :: "after_release \<Rightarrow> feed_pc" where
  "after_pc k = (case k of Continue \<Rightarrow> FeedTop | Break \<Rightarrow> FeedDone | SendSentinel tw \<Rightarrow> FeedSentinel tw PushIdle)"

definition feed_access :: "choices \<Rightarrow> Handover \<Rightarrow> Handover option" where
  "feed_access ch s = (case hnpc s of
      FeedTop \<Rightarrow> Some (s\<lparr>hnpc := (case cfeed ch of Stop \<Rightarrow> FeedDone | EndStream tw \<Rightarrow> FeedSentinel tw PushIdle
          | _ \<Rightarrow> FeedAcquire PoolIdle)\<rparr>)
    | FeedAcquire pc \<Rightarrow> do {
        (m, V, c) \<leftarrow> acquire_access (cfails ch) (cback ch) pc (hmem s, nview s);
        Some (s\<lparr>hmem := m, nview := V, hnpc := (case c of Running pc \<Rightarrow> FeedAcquire pc
          | Returned i \<Rightarrow> if i = kPoolInvalid then FeedTop else FeedHold i)\<rparr>) }
    | FeedHold i \<Rightarrow>
        (case cfeed ch of
           Receive d n \<Rightarrow> do {
             (acc, V) \<leftarrow> plain_write (Packet i) (mlog (hmem s)) (nview s);
             slot \<leftarrow> vec_at (mslots (hmem s)) i;
             ss \<leftarrow> vec_put (mslots (hmem s)) i (slot\<lparr>sdata := d, slength := n\<rparr>);
             Some (s\<lparr>hmem := (hmem s)\<lparr>mlog := acc, mslots := ss\<rparr>, nview := V\<rparr>) }
         | Parse \<Rightarrow> do {
             (acc, V) \<leftarrow> plain_read (Packet i) (mlog (hmem s)) (nview s);
             Some (s\<lparr>hmem := (hmem s)\<lparr>mlog := acc\<rparr>, nview := V\<rparr>) }
         | HandOver tw \<Rightarrow> Some (s\<lparr>hnpc := FeedPush i tw PushIdle\<rparr>)
         | GiveBack k \<Rightarrow> Some (s\<lparr>hnpc := FeedRelease i k PoolIdle\<rparr>)
         | _ \<Rightarrow> Some s)
    | FeedPush i tw pc \<Rightarrow>
        feed_push (cback ch) \<lparr>refIdx = i, tWireCycles = tw\<rparr> (FeedPush i tw) (FeedRelease i Continue PoolIdle) FeedTop pc s
    | FeedRelease i k pc \<Rightarrow> do {
        (m, V, c) \<leftarrow> release_access (cfails ch) (cback ch) i pc (hmem s, nview s);
        Some (s\<lparr>hmem := m, nview := V, hnpc := (case c of Running pc \<Rightarrow> FeedRelease i k pc | Returned _ \<Rightarrow> after_pc k)\<rparr>) }
    | FeedSentinel tw pc \<Rightarrow>
        feed_push (cback ch) \<lparr>refIdx = kPoolInvalid, tWireCycles = tw\<rparr> (FeedSentinel tw)
          (if cfeed ch = Stop then FeedDone else FeedSentinel tw PushIdle) FeedDone pc s
    | FeedDone \<Rightarrow> Some s)"

definition match_access :: "choices \<Rightarrow> Handover \<Rightarrow> Handover option" where
  "match_access ch s = (case hmpc s of
      MatchPop pc \<Rightarrow> do {
        (m, V, c) \<leftarrow> pop_access (cback ch) pc (hmem s, mview s);
        let s = s\<lparr>hmem := m, mview := V\<rparr>;
        Some (case c of
            Running pc \<Rightarrow> s\<lparr>hmpc := MatchPop pc\<rparr>
          | Returned None \<Rightarrow> s\<lparr>hmpc := (if cfeed ch = Stop then MatchDone else MatchPop PopIdle)\<rparr>
          | Returned (Some ref) \<Rightarrow>
              if refIdx ref = kPoolInvalid then s\<lparr>hmpc := MatchDone, hused := hused s @ [(ref, [], 0)]\<rparr>
              else s\<lparr>hmpc := MatchUse ref\<rparr>) }
    | MatchUse ref \<Rightarrow> do {
        (acc, V) \<leftarrow> plain_read (Packet (refIdx ref)) (mlog (hmem s)) (mview s);
        slot \<leftarrow> vec_at (mslots (hmem s)) (refIdx ref);
        Some (s\<lparr>hmem := (hmem s)\<lparr>mlog := acc\<rparr>, mview := V, hmpc := MatchRelease (refIdx ref) PoolIdle,
                hused := hused s @ [(ref, sdata slot, slength slot)]\<rparr>) }
    | MatchRelease i pc \<Rightarrow> do {
        (m, V, c) \<leftarrow> release_access (cfails ch) (cback ch) i pc (hmem s, mview s);
        Some (s\<lparr>hmem := m, mview := V,
                hmpc := (case c of Running pc \<Rightarrow> MatchRelease i pc | Returned _ \<Rightarrow> MatchPop PopIdle)\<rparr>) }
    | MatchDone \<Rightarrow> Some s)"

inductive handover_step :: "Handover \<Rightarrow> Handover \<Rightarrow> bool" where
  feed: "feed_access ch s = Some s' \<Longrightarrow> handover_step s s'"
| match: "match_access ch s = Some s' \<Longrightarrow> handover_step s s'"

inductive handover_reachable :: "PacketRef SpscRing \<Rightarrow> PacketPool \<Rightarrow> Handover \<Rightarrow> bool" for r p where
  init: "handover_reachable r p (Handover_new r p)"
| step: "handover_reachable r p s \<Longrightarrow> handover_step s s' \<Longrightarrow> handover_reachable r p s'"

inductive_cases handover_stepE: "handover_step s s'"

end
