(* ===== verification/Handover_Views.thy ===== *)
theory Handover_Views
  imports Handover
begin

text \<open>
  What the views of \<^theory_text>\<open>Handover\<close> are worth.  Position \<open>p\<close> of the stream of references lies in the cell \<open>p mod N\<close>.
  Whoever has seen the head at \<open>k\<close> knows all accesses to the cells of the positions below \<open>k + N\<close> that are not
  yet written; whoever has seen the tail at \<open>k\<close> knows those of the positions below \<open>k\<close> that are not yet read,
  and everything that was done to the buffers they refer to.
\<close>

section \<open>The ring\<close>

definition cells_known :: "Memory \<Rightarrow> nat \<Rightarrow> nat \<Rightarrow> tview \<Rightarrow> bool" where
  "cells_known m lo hi V \<longleftrightarrow> (\<forall>p. lo \<le> p \<and> p < hi \<longrightarrow> covers (mlog m) V (RingCell (p mod length (mcells m))))"

definition slot_known :: "Memory \<Rightarrow> tview \<Rightarrow> u32 \<Rightarrow> bool" where
  "slot_known m V i \<longleftrightarrow> covers (mlog m) V (Link i) \<and> covers (mlog m) V (Packet i)"

definition refs_known :: "Memory \<Rightarrow> u32 list \<Rightarrow> nat \<Rightarrow> nat \<Rightarrow> tview \<Rightarrow> bool" where
  "refs_known m ids lo hi V \<longleftrightarrow> (\<forall>p. lo \<le> p \<and> p < hi \<longrightarrow> ids ! p \<noteq> kPoolInvalid \<longrightarrow> slot_known m V (ids ! p))"

definition hist_len :: "Memory \<Rightarrow> atomic \<Rightarrow> nat" where
  "hist_len m a = (case a of RingHead \<Rightarrow> length (mhead m) | RingTail \<Rightarrow> length (mtail m) | FreeHead \<Rightarrow> length (mfree m))"

text \<open>Positions popped; \<open>w\<close> positions are written and \<open>r\<close> are read.\<close>

definition popped_count :: "Memory \<Rightarrow> nat" where
  "popped_count m = length (mhead m) - 1"

definition view_ok :: "Memory \<Rightarrow> u32 list \<Rightarrow> nat \<Rightarrow> nat \<Rightarrow> tview \<Rightarrow> bool" where
  "view_ok m ids w r V \<longleftrightarrow> (\<forall>a. vseen V a < hist_len m a) \<and>
     cells_known m w (vseen V RingHead + length (mcells m)) V \<and> cells_known m r (vseen V RingTail) V \<and>
     refs_known m ids (popped_count m) (vseen V RingTail) V"

definition messages :: "Memory \<Rightarrow> tview set" where
  "messages m = snd ` (set (mhead m) \<union> set (mtail m)) \<union> snd ` set (mfree m)"

definition numbered :: "atomic \<Rightarrow> ('v, atomic) history \<Rightarrow> bool" where
  "numbered a h \<longleftrightarrow> (\<forall>k < length h. vseen (snd (h ! k)) a = k)"

definition positions :: "nat \<Rightarrow> (u64, atomic) history \<Rightarrow> bool" where
  "positions N h \<longleftrightarrow> (\<forall>k < length h. unat (fst (h ! k)) = k mod N)"

definition ring_mem :: "Memory \<Rightarrow> u32 list \<Rightarrow> nat \<Rightarrow> nat \<Rightarrow> bool" where
  "ring_mem m ids w r \<longleftrightarrow> (\<exists>n < 64. mmask m = mask n \<and> length (mcells m) = 2 ^ n) \<and>
     numbered RingHead (mhead m) \<and> numbered RingTail (mtail m) \<and> numbered FreeHead (mfree m) \<and>
     positions (length (mcells m)) (mhead m) \<and> positions (length (mcells m)) (mtail m) \<and>
     length (mtail m) = Suc (length ids) \<and> length (mhead m) = Suc (popped_count m) \<and> mfree m \<noteq> [] \<and>
     popped_count m \<le> r \<and> r \<le> Suc (popped_count m) \<and> r \<le> length ids \<and> length ids \<le> w \<and> w \<le> Suc (length ids) \<and>
     (\<forall>V \<in> messages m. view_ok m ids w r V)"

text \<open>The network thread's view \<open>NV\<close> and the matching thread's \<open>MV\<close>.\<close>

definition net_knows :: "Memory \<Rightarrow> u32 list \<Rightarrow> nat \<Rightarrow> nat \<Rightarrow> tview \<Rightarrow> bool" where
  "net_knows m ids w r NV \<longleftrightarrow> view_ok m ids w r NV \<and> vseen NV RingTail = length ids \<and>
     w < vseen NV RingHead + length (mcells m) \<and> cells_known m (length ids) w NV"

definition match_knows :: "Memory \<Rightarrow> u32 list \<Rightarrow> nat \<Rightarrow> nat \<Rightarrow> tview \<Rightarrow> bool" where
  "match_knows m ids w r MV \<longleftrightarrow> view_ok m ids w r MV \<and> vseen MV RingHead = popped_count m \<and>
     r \<le> vseen MV RingTail \<and> cells_known m (popped_count m) r MV"

subsection \<open>Taking over knowledge\<close>

lemma cells_known_mono:
  "cells_known m lo hi V \<Longrightarrow> lo \<le> lo' \<Longrightarrow> hi' \<le> hi \<Longrightarrow> vknown V \<subseteq> vknown W \<Longrightarrow> cells_known m lo' hi' W"
  unfolding cells_known_def by (meson covers_mono le_trans less_le_trans)

lemma cells_known_empty [simp]: "cells_known m n n V"
  by (auto simp: cells_known_def)

lemma slot_known_mono: "slot_known m V i \<Longrightarrow> vknown V \<subseteq> vknown W \<Longrightarrow> slot_known m W i"
  by (auto simp: slot_known_def intro: covers_mono)

lemma refs_known_mono:
  "refs_known m ids lo hi V \<Longrightarrow> lo \<le> lo' \<Longrightarrow> hi' \<le> hi \<Longrightarrow> vknown V \<subseteq> vknown W \<Longrightarrow> refs_known m ids lo' hi' W"
  unfolding refs_known_def by (meson slot_known_mono le_trans less_le_trans)

lemma view_ok_join:
  assumes "view_ok m ids w r V" and "view_ok m ids w r W"
  shows "view_ok m ids w r (view_join V W)"
proof -
  have hi: "vseen (view_join V W) a = vseen V a \<or> vseen (view_join V W) a = vseen W a" for a by auto
  have le: "vknown V \<subseteq> vknown (view_join V W)" "vknown W \<subseteq> vknown (view_join V W)" by auto
  have "cells_known m w (vseen (view_join V W) RingHead + length (mcells m)) (view_join V W)"
    using hi [of RingHead] assms cells_known_mono [OF _ order_refl order_refl le(1)] cells_known_mono [OF _ order_refl order_refl le(2)]
    unfolding view_ok_def by metis
  moreover have "cells_known m r (vseen (view_join V W) RingTail) (view_join V W)"
    using hi [of RingTail] assms cells_known_mono [OF _ order_refl order_refl le(1)] cells_known_mono [OF _ order_refl order_refl le(2)]
    unfolding view_ok_def by metis
  moreover have "refs_known m ids (popped_count m) (vseen (view_join V W) RingTail) (view_join V W)"
    using hi [of RingTail] assms refs_known_mono [OF _ order_refl order_refl le(1)] refs_known_mono [OF _ order_refl order_refl le(2)]
    unfolding view_ok_def by metis
  ultimately show ?thesis using assms by (simp add: view_ok_def)
qed

lemma ring_memD:
  assumes "ring_mem m ids w r"
  shows "\<exists>n < 64. mmask m = mask n \<and> length (mcells m) = 2 ^ n" "numbered RingHead (mhead m)" "numbered RingTail (mtail m)"
    "numbered FreeHead (mfree m)" "positions (length (mcells m)) (mhead m)" "positions (length (mcells m)) (mtail m)"
    "length (mtail m) = Suc (length ids)" "length (mhead m) = Suc (popped_count m)" "mfree m \<noteq> []"
    "popped_count m \<le> r" "r \<le> Suc (popped_count m)" "r \<le> length ids" "length ids \<le> w" "w \<le> Suc (length ids)"
    "\<And>V. V \<in> messages m \<Longrightarrow> view_ok m ids w r V"
  using assms by (auto simp: ring_mem_def)

lemma messages_nth:
  "k < length (mhead m) \<Longrightarrow> snd (mhead m ! k) \<in> messages m" "k < length (mtail m) \<Longrightarrow> snd (mtail m ! k) \<in> messages m"
  "k < length (mfree m) \<Longrightarrow> snd (mfree m ! k) \<in> messages m" "mfree m \<noteq> [] \<Longrightarrow> snd (last (mfree m)) \<in> messages m"
  by (auto simp: messages_def)

lemma seen_bounds:
  assumes "ring_mem m ids w r" and "view_ok m ids w r V"
  shows "vseen V RingHead \<le> popped_count m" "vseen V RingTail \<le> length ids" "vseen V FreeHead < length (mfree m)"
    "vseen V RingHead < length (mhead m)" "vseen V RingTail < length (mtail m)"
proof -
  have "vseen V a < hist_len m a" for a using assms(2) by (simp add: view_ok_def)
  from this [of RingHead] this [of RingTail] this [of FreeHead]
  show "vseen V RingHead \<le> popped_count m" "vseen V RingTail \<le> length ids" "vseen V FreeHead < length (mfree m)"
    "vseen V RingHead < length (mhead m)" "vseen V RingTail < length (mtail m)"
    using ring_memD(7,8) [OF assms(1)] by (simp_all add: hist_len_def)
qed

lemma net_knows_join:
  assumes "ring_mem m ids w r" and "net_knows m ids w r NV" and W: "W \<in> messages m"
  shows "net_knows m ids w r (view_join NV W)"
proof -
  note W = ring_memD(15) [OF assms(1) W]
  have "max (vseen NV RingTail) (vseen W RingTail) = length ids"
    using assms(2) seen_bounds(2) [OF assms(1) W] by (simp add: net_knows_def)
  then show ?thesis
    using assms(2) view_ok_join [OF _ W] by (auto simp: net_knows_def intro: cells_known_mono)
qed

lemma match_knows_join:
  assumes "ring_mem m ids w r" and "match_knows m ids w r MV" and W: "W \<in> messages m"
  shows "match_knows m ids w r (view_join MV W)"
proof -
  note W = ring_memD(15) [OF assms(1) W]
  have "max (vseen MV RingHead) (vseen W RingHead) = popped_count m"
    using assms(2) seen_bounds(1) [OF assms(1) W] by (simp add: match_knows_def)
  then show ?thesis
    using assms(2) view_ok_join [OF _ W] by (auto simp: match_knows_def intro: cells_known_mono)
qed

subsection \<open>Accesses\<close>

definition learn :: "Memory \<Rightarrow> tview \<Rightarrow> tview" where
  "learn m V = V\<lparr>vknown := insert (length (mlog m)) (vknown V)\<rparr>"

definition logged :: "access \<Rightarrow> location \<Rightarrow> Memory \<Rightarrow> Memory" where
  "logged x l m = m\<lparr>mlog := mlog m @ [(x, l)]\<rparr>"

lemma learn_simps [simp]: "vseen (learn m V) = vseen V" "vknown (learn m V) = insert (length (mlog m)) (vknown V)"
  by (simp_all add: learn_def)

lemma logged_simps [simp]: "mlog (logged x l m) = mlog m @ [(x, l)]" "mhead (logged x l m) = mhead m" "mtail (logged x l m) = mtail m"
  "mfree (logged x l m) = mfree m" "mmask (logged x l m) = mmask m" "mcells (logged x l m) = mcells m"
  "mslots (logged x l m) = mslots m" "popped_count (logged x l m) = popped_count m" "messages (logged x l m) = messages m"
  "hist_len (logged x l m) = hist_len m"
  by (simp_all add: logged_def popped_count_def messages_def hist_len_def fun_eq_iff split: atomic.split)

text \<open>The thread that makes an access keeps what it knows.\<close>

lemma covers_learn: "covers (mlog m) V l \<Longrightarrow> covers (mlog m @ [(x, l')]) (learn m V) l"
  by (auto simp: covers_append intro: covers_mono)

lemma covers_writes_learn: "covers_writes (mlog m) V l \<Longrightarrow> covers_writes (mlog m @ [(x, l')]) (learn m V) l"
  by (auto simp: covers_writes_append intro: covers_writes_mono)

lemma cells_known_learn: "cells_known m lo hi V \<Longrightarrow> cells_known (logged x l m) lo hi (learn m V)"
  by (simp add: cells_known_def covers_learn)

lemma slot_known_learn: "slot_known m V i \<Longrightarrow> slot_known (logged x l m) (learn m V) i"
  by (simp add: slot_known_def covers_learn)

lemma view_ok_learn: "view_ok m ids w r V \<Longrightarrow> view_ok (logged x l m) ids w r (learn m V)"
  by (simp add: view_ok_def cells_known_learn) (simp add: refs_known_def slot_known_learn)

text \<open>Any other view keeps what it has to know, if the access is to something else.\<close>

lemma slot_known_logged: "slot_known m V i \<Longrightarrow> l \<noteq> Link i \<Longrightarrow> l \<noteq> Packet i \<Longrightarrow> slot_known (logged x l m) V i"
  by (auto simp: slot_known_def covers_append)

lemma cells_known_logged:
  "cells_known m lo hi V \<Longrightarrow> (\<And>p. lo \<le> p \<Longrightarrow> p < hi \<Longrightarrow> l \<noteq> RingCell (p mod length (mcells m))) \<Longrightarrow> cells_known (logged x l m) lo hi V"
  by (auto simp: cells_known_def covers_append)

lemma refs_known_logged:
  "refs_known m ids lo hi V \<Longrightarrow> (\<And>p. lo \<le> p \<Longrightarrow> p < hi \<Longrightarrow> l \<noteq> Link (ids ! p) \<and> l \<noteq> Packet (ids ! p)) \<Longrightarrow>
   refs_known (logged x l m) ids lo hi V"
  by (auto simp: refs_known_def intro: slot_known_logged)

lemma view_ok_mono: "view_ok m ids w r V \<Longrightarrow> w \<le> w' \<Longrightarrow> r \<le> r' \<Longrightarrow> view_ok m ids w' r' V"
  by (auto simp: view_ok_def intro: cells_known_mono)

definition cell_free :: "Memory \<Rightarrow> nat \<Rightarrow> nat \<Rightarrow> nat \<Rightarrow> nat \<Rightarrow> bool" where
  "cell_free m T w r c \<longleftrightarrow> (\<forall>p. w \<le> p \<and> p < popped_count m + length (mcells m) \<or> r \<le> p \<and> p < T \<longrightarrow> c \<noteq> p mod length (mcells m))"

lemma view_ok_cell:
  assumes "view_ok m ids w r V" and "vseen V RingHead \<le> popped_count m" and "vseen V RingTail \<le> length ids"
    and "cell_free m (length ids) w r c"
  shows "view_ok (logged x (RingCell c) m) ids w r V"
proof -
  let ?N = "length (mcells m)"
  have "RingCell c \<noteq> RingCell (p mod ?N)" if "w \<le> p" "p < vseen V RingHead + ?N" for p
    using assms(2,4) that unfolding cell_free_def by auto
  moreover have "RingCell c \<noteq> RingCell (p mod ?N)" if "r \<le> p" "p < vseen V RingTail" for p
    using assms(3,4) that unfolding cell_free_def by auto
  ultimately show ?thesis
    using assms(1) cells_known_logged [of m w _ V] cells_known_logged [of m r _ V] refs_known_logged [of m ids _ _ V]
    unfolding view_ok_def by simp
qed

lemma view_ok_slot:
  assumes "view_ok m ids w r V" and "vseen V RingTail \<le> length ids" and "i \<notin> set (drop (popped_count m) ids)"
    and "l = Link i \<or> l = Packet i"
  shows "view_ok (logged x l m) ids w r V"
proof -
  have "i \<noteq> ids ! p" if "popped_count m \<le> p" "p < vseen V RingTail" for p
  proof -
    have "p < length ids" using that assms(2) by simp
    then have "drop (popped_count m) ids ! (p - popped_count m) \<in> set (drop (popped_count m) ids)"
      using that(1) by (intro nth_mem) simp
    moreover have "drop (popped_count m) ids ! (p - popped_count m) = ids ! p"
      using that \<open>p < length ids\<close> by simp
    ultimately have "ids ! p \<in> set (drop (popped_count m) ids)" by simp
    with assms(3) show ?thesis by blast
  qed
  with assms(1,4) show ?thesis by (auto simp: view_ok_def intro!: cells_known_logged refs_known_logged)
qed

subsection \<open>Stores\<close>

lemma hist_len_simps [simp]:
  "hist_len (m\<lparr>mtail := h\<rparr>) a = (if a = RingTail then length h else hist_len m a)"
  "hist_len (m\<lparr>mhead := h\<rparr>) a = (if a = RingHead then length h else hist_len m a)"
  "hist_len (m\<lparr>mfree := f\<rparr>) a = (if a = FreeHead then length f else hist_len m a)"
  "hist_len (m\<lparr>mcells := b\<rparr>) a = hist_len m a" "hist_len (m\<lparr>mslots := ss\<rparr>) a = hist_len m a"
  "hist_len m RingHead = length (mhead m)" "hist_len m RingTail = length (mtail m)" "hist_len m FreeHead = length (mfree m)"
  by (simp_all add: hist_len_def split: atomic.split)

lemma popped_count_simps [simp]:
  "popped_count (m\<lparr>mtail := h\<rparr>) = popped_count m" "popped_count (m\<lparr>mfree := f\<rparr>) = popped_count m"
  "popped_count (m\<lparr>mcells := b\<rparr>) = popped_count m" "popped_count (m\<lparr>mslots := ss\<rparr>) = popped_count m"
  "popped_count (m\<lparr>mhead := h\<rparr>) = length h - 1"
  by (simp_all add: popped_count_def)

lemma known_simps [simp]:
  "cells_known (m\<lparr>mtail := h\<rparr>) lo hi V = cells_known m lo hi V" "cells_known (m\<lparr>mhead := h\<rparr>) lo hi V = cells_known m lo hi V"
  "cells_known (m\<lparr>mfree := f\<rparr>) lo hi V = cells_known m lo hi V" "cells_known (m\<lparr>mslots := ss\<rparr>) lo hi V = cells_known m lo hi V"
  "slot_known (m\<lparr>mtail := h\<rparr>) V i = slot_known m V i" "slot_known (m\<lparr>mhead := h\<rparr>) V i = slot_known m V i"
  "slot_known (m\<lparr>mfree := f\<rparr>) V i = slot_known m V i" "slot_known (m\<lparr>mslots := ss\<rparr>) V i = slot_known m V i"
  "slot_known (m\<lparr>mcells := b\<rparr>) V i = slot_known m V i"
  "refs_known (m\<lparr>mtail := h\<rparr>) ids lo hi V = refs_known m ids lo hi V" "refs_known (m\<lparr>mhead := h\<rparr>) ids lo hi V = refs_known m ids lo hi V"
  "refs_known (m\<lparr>mfree := f\<rparr>) ids lo hi V = refs_known m ids lo hi V" "refs_known (m\<lparr>mslots := ss\<rparr>) ids lo hi V = refs_known m ids lo hi V"
  "refs_known (m\<lparr>mcells := b\<rparr>) ids lo hi V = refs_known m ids lo hi V"
  "cells_known m lo hi (see a k V) = cells_known m lo hi V" "slot_known m (see a k V) i = slot_known m V i"
  "refs_known m ids lo hi (see a k V) = refs_known m ids lo hi V"
  by (simp_all add: cells_known_def slot_known_def refs_known_def)

lemma cells_known_put [simp]: "cells_known (m\<lparr>mcells := (mcells m)[j := v]\<rparr>) lo hi V = cells_known m lo hi V"
  by (simp add: cells_known_def)

lemma view_ok_put [simp]:
  "view_ok (m\<lparr>mcells := (mcells m)[j := v]\<rparr>) ids w r V = view_ok m ids w r V" "view_ok (m\<lparr>mslots := ss\<rparr>) ids w r V = view_ok m ids w r V"
  by (simp_all add: view_ok_def)

lemma seen_less:
  assumes "view_ok m ids w r V"
  shows "vseen V RingHead < length (mhead m)" "vseen V RingTail < length (mtail m)" "vseen V FreeHead < length (mfree m)"
proof -
  have "vseen V a < hist_len m a" for a using assms by (simp add: view_ok_def)
  from this [of RingHead] this [of RingTail] this [of FreeHead]
  show "vseen V RingHead < length (mhead m)" "vseen V RingTail < length (mtail m)" "vseen V FreeHead < length (mfree m)"
    by simp_all
qed

lemma view_ok_free: "view_ok m ids w r V \<Longrightarrow> view_ok (m\<lparr>mfree := mfree m @ [x]\<rparr>) ids w r V"
  using seen_less [of m ids w r V] by (auto simp: view_ok_def)

lemma view_ok_tail:
  assumes "view_ok m ids w r V" and "vseen V RingTail \<le> length ids"
  shows "view_ok (m\<lparr>mtail := mtail m @ [x]\<rparr>) (ids @ [i]) w r V"
proof -
  have "refs_known m (ids @ [i]) lo (vseen V RingTail) V = refs_known m ids lo (vseen V RingTail) V" for lo
    using assms(2) by (auto simp: refs_known_def nth_append)
  with assms(1) seen_less [OF assms(1)] show ?thesis by (auto simp: view_ok_def)
qed

lemma view_ok_head:
  assumes "view_ok m ids w r V" and "mhead m \<noteq> []"
  shows "view_ok (m\<lparr>mhead := mhead m @ [x]\<rparr>) ids w r V"
  using assms seen_less [OF assms(1)] by (auto simp: view_ok_def popped_count_def intro: refs_known_mono)

lemma messages_simps [simp]:
  "messages (m\<lparr>mtail := mtail m @ [x]\<rparr>) = insert (snd x) (messages m)"
  "messages (m\<lparr>mhead := mhead m @ [x]\<rparr>) = insert (snd x) (messages m)"
  "messages (m\<lparr>mfree := mfree m @ [y]\<rparr>) = insert (snd y) (messages m)"
  "messages (m\<lparr>mcells := b\<rparr>) = messages m" "messages (m\<lparr>mslots := ss\<rparr>) = messages m"
  by (auto simp: messages_def)

lemma numbered_append: "numbered a h \<Longrightarrow> vseen V a = length h \<Longrightarrow> numbered a (h @ [(v, V)])"
  by (auto simp: numbered_def nth_append less_Suc_eq)

lemma positions_append: "positions N h \<Longrightarrow> unat v = length h mod N \<Longrightarrow> positions N (h @ [(v, V)])"
  by (auto simp: positions_def nth_append less_Suc_eq)

section \<open>The ring and its two users\<close>

definition ring_sys :: "Memory \<Rightarrow> u32 list \<Rightarrow> nat \<Rightarrow> nat \<Rightarrow> tview \<Rightarrow> tview \<Rightarrow> bool" where
  "ring_sys m ids w r NV MV \<longleftrightarrow> ring_mem m ids w r \<and> net_knows m ids w r NV \<and> match_knows m ids w r MV"

lemma ring_sysD:
  assumes "ring_sys m ids w r NV MV"
  shows "ring_mem m ids w r" "net_knows m ids w r NV" "match_knows m ids w r MV" "view_ok m ids w r NV" "view_ok m ids w r MV"
    "vseen NV RingTail = length ids" "vseen MV RingHead = popped_count m" "w < vseen NV RingHead + length (mcells m)"
    "cells_known m (length ids) w NV" "cells_known m (popped_count m) r MV"
    "popped_count m \<le> length ids" "length ids < popped_count m + length (mcells m)" "0 < length (mcells m)"
    "r \<le> vseen MV RingTail"
proof -
  show *: "ring_mem m ids w r" "net_knows m ids w r NV" "match_knows m ids w r MV" "view_ok m ids w r NV" "view_ok m ids w r MV"
    "vseen NV RingTail = length ids" "vseen MV RingHead = popped_count m" "w < vseen NV RingHead + length (mcells m)"
    "cells_known m (length ids) w NV" "cells_known m (popped_count m) r MV" "r \<le> vseen MV RingTail"
    using assms by (auto simp: ring_sys_def net_knows_def match_knows_def)
  show "popped_count m \<le> length ids" using ring_memD(10,12) [OF *(1)] by simp
  show "length ids < popped_count m + length (mcells m)"
    using *(8) ring_memD(13) [OF *(1)] seen_bounds(1) [OF *(1,4)] by simp
  show "0 < length (mcells m)" using ring_memD(1) [OF *(1)] by auto
qed

lemma ring_sys_join_net: "ring_sys m ids w r NV MV \<Longrightarrow> W \<in> messages m \<Longrightarrow> ring_sys m ids w r (view_join NV W) MV"
  by (simp add: ring_sys_def net_knows_join)

lemma ring_sys_join_match: "ring_sys m ids w r NV MV \<Longrightarrow> W \<in> messages m \<Longrightarrow> ring_sys m ids w r NV (view_join MV W)"
  by (simp add: ring_sys_def match_knows_join)

text \<open>Positions of the ring's window fall into different cells.\<close>

lemma window_apart:
  assumes "p \<noteq> q" and "a \<le> p" "p < a + N" and "a \<le> q" "q < a + N"
  shows "p mod N \<noteq> q mod (N :: nat)"
proof
  assume eq: "p mod N = q mod N"
  have "x = y" if "x < y" "x mod N = y mod N" "a \<le> x" "y < a + N" for x y
  proof -
    have "N dvd y - x" using that(1,2) by (metis mod_eq_dvd_iff_nat less_imp_le)
    with that show ?thesis by (auto dest: dvd_imp_le)
  qed
  then show False using assms eq by (metis nat_neq_iff)
qed

text \<open>An access to a buffer that is not in the ring.\<close>

lemma ring_mem_slot:
  assumes "ring_mem m ids w r" and "i \<notin> set (drop (popped_count m) ids)" and "l = Link i \<or> l = Packet i"
  shows "ring_mem (logged x l m) ids w r"
  using ring_memD [OF assms(1)] view_ok_slot [OF _ _ assms(2,3)] seen_bounds(2) [OF assms(1)]
  by (simp add: ring_mem_def)

lemma ring_sys_slot_net:
  assumes sys: "ring_sys m ids w r NV MV" and i: "i \<notin> set (drop (popped_count m) ids)" "l = Link i \<or> l = Packet i"
  shows "ring_sys (logged x l m) ids w r (learn m NV) MV"
proof -
  note D = ring_sysD [OF sys]
  have "l \<noteq> RingCell c" for c using i(2) by auto
  then have "cells_known (logged x l m) (popped_count m) r MV" using cells_known_logged [OF D(10)] by simp
  then have "match_knows (logged x l m) ids w r MV"
    using D(7,14) view_ok_slot [OF D(5) seen_bounds(2) [OF D(1,5)] i] by (simp add: match_knows_def)
  moreover have "net_knows (logged x l m) ids w r (learn m NV)"
    using D(6,8) view_ok_learn [OF D(4)] cells_known_learn [OF D(9)] by (simp add: net_knows_def)
  ultimately show ?thesis using ring_mem_slot [OF D(1) i] by (simp add: ring_sys_def)
qed

lemma ring_sys_slot_match:
  assumes sys: "ring_sys m ids w r NV MV" and i: "i \<notin> set (drop (popped_count m) ids)" "l = Link i \<or> l = Packet i"
  shows "ring_sys (logged x l m) ids w r NV (learn m MV)"
proof -
  note D = ring_sysD [OF sys]
  have "l \<noteq> RingCell c" for c using i(2) by auto
  then have "cells_known (logged x l m) (length ids) w NV" using cells_known_logged [OF D(9)] by simp
  then have "net_knows (logged x l m) ids w r NV"
    using D(6,8) view_ok_slot [OF D(4) seen_bounds(2) [OF D(1,4)] i] by (simp add: net_knows_def)
  moreover have "match_knows (logged x l m) ids w r (learn m MV)"
    using D(7,14) view_ok_learn [OF D(5)] cells_known_learn [OF D(10)] by (simp add: match_knows_def)
  ultimately show ?thesis using ring_mem_slot [OF D(1) i] by (simp add: ring_sys_def)
qed

lemma ring_sys_slots [simp]: "ring_sys (m\<lparr>mslots := ss\<rparr>) ids w r NV MV = ring_sys m ids w r NV MV"
  by (simp add: ring_sys_def ring_mem_def net_knows_def match_knows_def)

text \<open>A store to the head of the free list.\<close>

lemma ring_mem_swap:
  assumes "ring_mem m ids w r" and "view_ok m ids w r V"
  shows "ring_mem (m\<lparr>mfree := mfree m @ [(v, see FreeHead (length (mfree m)) V)]\<rparr>) ids w r"
    and "view_ok (m\<lparr>mfree := mfree m @ [(v, see FreeHead (length (mfree m)) V)]\<rparr>) ids w r (see FreeHead (length (mfree m)) V)"
proof -
  let ?m = "m\<lparr>mfree := mfree m @ [(v, see FreeHead (length (mfree m)) V)]\<rparr>"
  show v: "view_ok ?m ids w r (see FreeHead (length (mfree m)) V)" using assms(2) by (simp add: view_ok_def)
  show "ring_mem ?m ids w r"
    using ring_memD [OF assms(1)] v view_ok_free [of m ids w r] numbered_append [of FreeHead "mfree m"] by (simp add: ring_mem_def)
qed

lemma ring_sys_swap_net:
  assumes "ring_sys m ids w r NV MV"
  shows "ring_sys (m\<lparr>mfree := mfree m @ [(v, see FreeHead (length (mfree m)) NV)]\<rparr>) ids w r (see FreeHead (length (mfree m)) NV) MV"
  using ring_sysD [OF assms] ring_mem_swap [of m ids w r NV v] view_ok_free [of m ids w r MV]
  by (simp add: ring_sys_def net_knows_def match_knows_def)

lemma ring_sys_swap_match:
  assumes "ring_sys m ids w r NV MV"
  shows "ring_sys (m\<lparr>mfree := mfree m @ [(v, see FreeHead (length (mfree m)) MV)]\<rparr>) ids w r NV (see FreeHead (length (mfree m)) MV)"
  using ring_sysD [OF assms] ring_mem_swap [of m ids w r MV v] view_ok_free [of m ids w r NV]
  by (simp add: ring_sys_def net_knows_def match_knows_def)

text \<open>The producer writes the cell of the next position, which nobody else may look at.\<close>

lemma ring_sys_write:
  assumes sys: "ring_sys m ids w r NV MV" and w: "w = length ids" "Suc w < vseen NV RingHead + length (mcells m)"
  shows "ring_sys ((logged Write (RingCell (w mod length (mcells m))) m)\<lparr>mcells := (mcells m)[j := v]\<rparr>) ids (Suc w) r (learn m NV) MV"
    and "covers (mlog m) NV (RingCell (w mod length (mcells m)))"
proof -
  note D = ring_sysD [OF sys] and M = ring_memD [OF ring_sysD(1) [OF sys]]
  let ?N = "length (mcells m)" and ?m = "logged Write (RingCell (w mod length (mcells m))) m"
  have bound: "vseen NV RingHead \<le> popped_count m" using seen_bounds(1) [OF D(1,4)] .
  have "cells_known m w (vseen NV RingHead + ?N) NV" using D(4) by (simp add: view_ok_def)
  then show cov: "covers (mlog m) NV (RingCell (w mod ?N))" using D(8) by (simp add: cells_known_def)
  have free: "cell_free m (length ids) (Suc w) r (w mod ?N)"
    unfolding cell_free_def
  proof (intro allI impI)
    fix p assume "Suc w \<le> p \<and> p < popped_count m + ?N \<or> r \<le> p \<and> p < length ids"
    then show "w mod ?N \<noteq> p mod ?N" by (intro window_apart [of _ _ "popped_count m"]) (use M(10) D(11,12) w(1) in auto)
  qed
  have others: "view_ok ?m ids (Suc w) r V" if "view_ok m ids w r V" for V
    using view_ok_cell [OF view_ok_mono [OF that] _ _ free] seen_bounds [OF D(1) that] by simp
  have "cells_known ?m (length ids) (Suc w) (learn m NV)"
    using cov w(1) by (auto simp: cells_known_def covers_learn le_Suc_eq dest: le_antisym)
  moreover have "cells_known ?m (popped_count m) r MV"
    using D(10)
  proof (rule cells_known_logged)
    fix p assume "popped_count m \<le> p" "p < r"
    then have "w mod ?N \<noteq> p mod ?N" by (intro window_apart [of _ _ "popped_count m"]) (use M(12) D(11,12) w(1) in auto)
    then show "RingCell (w mod ?N) \<noteq> RingCell (p mod ?N)" by simp
  qed
  moreover have "view_ok ?m ids (Suc w) r (learn m NV)" using view_ok_mono [OF D(4)] view_ok_learn by simp
  moreover have "ring_mem ?m ids (Suc w) r"
    unfolding ring_mem_def using M(1-13) w(1) others [OF M(15)] by simp
  ultimately have "ring_sys ?m ids (Suc w) r (learn m NV) MV"
    using others [OF D(5)] D(6,7,14) w by (simp add: ring_sys_def net_knows_def match_knows_def)
  then show "ring_sys (?m\<lparr>mcells := (mcells m)[j := v]\<rparr>) ids (Suc w) r (learn m NV) MV"
    using cells_known_put [of ?m j v] view_ok_put(1) [of ?m j v]
    by (simp add: ring_sys_def ring_mem_def net_knows_def match_knows_def)
qed

text \<open>It publishes the position, with all it did to the cell and to the buffer.\<close>

lemma ring_sys_publish:
  assumes sys: "ring_sys m ids w r NV MV" and w: "w = Suc (length ids)"
    and i: "i \<noteq> kPoolInvalid \<Longrightarrow> slot_known m NV i" and v: "unat v = Suc (length ids) mod length (mcells m)"
  shows "ring_sys (m\<lparr>mtail := mtail m @ [(v, see RingTail (Suc (length ids)) NV)]\<rparr>) (ids @ [i]) w r (see RingTail (Suc (length ids)) NV) MV"
proof -
  note D = ring_sysD [OF sys] and M = ring_memD [OF ring_sysD(1) [OF sys]]
  let ?V = "see RingTail (Suc (length ids)) NV"
  let ?m = "m\<lparr>mtail := mtail m @ [(v, ?V)]\<rparr>"
  have old: "view_ok ?m (ids @ [i]) w r V" if "view_ok m ids w r V" for V
    using view_ok_tail [OF that seen_bounds(2) [OF D(1) that]] .
  have "cells_known m r (length ids) NV" "refs_known m ids (popped_count m) (length ids) NV"
    using D(4,6) by (auto simp: view_ok_def)
  then have "cells_known m r (Suc (length ids)) NV" "refs_known m (ids @ [i]) (popped_count m) (Suc (length ids)) NV"
    using D(9) w i by (auto simp: cells_known_def refs_known_def nth_append less_Suc_eq)
  then have new: "view_ok ?m (ids @ [i]) w r ?V"
    using D(4) M(7) by (simp add: view_ok_def)
  have "ring_mem ?m (ids @ [i]) w r"
    unfolding ring_mem_def
    using M(1-13) w old [OF M(15)] new v numbered_append [OF M(3)] positions_append [OF M(6)] by simp
  moreover have "net_knows ?m (ids @ [i]) w r ?V" using new D(8) w by (simp add: net_knows_def)
  ultimately show ?thesis using old [OF D(5)] D(7,10,14) by (simp add: ring_sys_def match_knows_def)
qed

text \<open>The consumer reads the cell of the next position, of which it knows everything.\<close>

lemma ring_sys_read:
  assumes sys: "ring_sys m ids w r NV MV" and r: "r = popped_count m" "r < vseen MV RingTail"
  shows "ring_sys (logged Read (RingCell (r mod length (mcells m))) m) ids w (Suc r) NV (learn m MV)"
    and "covers (mlog m) MV (RingCell (r mod length (mcells m)))"
proof -
  note D = ring_sysD [OF sys] and M = ring_memD [OF ring_sysD(1) [OF sys]]
  let ?N = "length (mcells m)" and ?m = "logged Read (RingCell (r mod length (mcells m))) m"
  have T: "r < length ids" using r(2) seen_bounds(2) [OF D(1,5)] by simp
  have "cells_known m r (vseen MV RingTail) MV" using D(5) by (simp add: view_ok_def)
  then show cov: "covers (mlog m) MV (RingCell (r mod ?N))" using r(2) by (simp add: cells_known_def)
  have free: "cell_free m (length ids) w (Suc r) (r mod ?N)"
    unfolding cell_free_def
  proof (intro allI impI)
    fix p assume "w \<le> p \<and> p < popped_count m + ?N \<or> Suc r \<le> p \<and> p < length ids"
    then show "r mod ?N \<noteq> p mod ?N" by (intro window_apart [of _ _ "popped_count m"]) (use M(13) T D(12,13) r(1) in auto)
  qed
  have others: "view_ok ?m ids w (Suc r) V" if "view_ok m ids w r V" for V
    using view_ok_cell [OF view_ok_mono [OF that] _ _ free] seen_bounds [OF D(1) that] by simp
  have "cells_known ?m (popped_count m) (Suc r) (learn m MV)"
    using cov r(1) by (auto simp: cells_known_def covers_learn le_Suc_eq dest: le_antisym)
  moreover have "cells_known ?m (length ids) w NV"
    using D(9)
  proof (rule cells_known_logged)
    fix p assume "length ids \<le> p" "p < w"
    then have "r mod ?N \<noteq> p mod ?N" by (intro window_apart [of _ _ "popped_count m"]) (use M(14) T D(12,13) r(1) in auto)
    then show "RingCell (r mod ?N) \<noteq> RingCell (p mod ?N)" by simp
  qed
  moreover have "view_ok ?m ids w (Suc r) (learn m MV)" using view_ok_mono [OF D(5)] view_ok_learn by simp
  moreover have "ring_mem ?m ids w (Suc r)"
    unfolding ring_mem_def using M(1-14) r(1) T others [OF M(15)] by simp
  ultimately show "ring_sys ?m ids w (Suc r) NV (learn m MV)"
    using others [OF D(4)] D(6,7,8) r(2) by (simp add: ring_sys_def net_knows_def match_knows_def)
qed

text \<open>It gives the cell back.\<close>

lemma ring_sys_consume:
  assumes sys: "ring_sys m ids w r NV MV" and r: "r = Suc (popped_count m)"
    and v: "unat v = r mod length (mcells m)"
  shows "ring_sys (m\<lparr>mhead := mhead m @ [(v, see RingHead r MV)]\<rparr>) ids w r NV (see RingHead r MV)"
proof -
  note D = ring_sysD [OF sys] and M = ring_memD [OF ring_sysD(1) [OF sys]]
  let ?V = "see RingHead r MV" and ?N = "length (mcells m)"
  let ?m = "m\<lparr>mhead := mhead m @ [(v, ?V)]\<rparr>"
  have ne: "mhead m \<noteq> []" using M(8) by auto
  have pc: "popped_count ?m = r" using M(8) r by simp
  have old: "view_ok ?m ids w r V" if "view_ok m ids w r V" for V using view_ok_head [OF that ne] .
  have "cells_known m w (popped_count m + ?N) MV" using D(5,7) by (simp add: view_ok_def)
  moreover have "covers (mlog m) MV (RingCell ((popped_count m + ?N) mod ?N))"
    using D(10) r by (simp add: cells_known_def)
  ultimately have "cells_known m w (r + ?N) MV"
    using r by (auto simp: cells_known_def less_Suc_eq)
  moreover have "refs_known m ids r (vseen MV RingTail) MV"
    using D(5) r by (auto simp: view_ok_def intro: refs_known_mono)
  ultimately have new: "view_ok ?m ids w r ?V"
    using D(5) M(8) r by (simp add: view_ok_def)
  have "ring_mem ?m ids w r"
    unfolding ring_mem_def pc
    using M(1-14) r old [OF M(15)] new v numbered_append [OF M(2)] positions_append [OF M(5)] by simp
  moreover have "match_knows ?m ids w r ?V" unfolding match_knows_def pc using new D(14) by simp
  ultimately show ?thesis using old [OF D(4)] D(6,8,9) by (simp add: ring_sys_def net_knows_def)
qed

end
