(* ===== verification/Handover_Safety.thy ===== *)
theory Handover_Safety
  imports Handover_Views
begin

text \<open>
  The free list on the same memory, and the invariant of the whole system: every buffer is on the free list, with one of
  the threads or in the ring, and whoever it is with knows every access that was made to it.  So no
  access of the code is a data race, and what the matching thread reads is what was handed over, in order.
\<close>

section \<open>The free list\<close>

definition free_known :: "Memory \<Rightarrow> tview \<Rightarrow> u32 \<Rightarrow> bool" where
  "free_known m V i \<longleftrightarrow> covers_writes (mlog m) V (Link i) \<and> covers (mlog m) V (Packet i)"

text \<open>\<open>F\<close> is the free list.  Only the network thread takes slots off it, so any head that it may still load is on the list,
  and only the network thread reads links.\<close>

definition free_mem :: "Memory \<Rightarrow> u32 list \<Rightarrow> tview \<Rightarrow> bool" where
  "free_mem m F NV \<longleftrightarrow> mfree m \<noteq> [] \<and> pchain (mslots m) (fst (last (mfree m))) F \<and> length (mslots m) \<le> unat kPoolInvalid \<and>
     (\<forall>i \<in> set F. free_known m (snd (last (mfree m))) i) \<and>
     (\<forall>k. vseen NV FreeHead \<le> k \<and> k < length (mfree m) \<and> fst (mfree m ! k) \<noteq> kPoolInvalid \<longrightarrow>
        fst (mfree m ! k) \<in> set F \<and> covers_writes (mlog m) (snd (mfree m ! k)) (Link (fst (mfree m ! k)))) \<and>
     (\<forall>e i. e < length (mlog m) \<and> mlog m ! e = (Read, Link i) \<longrightarrow> e \<in> vknown NV)"

lemma free_memD:
  assumes "free_mem m F NV"
  shows "mfree m \<noteq> []" "pchain (mslots m) (fst (last (mfree m))) F" "length (mslots m) \<le> unat kPoolInvalid"
    "\<And>i. i \<in> set F \<Longrightarrow> free_known m (snd (last (mfree m))) i"
    "\<And>k. vseen NV FreeHead \<le> k \<Longrightarrow> k < length (mfree m) \<Longrightarrow> fst (mfree m ! k) \<noteq> kPoolInvalid \<Longrightarrow>
      fst (mfree m ! k) \<in> set F \<and> covers_writes (mlog m) (snd (mfree m ! k)) (Link (fst (mfree m ! k)))"
    "\<And>e i. e < length (mlog m) \<Longrightarrow> mlog m ! e = (Read, Link i) \<Longrightarrow> e \<in> vknown NV"
  using assms by (auto simp: free_mem_def)

lemma free_mem_mono:
  "free_mem m F NV \<Longrightarrow> vknown NV \<subseteq> vknown NV' \<Longrightarrow> vseen NV FreeHead \<le> vseen NV' FreeHead \<Longrightarrow> free_mem m F NV'"
  unfolding free_mem_def by (meson le_trans subsetD)

lemma free_mem_simps [simp]:
  "free_mem (m\<lparr>mhead := h\<rparr>) F V = free_mem m F V" "free_mem (m\<lparr>mtail := h\<rparr>) F V = free_mem m F V"
  "free_mem (m\<lparr>mcells := b\<rparr>) F V = free_mem m F V"
  by (simp_all add: free_mem_def free_known_def)

text \<open>Accesses that leave the free slots alone; the network thread also reads their links.\<close>

definition spares :: "access \<Rightarrow> location \<Rightarrow> u32 list \<Rightarrow> bool" where
  "spares x l F \<longleftrightarrow> (\<forall>i \<in> set F. l \<noteq> Packet i \<and> (l = Link i \<longrightarrow> x = Read))"

lemma free_known_logged: "free_known m V i \<Longrightarrow> spares x l F \<Longrightarrow> i \<in> set F \<Longrightarrow> free_known (logged x l m) V i"
  by (auto simp: free_known_def spares_def covers_append covers_writes_append)

lemma free_mem_logged:
  assumes "free_mem m F NV" and "spares x l F" and "\<And>i. x = Read \<Longrightarrow> l = Link i \<Longrightarrow> length (mlog m) \<in> vknown NV'"
    and "vknown NV \<subseteq> vknown NV'" "vseen NV' FreeHead = vseen NV FreeHead"
  shows "free_mem (logged x l m) F NV'"
proof -
  note D = free_memD [OF assms(1)]
  have "covers_writes (mlog m @ [(x, l)]) (snd (mfree m ! k)) (Link (fst (mfree m ! k)))"
    if "vseen NV FreeHead \<le> k" "k < length (mfree m)" "fst (mfree m ! k) \<noteq> kPoolInvalid" for k
    using D(5) [OF that] assms(2) by (auto simp: spares_def covers_writes_append)
  moreover have "e \<in> vknown NV'" if "e < Suc (length (mlog m))" "(mlog m @ [(x, l)]) ! e = (Read, Link i)" for e i
    using that D(6) assms(3,4) by (auto simp: nth_append less_Suc_eq split: if_splits)
  ultimately show ?thesis
    unfolding free_mem_def using D(1-5) free_known_logged [OF _ assms(2)] assms(5) by simp
qed

text \<open>Writing in a slot that is not free.\<close>

lemma free_mem_slot:
  assumes "free_mem m F NV" and "i \<notin> set F"
  shows "free_mem (m\<lparr>mslots := (mslots m)[unat i := sl]\<rparr>) F NV"
proof -
  have "pchain ((mslots m)[unat i := sl]) h F = pchain (mslots m) h F" for h
    by (rule pchain_frame) (use assms(2) in \<open>auto simp: nth_update_notin\<close>)
  with assms(1) show ?thesis by (simp add: free_mem_def free_known_def)
qed

text \<open>Taking the first slot off the list: all that was ever done to it is known then.\<close>

lemma free_mem_pop:
  assumes free: "free_mem m F NV" and h: "fst (last (mfree m)) = h" "h \<in> set F" and dist: "distinct F"
    and V: "V = see FreeHead (length (mfree m)) (view_join NV (snd (last (mfree m))))"
  shows "\<exists>F'. F = h # F' \<and> free_mem (m\<lparr>mfree := mfree m @ [(nextFree (mslots m ! unat h), V)]\<rparr>) F' V \<and> slot_known m V h"
proof -
  note D = free_memD [OF free]
  let ?n = "nextFree (mslots m ! unat h)"
  have "h \<noteq> kPoolInvalid" using pchain_valid [OF D(2) h(2)] by simp
  then obtain F' where F': "F = h # F'" "pchain (mslots m) ?n F'" using pchain_head [OF _ D(2)] h(1) by auto
  have le: "vknown (snd (last (mfree m))) \<subseteq> vknown V" "vknown NV \<subseteq> vknown V" by (auto simp: V)
  have known: "free_known m V i" if "i \<in> set F" for i
    using D(4) [OF that] le(1) by (auto simp: free_known_def intro: covers_mono covers_writes_mono)
  have reads: "e \<in> vknown V" if "e < length (mlog m)" "mlog m ! e = (Read, Link i)" for e i using D(6) [OF that] le(2) by blast
  have "?n \<in> set F'" if "?n \<noteq> kPoolInvalid" using pchain_head [OF that F'(2)] by auto
  then have "free_mem (m\<lparr>mfree := mfree m @ [(?n, V)]\<rparr>) F' V"
    unfolding free_mem_def using D(3) F' known reads V by (auto simp: free_known_def nth_append)
  moreover have "slot_known m V h"
    using known [OF h(2)] reads by (auto simp: slot_known_def free_known_def covers_split [of _ _ "Link h"])
  ultimately show ?thesis using F'(1) by blast
qed

text \<open>Putting a slot back, by the thread with the view \<open>W\<close> that holds it.\<close>

lemma free_mem_push:
  assumes free: "free_mem m F NV" and i: "i \<noteq> kPoolInvalid" "unat i < length (mslots m)" "nextFree (mslots m ! unat i) = fst (last (mfree m))"
    and known: "slot_known m W i"
    and V: "V = see FreeHead (length (mfree m)) (view_join W (snd (last (mfree m))))"
  shows "free_mem (m\<lparr>mfree := mfree m @ [(i, V)]\<rparr>) (i # F) NV"
proof -
  note D = free_memD [OF free]
  have le: "vknown (snd (last (mfree m))) \<subseteq> vknown V" "vknown W \<subseteq> vknown V" by (auto simp: V)
  have k: "free_known m V j" if "j \<in> set F" for j
    using D(4) [OF that] le(1) by (auto simp: free_known_def intro: covers_mono covers_writes_mono)
  have ki: "free_known m V i"
    using known le(2) by (auto simp: slot_known_def free_known_def intro: covers_mono covers_writes_mono dest: covers_covers_writes)
  show ?thesis
    unfolding free_mem_def using D i k ki by (auto simp: free_known_def nth_append less_Suc_eq)
qed

section \<open>The invariant\<close>

definition ids :: "Handover \<Rightarrow> u32 list" where
  "ids s = map (refIdx \<circ> fst) (hpushed s)"

fun cell_written :: "feed_pc \<Rightarrow> nat" where
  "cell_written (FeedPush i tw (PushWritten v t)) = 1"
| "cell_written (FeedSentinel tw (PushWritten v t)) = 1"
| "cell_written _ = 0"

fun cell_read :: "match_pc \<Rightarrow> nat" where
  "cell_read (MatchPop (PopRead v h)) = 1"
| "cell_read _ = 0"

definition wpos :: "Handover \<Rightarrow> nat" where
  "wpos s = length (hpushed s) + cell_written (hnpc s)"

definition rpos :: "Handover \<Rightarrow> nat" where
  "rpos s = popped_count (hmem s) + cell_read (hmpc s)"

text \<open>The buffers with each thread and in the ring.\<close>

fun feed_holds :: "feed_pc \<Rightarrow> u32 list" where
  "feed_holds (FeedHold i) = [i]"
| "feed_holds (FeedPush i tw pc) = [i]"
| "feed_holds (FeedRelease i k pc) = [i]"
| "feed_holds _ = []"

fun match_holds :: "match_pc \<Rightarrow> u32 list" where
  "match_holds (MatchUse ref) = [refIdx ref]"
| "match_holds (MatchRelease i pc) = [i]"
| "match_holds _ = []"

definition ring_ids :: "Handover \<Rightarrow> u32 list" where
  "ring_ids s = filter (\<lambda>i. i \<noteq> kPoolInvalid) (drop (popped_count (hmem s)) (ids s))"

definition slot_owners :: "Handover \<Rightarrow> u32 list \<Rightarrow> u32 list" where
  "slot_owners s F = F @ feed_holds (hnpc s) @ ring_ids s @ match_holds (hmpc s)"

text \<open>What the threads rely on inside a call.\<close>

fun push_ok :: "Memory \<Rightarrow> nat \<Rightarrow> tview \<Rightarrow> PacketRef \<Rightarrow> PacketRef push_pc \<Rightarrow> bool" where
  "push_ok m T NV ref PushIdle \<longleftrightarrow> True"
| "push_ok m T NV ref (PushTail v t) \<longleftrightarrow> v = ref \<and> unat t = T mod length (mcells m)"
| "push_ok m T NV ref (PushRoom v t) \<longleftrightarrow> v = ref \<and> unat t = T mod length (mcells m) \<and> Suc T < vseen NV RingHead + length (mcells m)"
| "push_ok m T NV ref (PushWritten v t) \<longleftrightarrow> v = ref \<and> unat t = T mod length (mcells m) \<and> mcells m ! (T mod length (mcells m)) = ref"

fun pop_ok :: "Memory \<Rightarrow> PacketRef list \<Rightarrow> tview \<Rightarrow> PacketRef pop_pc \<Rightarrow> bool" where
  "pop_ok m refs MV PopIdle \<longleftrightarrow> True"
| "pop_ok m refs MV (PopHead h) \<longleftrightarrow> unat h = popped_count m mod length (mcells m)"
| "pop_ok m refs MV (PopReady h) \<longleftrightarrow> unat h = popped_count m mod length (mcells m) \<and> popped_count m < vseen MV RingTail"
| "pop_ok m refs MV (PopRead v h) \<longleftrightarrow> unat h = popped_count m mod length (mcells m) \<and> v = refs ! popped_count m"

fun acquire_ok :: "Memory \<Rightarrow> u32 list \<Rightarrow> tview \<Rightarrow> pool_pc \<Rightarrow> bool" where
  "acquire_ok m F NV PoolIdle \<longleftrightarrow> True"
| "acquire_ok m F NV (AcqHead h) \<longleftrightarrow> h \<in> set F \<and> covers_writes (mlog m) NV (Link h)"
| "acquire_ok m F NV (AcqNext h n) \<longleftrightarrow> h \<in> set F \<and> nextFree (mslots m ! unat h) = n"
| "acquire_ok m F NV _ \<longleftrightarrow> False"

fun release_ok :: "Memory \<Rightarrow> u32 \<Rightarrow> pool_pc \<Rightarrow> bool" where
  "release_ok m i PoolIdle \<longleftrightarrow> True"
| "release_ok m i (RelHead j h) \<longleftrightarrow> j = i"
| "release_ok m i (RelLinked j h) \<longleftrightarrow> j = i \<and> nextFree (mslots m ! unat i) = h"
| "release_ok m i _ \<longleftrightarrow> False"

definition feed_ok :: "Memory \<Rightarrow> nat \<Rightarrow> u32 list \<Rightarrow> tview \<Rightarrow> feed_pc \<Rightarrow> bool" where
  "feed_ok m T F NV pc = (case pc of
      FeedAcquire pc \<Rightarrow> acquire_ok m F NV pc
    | FeedPush i tw pc \<Rightarrow> push_ok m T NV \<lparr>refIdx = i, tWireCycles = tw\<rparr> pc
    | FeedRelease i k pc \<Rightarrow> release_ok m i pc
    | FeedSentinel tw pc \<Rightarrow> push_ok m T NV \<lparr>refIdx = kPoolInvalid, tWireCycles = tw\<rparr> pc
    | _ \<Rightarrow> True)"

definition match_ok :: "Memory \<Rightarrow> (PacketRef \<times> bytes \<times> u16) list \<Rightarrow> tview \<Rightarrow> match_pc \<Rightarrow> bool" where
  "match_ok m ps MV pc = (case pc of
      MatchPop pc \<Rightarrow> pop_ok m (map fst ps) MV pc
    | MatchUse ref \<Rightarrow> 0 < popped_count m \<and> refIdx ref \<noteq> kPoolInvalid \<and> ps ! (popped_count m - 1) = (ref, packet_in m (refIdx ref))
    | MatchRelease i pc \<Rightarrow> release_ok m i pc
    | MatchDone \<Rightarrow> True)"

definition ring_holds :: "Memory \<Rightarrow> (PacketRef \<times> bytes \<times> u16) list \<Rightarrow> bool" where
  "ring_holds m ps \<longleftrightarrow> (\<forall>p. popped_count m \<le> p \<and> p < length ps \<longrightarrow>
     mcells m ! (p mod length (mcells m)) = fst (ps ! p) \<and> packet_in m (refIdx (fst (ps ! p))) = snd (ps ! p))"

text \<open>A packet that is popped but not yet read.\<close>

fun unread :: "match_pc \<Rightarrow> nat" where
  "unread (MatchUse ref) = 1"
| "unread _ = 0"

definition used_count :: "Handover \<Rightarrow> nat" where
  "used_count s = popped_count (hmem s) - unread (hmpc s)"

definition hinv :: "Handover \<Rightarrow> u32 list \<Rightarrow> bool" where
  "hinv s F \<longleftrightarrow> ring_sys (hmem s) (ids s) (wpos s) (rpos s) (nview s) (mview s) \<and> free_mem (hmem s) F (nview s) \<and>
     feed_ok (hmem s) (length (hpushed s)) F (nview s) (hnpc s) \<and> match_ok (hmem s) (hpushed s) (mview s) (hmpc s) \<and>
     mset (slot_owners s F) = mset (map of_nat [0..<length (mslots (hmem s))]) \<and>
     (\<forall>i \<in> set (feed_holds (hnpc s)). slot_known (hmem s) (nview s) i) \<and>
     (\<forall>i \<in> set (match_holds (hmpc s)). slot_known (hmem s) (mview s) i) \<and>
     ring_holds (hmem s) (hpushed s) \<and> hused s = take (used_count s) (hpushed s)"

lemma hinvD:
  assumes "hinv s F"
  shows "ring_sys (hmem s) (ids s) (wpos s) (rpos s) (nview s) (mview s)" "free_mem (hmem s) F (nview s)"
    "feed_ok (hmem s) (length (hpushed s)) F (nview s) (hnpc s)" "match_ok (hmem s) (hpushed s) (mview s) (hmpc s)"
    "mset (slot_owners s F) = mset (map of_nat [0..<length (mslots (hmem s))])"
    "\<And>i. i \<in> set (feed_holds (hnpc s)) \<Longrightarrow> slot_known (hmem s) (nview s) i"
    "\<And>i. i \<in> set (match_holds (hmpc s)) \<Longrightarrow> slot_known (hmem s) (mview s) i"
    "ring_holds (hmem s) (hpushed s)" "hused s = take (used_count s) (hpushed s)"
  using assms by (auto simp: hinv_def)

lemma packet_in_simps [simp]:
  "packet_in (m\<lparr>mcells := b\<rparr>) i = packet_in m i" "packet_in (m\<lparr>mtail := h\<rparr>) i = packet_in m i"
  "packet_in (m\<lparr>mhead := h\<rparr>) i = packet_in m i" "packet_in (m\<lparr>mfree := f\<rparr>) i = packet_in m i"
  "packet_in (logged x l m) i = packet_in m i"
  by (simp_all add: packet_in_def)

lemma length_ids [simp]: "length (ids s) = length (hpushed s)"
  by (simp add: ids_def)

text \<open>Every slot has exactly one owner.\<close>

lemma distinct_slots:
  assumes "n \<le> unat kPoolInvalid"
  shows "distinct (map of_nat [0..<n] :: u32 list)" "i \<in> set (map of_nat [0..<n] :: u32 list) \<Longrightarrow> unat i < n \<and> i \<noteq> kPoolInvalid"
proof -
  have u: "unat (of_nat k :: u32) = k" if "k < n" for k
    by (rule unat_of_nat_small) (use that assms in \<open>simp add: kPoolInvalid_def\<close>)
  show "distinct (map of_nat [0..<n] :: u32 list)"
    unfolding distinct_map using u by (auto intro!: inj_onI) metis
  show "unat i < n \<and> i \<noteq> kPoolInvalid" if "i \<in> set (map of_nat [0..<n] :: u32 list)"
    using that u assms by auto (metis leD)
qed

lemma hinv_owners:
  assumes "hinv s F"
  shows "distinct (slot_owners s F)" "i \<in> set (slot_owners s F) \<Longrightarrow> unat i < length (mslots (hmem s)) \<and> i \<noteq> kPoolInvalid"
proof -
  have n: "length (mslots (hmem s)) \<le> unat kPoolInvalid" using free_memD(3) [OF hinvD(2) [OF assms]] .
  show "distinct (slot_owners s F)" using hinvD(5) [OF assms] distinct_slots(1) [OF n] mset_eq_imp_distinct_iff by blast
  have "set (slot_owners s F) = set (map of_nat [0..<length (mslots (hmem s))])" using hinvD(5) [OF assms] by (rule mset_eq_setD)
  then show "unat i < length (mslots (hmem s)) \<and> i \<noteq> kPoolInvalid" if "i \<in> set (slot_owners s F)"
    using that distinct_slots(2) [OF n] by simp
qed

lemma not_in_ring:
  assumes "hinv s F" and "i \<in> set F \<or> i \<in> set (feed_holds (hnpc s)) \<or> i \<in> set (match_holds (hmpc s))"
  shows "i \<notin> set (drop (popped_count (hmem s)) (ids s))" "unat i < length (mslots (hmem s))" "i \<noteq> kPoolInvalid"
proof -
  have "i \<in> set (slot_owners s F)" using assms(2) by (auto simp: slot_owners_def)
  then show i: "unat i < length (mslots (hmem s))" "i \<noteq> kPoolInvalid" using hinv_owners(2) [OF assms(1)] by auto
  have "i \<notin> set (ring_ids s)" using hinv_owners(1) [OF assms(1)] assms(2) by (auto simp: slot_owners_def)
  then show "i \<notin> set (drop (popped_count (hmem s)) (ids s))" using i(2) by (simp add: ring_ids_def)
qed

section \<open>Steps of the network thread\<close>

lemma state_simps [simp]:
  "ids (s\<lparr>hnpc := pc\<rparr>) = ids s" "ids (s\<lparr>nview := V\<rparr>) = ids s" "ids (s\<lparr>hmem := m\<rparr>) = ids s"
  "ids (s\<lparr>hmpc := mpc\<rparr>) = ids s" "ids (s\<lparr>mview := V\<rparr>) = ids s" "ids (s\<lparr>hused := u\<rparr>) = ids s"
  by (simp_all add: ids_def)

lemma ring_ids_simps [simp]:
  "ring_ids (s\<lparr>hnpc := pc\<rparr>) = ring_ids s" "ring_ids (s\<lparr>nview := V\<rparr>) = ring_ids s" "ring_ids (s\<lparr>hmpc := mpc\<rparr>) = ring_ids s"
  "ring_ids (s\<lparr>mview := V\<rparr>) = ring_ids s" "ring_ids (s\<lparr>hused := u\<rparr>) = ring_ids s"
  by (simp_all add: ring_ids_def)

text \<open>The thread goes on, perhaps with a larger view.\<close>

lemma hinv_feed_goes_on:
  assumes inv: "hinv s F" and "ring_sys (hmem s) (ids s) (wpos s) (rpos s) V (mview s)"
    and "vknown (nview s) \<subseteq> vknown V" "vseen (nview s) FreeHead \<le> vseen V FreeHead"
    and "feed_holds pc = feed_holds (hnpc s)" "cell_written pc = cell_written (hnpc s)"
    and "feed_ok (hmem s) (length (hpushed s)) F V pc"
  shows "hinv (s\<lparr>nview := V, hnpc := pc\<rparr>) F"
proof -
  note D = hinvD [OF inv]
  have "free_mem (hmem s) F V" using free_mem_mono [OF D(2) assms(3,4)] .
  moreover have "slot_known (hmem s) V i" if "i \<in> set (feed_holds pc)" for i
    using slot_known_mono [OF D(6) assms(3)] that assms(5) by simp
  ultimately show ?thesis
    using D(4,5,7,8,9) assms(2,5-7) by (simp add: hinv_def slot_owners_def wpos_def rpos_def used_count_def)
qed

lemma hinv_feed_pc:
  assumes "hinv s F" and "feed_holds pc = feed_holds (hnpc s)" "cell_written pc = cell_written (hnpc s)"
    and "feed_ok (hmem s) (length (hpushed s)) F (nview s) pc"
  shows "hinv (s\<lparr>hnpc := pc\<rparr>) F"
  using hinv_feed_goes_on [OF assms(1) hinvD(1) [OF assms(1)] order_refl order_refl assms(2-4)] by simp

text \<open>An acquire load by the network thread.\<close>

lemma feed_loads:
  assumes inv: "hinv s F" and W: "W \<in> messages (hmem s)"
    and "feed_holds pc = feed_holds (hnpc s)" "cell_written pc = cell_written (hnpc s)"
    and "feed_ok (hmem s) (length (hpushed s)) F (view_join (nview s) W) pc"
  shows "hinv (s\<lparr>nview := view_join (nview s) W, hnpc := pc\<rparr>) F"
  using inv ring_sys_join_net [OF hinvD(1) [OF inv] W] _ _ assms(3-5) by (rule hinv_feed_goes_on) simp_all

lemma free_messages:
  assumes "hinv s F"
  shows "mfree (hmem s) \<noteq> []" "k < length (mfree (hmem s)) \<Longrightarrow> snd (mfree (hmem s) ! k) \<in> messages (hmem s)"
    "snd (last (mfree (hmem s))) \<in> messages (hmem s)"
  using free_memD(1) [OF hinvD(2) [OF assms]] messages_nth by auto

lemma ring_sys_numbered:
  assumes "ring_sys m js w r NV MV"
  shows "k < length (mhead m) \<Longrightarrow> vseen (snd (mhead m ! k)) RingHead = k" "k < length (mtail m) \<Longrightarrow> vseen (snd (mtail m ! k)) RingTail = k"
    "k < length (mfree m) \<Longrightarrow> vseen (snd (mfree m ! k)) FreeHead = k"
  using ring_memD(2,3,4) [OF ring_sysD(1) [OF assms]] by (simp_all add: numbered_def)

lemma free_load:
  assumes "ring_sys m js w r NV MV" and "V = NV \<or> V = MV"
  obtains k where "k < length (mfree m)" "vseen V FreeHead \<le> k"
    "acquire_load back FreeHead (mfree m) V = (fst (mfree m ! k), view_join V (snd (mfree m ! k)))"
proof -
  have "vseen V FreeHead < length (mfree m)" using seen_less(3) ring_sysD(4,5) [OF assms(1)] assms(2) by blast
  from acquire_load_join [OF this ring_sys_numbered(3) [OF assms(1)]] show thesis using that by blast
qed

text \<open>A head the thread may load is on the list, and its link may be read.\<close>

lemma acquire_test_ok:
  assumes inv: "hinv s F" and k: "k < length (mfree (hmem s))" "vseen (nview s) FreeHead \<le> k"
    and pc: "hnpc s = FeedAcquire apc"
  shows "hinv (s\<lparr>nview := view_join (nview s) (snd (mfree (hmem s) ! k)),
      hnpc := (case acquire_test (fst (mfree (hmem s) ! k)) of Running pc \<Rightarrow> FeedAcquire pc
        | Returned i \<Rightarrow> if i = kPoolInvalid then FeedTop else FeedHold i)\<rparr>) F"
proof (cases "fst (mfree (hmem s) ! k) = kPoolInvalid")
  case True
  then show ?thesis
    using feed_loads [OF inv free_messages(2) [OF inv k(1)], of FeedTop] pc by (simp add: acquire_test_def feed_ok_def)
next
  case False
  let ?h = "fst (mfree (hmem s) ! k)" and ?W = "snd (mfree (hmem s) ! k)"
  have "?h \<in> set F" "covers_writes (mlog (hmem s)) ?W (Link ?h)" using free_memD(5) [OF hinvD(2) [OF inv] k(2,1) False] by auto
  then have "feed_ok (hmem s) (length (hpushed s)) F (view_join (nview s) ?W) (FeedAcquire (AcqHead ?h))"
    by (auto simp: feed_ok_def intro: covers_writes_mono)
  with False show ?thesis
    using feed_loads [OF inv free_messages(2) [OF inv k(1)], of "FeedAcquire (AcqHead ?h)"] pc by (simp add: acquire_test_def)
qed

text \<open>What one thread relies on is not touched by an access of the other.\<close>

lemma release_ok_frame: "release_ok m i pc \<Longrightarrow> mslots m' ! unat i = mslots m ! unat i \<Longrightarrow> release_ok m' i pc"
  by (cases pc) auto

lemma pop_ok_frame: "pop_ok m refs MV pc \<Longrightarrow> popped_count m' = popped_count m \<Longrightarrow> length (mcells m') = length (mcells m) \<Longrightarrow> pop_ok m' refs MV pc"
  by (cases pc) auto

lemma match_ok_frame:
  "match_ok m ps MV pc \<Longrightarrow> popped_count m' = popped_count m \<Longrightarrow> length (mcells m') = length (mcells m) \<Longrightarrow>
   (\<And>j. j \<in> set (match_holds pc) \<Longrightarrow> mslots m' ! unat j = mslots m ! unat j) \<Longrightarrow> match_ok m' ps MV pc"
  by (cases pc) (auto simp: match_ok_def packet_in_def intro: release_ok_frame pop_ok_frame)

lemma push_ok_frame: "push_ok m T NV ref pc \<Longrightarrow> mcells m' = mcells m \<Longrightarrow> push_ok m' T NV ref pc"
  by (cases pc) auto

lemma acquire_ok_frame:
  "acquire_ok m F NV pc \<Longrightarrow> (\<And>j. j \<in> set F \<Longrightarrow> covers_writes (mlog m) NV (Link j) \<Longrightarrow> covers_writes (mlog m') NV (Link j)) \<Longrightarrow>
   (\<And>j. j \<in> set F \<Longrightarrow> mslots m' ! unat j = mslots m ! unat j) \<Longrightarrow> set F \<subseteq> set F' \<Longrightarrow> acquire_ok m' F' NV pc"
  by (cases pc) auto

lemma feed_ok_frame:
  assumes "feed_ok m T F NV pc" and "mcells m' = mcells m" and "set F \<subseteq> set F'"
    and "\<And>j. j \<in> set F \<Longrightarrow> covers_writes (mlog m) NV (Link j) \<Longrightarrow> covers_writes (mlog m') NV (Link j)"
    and "\<And>j. j \<in> set F \<or> j \<in> set (feed_holds pc) \<Longrightarrow> mslots m' ! unat j = mslots m ! unat j"
  shows "feed_ok m' T F' NV pc"
  using assms by (cases pc) (auto simp: feed_ok_def intro: acquire_ok_frame push_ok_frame release_ok_frame)

lemma ring_holds_frame:
  assumes "ring_holds m ps" and "popped_count m' = popped_count m" and "mcells m' = mcells m"
    and "\<And>j. j \<in> set (drop (popped_count m) (map (refIdx \<circ> fst) ps)) \<Longrightarrow> j \<noteq> kPoolInvalid \<Longrightarrow> mslots m' ! unat j = mslots m ! unat j"
  shows "ring_holds m' ps"
  unfolding ring_holds_def assms(2,3)
proof (intro allI impI)
  fix p assume p: "popped_count m \<le> p \<and> p < length ps"
  let ?j = "refIdx (fst (ps ! p))"
  have "?j \<in> set (drop (popped_count m) (map (refIdx \<circ> fst) ps))"
    using p unfolding in_set_conv_nth by (intro exI [of _ "p - popped_count m"]) auto
  from assms(4) [OF this] have "packet_in m' ?j = packet_in m ?j" by (auto simp: packet_in_def)
  then show "mcells m ! (p mod length (mcells m)) = fst (ps ! p) \<and> packet_in m' ?j = snd (ps ! p)"
    using assms(1) p by (simp add: ring_holds_def)
qed

text \<open>An access to a slot: the link or packet of one the thread holds, or the link of a free one.\<close>

lemma feed_touches:
  assumes inv: "hinv s F" and i: "i \<in> set (feed_holds (hnpc s)) \<or> i \<in> set F \<and> x = Read \<and> l = Link i \<and> sl = mslots (hmem s) ! unat i"
    and l: "l = Link i \<or> l = Packet i" and pc: "feed_holds pc = feed_holds (hnpc s)" "cell_written pc = cell_written (hnpc s)"
    and m: "m' = (logged x l (hmem s))\<lparr>mslots := (mslots (hmem s))[unat i := sl]\<rparr>"
    and ok: "feed_ok m' (length (hpushed s)) F (learn (hmem s) (nview s)) pc"
  shows "hinv (s\<lparr>hmem := m', nview := learn (hmem s) (nview s), hnpc := pc\<rparr>) F"
proof -
  note D = hinvD [OF inv] and dist = hinv_owners(1) [OF inv]
  have i': "i \<in> set F \<or> i \<in> set (feed_holds (hnpc s)) \<or> i \<in> set (match_holds (hmpc s))" using i by auto
  note ring = not_in_ring [OF inv i']
  have other: "(mslots (hmem s))[unat i := sl] ! unat j = mslots (hmem s) ! unat j" if "j \<noteq> i" for j
    using that by (simp add: nth_list_update unat_inject)
  have nm: "i \<notin> set (match_holds (hmpc s))" using i dist by (auto simp: slot_owners_def)
  have "ring_sys m' (ids s) (wpos s) (rpos s) (learn (hmem s) (nview s)) (mview s)"
    using ring_sys_slot_net [OF D(1) ring(1) l] by (simp add: m)
  moreover have "free_mem m' F (learn (hmem s) (nview s))"
  proof -
    have "spares x l F" using i l dist by (auto simp: spares_def slot_owners_def)
    then have "free_mem (logged x l (hmem s)) F (learn (hmem s) (nview s))" by (intro free_mem_logged [OF D(2)]) auto
    moreover have "i \<notin> set F \<or> (mslots (hmem s))[unat i := sl] = mslots (hmem s)" using i dist by (auto simp: slot_owners_def)
    ultimately show ?thesis
      unfolding m using free_mem_slot [of "logged x l (hmem s)" F _ i sl] by (auto simp: logged_def)
  qed
  moreover have "match_ok m' (hpushed s) (mview s) (hmpc s)"
    using D(4) by (rule match_ok_frame) (use nm in \<open>auto simp: m intro!: other\<close>)
  moreover have "slot_known m' (learn (hmem s) (nview s)) j" if "j \<in> set (feed_holds pc)" for j
    using slot_known_learn [OF D(6)] that pc(1) by (simp add: m)
  moreover have "slot_known m' (mview s) j" if "j \<in> set (match_holds (hmpc s))" for j
  proof -
    have "j \<noteq> i" using that nm by auto
    with l have "l \<noteq> Link j" "l \<noteq> Packet j" by auto
    from slot_known_logged [OF D(7) [OF that] this] show ?thesis by (simp add: m)
  qed
  moreover have "ring_holds m' (hpushed s)"
    using D(8) by (rule ring_holds_frame) (use ring(1) in \<open>auto simp: m ids_def intro!: other\<close>)
  moreover have "popped_count m' = popped_count (hmem s)" "length (mslots m') = length (mslots (hmem s))" by (simp_all add: m)
  ultimately show ?thesis
    using D(5,9) pc ok by (simp add: hinv_def slot_owners_def wpos_def rpos_def used_count_def ring_ids_def)
qed

text \<open>Taking a slot off the free list.\<close>

lemma feed_acquires:
  assumes inv: "hinv s F" and pc: "hnpc s = FeedAcquire (AcqNext h n)" and last: "fst (last (mfree (hmem s))) = h"
    and V: "V = see FreeHead (length (mfree (hmem s))) (view_join (nview s) (snd (last (mfree (hmem s)))))"
  shows "\<exists>F'. hinv (s\<lparr>hmem := (hmem s)\<lparr>mfree := mfree (hmem s) @ [(n, V)]\<rparr>, nview := V, hnpc := FeedHold h\<rparr>) F'"
proof -
  note D = hinvD [OF inv]
  let ?m = "(hmem s)\<lparr>mfree := mfree (hmem s) @ [(n, V)]\<rparr>"
  have n: "h \<in> set F" "nextFree (mslots (hmem s) ! unat h) = n" using D(3) pc by (simp_all add: feed_ok_def)
  have "distinct F" using hinv_owners(1) [OF inv] by (simp add: slot_owners_def)
  from free_mem_pop [OF D(2) last n(1) this V] obtain F' where F': "F = h # F'" "free_mem ?m F' V" "slot_known (hmem s) V h"
    unfolding n(2) by blast
  have "ring_sys ?m (ids s) (wpos s) (rpos s) V (mview s)"
    unfolding V by (rule ring_sys_swap_net [OF ring_sys_join_net [OF D(1) free_messages(3) [OF inv]]])
  moreover have "match_ok ?m (hpushed s) (mview s) (hmpc s)" using D(4) by (rule match_ok_frame) auto
  moreover have "ring_holds ?m (hpushed s)" using D(8) by (rule ring_holds_frame) auto
  ultimately show ?thesis
    using D(5,7,9) F' pc
    by (intro exI [of _ F']) (simp add: hinv_def slot_owners_def wpos_def rpos_def used_count_def ring_ids_def feed_ok_def)
qed

text \<open>Putting one back.\<close>

lemma feed_releases:
  assumes inv: "hinv s F" and pc: "hnpc s = FeedRelease i k (RelLinked j h)" and last: "fst (last (mfree (hmem s))) = h"
    and V: "V = see FreeHead (length (mfree (hmem s))) (view_join (nview s) (snd (last (mfree (hmem s)))))"
  shows "hinv (s\<lparr>hmem := (hmem s)\<lparr>mfree := mfree (hmem s) @ [(j, V)]\<rparr>, nview := V, hnpc := after_pc k\<rparr>) (i # F)"
proof -
  note D = hinvD [OF inv]
  let ?m = "(hmem s)\<lparr>mfree := mfree (hmem s) @ [(j, V)]\<rparr>"
  have j: "j = i" "nextFree (mslots (hmem s) ! unat i) = fst (last (mfree (hmem s)))" using D(3) pc last by (simp_all add: feed_ok_def)
  have i: "unat i < length (mslots (hmem s))" "i \<noteq> kPoolInvalid" using not_in_ring [OF inv, of i] pc by auto
  have "free_mem ?m (i # F) (nview s)"
    using free_mem_push [OF D(2) i(2,1) j(2) D(6) V] pc j(1) by simp
  then have "free_mem ?m (i # F) V"
    by (rule free_mem_mono) (use seen_less(3) [OF ring_sysD(4) [OF D(1)]] in \<open>auto simp: V\<close>)
  moreover have "ring_sys ?m (ids s) (wpos s) (rpos s) V (mview s)"
    unfolding V by (rule ring_sys_swap_net [OF ring_sys_join_net [OF D(1) free_messages(3) [OF inv]]])
  moreover have "match_ok ?m (hpushed s) (mview s) (hmpc s)" using D(4) by (rule match_ok_frame) auto
  moreover have "ring_holds ?m (hpushed s)" using D(8) by (rule ring_holds_frame) auto
  moreover have "feed_holds (after_pc k) = []" "cell_written (after_pc k) = 0" "feed_ok ?m T F' V (after_pc k)" for T F'
    by (simp_all add: after_pc_def feed_ok_def split: after_release.split)
  ultimately show ?thesis
    using D(5,7,9) pc by (simp add: hinv_def slot_owners_def wpos_def rpos_def used_count_def ring_ids_def)
qed

section \<open>Steps of the ring\<close>

lemma ring_index_next:
  assumes "ring_sys m js w r NV MV" and "unat t = T mod length (mcells m)"
  shows "unat ((t + 1) AND mmask m) = Suc T mod length (mcells m)"
proof -
  obtain n where n: "n < 64" "mmask m = mask n" "length (mcells m) = 2 ^ n"
    using ring_memD(1) [OF ring_sysD(1) [OF assms(1)]] by auto
  have "unat t < 2 ^ n" using assms(2) n(3) by simp
  from unat_cnext [OF n(1) this] show ?thesis using assms(2) by (simp add: n(2,3) cnext_def mod_Suc)
qed

lemma push_test:
  assumes sys: "ring_sys m js w r NV MV" and t: "unat t = length js mod length (mcells m)"
    and k: "k < length (mhead m)" "vseen NV RingHead \<le> k" and ne: "(t + 1) AND mmask m \<noteq> fst (mhead m ! k)"
  shows "Suc (length js) < k + length (mcells m)"
proof -
  let ?N = "length (mcells m)"
  note D = ring_sysD [OF sys] and M = ring_memD [OF ring_sysD(1) [OF sys]]
  have "unat (fst (mhead m ! k)) = k mod ?N" using M(5) k(1) by (simp add: positions_def)
  then have "Suc (length js) mod ?N \<noteq> k mod ?N" using ring_index_next [OF sys t] ne by (metis unat_inject)
  then have "Suc (length js) \<noteq> k + ?N" by auto
  moreover have "length js < k + ?N" using D(8) M(13) k(2) by simp
  ultimately show ?thesis by simp
qed

lemma pop_test:
  assumes sys: "ring_sys m js w r NV MV" and h: "unat h = popped_count m mod length (mcells m)"
    and k: "k < length (mtail m)" and ne: "h \<noteq> fst (mtail m ! k)" and "popped_count m \<le> k"
  shows "popped_count m < k"
proof -
  note M = ring_memD [OF ring_sysD(1) [OF sys]]
  have "unat (fst (mtail m ! k)) = k mod length (mcells m)" using M(6) k by (simp add: positions_def)
  then have "popped_count m \<noteq> k" using h ne by (metis unat_inject)
  with assms(5) show ?thesis by simp
qed

text \<open>Both calls of \<open>push\<close>: the one with a buffer and the one with the sentinel.\<close>

fun wrote :: "PacketRef push_pc \<Rightarrow> nat" where
  "wrote (PushWritten v t) = 1"
| "wrote _ = 0"

definition pushing :: "(PacketRef push_pc \<Rightarrow> feed_pc) \<Rightarrow> PacketRef \<Rightarrow> u32 list \<Rightarrow> bool" where
  "pushing run ref hs \<longleftrightarrow> hs = (if refIdx ref = kPoolInvalid then [] else [refIdx ref]) \<and>
     (\<forall>pc. feed_holds (run pc) = hs \<and> cell_written (run pc) = wrote pc \<and>
        (\<forall>m T F NV. feed_ok m T F NV (run pc) = push_ok m T NV ref pc))"

lemma pushingD:
  assumes "pushing run ref hs"
  shows "feed_holds (run pc) = hs" "cell_written (run pc) = wrote pc" "feed_ok m T F NV (run pc) = push_ok m T NV ref pc"
    "hs = (if refIdx ref = kPoolInvalid then [] else [refIdx ref])"
  using assms by (auto simp: pushing_def)

lemma pushing_ref:
  assumes "i \<noteq> kPoolInvalid"
  shows "pushing (FeedPush i tw) \<lparr>refIdx = i, tWireCycles = tw\<rparr> [i]"
proof -
  have "cell_written (FeedPush i tw pc) = wrote pc" for pc by (cases pc) auto
  with assms show ?thesis by (simp add: pushing_def feed_ok_def)
qed

lemma pushing_sentinel: "pushing (FeedSentinel tw) \<lparr>refIdx = kPoolInvalid, tWireCycles = tw\<rparr> []"
proof -
  have "cell_written (FeedSentinel tw pc) = wrote pc" for pc by (cases pc) auto
  then show ?thesis by (simp add: pushing_def feed_ok_def)
qed

lemma feed_writes_cell:
  assumes inv: "hinv s F" and run: "pushing run ref hs" and pc: "hnpc s = run (PushRoom v t)"
  shows "covers (mlog (hmem s)) (nview s) (RingCell (unat t))" "unat t < length (mcells (hmem s))"
    and "hinv (s\<lparr>hmem := (logged Write (RingCell (unat t)) (hmem s))\<lparr>mcells := (mcells (hmem s))[unat t := v]\<rparr>,
        nview := learn (hmem s) (nview s), hnpc := run (PushWritten v t)\<rparr>) F"
proof -
  note D = hinvD [OF inv] and R = ring_sysD [OF hinvD(1) [OF inv]]
  let ?m = "hmem s" and ?T = "length (hpushed s)" and ?N = "length (mcells (hmem s))"
  let ?m' = "(logged Write (RingCell (unat t)) ?m)\<lparr>mcells := (mcells ?m)[unat t := v]\<rparr>" and ?V = "learn ?m (nview s)"
  have t: "v = ref" "unat t = ?T mod ?N" "Suc ?T < vseen (nview s) RingHead + ?N"
    using D(3) pc run by (auto simp: pushing_def)
  have w: "wpos s = length (ids s)" using pc run by (simp add: wpos_def pushing_def)
  have sys: "ring_sys ?m' (ids s) (Suc ?T) (rpos s) ?V (mview s)"
    and cov: "covers (mlog ?m) (nview s) (RingCell (unat t))"
    using ring_sys_write [OF D(1) w] t(2,3) by (simp_all add: w)
  show "covers (mlog ?m) (nview s) (RingCell (unat t))" by (rule cov)
  show tN: "unat t < ?N" using t(2) R(13) by simp
  have "free_mem ?m' F ?V" using free_mem_logged [OF D(2), of Write "RingCell (unat t)" ?V] by (auto simp: spares_def)
  moreover have "match_ok ?m' (hpushed s) (mview s) (hmpc s)" using D(4) by (rule match_ok_frame) auto
  moreover have "feed_ok ?m' ?T F ?V (run (PushWritten v t))" using run t tN by (simp add: pushing_def)
  moreover have "slot_known ?m' ?V i" if "i \<in> set hs" for i
    using slot_known_learn [OF D(6)] that pc run by (simp add: pushing_def)
  moreover have "slot_known ?m' (mview s) i" if "i \<in> set (match_holds (hmpc s))" for i
    using slot_known_logged [OF D(7) [OF that]] by simp
  moreover have "ring_holds ?m' (hpushed s)"
    unfolding ring_holds_def
  proof (intro allI impI)
    fix p assume p: "popped_count ?m' \<le> p \<and> p < ?T"
    have "unat t \<noteq> p mod ?N"
      unfolding t(2) by (rule window_apart [of _ _ "popped_count ?m"]) (use p R(11,12) in auto)
    then show "mcells ?m' ! (p mod length (mcells ?m')) = fst (hpushed s ! p) \<and> packet_in ?m' (refIdx (fst (hpushed s ! p))) = snd (hpushed s ! p)"
      using D(8) p by (simp add: ring_holds_def)
  qed
  ultimately show "hinv (s\<lparr>hmem := ?m', nview := ?V, hnpc := run (PushWritten v t)\<rparr>) F"
    using D(5,9) sys pc by (simp add: hinv_def slot_owners_def wpos_def rpos_def used_count_def ring_ids_def pushingD(1,2) [OF run])
qed

text \<open>The store of the tail hands the buffer over.\<close>

lemma feed_publishes:
  assumes inv: "hinv s F" and run: "pushing run ref hs" and pc: "hnpc s = run (PushWritten v t)"
    and V: "V = see RingTail (length (mtail (hmem s))) (nview s)"
    and nxt: "feed_holds pc' = []" "cell_written pc' = 0" "\<And>m T F NV. feed_ok m T F NV pc'"
    and m': "m' = (hmem s)\<lparr>mtail := mtail (hmem s) @ [((t + 1) AND mmask (hmem s), V)]\<rparr>"
  shows "hinv (s\<lparr>hmem := m', nview := V, hnpc := pc', hpushed := hpushed s @ [(ref, packet_in (hmem s) (refIdx ref))]\<rparr>) F"
proof -
  note D = hinvD [OF inv] and R = ring_sysD [OF hinvD(1) [OF inv]] and M = ring_memD [OF ring_sysD(1) [OF hinvD(1) [OF inv]]]
  let ?m = "hmem s" and ?T = "length (hpushed s)" and ?N = "length (mcells (hmem s))"
  let ?s' = "s\<lparr>hmem := m', nview := V, hnpc := pc', hpushed := hpushed s @ [(ref, packet_in ?m (refIdx ref))]\<rparr>"
  have t: "unat t = ?T mod ?N" "mcells ?m ! (?T mod ?N) = ref" using D(3) pc run by (auto simp: pushing_def)
  have w: "wpos s = Suc (length (ids s))" using pc run by (simp add: wpos_def pushing_def)
  have "slot_known ?m (nview s) (refIdx ref)" if "refIdx ref \<noteq> kPoolInvalid" using D(6) pc run that by (simp add: pushing_def)
  then have sys: "ring_sys m' (ids s @ [refIdx ref]) (wpos s) (rpos s) V (mview s)"
    using ring_sys_publish [OF D(1) w, of "refIdx ref" "(t + 1) AND mmask ?m"] ring_index_next [OF D(1) t(1)] M(7)
    by (simp add: m' V)
  have ids': "ids ?s' = ids s @ [refIdx ref]" by (simp add: ids_def)
  have pcnt: "popped_count m' = popped_count ?m" "mcells m' = mcells ?m" "mslots m' = mslots ?m" by (simp_all add: m')
  have rids: "mset (ring_ids ?s') = mset (ring_ids s) + mset hs"
    using run R(11) by (simp add: ring_ids_def ids' pcnt pushing_def)
  have "free_mem m' F V" using free_mem_mono [OF D(2), of V] by (simp add: m' V)
  moreover have "match_ok m' (hpushed s @ [(ref, packet_in ?m (refIdx ref))]) (mview s) (hmpc s)"
  proof -
    have "popped_count ?m < length (hpushed s)" if "hmpc s = MatchPop (PopRead v h)" for v h
      using M(12) that by (simp add: rpos_def)
    moreover have "popped_count ?m - 1 < length (hpushed s)" if "0 < popped_count ?m" using R(11) that by simp
    ultimately have "match_ok ?m (hpushed s @ [(ref, packet_in ?m (refIdx ref))]) (mview s) (hmpc s)"
      using D(4) by (cases "hmpc s" rule: cell_read.cases) (auto simp: match_ok_def nth_append)
    then show ?thesis by (rule match_ok_frame) (simp_all add: pcnt)
  qed
  moreover have "slot_known m' (mview s) i" if "i \<in> set (match_holds (hmpc s))" for i using D(7) [OF that] by (simp add: m')
  moreover have "ring_holds m' (hpushed s @ [(ref, packet_in ?m (refIdx ref))])"
    using D(8) t(2) by (auto simp: ring_holds_def pcnt packet_in_def nth_append less_Suc_eq)
  moreover have "used_count s \<le> ?T" using R(11) by (simp add: used_count_def)
  moreover have "wpos ?s' = wpos s" using w nxt(2) by (simp add: wpos_def)
  ultimately show ?thesis
    using D(5,9) sys pc nxt rids
    by (simp add: hinv_def slot_owners_def rpos_def used_count_def ids' pcnt pushingD(1) [OF run] ac_simps)
qed

end
