(* ===== verification/Handover_Races.thy ===== *)
theory Handover_Races
  imports Handover_Safety
begin

text \<open>
  The steps of the matching thread keep the invariant of \<^theory_text>\<open>Handover_Safety\<close> as those of the network thread do; with it,
  no step of either thread is undefined in any reachable state.
\<close>

section \<open>Steps of the matching thread\<close>

lemma hinv_match_goes_on:
  assumes inv: "hinv s F" and "ring_sys (hmem s) (ids s) (wpos s) (rpos s) (nview s) V"
    and "vknown (mview s) \<subseteq> vknown V"
    and "match_holds pc = match_holds (hmpc s)" "cell_read pc = cell_read (hmpc s)" "unread pc = unread (hmpc s)"
    and "match_ok (hmem s) (hpushed s) V pc"
  shows "hinv (s\<lparr>mview := V, hmpc := pc\<rparr>) F"
proof -
  note D = hinvD [OF inv]
  have "slot_known (hmem s) V i" if "i \<in> set (match_holds pc)" for i
    using slot_known_mono [OF D(7) assms(3)] that assms(4) by simp
  then show ?thesis
    using D(2,3,5,6,8,9) assms(2,4-7) by (simp add: hinv_def slot_owners_def wpos_def rpos_def used_count_def)
qed

lemma hinv_match_pc:
  assumes "hinv s F" and "match_holds pc = match_holds (hmpc s)" "cell_read pc = cell_read (hmpc s)" "unread pc = unread (hmpc s)"
    and "match_ok (hmem s) (hpushed s) (mview s) pc"
  shows "hinv (s\<lparr>hmpc := pc\<rparr>) F"
  using hinv_match_goes_on [OF assms(1) hinvD(1) [OF assms(1)] order_refl assms(2-5)] by simp

lemma match_loads:
  assumes inv: "hinv s F" and W: "W \<in> messages (hmem s)"
    and "match_holds pc = match_holds (hmpc s)" "cell_read pc = cell_read (hmpc s)" "unread pc = unread (hmpc s)"
    and "match_ok (hmem s) (hpushed s) (view_join (mview s) W) pc"
  shows "hinv (s\<lparr>mview := view_join (mview s) W, hmpc := pc\<rparr>) F"
  using inv ring_sys_join_match [OF hinvD(1) [OF inv] W] _ assms(3-6) by (rule hinv_match_goes_on) simp

text \<open>An access to the buffer the thread holds.\<close>

lemma match_touches:
  assumes inv: "hinv s F" and i: "i \<in> set (match_holds (hmpc s))" and l: "l = Link i \<or> l = Packet i"
    and pc: "match_holds pc = match_holds (hmpc s)" "cell_read pc = cell_read (hmpc s)"
    and x: "x = Write \<or> l = Packet i" and m: "m' = (logged x l (hmem s))\<lparr>mslots := (mslots (hmem s))[unat i := sl]\<rparr>"
    and ok: "match_ok m' (hpushed s) (learn (hmem s) (mview s)) pc" and u: "u = take (popped_count (hmem s) - unread pc) (hpushed s)"
  shows "hinv (s\<lparr>hmem := m', mview := learn (hmem s) (mview s), hmpc := pc, hused := u\<rparr>) F"
proof -
  note D = hinvD [OF inv] and dist = hinv_owners(1) [OF inv]
  note ring = not_in_ring [OF inv disjI2 [OF disjI2 [OF i]]]
  have nf: "i \<notin> set F" "i \<notin> set (feed_holds (hnpc s))" using i dist by (auto simp: slot_owners_def)
  have other: "(mslots (hmem s))[unat i := sl] ! unat j = mslots (hmem s) ! unat j" if "j \<noteq> i" for j
    using that by (simp add: nth_list_update unat_inject)
  have sys: "ring_sys m' (ids s) (wpos s) (rpos s) (nview s) (learn (hmem s) (mview s))"
    using ring_sys_slot_match [OF D(1) ring(1) l] by (simp add: m)
  have "spares x l F" using nf(1) l by (auto simp: spares_def)
  then have "free_mem (logged x l (hmem s)) F (nview s)" by (intro free_mem_logged [OF D(2)]) (use x in auto)
  then have "free_mem m' F (nview s)" unfolding m using free_mem_slot [OF _ nf(1), of "logged x l (hmem s)"] by simp
  moreover have "feed_ok m' (length (hpushed s)) F (nview s) (hnpc s)"
    using D(3)
  proof (rule feed_ok_frame)
    show "covers_writes (mlog m') (nview s) (Link j)" if "j \<in> set F" "covers_writes (mlog (hmem s)) (nview s) (Link j)" for j
      using that nf(1) l by (auto simp: m covers_writes_append)
    show "mslots m' ! unat j = mslots (hmem s) ! unat j" if "j \<in> set F \<or> j \<in> set (feed_holds (hnpc s))" for j
      using that nf by (auto simp: m intro!: other)
  qed (simp_all add: m)
  moreover have "slot_known m' (learn (hmem s) (mview s)) j" if "j \<in> set (match_holds pc)" for j
    using slot_known_learn [OF D(7)] that pc(1) by (simp add: m)
  moreover have "slot_known m' (nview s) j" if "j \<in> set (feed_holds (hnpc s))" for j
  proof -
    have "j \<noteq> i" using that nf(2) by auto
    with l have "l \<noteq> Link j" "l \<noteq> Packet j" by auto
    from slot_known_logged [OF D(6) [OF that] this] show ?thesis by (simp add: m)
  qed
  moreover have "ring_holds m' (hpushed s)"
    using D(8) by (rule ring_holds_frame) (use ring(1) in \<open>auto simp: m ids_def intro!: other\<close>)
  moreover have "popped_count m' = popped_count (hmem s)" "length (mslots m') = length (mslots (hmem s))" by (simp_all add: m)
  ultimately show ?thesis
    using D(5) sys pc ok u by (simp add: hinv_def slot_owners_def wpos_def rpos_def used_count_def ring_ids_def)
qed

lemma match_releases:
  assumes inv: "hinv s F" and pc: "hmpc s = MatchRelease i (RelLinked j h)" and last: "fst (last (mfree (hmem s))) = h"
    and V: "V = see FreeHead (length (mfree (hmem s))) (view_join (mview s) (snd (last (mfree (hmem s)))))"
  shows "hinv (s\<lparr>hmem := (hmem s)\<lparr>mfree := mfree (hmem s) @ [(j, V)]\<rparr>, mview := V, hmpc := MatchPop PopIdle\<rparr>) (i # F)"
proof -
  note D = hinvD [OF inv]
  let ?m = "(hmem s)\<lparr>mfree := mfree (hmem s) @ [(j, V)]\<rparr>"
  have j: "j = i" "nextFree (mslots (hmem s) ! unat i) = fst (last (mfree (hmem s)))" using D(4) pc last by (simp_all add: match_ok_def)
  have i: "unat i < length (mslots (hmem s))" "i \<noteq> kPoolInvalid" using not_in_ring [OF inv, of i] pc by auto
  have "free_mem ?m (i # F) (nview s)"
    using free_mem_push [OF D(2) i(2,1) j(2) D(7) V] pc j(1) by simp
  moreover have "ring_sys ?m (ids s) (wpos s) (rpos s) (nview s) V"
    unfolding V by (rule ring_sys_swap_match [OF ring_sys_join_match [OF D(1) free_messages(3) [OF inv]]])
  moreover have "feed_ok ?m (length (hpushed s)) (i # F) (nview s) (hnpc s)" using D(3) by (rule feed_ok_frame) auto
  moreover have "ring_holds ?m (hpushed s)" using D(8) by (rule ring_holds_frame) auto
  ultimately show ?thesis
    using D(5,6,9) pc by (simp add: hinv_def slot_owners_def wpos_def rpos_def used_count_def ring_ids_def match_ok_def)
qed

text \<open>Reading the cell, and giving it back.\<close>

lemma match_reads_cell:
  assumes inv: "hinv s F" and pc: "hmpc s = MatchPop (PopReady h)"
  shows "covers (mlog (hmem s)) (mview s) (RingCell (unat h))" "unat h < length (mcells (hmem s))"
    and "hinv (s\<lparr>hmem := logged Read (RingCell (unat h)) (hmem s), mview := learn (hmem s) (mview s),
        hmpc := MatchPop (PopRead (mcells (hmem s) ! unat h) h)\<rparr>) F"
proof -
  note D = hinvD [OF inv] and R = ring_sysD [OF hinvD(1) [OF inv]]
  let ?m = "hmem s" and ?N = "length (mcells (hmem s))"
  let ?m' = "logged Read (RingCell (unat h)) ?m" and ?V = "learn ?m (mview s)"
  have h: "unat h = popped_count ?m mod ?N" "popped_count ?m < vseen (mview s) RingTail" using D(4) pc by (simp_all add: match_ok_def)
  have r: "rpos s = popped_count ?m" using pc by (simp add: rpos_def)
  have T: "popped_count ?m < length (hpushed s)" using h(2) seen_bounds(2) [OF R(1,5)] by simp
  have sys: "ring_sys ?m' (ids s) (wpos s) (Suc (popped_count ?m)) (nview s) ?V" and cov: "covers (mlog ?m) (mview s) (RingCell (unat h))"
    using ring_sys_read [OF D(1) r] h by (simp_all add: r)
  show "covers (mlog ?m) (mview s) (RingCell (unat h))" by (rule cov)
  show "unat h < ?N" using h(1) R(13) by simp
  have "mcells ?m ! unat h = map fst (hpushed s) ! popped_count ?m"
    using D(8) T by (simp add: ring_holds_def h(1))
  then have "match_ok ?m' (hpushed s) ?V (MatchPop (PopRead (mcells ?m ! unat h) h))" using h(1) by (simp add: match_ok_def)
  moreover have "free_mem ?m' F (nview s)" using free_mem_logged [OF D(2), of Read "RingCell (unat h)"] by (simp add: spares_def)
  moreover have "feed_ok ?m' (length (hpushed s)) F (nview s) (hnpc s)"
    using D(3) by (rule feed_ok_frame) (auto simp: covers_writes_append)
  moreover have "slot_known ?m' (nview s) i" if "i \<in> set (feed_holds (hnpc s))" for i
    using slot_known_logged [OF D(6) [OF that]] by simp
  moreover have "ring_holds ?m' (hpushed s)" using D(8) by (rule ring_holds_frame) auto
  ultimately show "hinv (s\<lparr>hmem := ?m', mview := ?V, hmpc := MatchPop (PopRead (mcells ?m ! unat h) h)\<rparr>) F"
    using D(5,9) sys pc by (simp add: hinv_def slot_owners_def wpos_def rpos_def used_count_def ring_ids_def)
qed

lemma match_consumes:
  assumes inv: "hinv s F" and pc: "hmpc s = MatchPop (PopRead v h)"
    and V: "V = see RingHead (length (mhead (hmem s))) (mview s)"
    and m': "m' = (hmem s)\<lparr>mhead := mhead (hmem s) @ [((h + 1) AND mmask (hmem s), V)]\<rparr>"
  shows "hinv (if refIdx v = kPoolInvalid then s\<lparr>hmem := m', mview := V, hmpc := MatchDone, hused := hused s @ [(v, [], 0)]\<rparr>
      else s\<lparr>hmem := m', mview := V, hmpc := MatchUse v\<rparr>) F"
proof -
  note D = hinvD [OF inv] and R = ring_sysD [OF hinvD(1) [OF inv]] and M = ring_memD [OF ring_sysD(1) [OF hinvD(1) [OF inv]]]
  let ?m = "hmem s" and ?H = "popped_count (hmem s)"
  have h: "unat h = ?H mod length (mcells ?m)" "v = map fst (hpushed s) ! ?H" using D(4) pc by (simp_all add: match_ok_def)
  have r: "rpos s = Suc ?H" using pc by (simp add: rpos_def)
  have T: "?H < length (hpushed s)" "?H < vseen (mview s) RingTail" using M(12) R(14) r by simp_all
  have pcnt: "popped_count m' = Suc ?H" "mcells m' = mcells ?m" "mslots m' = mslots ?m" using M(8) by (simp_all add: m')
  have at: "hpushed s ! ?H = (v, packet_in ?m (refIdx v))"
    using D(8) T(1) h(2) by (simp add: ring_holds_def prod_eq_iff)
  have sys: "ring_sys m' (ids s) (wpos s) (Suc ?H) (nview s) V"
    using ring_sys_consume [OF D(1) r, of "(h + 1) AND mmask ?m"] ring_index_next [OF D(1) h(1)] M(8) by (simp add: m' V r)
  have known: "slot_known m' V (refIdx v)" if "refIdx v \<noteq> kPoolInvalid"
  proof -
    have "refs_known ?m (ids s) ?H (vseen (mview s) RingTail) (mview s)" using R(5) by (simp add: view_ok_def)
    moreover have "ids s ! ?H = refIdx v" using T(1) h(2) by (simp add: ids_def)
    ultimately show ?thesis using T(2) that by (auto simp: refs_known_def m' V)
  qed
  have drop: "drop ?H (ids s) = refIdx v # drop (Suc ?H) (ids s)"
    using T(1) h(2) Cons_nth_drop_Suc [of ?H "ids s"] by (simp add: ids_def)
  have "free_mem m' F (nview s)" using D(2) by (simp add: m')
  moreover have "feed_ok m' (length (hpushed s)) F (nview s) (hnpc s)" using D(3) by (rule feed_ok_frame) (auto simp: m')
  moreover have "slot_known m' (nview s) i" if "i \<in> set (feed_holds (hnpc s))" for i using D(6) [OF that] by (simp add: m')
  moreover have "ring_holds m' (hpushed s)" using D(8) by (simp add: ring_holds_def pcnt) (simp add: m')
  moreover have "hused s = take ?H (hpushed s)" using D(9) pc by (simp add: used_count_def)
  ultimately show ?thesis
    using D(5) sys pc known drop at T(1)
    by (simp add: hinv_def slot_owners_def wpos_def rpos_def used_count_def ring_ids_def pcnt match_ok_def)
      (auto simp: take_Suc_conv_app_nth packet_in_def m')
qed

section \<open>Every step is defined\<close>

text \<open>A compare-exchange either succeeds, on the newest store, or is an acquire load.\<close>

lemma free_swap:
  assumes "ring_sys m js w r NV MV" and "V = NV \<or> V = MV"
  obtains (swapped) W where "fst (last (mfree m)) = h" "W = see FreeHead (length (mfree m)) (view_join V (snd (last (mfree m))))"
      "compare_exchange fails back FreeHead h d (mfree m) V = ((True, h), mfree m @ [(d, W)], W)"
    | (again) k where "k < length (mfree m)" "vseen V FreeHead \<le> k"
      "compare_exchange fails back FreeHead h d (mfree m) V = ((False, fst (mfree m ! k)), mfree m, view_join V (snd (mfree m ! k)))"
proof (cases "\<not> fails \<and> fst (last (mfree m)) = h")
  case True
  then show thesis by (intro swapped [OF _ refl]) (simp_all add: compare_exchange_def release_store_def Let_def)
next
  case False
  obtain k where k: "k < length (mfree m)" "vseen V FreeHead \<le> k"
    "acquire_load back FreeHead (mfree m) V = (fst (mfree m ! k), view_join V (snd (mfree m ! k)))"
    using free_load [OF assms] by metis
  with False show thesis by (intro again [OF k(1,2)]) (auto simp: compare_exchange_def)
qed

lemma feed_acquire_inv:
  assumes inv: "hinv s F" and pc: "hnpc s = FeedAcquire apc"
  shows "\<exists>s' F'. feed_access ch s = Some s' \<and> hinv s' F'"
proof -
  note D = hinvD [OF inv]
  have ok: "acquire_ok (hmem s) F (nview s) apc" using D(3) pc by (simp add: feed_ok_def)
  show ?thesis
  proof (cases apc)
    case PoolIdle
    obtain k where k: "k < length (mfree (hmem s))" "vseen (nview s) FreeHead \<le> k"
      "acquire_load (cback ch) FreeHead (mfree (hmem s)) (nview s) = (fst (mfree (hmem s) ! k), view_join (nview s) (snd (mfree (hmem s) ! k)))"
      using free_load [OF D(1), of "nview s"] by metis
    from acquire_test_ok [OF inv k(1,2) pc] show ?thesis using k(3) PoolIdle pc
      by (simp add: feed_access_def acquire_access_def) blast
  next
    case (AcqHead h)
    have h: "h \<in> set F" "covers_writes (mlog (hmem s)) (nview s) (Link h)" using ok AcqHead by simp_all
    have "unat h < length (mslots (hmem s))" using not_in_ring(2) [OF inv disjI1 [OF h(1)]] .
    moreover have "hinv (s\<lparr>hmem := logged Read (Link h) (hmem s), nview := learn (hmem s) (nview s),
        hnpc := FeedAcquire (AcqNext h (nextFree (mslots (hmem s) ! unat h)))\<rparr>) F"
      using feed_touches [OF inv, of h Read "Link h" "mslots (hmem s) ! unat h" "FeedAcquire (AcqNext h (nextFree (mslots (hmem s) ! unat h)))"]
        h(1) pc by (simp add: feed_ok_def logged_def)
    ultimately show ?thesis using AcqHead pc h(2)
      by (simp add: feed_access_def acquire_access_def plain_read_def log_access_def vec_simps logged_def learn_def) blast
  next
    case (AcqNext h n)
    show ?thesis
    proof (rule free_swap [OF D(1), of "nview s" h "cfails ch" "cback ch" n], goal_cases view swapped again)
      case (swapped W)
      have "h \<noteq> kPoolInvalid" using not_in_ring(3) [OF inv, of h] ok AcqNext by simp
      then show ?thesis using swapped feed_acquires [OF inv _ swapped(1,2)] pc AcqNext
        by (simp add: feed_access_def acquire_access_def)
    next
      case (again k)
      from acquire_test_ok [OF inv again(1,2) pc] show ?thesis using again(3) pc AcqNext
        by (simp add: feed_access_def acquire_access_def) blast
    qed simp
  qed (use ok in simp_all)
qed

lemma feed_hold_inv:
  assumes inv: "hinv s F" and pc: "hnpc s = FeedHold i"
  shows "\<exists>s' F'. feed_access ch s = Some s' \<and> hinv s' F'"
proof -
  note D = hinvD [OF inv]
  have hi: "i \<in> set (feed_holds (hnpc s))" using pc by simp
  have i: "unat i < length (mslots (hmem s))" using not_in_ring(2) [OF inv disjI2 [OF disjI1 [OF hi]]] .
  have cov: "covers (mlog (hmem s)) (nview s) (Packet i)" using D(6) [OF hi] by (simp add: slot_known_def)
  have touch: "hinv (s\<lparr>hmem := (logged x (Packet i) (hmem s))\<lparr>mslots := (mslots (hmem s))[unat i := sl]\<rparr>, nview := learn (hmem s) (nview s)\<rparr>) F" for x sl
  proof -
    have eq: "s\<lparr>hmem := m, nview := V, hnpc := FeedHold i\<rparr> = s\<lparr>hmem := m, nview := V\<rparr>" for m V using pc by (cases s) simp
    show ?thesis
      by (subst eq [symmetric]) (rule feed_touches [OF inv disjI1 [OF hi] _ _ _ refl]; simp add: pc feed_ok_def)
  qed
  show ?thesis
  proof (cases "cfeed ch")
    case (Receive d n)
    then show ?thesis using pc i cov touch [where x = Write and sl = "(mslots (hmem s) ! unat i)\<lparr>sdata := d, slength := n\<rparr>"]
      by (simp add: feed_access_def plain_write_def log_access_def vec_simps logged_def learn_def) blast
  next
    case Parse
    then show ?thesis using pc covers_covers_writes [OF cov] touch [where x = Read and sl = "mslots (hmem s) ! unat i"]
      by (simp add: feed_access_def plain_read_def log_access_def logged_def learn_def) blast
  next
    case (HandOver tw)
    have "hinv (s\<lparr>hnpc := FeedPush i tw PushIdle\<rparr>) F" using inv by (rule hinv_feed_pc) (simp_all add: pc feed_ok_def)
    then show ?thesis using HandOver pc by (auto simp: feed_access_def)
  next
    case (GiveBack k)
    have "hinv (s\<lparr>hnpc := FeedRelease i k PoolIdle\<rparr>) F" using inv by (rule hinv_feed_pc) (simp_all add: pc feed_ok_def)
    then show ?thesis using GiveBack pc by (auto simp: feed_access_def)
  qed (use inv pc in \<open>auto simp: feed_access_def\<close>)
qed

text \<open>A call of \<open>push\<close>, whatever is pushed.\<close>

lemma feed_push_inv:
  assumes inv: "hinv s F" and run: "pushing run ref hs" and pc: "hnpc s = run ppc"
    and full: "feed_holds full = hs" "cell_written full = 0" "\<And>m T F NV. feed_ok m T F NV full"
    and nxt: "feed_holds nxt = []" "cell_written nxt = 0" "\<And>m T F NV. feed_ok m T F NV nxt"
  shows "\<exists>s' F'. feed_push back ref run full nxt ppc s = Some s' \<and> hinv s' F'"
proof -
  note D = hinvD [OF inv] and R = ring_sysD [OF hinvD(1) [OF inv]] and M = ring_memD [OF ring_sysD(1) [OF hinvD(1) [OF inv]]]
  note P = pushingD [OF run]
  have ok: "push_ok (hmem s) (length (hpushed s)) (nview s) ref ppc" using D(3) pc P(3) by simp
  show ?thesis
  proof (cases ppc)
    case PushIdle
    have "relaxed_load back RingTail (mtail (hmem s)) (nview s) = (fst (mtail (hmem s) ! length (hpushed s)), nview s)"
      using relaxed_load_own [of "nview s" RingTail "mtail (hmem s)" "back"] R(6) M(7) by simp
    moreover have "unat (fst (mtail (hmem s) ! length (hpushed s))) = length (hpushed s) mod length (mcells (hmem s))"
      using M(6,7) by (simp add: positions_def)
    then have "hinv (s\<lparr>hnpc := run (PushTail ref (fst (mtail (hmem s) ! length (hpushed s))))\<rparr>) F"
      by (intro hinv_feed_pc [OF inv]) (simp_all add: P pc PushIdle)
    ultimately show ?thesis using PushIdle by (auto simp: feed_push_def push_access_def)
  next
    case (PushTail v t)
    have t: "v = ref" "unat t = length (ids s) mod length (mcells (hmem s))" using ok PushTail by simp_all
    obtain k where k: "k < length (mhead (hmem s))" "vseen (nview s) RingHead \<le> k"
      "acquire_load back RingHead (mhead (hmem s)) (nview s) = (fst (mhead (hmem s) ! k), view_join (nview s) (snd (mhead (hmem s) ! k)))"
      using acquire_load_join [OF seen_less(1) [OF R(4)] ring_sys_numbered(1) [OF D(1)]] by metis
    note ld = feed_loads [OF inv messages_nth(1) [OF k(1)]]
    show ?thesis
    proof (cases "(t + 1) AND mmask (hmem s) = fst (mhead (hmem s) ! k)")
      case True
      then show ?thesis using ld [of full] PushTail k(3) pc P full by (simp add: feed_push_def push_access_def) blast
    next
      case False
      have "push_ok (hmem s) (length (hpushed s)) (view_join (nview s) (snd (mhead (hmem s) ! k))) ref (PushRoom v t)"
        using push_test [OF D(1) t(2) k(1,2) False] ring_sys_numbered(1) [OF D(1) k(1)] t by simp
      then show ?thesis using ld [of "run (PushRoom v t)"] PushTail k(3) False pc P
        by (simp add: feed_push_def push_access_def) blast
    qed
  next
    case (PushRoom v t)
    note w = feed_writes_cell [OF inv run, of v t]
    show ?thesis using w pc PushRoom
      by (simp add: feed_push_def push_access_def plain_write_def log_access_def vec_simps logged_def learn_def) blast
  next
    case (PushWritten v t)
    show ?thesis using feed_publishes [OF inv run _ refl nxt refl, of v t] pc PushWritten
      by (simp add: feed_push_def push_access_def release_store_def Let_def) blast
  qed
qed

lemma feed_release_inv:
  assumes inv: "hinv s F" and pc: "hnpc s = FeedRelease i k rpc"
  shows "\<exists>s' F'. feed_access ch s = Some s' \<and> hinv s' F'"
proof -
  note D = hinvD [OF inv]
  have hi: "i \<in> set (feed_holds (hnpc s))" using pc by simp
  have i: "unat i < length (mslots (hmem s))" using not_in_ring(2) [OF inv disjI2 [OF disjI1 [OF hi]]] .
  have ok: "release_ok (hmem s) i rpc" using D(3) pc by (simp add: feed_ok_def)
  have loaded: "hinv (s\<lparr>nview := view_join (nview s) (snd (mfree (hmem s) ! n)), hnpc := FeedRelease i k (RelHead i h)\<rparr>) F"
    if "n < length (mfree (hmem s))" for n h
    by (rule feed_loads [OF inv free_messages(2) [OF inv that]]) (simp_all add: pc feed_ok_def)
  show ?thesis
  proof (cases rpc)
    case PoolIdle
    obtain n where n: "n < length (mfree (hmem s))"
      "acquire_load (cback ch) FreeHead (mfree (hmem s)) (nview s) = (fst (mfree (hmem s) ! n), view_join (nview s) (snd (mfree (hmem s) ! n)))"
      using free_load [OF D(1), of "nview s"] by metis
    then show ?thesis using loaded PoolIdle pc by (simp add: feed_access_def release_access_def) blast
  next
    case (RelHead j h)
    have j: "j = i" using ok RelHead by simp
    have "covers (mlog (hmem s)) (nview s) (Link i)" using D(6) [OF hi] by (simp add: slot_known_def)
    moreover have "hinv (s\<lparr>hmem := (logged Write (Link i) (hmem s))\<lparr>mslots := (mslots (hmem s))[unat i := (mslots (hmem s) ! unat i)\<lparr>nextFree := h\<rparr>]\<rparr>,
        nview := learn (hmem s) (nview s), hnpc := FeedRelease i k (RelLinked i h)\<rparr>) F"
      by (rule feed_touches [OF inv disjI1 [OF hi] _ _ _ refl]) (simp_all add: pc feed_ok_def i)
    ultimately show ?thesis using RelHead pc i j
      by (simp add: feed_access_def release_access_def plain_write_def log_access_def vec_simps logged_def learn_def) blast
  next
    case (RelLinked j h)
    have j: "j = i" using ok RelLinked by simp
    show ?thesis
    proof (rule free_swap [OF D(1), of "nview s" h "cfails ch" "cback ch" j], goal_cases view swapped again)
      case (swapped W)
      then show ?thesis using feed_releases [OF inv _ swapped(1,2)] pc RelLinked
        by (simp add: feed_access_def release_access_def) blast
    next
      case (again n)
      then show ?thesis using loaded [OF again(1)] pc RelLinked j
        by (simp add: feed_access_def release_access_def) blast
    qed simp
  qed (use ok in simp_all)
qed

lemma feed_access_inv:
  assumes inv: "hinv s F"
  shows "\<exists>s' F'. feed_access ch s = Some s' \<and> hinv s' F'"
proof (cases "hnpc s")
  case FeedTop
  have "hinv (s\<lparr>hnpc := FeedDone\<rparr>) F" "hinv (s\<lparr>hnpc := FeedAcquire PoolIdle\<rparr>) F" "hinv (s\<lparr>hnpc := FeedSentinel tw PushIdle\<rparr>) F" for tw
    using inv by (rule hinv_feed_pc; simp add: FeedTop feed_ok_def)+
  then show ?thesis using FeedTop by (cases "cfeed ch") (auto simp: feed_access_def)
next
  case (FeedPush i tw pc)
  have "i \<noteq> kPoolInvalid" using not_in_ring(3) [OF inv, of i] FeedPush by simp
  from feed_push_inv [OF inv pushing_ref [OF this] FeedPush, of "FeedRelease i Continue PoolIdle" FeedTop "cback ch"]
  show ?thesis using FeedPush by (simp add: feed_access_def feed_ok_def)
next
  case (FeedSentinel tw pc)
  let ?full = "if cfeed ch = Stop then FeedDone else FeedSentinel tw PushIdle"
  have "feed_holds ?full = []" "cell_written ?full = 0" "feed_ok m T F' NV ?full" for m T F' NV by (simp_all add: feed_ok_def)
  from feed_push_inv [OF inv pushing_sentinel FeedSentinel this, of FeedDone "cback ch"]
  show ?thesis using FeedSentinel by (simp add: feed_access_def feed_ok_def)
qed (use inv feed_acquire_inv feed_hold_inv feed_release_inv in \<open>auto simp: feed_access_def\<close>)

lemma match_release_inv:
  assumes inv: "hinv s F" and pc: "hmpc s = MatchRelease i rpc"
  shows "\<exists>s' F'. match_access ch s = Some s' \<and> hinv s' F'"
proof -
  note D = hinvD [OF inv]
  have hi: "i \<in> set (match_holds (hmpc s))" using pc by simp
  have i: "unat i < length (mslots (hmem s))" using not_in_ring(2) [OF inv disjI2 [OF disjI2 [OF hi]]] .
  have ok: "release_ok (hmem s) i rpc" using D(4) pc by (simp add: match_ok_def)
  have loaded: "hinv (s\<lparr>mview := view_join (mview s) (snd (mfree (hmem s) ! n)), hmpc := MatchRelease i (RelHead i h)\<rparr>) F"
    if "n < length (mfree (hmem s))" for n h
    by (rule match_loads [OF inv free_messages(2) [OF inv that]]) (simp_all add: pc match_ok_def)
  show ?thesis
  proof (cases rpc)
    case PoolIdle
    obtain n where n: "n < length (mfree (hmem s))"
      "acquire_load (cback ch) FreeHead (mfree (hmem s)) (mview s) = (fst (mfree (hmem s) ! n), view_join (mview s) (snd (mfree (hmem s) ! n)))"
      using free_load [OF D(1), of "mview s"] by metis
    then show ?thesis using loaded PoolIdle pc by (simp add: match_access_def release_access_def) blast
  next
    case (RelHead j h)
    have j: "j = i" using ok RelHead by simp
    have "covers (mlog (hmem s)) (mview s) (Link i)" using D(7) [OF hi] by (simp add: slot_known_def)
    moreover have "hinv (s\<lparr>hmem := (logged Write (Link i) (hmem s))\<lparr>mslots := (mslots (hmem s))[unat i := (mslots (hmem s) ! unat i)\<lparr>nextFree := h\<rparr>]\<rparr>,
        mview := learn (hmem s) (mview s), hmpc := MatchRelease i (RelLinked i h), hused := hused s\<rparr>) F"
      by (rule match_touches [OF inv hi _ _ _ _ refl]) (use D(9) in \<open>simp_all add: pc match_ok_def i used_count_def\<close>)
    moreover have "s\<lparr>hmem := m, mview := V, hmpc := pc, hused := hused s\<rparr> = s\<lparr>hmem := m, mview := V, hmpc := pc\<rparr>" for m V pc
      by (cases s) simp
    ultimately show ?thesis using RelHead pc i j
      by (simp add: match_access_def release_access_def plain_write_def log_access_def vec_simps logged_def learn_def) blast
  next
    case (RelLinked j h)
    have j: "j = i" using ok RelLinked by simp
    show ?thesis
    proof (rule free_swap [OF D(1), of "mview s" h "cfails ch" "cback ch" j], goal_cases view swapped again)
      case (swapped W)
      then show ?thesis using match_releases [OF inv _ swapped(1,2)] pc RelLinked
        by (simp add: match_access_def release_access_def) blast
    next
      case (again n)
      then show ?thesis using loaded [OF again(1)] pc RelLinked j
        by (simp add: match_access_def release_access_def) blast
    qed simp
  qed (use ok in simp_all)
qed

lemma match_pop_inv:
  assumes inv: "hinv s F" and pc: "hmpc s = MatchPop ppc"
  shows "\<exists>s' F'. match_access ch s = Some s' \<and> hinv s' F'"
proof -
  note D = hinvD [OF inv] and R = ring_sysD [OF hinvD(1) [OF inv]] and M = ring_memD [OF ring_sysD(1) [OF hinvD(1) [OF inv]]]
  have ok: "pop_ok (hmem s) (map fst (hpushed s)) (mview s) ppc" using D(4) pc by (simp add: match_ok_def)
  show ?thesis
  proof (cases ppc)
    case PopIdle
    let ?h = "fst (mhead (hmem s) ! popped_count (hmem s))"
    have "relaxed_load (cback ch) RingHead (mhead (hmem s)) (mview s) = (?h, mview s)"
      using relaxed_load_own [of "mview s" RingHead "mhead (hmem s)" "cback ch"] R(7) M(8) by simp
    moreover have "unat ?h = popped_count (hmem s) mod length (mcells (hmem s))" using M(5,8) by (simp add: positions_def)
    then have "hinv (s\<lparr>hmpc := MatchPop (PopHead ?h)\<rparr>) F"
      by (intro hinv_match_pc [OF inv]) (simp_all add: pc PopIdle match_ok_def)
    ultimately show ?thesis using PopIdle pc by (auto simp: match_access_def pop_access_def)
  next
    case (PopHead h)
    have h: "unat h = popped_count (hmem s) mod length (mcells (hmem s))" using ok PopHead by simp
    obtain k where k: "k < length (mtail (hmem s))" "vseen (mview s) RingTail \<le> k"
      "acquire_load (cback ch) RingTail (mtail (hmem s)) (mview s) = (fst (mtail (hmem s) ! k), view_join (mview s) (snd (mtail (hmem s) ! k)))"
      using acquire_load_join [OF seen_less(2) [OF R(5)] ring_sys_numbered(2) [OF D(1)]] by metis
    note ld = match_loads [OF inv messages_nth(2) [OF k(1)]]
    show ?thesis
    proof (cases "h = fst (mtail (hmem s) ! k)")
      case True
      then show ?thesis using ld [of MatchDone] ld [of "MatchPop PopIdle"] PopHead k(3) pc
        by (simp add: match_access_def pop_access_def match_ok_def) blast
    next
      case False
      have "popped_count (hmem s) < k"
        using pop_test [OF D(1) h k(1) False] R(14) k(2) PopHead pc by (simp add: rpos_def)
      then have "match_ok (hmem s) (hpushed s) (view_join (mview s) (snd (mtail (hmem s) ! k))) (MatchPop (PopReady h))"
        using ring_sys_numbered(2) [OF D(1) k(1)] h by (simp add: match_ok_def)
      then show ?thesis using ld [of "MatchPop (PopReady h)"] PopHead k(3) False pc
        by (simp add: match_access_def pop_access_def) blast
    qed
  next
    case (PopReady h)
    note rd = match_reads_cell [OF inv pc [unfolded PopReady]]
    show ?thesis using rd(2,3) pc PopReady covers_covers_writes [OF rd(1)]
      by (simp add: match_access_def pop_access_def plain_read_def log_access_def vec_simps logged_def learn_def) blast
  next
    case (PopRead v h)
    show ?thesis using match_consumes [OF inv _ refl refl, of v h] pc PopRead
      by (auto simp: match_access_def pop_access_def release_store_def Let_def split: if_splits)
  qed
qed

lemma match_use_inv:
  assumes inv: "hinv s F" and pc: "hmpc s = MatchUse ref"
  shows "\<exists>s' F'. match_access ch s = Some s' \<and> hinv s' F'"
proof -
  note D = hinvD [OF inv] and R = ring_sysD [OF hinvD(1) [OF inv]]
  let ?i = "refIdx ref" and ?m = "hmem s" and ?H = "popped_count (hmem s)"
  have hi: "?i \<in> set (match_holds (hmpc s))" using pc by simp
  have i: "unat ?i < length (mslots ?m)" using not_in_ring(2) [OF inv disjI2 [OF disjI2 [OF hi]]] .
  have at: "0 < ?H" "?i \<noteq> kPoolInvalid" "hpushed s ! (?H - 1) = (ref, packet_in ?m ?i)" using D(4) pc by (simp_all add: match_ok_def)
  obtain n where n: "?H = Suc n" "n < length (hpushed s)" using at(1) R(11) by (cases ?H) auto
  have used: "hused s @ [(ref, packet_in ?m ?i)] = take (?H - 0) (hpushed s)"
    using D(9) at(3) n pc by (simp add: used_count_def take_Suc_conv_app_nth)
  have "covers_writes (mlog ?m) (mview s) (Packet ?i)" using D(7) [OF hi] by (simp add: slot_known_def covers_covers_writes)
  moreover have "hinv (s\<lparr>hmem := (logged Read (Packet ?i) ?m)\<lparr>mslots := (mslots ?m)[unat ?i := mslots ?m ! unat ?i]\<rparr>,
      mview := learn ?m (mview s), hmpc := MatchRelease ?i PoolIdle, hused := hused s @ [(ref, packet_in ?m ?i)]\<rparr>) F"
    by (rule match_touches [OF inv hi _ _ _ _ refl]) (use used in \<open>simp_all add: pc match_ok_def\<close>)
  ultimately show ?thesis using pc i at(2)
    by (simp add: match_access_def plain_read_def log_access_def vec_simps logged_def learn_def packet_in_def) blast
qed

lemma match_access_inv:
  assumes inv: "hinv s F"
  shows "\<exists>s' F'. match_access ch s = Some s' \<and> hinv s' F'"
  using assms match_pop_inv match_use_inv match_release_inv
  by (cases "hmpc s") (auto simp: match_access_def)

section \<open>Reachable states\<close>

lemma hinv_new:
  assumes r: "SpscRing_new v0 capacity = Some r" and p: "PacketPool_new n = Some p" and n: "n \<le> unat kPoolInvalid"
  shows "hinv (Handover_new r p) (map of_nat [0..<n])"
proof -
  let ?m = "Memory_new r p"
  have r0: "ring_shape r" "rhead r = 0" "rtail r = 0" "0 < length (rbuffer r)"
    using SpscRing_new_ok [OF r] r by (auto simp: ring_ok_def SpscRing_new_def split: if_splits)
  note p0 = PacketPool_new_ok [OF p n]
  have known: "cells_known ?m lo hi view_new" "refs_known ?m js lo hi view_new" for lo hi js
    by (simp_all add: cells_known_def refs_known_def slot_known_def Memory_new_def)
  have v: "view_ok ?m [] 0 0 view_new"
    using known by (simp add: view_ok_def hist_len_def Memory_new_def view_new_def popped_count_def split: atomic.split)
  have "\<forall>V \<in> messages ?m. V = view_new" by (auto simp: messages_def Memory_new_def)
  with v have "ring_mem ?m [] 0 0"
    using r0 by (auto simp: ring_mem_def ring_shape_def Memory_new_def numbered_def positions_def view_new_def popped_count_def)
  then have sys: "ring_sys ?m [] 0 0 view_new view_new"
    using v known r0(4) by (simp add: ring_sys_def net_knows_def match_knows_def) (simp add: Memory_new_def view_new_def popped_count_def)
  have "pchain (pslots p) (pfree p) (map of_nat [0..<n])" using p0(1) by (simp add: ppool_ok_def)
  then have free: "free_mem ?m (map of_nat [0..<n]) view_new"
    using p0(2) n pchain_head by (fastforce simp: free_mem_def free_known_def Memory_new_def view_new_def)
  show ?thesis
    using sys free p0(2)
    by (simp add: hinv_def Handover_new_def slot_owners_def ring_ids_def ids_def wpos_def rpos_def used_count_def feed_ok_def match_ok_def ring_holds_def)
      (simp add: Memory_new_def popped_count_def)
qed

lemma handover_step_inv: "handover_step s s' \<Longrightarrow> hinv s F \<Longrightarrow> \<exists>F'. hinv s' F'"
  by (erule handover_stepE) (metis feed_access_inv option.inject, metis match_access_inv option.inject)

lemma handover_reachable_inv:
  assumes "handover_reachable r p s" and "SpscRing_new v0 capacity = Some r" and "PacketPool_new n = Some p" and "n \<le> unat kPoolInvalid"
  shows "\<exists>F. hinv s F"
  using assms(1)
  by (induction rule: handover_reachable.induct) (use hinv_new [OF assms(2-4)] handover_step_inv in blast)+

text \<open>No step changes the sizes of ring and pool.\<close>

definition sizes :: "Memory \<Rightarrow> nat \<times> nat" where
  "sizes m = (length (mcells m), length (mslots m))"

lemma push_access_sizes: "push_access bk v pc (m, V) = Some (m', V', c) \<Longrightarrow> sizes m' = sizes m"
  by (auto simp: push_access_def sizes_def Let_def vec_put_eq_Some split: push_pc.splits prod.splits bind_splits)

lemma pop_access_sizes: "pop_access bk pc (m, V) = Some (m', V', c) \<Longrightarrow> sizes m' = sizes m"
  by (auto simp: pop_access_def sizes_def Let_def split: pop_pc.splits prod.splits bind_splits)

lemma acquire_access_sizes: "acquire_access f bk pc (m, V) = Some (m', V', c) \<Longrightarrow> sizes m' = sizes m"
  by (auto simp: acquire_access_def sizes_def Let_def split: pool_pc.splits prod.splits bind_splits)

lemma release_access_sizes: "release_access f bk i pc (m, V) = Some (m', V', c) \<Longrightarrow> sizes m' = sizes m"
  by (auto simp: release_access_def sizes_def Let_def vec_put_eq_Some split: pool_pc.splits prod.splits bind_splits)

lemma feed_push_sizes: "feed_push bk ref run full nxt pc s = Some s' \<Longrightarrow> sizes (hmem s') = sizes (hmem s)"
  by (auto simp: feed_push_def Let_def split: bind_splits call.splits bool.splits dest!: push_access_sizes)

lemma feed_access_sizes: "feed_access ch s = Some s' \<Longrightarrow> sizes (hmem s') = sizes (hmem s)"
  by (auto simp: feed_access_def vec_put_eq_Some split: feed_pc.splits feed_choice.splits bind_splits
      dest!: acquire_access_sizes release_access_sizes feed_push_sizes) (auto simp: sizes_def)

lemma match_access_sizes: "match_access ch s = Some s' \<Longrightarrow> sizes (hmem s') = sizes (hmem s)"
  by (auto simp: match_access_def Let_def split: match_pc.splits bind_splits call.splits option.splits if_splits
      dest!: pop_access_sizes release_access_sizes) (auto simp: sizes_def)

lemma handover_sizes: "handover_reachable r p s \<Longrightarrow> sizes (hmem s) = (length (rbuffer r), length (pslots p))"
proof (induction rule: handover_reachable.induct)
  case init
  then show ?case by (simp add: Handover_new_def Memory_new_def sizes_def)
next
  case (step s s')
  then show ?case by (auto elim!: handover_stepE dest: feed_access_sizes match_access_sizes)
qed

section \<open>Runs\<close>

text \<open>A given sequence of accesses; the first component says whether the network thread makes it.\<close>

fun handover_run :: "(bool \<times> choices) list \<Rightarrow> Handover \<Rightarrow> Handover option" where
  "handover_run [] s = Some s"
| "handover_run ((feed, ch) # chs) s = do { s \<leftarrow> (if feed then feed_access ch s else match_access ch s); handover_run chs s }"

lemma handover_run_reachable: "handover_reachable r p s \<Longrightarrow> handover_run chs s = Some s' \<Longrightarrow> handover_reachable r p s'"
proof (induction chs arbitrary: s)
  case (Cons x chs)
  obtain feed ch where x: "x = (feed, ch)" by (cases x)
  obtain s1 where s1: "(if feed then feed_access ch s else match_access ch s) = Some s1" "handover_run chs s1 = Some s'"
    using Cons.prems(2) by (auto simp: x split: bind_splits)
  then have "handover_step s s1" by (auto intro: handover_step.intros split: if_splits)
  with Cons s1(2) show ?case by (blast intro: handover_reachable.step)
qed simp

section \<open>Properties\<close>

text \<open>C13: On the memory the C++ standard gives the code, where a load may return an old store and only acquire loads
  of release stores order plain accesses, no access of the two threads to the ring, the free list or a packet buffer is a data
  race or out of range, in any execution; the matching thread reads exactly the packets that were handed over, in their order and with
  the bytes they had; and every buffer is at any time with exactly one of the free list (the chain of links from the newest
  store to its head), the network thread, the ring and the matching thread.\<close>

theorem handover_race_free:
  assumes "SpscRing_new v0 capacity = Some r" and "PacketPool_new n = Some p" and "n \<le> unat kPoolInvalid"
    and "handover_reachable r p s"
  shows "feed_access ch s \<noteq> None \<and> match_access ch s \<noteq> None \<and> hused s = take (length (hused s)) (hpushed s) \<and>
    (\<exists>free. pchain (mslots (hmem s)) (fst (last (mfree (hmem s)))) free \<and>
       mset (free @ feed_holds (hnpc s) @ ring_ids s @ match_holds (hmpc s)) = mset (map of_nat [0..<n]))"
proof -
  obtain F where inv: "hinv s F" using handover_reachable_inv [OF assms(4,1-3)] by blast
  have "length (mslots (hmem s)) = n"
    using handover_sizes [OF assms(4)] PacketPool_new_ok(2) [OF assms(2,3)] by (simp add: sizes_def)
  then have "mset (F @ feed_holds (hnpc s) @ ring_ids s @ match_holds (hmpc s)) = mset (map of_nat [0..<n])"
    using hinvD(5) [OF inv] by (simp add: slot_owners_def)
  moreover have "hused s = take (length (hused s)) (hpushed s)" using hinvD(9) [OF inv] by (simp add: min_def)
  ultimately show ?thesis
    using feed_access_inv [OF inv, of ch] match_access_inv [OF inv, of ch] free_memD(2) [OF hinvD(2) [OF inv]] by blast
qed

definition ring2 :: "PacketRef SpscRing" where
  "ring2 = \<lparr>rhead = 0, rtail = 0, rmask = 1, rbuffer = [\<lparr>refIdx = 0, tWireCycles = 0\<rparr>, \<lparr>refIdx = 0, tWireCycles = 0\<rparr>]\<rparr>"

definition pool2 :: PacketPool where
  "pool2 = \<lparr>pslots = [BufferSlot_zero\<lparr>nextFree := 1\<rparr>, BufferSlot_zero\<lparr>nextFree := kPoolInvalid\<rparr>], pfree = 0\<rparr>"

lemma ring2_new: "SpscRing_new \<lparr>refIdx = 0, tWireCycles = 0\<rparr> 2 = Some ring2"
proof -
  have "replicate 2 x = [x, x]" for x :: PacketRef by (simp add: numeral_eq_Suc)
  then show ?thesis by (simp add: SpscRing_new_def ring2_def)
qed

lemma pool2_new: "PacketPool_new 2 = Some pool2"
proof -
  have "replicate 2 x = [x, x]" for x :: BufferSlot by (simp add: numeral_eq_Suc)
  then show ?thesis by (simp add: PacketPool_new_def pool2_def link_slot_def)
qed

text \<open>Loads of the newest store, and a load of the one before it.\<close>

definition newest :: "feed_choice \<Rightarrow> choices" where
  "newest c = \<lparr>cback = 0, cfails = False, cfeed = c\<rparr>"

definition older :: choices where
  "older = \<lparr>cback = 1, cfails = False, cfeed = Go\<rparr>"

text \<open>A packet is received and handed over, and read by the matching thread.\<close>

definition one_packet :: "(bool \<times> choices) list" where
  "one_packet = map (Pair True \<circ> newest) [Go, Go, Go, Go, Receive [7] 1, Parse, HandOver 5, Go, Go, Go, Go] @
     map (Pair False \<circ> newest) [Go, Go, Go, Go, Go]"

lemmas access_defs = feed_access_def match_access_def feed_push_def push_access_def pop_access_def acquire_access_def
  release_access_def acquire_test_def relaxed_load_def acquire_load_def release_store_def compare_exchange_def load_index_def
  plain_read_def plain_write_def log_access_def covers_def covers_writes_def newest_def older_def vec_at_def vec_put_def
  view_join_def see_def view_new_def packet_in_def Let_def

lemma small_slots [simp]: "(0 :: u32) \<noteq> kPoolInvalid" "(1 :: u32) \<noteq> kPoolInvalid"
  by (simp_all add: kPoolInvalid_def)

lemma one_packet_run:
  "\<exists>s. handover_run one_packet (Handover_new ring2 pool2) = Some s \<and> hused s = [(\<lparr>refIdx = 0, tWireCycles = 5\<rparr>, [7], 1)] \<and>
     hnpc s = FeedTop"
  by (simp add: one_packet_def All_less_Suc access_defs Handover_new_def Memory_new_def ring2_def pool2_def)

theorem handover_race_free_witness:
  "\<exists>s free. handover_reachable ring2 pool2 s \<and> hused s = [(\<lparr>refIdx = 0, tWireCycles = 5\<rparr>, [7], 1)] \<and>
     hused s = take 1 (hpushed s) \<and> match_access (newest Go) s \<noteq> None \<and>
     pchain (mslots (hmem s)) (fst (last (mfree (hmem s)))) free \<and> mset (free @ feed_holds (hnpc s) @ ring_ids s @ match_holds (hmpc s)) = mset [0, 1]"
proof -
  obtain s where s: "handover_run one_packet (Handover_new ring2 pool2) = Some s" "hused s = [(\<lparr>refIdx = 0, tWireCycles = 5\<rparr>, [7], 1)]"
    using one_packet_run by blast
  have reach: "handover_reachable ring2 pool2 s" using handover_run_reachable [OF handover_reachable.init s(1)] .
  have "2 \<le> unat kPoolInvalid" by (simp add: kPoolInvalid_def)
  from handover_race_free [OF ring2_new pool2_new this reach, of "newest Go"] obtain free where
    "hused s = take (length (hused s)) (hpushed s)" "match_access (newest Go) s \<noteq> None"
    "pchain (mslots (hmem s)) (fst (last (mfree (hmem s)))) free" "mset (free @ feed_holds (hnpc s) @ ring_ids s @ match_holds (hmpc s)) = mset (map of_nat [0..<2])" by blast
  moreover have "map of_nat [0..<2] = [0, 1 :: u32]" by (simp add: upt_rec)
  ultimately show ?thesis using reach s(2) by (metis One_nat_def length_Cons list.size(3))
qed

text \<open>What the standard does not give: a push may find the ring full although it is empty, because the head it loads is an old
  one.  Here the matching thread has taken the only packet, and the next one is turned away.\<close>

lemma push_turned_away:
  "\<exists>s s'. handover_reachable ring2 pool2 s \<and> ring_ids s = [] \<and> hnpc s = FeedPush 1 6 (PushTail \<lparr>refIdx = 1, tWireCycles = 6\<rparr> 1) \<and>
     feed_access older s = Some s' \<and> hnpc s' = FeedRelease 1 Continue PoolIdle"
proof -
  let ?run = "one_packet @ map (Pair True \<circ> newest) [Go, Go, Go, Go, Receive [8] 1, HandOver 6, Go]"
  have "\<exists>s. handover_run ?run (Handover_new ring2 pool2) = Some s \<and> ring_ids s = [] \<and>
      hnpc s = FeedPush 1 6 (PushTail \<lparr>refIdx = 1, tWireCycles = 6\<rparr> 1) \<and>
      (\<exists>s'. feed_access older s = Some s' \<and> hnpc s' = FeedRelease 1 Continue PoolIdle)"
    by (simp add: one_packet_def All_less_Suc access_defs Handover_new_def Memory_new_def ring2_def pool2_def ring_ids_def ids_def
        popped_count_def)
  then show ?thesis using handover_run_reachable [OF handover_reachable.init] by blast
qed

end
