(* ===== verification/Order_Pool.thy ===== *)
theory Order_Pool
  imports Itch
begin

text \<open>
  The order arena (\<^verbatim>\<open>include/order_pool.hpp\<close>): a vector of nodes whose free slots are chained
  through their own \<open>next\<close> field.  The free chain is followed by \<open>fchain\<close>; \<open>pool_ok\<close> relates
  an arena to the stack of its free slots, and every slot not on that stack is in use.
\<close>

section \<open>Model\<close>

definition INVALID_INDEX :: u32 where
  "INVALID_INDEX = 0xFFFFFFFF"

record PoolNode =
  norder :: Order
  nnext :: u32
  nprev :: u32

record OrderPool =
  nodes :: "PoolNode list"
  freeHead :: u32

definition OrderPool_new :: OrderPool where
  "OrderPool_new = \<lparr>nodes = [], freeHead = INVALID_INDEX\<rparr>"

text \<open>\<open>emplace_back()\<close> value-initialises the new node.\<close>

definition PoolNode_zero :: PoolNode where
  "PoolNode_zero = \<lparr>norder = \<lparr>orderReferenceNumberHigh = 0, orderReferenceNumberLow = 0,
     shares = 0, price = 0, buySellIndicator = 0\<rparr>, nnext = 0, nprev = 0\<rparr>"

definition pool_at :: "OrderPool \<Rightarrow> u32 \<Rightarrow> PoolNode option" where
  "pool_at pool idx = vec_at (nodes pool) idx"

definition pool_put :: "OrderPool \<Rightarrow> u32 \<Rightarrow> PoolNode \<Rightarrow> OrderPool option" where
  "pool_put pool idx n = do { ns \<leftarrow> vec_put (nodes pool) idx n; Some (pool\<lparr>nodes := ns\<rparr>) }"

definition allocate :: "OrderPool \<Rightarrow> Order \<Rightarrow> (u32 \<times> OrderPool) option" where
  "allocate pool ord = do {
     (idx, pool) \<leftarrow>
       (if freeHead pool \<noteq> INVALID_INDEX then do {
          n \<leftarrow> pool_at pool (freeHead pool);
          Some (freeHead pool, pool\<lparr>freeHead := nnext n\<rparr>) }
        else Some (of_nat (length (nodes pool)), pool\<lparr>nodes := nodes pool @ [PoolNode_zero]\<rparr>));
     n \<leftarrow> pool_at pool idx;
     pool \<leftarrow> pool_put pool idx
       (n\<lparr>norder := ord, nnext := INVALID_INDEX, nprev := INVALID_INDEX\<rparr>);
     Some (idx, pool) }"

definition pool_free :: "OrderPool \<Rightarrow> u32 \<Rightarrow> OrderPool option" where
  "pool_free pool idx = do {
     n \<leftarrow> pool_at pool idx;
     pool \<leftarrow> pool_put pool idx (n\<lparr>nnext := freeHead pool\<rparr>);
     Some (pool\<lparr>freeHead := idx\<rparr>) }"

section \<open>The free chain\<close>

fun fchain :: "PoolNode list \<Rightarrow> u32 \<Rightarrow> u32 list \<Rightarrow> bool" where
  "fchain ns h [] \<longleftrightarrow> h = INVALID_INDEX"
| "fchain ns h (x # xs) \<longleftrightarrow>
     h = x \<and> x \<noteq> INVALID_INDEX \<and> unat x < length ns \<and> fchain ns (nnext (ns ! unat x)) xs"

definition pool_ok :: "OrderPool \<Rightarrow> u32 list \<Rightarrow> bool" where
  "pool_ok pool fs \<longleftrightarrow> fchain (nodes pool) (freeHead pool) fs \<and> distinct fs \<and>
     length (nodes pool) \<le> unat INVALID_INDEX"

definition slots :: "OrderPool \<Rightarrow> u32 set" where
  "slots pool = {i. unat i < length (nodes pool)}"

definition in_use :: "OrderPool \<Rightarrow> u32 list \<Rightarrow> u32 set" where
  "in_use pool fs = slots pool - set fs"

definition has_room :: "OrderPool \<Rightarrow> u32 list \<Rightarrow> bool" where
  "has_room pool fs \<longleftrightarrow> fs \<noteq> [] \<or> length (nodes pool) < unat INVALID_INDEX"

lemma fchain_frame [frame_simps]:
  "length ns' = length ns \<Longrightarrow> (\<And>x. x \<in> set fs \<Longrightarrow> nnext (ns' ! unat x) = nnext (ns ! unat x)) \<Longrightarrow>
   fchain ns' h fs = fchain ns h fs"
  by (induction fs arbitrary: h) auto

lemma fchain_grow: "fchain ns h fs \<Longrightarrow> fchain (ns @ zs) h fs"
  by (induction fs arbitrary: h) (auto simp: nth_append)

lemma fchain_slots: "fchain ns h fs \<Longrightarrow> x \<in> set fs \<Longrightarrow> unat x < length ns \<and> x \<noteq> INVALID_INDEX"
  by (induction fs arbitrary: h) auto

lemma pool_ok_free_slots: "pool_ok pool fs \<Longrightarrow> set fs \<subseteq> slots pool"
  by (auto simp: pool_ok_def slots_def dest: fchain_slots)

lemma in_use_valid:
  "pool_ok pool fs \<Longrightarrow> x \<in> slots pool \<Longrightarrow> x \<noteq> INVALID_INDEX"
  by (auto simp: pool_ok_def slots_def)

text \<open>A node write that keeps the free slots' links keeps the arena well formed.\<close>

lemma pool_ok_write:
  assumes "pool_ok pool fs" and "x \<notin> set fs"
  shows "pool_ok (pool\<lparr>nodes := (nodes pool)[unat x := n]\<rparr>) fs"
proof -
  have "fchain ((nodes pool)[unat x := n]) (freeHead pool) fs = fchain (nodes pool) (freeHead pool) fs"
    by (rule fchain_frame) (use assms in \<open>simp_all add: nth_update_notin [of x "set fs"]\<close>)
  with assms show ?thesis by (simp add: pool_ok_def)
qed

section \<open>Allocation and release\<close>

definition fresh_node :: "Order \<Rightarrow> PoolNode" where
  "fresh_node ord = \<lparr>norder = ord, nnext = INVALID_INDEX, nprev = INVALID_INDEX\<rparr>"

lemma set_node_fields:
  "n\<lparr>norder := ord, nnext := INVALID_INDEX, nprev := INVALID_INDEX\<rparr> = fresh_node ord"
  by (cases n) (simp add: fresh_node_def)

lemma allocate_reuse:
  assumes "pool_ok pool (x # fs)"
  shows "allocate pool ord = Some (x, \<lparr>nodes = (nodes pool)[unat x := fresh_node ord],
           freeHead = nnext (nodes pool ! unat x)\<rparr>)"
  using assms
  by (simp add: pool_ok_def allocate_def pool_at_def pool_put_def vec_simps set_node_fields)

lemma allocate_grow:
  assumes "pool_ok pool []" and "length (nodes pool) < unat INVALID_INDEX"
  shows "allocate pool ord = Some (of_nat (length (nodes pool)),
           \<lparr>nodes = nodes pool @ [fresh_node ord], freeHead = INVALID_INDEX\<rparr>)"
proof -
  have len: "unat (of_nat (length (nodes pool)) :: u32) = length (nodes pool)"
    using assms(2) by (simp add: INVALID_INDEX_def unat_of_nat_small)
  show ?thesis
    using assms len
    by (simp add: pool_ok_def allocate_def pool_at_def pool_put_def vec_simps set_node_fields)
qed

lemma pool_ok_reuse:
  assumes "pool_ok pool (x # fs)"
  shows "pool_ok \<lparr>nodes = (nodes pool)[unat x := n], freeHead = nnext (nodes pool ! unat x)\<rparr> fs"
proof -
  from assms have "pool_ok (pool\<lparr>freeHead := nnext (nodes pool ! unat x)\<rparr>) fs"
    by (simp add: pool_ok_def)
  then have "pool_ok (pool\<lparr>freeHead := nnext (nodes pool ! unat x),
      nodes := (nodes pool)[unat x := n]\<rparr>) fs"
    using assms pool_ok_write [of "pool\<lparr>freeHead := nnext (nodes pool ! unat x)\<rparr>" fs x n]
    by (simp add: pool_ok_def)
  then show ?thesis by (simp add: pool_ok_def)
qed

text \<open>
  What a client needs of \<open>allocate\<close>: a slot that was not in use is handed out, it holds the
  order with no links, and no other slot in use changes.
\<close>

lemma allocate_spec:
  assumes ok: "pool_ok pool fs" and room: "has_room pool fs"
  obtains idx pool' fs' where
    "allocate pool ord = Some (idx, pool')" "pool_ok pool' fs'" "idx \<noteq> INVALID_INDEX"
    "idx \<notin> in_use pool fs" "in_use pool' fs' = insert idx (in_use pool fs)"
    "nodes pool' ! unat idx = fresh_node ord"
    "\<And>j. j \<in> in_use pool fs \<Longrightarrow> nodes pool' ! unat j = nodes pool ! unat j"
    "length (nodes pool) \<le> length (nodes pool')"
proof (cases fs)
  case (Cons x xs)
  let ?p = "\<lparr>nodes = (nodes pool)[unat x := fresh_node ord],
           freeHead = nnext (nodes pool ! unat x)\<rparr>"
  from ok Cons have x: "pool_ok pool (x # xs)" by simp
  then have fx: "unat x < length (nodes pool)" "x \<noteq> INVALID_INDEX" "x \<notin> set xs"
    by (auto simp: pool_ok_def)
  show ?thesis
  proof (rule that [OF allocate_reuse [OF x] pool_ok_reuse [OF x]])
    show "x \<noteq> INVALID_INDEX" by (rule fx)
    show "x \<notin> in_use pool fs" using Cons by (simp add: in_use_def)
    show "in_use ?p xs = insert x (in_use pool fs)"
      using fx Cons by (auto simp: in_use_def slots_def)
    show "nodes ?p ! unat x = fresh_node ord" using fx by simp
    show "nodes ?p ! unat j = nodes pool ! unat j" if "j \<in> in_use pool fs" for j
      using that Cons fx by (auto simp: in_use_def nth_update_word)
    show "length (nodes pool) \<le> length (nodes ?p)" by simp
  qed
next
  case Nil
  let ?p = "\<lparr>nodes = nodes pool @ [fresh_node ord], freeHead = INVALID_INDEX\<rparr>"
  let ?i = "of_nat (length (nodes pool)) :: u32"
  from ok Nil have x: "pool_ok pool []" by simp
  from room Nil have len: "length (nodes pool) < unat INVALID_INDEX" by (simp add: has_room_def)
  have ui: "unat ?i = length (nodes pool)"
    using len by (simp add: INVALID_INDEX_def unat_of_nat_small)
  have sl: "unat j = length (nodes pool) \<longleftrightarrow> j = ?i" for j :: u32
    using ui by (simp add: word_unat_eq_iff)
  show ?thesis
  proof (rule that [OF allocate_grow [OF x len]])
    show "pool_ok ?p []" using x len by (simp add: pool_ok_def)
    show "?i \<noteq> INVALID_INDEX" using ui len by auto
    show "?i \<notin> in_use pool fs" using ui by (simp add: in_use_def slots_def)
    show "in_use ?p [] = insert ?i (in_use pool fs)"
      using Nil sl by (auto simp: in_use_def slots_def less_Suc_eq)
    show "nodes ?p ! unat ?i = fresh_node ord" using ui by simp
    show "nodes ?p ! unat j = nodes pool ! unat j" if "j \<in> in_use pool fs" for j
      using that by (simp add: in_use_def slots_def nth_append)
    show "length (nodes pool) \<le> length (nodes ?p)" by simp
  qed
qed

definition freed :: "OrderPool \<Rightarrow> u32 \<Rightarrow> OrderPool" where
  "freed pool idx = \<lparr>nodes = (nodes pool)[unat idx := (nodes pool ! unat idx)\<lparr>nnext := freeHead pool\<rparr>],
     freeHead = idx\<rparr>"

lemma pool_free_Some: "idx \<in> slots pool \<Longrightarrow> pool_free pool idx = Some (freed pool idx)"
  by (simp add: pool_free_def pool_at_def pool_put_def vec_simps slots_def freed_def)

lemma nodes_freed [simp]: "length (nodes (freed pool idx)) = length (nodes pool)"
  by (simp add: freed_def)

lemma slots_freed [simp]: "slots (freed pool idx) = slots pool"
  by (simp add: slots_def)

lemma freed_other: "j \<noteq> idx \<Longrightarrow> nodes (freed pool idx) ! unat j = nodes pool ! unat j"
  by (simp add: freed_def)

lemma pool_ok_freed:
  assumes "pool_ok pool fs" and "idx \<in> in_use pool fs"
  shows "pool_ok (freed pool idx) (idx # fs)"
proof -
  have idx: "unat idx < length (nodes pool)" "idx \<notin> set fs" "idx \<noteq> INVALID_INDEX"
    using assms by (auto simp: in_use_def slots_def pool_ok_def)
  from assms(1) idx(2) have "pool_ok (pool\<lparr>nodes := (nodes pool)[unat idx := n]\<rparr>) fs" for n
    by (rule pool_ok_write)
  then show ?thesis using idx by (simp add: pool_ok_def freed_def)
qed

lemma in_use_freed: "in_use (freed pool idx) (idx # fs) = in_use pool fs - {idx}"
  by (auto simp: in_use_def)

section \<open>Ownership\<close>

text \<open>
  \<open>pool_step pool fs A pool' fs' A'\<close>: a computation that owned the slots \<open>A\<close> of the arena now
  owns \<open>A'\<close>; the slots of everyone else are in use as before and their nodes are unchanged.
\<close>

definition pool_step :: "OrderPool \<Rightarrow> u32 list \<Rightarrow> u32 set \<Rightarrow> OrderPool \<Rightarrow> u32 list \<Rightarrow> u32 set \<Rightarrow> bool" where
  "pool_step pool fs A pool' fs' A' \<longleftrightarrow> pool_ok pool' fs' \<and>
     length (nodes pool) \<le> length (nodes pool') \<and>
     A \<subseteq> in_use pool fs \<and> in_use pool' fs' = (in_use pool fs - A) \<union> A' \<and>
     A' \<inter> (in_use pool fs - A) = {} \<and>
     (\<forall>j \<in> in_use pool fs - A. nodes pool' ! unat j = nodes pool ! unat j)"

lemma pool_step_refl: "pool_ok pool fs \<Longrightarrow> A \<subseteq> in_use pool fs \<Longrightarrow> pool_step pool fs A pool fs A"
  by (auto simp: pool_step_def)

lemma pool_step_trans:
  assumes "pool_step p1 f1 A1 p2 f2 A2" and "pool_step p2 f2 A2 p3 f3 A3"
  shows "pool_step p1 f1 A1 p3 f3 A3"
proof -
  have d: "in_use p2 f2 - A2 = in_use p1 f1 - A1" using assms(1) by (auto simp: pool_step_def)
  show ?thesis
    using assms unfolding pool_step_def d by (auto dest: order_trans)
qed

text \<open>Slots that stay untouched may be added to what the computation owns.\<close>

lemma pool_step_frame:
  assumes st: "pool_step pool fs A pool' fs' A'" and B: "B \<subseteq> in_use pool fs" "A \<inter> B = {}"
  shows "pool_step pool fs (A \<union> B) pool' fs' (A' \<union> B)"
  using assms unfolding pool_step_def by blast

lemma pool_step_other:
  "pool_step pool fs A pool' fs' A' \<Longrightarrow> B \<subseteq> in_use pool fs \<Longrightarrow> A \<inter> B = {} \<Longrightarrow> j \<in> B \<Longrightarrow>
   nodes pool' ! unat j = nodes pool ! unat j"
  unfolding pool_step_def by blast

lemma pool_step_ok: "pool_step pool fs A pool' fs' A' \<Longrightarrow> pool_ok pool' fs'"
  by (simp add: pool_step_def)

lemma pool_step_owned: "pool_step pool fs A pool' fs' A' \<Longrightarrow> A' \<subseteq> in_use pool' fs'"
  by (auto simp: pool_step_def)

lemma pool_step_growth: "pool_step pool fs A pool' fs' A' \<Longrightarrow> length (nodes pool) \<le> length (nodes pool')"
  by (simp add: pool_step_def)

text \<open>Writing owned nodes, releasing an owned slot and allocating a slot are such steps.\<close>

lemma pool_step_write:
  assumes "pool_ok pool fs" and "A \<subseteq> in_use pool fs" and "freeHead pool' = freeHead pool"
    and "length (nodes pool') = length (nodes pool)"
    and "\<And>j. j \<notin> A \<Longrightarrow> nodes pool' ! unat j = nodes pool ! unat j"
  shows "pool_step pool fs A pool' fs A"
proof -
  have "fchain (nodes pool') (freeHead pool) fs = fchain (nodes pool) (freeHead pool) fs"
  proof (rule fchain_frame [OF assms(4)])
    fix x assume "x \<in> set fs"
    then have "x \<notin> A" using assms(2) by (auto simp: in_use_def)
    then show "nnext (nodes pool' ! unat x) = nnext (nodes pool ! unat x)" using assms(5) by simp
  qed
  with assms have "pool_ok pool' fs" by (simp add: pool_ok_def)
  moreover have "in_use pool' fs = in_use pool fs" using assms(4) by (simp add: in_use_def slots_def)
  ultimately show ?thesis using assms by (auto simp: pool_step_def)
qed

lemma pool_step_freed:
  assumes "pool_ok pool fs" and "A \<subseteq> in_use pool fs" and "x \<in> A"
  shows "pool_step pool fs A (freed pool x) (x # fs) (A - {x})"
proof -
  have "pool_ok (freed pool x) (x # fs)" using assms by (intro pool_ok_freed) auto
  moreover have "nodes (freed pool x) ! unat j = nodes pool ! unat j" if "j \<in> in_use pool fs - A" for j
    by (rule freed_other) (use that assms(3) in blast)
  ultimately show ?thesis
    using assms unfolding pool_step_def in_use_freed by auto
qed

lemma pool_step_allocate:
  assumes ok: "pool_ok pool fs" and room: "has_room pool fs"
  obtains idx pool' fs' where "allocate pool ord = Some (idx, pool')"
    "pool_step pool fs {} pool' fs' {idx}" "idx \<noteq> INVALID_INDEX" "idx \<notin> in_use pool fs"
    "nodes pool' ! unat idx = fresh_node ord"
  using assms
proof (rule allocate_spec [where ord = ord])
  fix idx pool' fs'
  assume a: "allocate pool ord = Some (idx, pool')" "pool_ok pool' fs'" "idx \<noteq> INVALID_INDEX"
    "idx \<notin> in_use pool fs" "in_use pool' fs' = insert idx (in_use pool fs)"
    "nodes pool' ! unat idx = fresh_node ord"
    "\<And>j. j \<in> in_use pool fs \<Longrightarrow> nodes pool' ! unat j = nodes pool ! unat j"
    "length (nodes pool) \<le> length (nodes pool')"
  then have "pool_step pool fs {} pool' fs' {idx}" by (simp add: pool_step_def)
  with a show thesis by (intro that)
qed

text \<open>There is room for one more order exactly when not all representable indices are in use.\<close>

lemma card_slots:
  assumes "length (nodes pool) \<le> unat INVALID_INDEX"
  shows "finite (slots pool)" "card (slots pool) = length (nodes pool)"
proof -
  have "i \<in> (unat :: u32 \<Rightarrow> nat) ` slots pool" if "i < length (nodes pool)" for i
  proof -
    have "i = unat (of_nat i :: u32)"
      using that assms by (simp add: INVALID_INDEX_def unat_of_nat_small)
    with that show ?thesis by (metis imageI mem_Collect_eq slots_def)
  qed
  then have img: "unat ` slots pool = {..<length (nodes pool)}" by (auto simp: slots_def)
  have inj: "inj_on (unat :: u32 \<Rightarrow> nat) (slots pool)" by (auto simp: inj_on_def)
  show "finite (slots pool)" using finite_imageD [OF _ inj] img by simp
  show "card (slots pool) = length (nodes pool)" using card_image [OF inj] img by simp
qed

lemma has_room_iff:
  assumes ok: "pool_ok pool fs"
  shows "has_room pool fs \<longleftrightarrow> card (in_use pool fs) < unat INVALID_INDEX"
proof -
  have len: "length (nodes pool) \<le> unat INVALID_INDEX" and d: "distinct fs" using ok by (auto simp: pool_ok_def)
  have "card (in_use pool fs) = length (nodes pool) - length fs"
    unfolding in_use_def using card_slots [OF len] pool_ok_free_slots [OF ok] distinct_card [OF d]
    by (simp add: card_Diff_subset finite_subset)
  moreover have "length fs \<le> length (nodes pool)"
    using card_mono [OF card_slots(1) [OF len] pool_ok_free_slots [OF ok]] card_slots(2) [OF len]
      distinct_card [OF d] by simp
  moreover have "unat INVALID_INDEX > 0" by (simp add: INVALID_INDEX_def)
  ultimately show ?thesis using len unfolding has_room_def by (cases fs) auto
qed

lemma in_use_finite: "pool_ok pool fs \<Longrightarrow> finite (in_use pool fs)"
  using card_slots(1) [of pool] by (auto simp: pool_ok_def in_use_def)

section \<open>Properties\<close>

text \<open>Allocating on a well-formed arena with room returns: the slot handed out was not in use
  and now holds the order with no links, every slot in use keeps its node, and exactly that one
  slot joins the slots in use.\<close>

lemma allocate_fresh_slot:
  assumes "pool_ok pool fs" and "card (in_use pool fs) < unat INVALID_INDEX"
  shows "\<exists>idx pool' fs'. allocate pool ord = Some (idx, pool') \<and> pool_ok pool' fs' \<and>
    idx \<notin> in_use pool fs \<and> in_use pool' fs' = insert idx (in_use pool fs) \<and>
    nodes pool' ! unat idx = fresh_node ord \<and>
    (\<forall>j. j \<in> in_use pool fs \<longrightarrow> nodes pool' ! unat j = nodes pool ! unat j)"
proof -
  have "has_room pool fs" using assms by (simp add: has_room_iff)
  from allocate_spec [OF assms(1) this, of ord] show ?thesis by metis
qed

text \<open>The free list is a stack: freeing a slot in use and then allocating gives that slot back,
  and the arena does not grow.\<close>

lemma free_then_allocate:
  assumes "pool_ok pool fs" and "idx \<in> in_use pool fs"
  shows "\<exists>pool1 pool2. pool_free pool idx = Some pool1 \<and> pool_ok pool1 (idx # fs) \<and>
    in_use pool1 (idx # fs) = in_use pool fs - {idx} \<and>
    allocate pool1 ord = Some (idx, pool2) \<and> length (nodes pool2) = length (nodes pool)"
proof -
  have ok: "pool_ok (freed pool idx) (idx # fs)" by (rule pool_ok_freed [OF assms])
  have "idx \<in> slots pool" using assms(2) by (simp add: in_use_def)
  then show ?thesis
    using ok allocate_reuse [OF ok, of ord] by (simp add: pool_free_Some in_use_freed)
qed

end
