(* ===== verification/Ladder_Side.thy ===== *)
theory Ladder_Side
  imports Order_Pool Interfaces
begin

text \<open>
  One side of an order book (\<^verbatim>\<open>include/ladder_side.hpp\<close>): a window of price levels indexed by
  slot, a sorted overflow vector for every other price, and the cached best slot.  A C++
  \<open>Level&\<close> or \<open>Level*\<close> is a \<open>LevelPtr\<close>, an index into one of the two vectors.  \<open>side_rel\<close>
  relates a side to the list of its resting entries in price-time priority; every operation
  is shown to act on that list.
\<close>

section \<open>Model\<close>

record Level =
  lhead :: u32
  ltail :: u32

definition Level_new :: Level where
  "Level_new = \<lparr>lhead = INVALID_INDEX, ltail = INVALID_INDEX\<rparr>"

record LadderSide =
  bid :: bool
  ladder :: "Level list"
  overflow :: "(u32 \<times> Level) list"
  base :: u32
  anchored :: bool
  bestSlot :: u32

definition TICK :: u32 where "TICK = 100"

definition WINDOW :: u32 where "WINDOW = 2048"

definition LadderSide_new :: "bool \<Rightarrow> LadderSide" where
  "LadderSide_new isBid = \<lparr>bid = isBid, ladder = [], overflow = [], base = 0, anchored = False,
     bestSlot = INVALID_INDEX\<rparr>"

text \<open>\<open>std::lower_bound\<close> on the sorted overflow vector: the first element not below \<open>price\<close>.\<close>

definition overflowLowerBound :: "LadderSide \<Rightarrow> u32 \<Rightarrow> nat" where
  "overflowLowerBound s p = length (takeWhile (\<lambda>e. fst e < p) (overflow s))"

definition anchor :: "LadderSide \<Rightarrow> u32 \<Rightarrow> LadderSide" where
  "anchor s p =
     (let half = (ucast (WINDOW div 2) :: u64) * ucast TICK;
          candidate = (if (ucast p :: u64) > half then (ucast (p - ucast half) :: u64) else 0);
          candidate = candidate - candidate mod ucast TICK
      in s\<lparr>base := ucast candidate, ladder := replicate (unat WINDOW) Level_new, anchored := True\<rparr>)"

definition priceToSlot :: "LadderSide \<Rightarrow> u32 \<Rightarrow> u32" where
  "priceToSlot s p =
     (if \<not> anchored s \<or> p < base s then INVALID_INDEX
      else let offset = (ucast p :: u64) - ucast (base s) in
        if offset mod ucast TICK \<noteq> 0 then INVALID_INDEX
        else let slot = offset div ucast TICK in
          if slot \<ge> ucast WINDOW then INVALID_INDEX else ucast slot)"

definition slotToPrice :: "LadderSide \<Rightarrow> u32 \<Rightarrow> u32" where
  "slotToPrice s slot = base s + slot * TICK"

definition linkAtTail :: "OrderPool \<Rightarrow> Level \<Rightarrow> u32 \<Rightarrow> (OrderPool \<times> Level) option" where
  "linkAtTail pool lvl idx = do {
     node \<leftarrow> pool_at pool idx;
     pool \<leftarrow> pool_put pool idx (node\<lparr>nprev := ltail lvl, nnext := INVALID_INDEX\<rparr>);
     (pool, lvl) \<leftarrow>
       (if ltail lvl \<noteq> INVALID_INDEX then do {
          t \<leftarrow> pool_at pool (ltail lvl);
          pool \<leftarrow> pool_put pool (ltail lvl) (t\<lparr>nnext := idx\<rparr>);
          Some (pool, lvl) }
        else Some (pool, lvl\<lparr>lhead := idx\<rparr>));
     Some (pool, lvl\<lparr>ltail := idx\<rparr>) }"

text \<open>The two halves of \<open>unlink\<close>: towards the predecessor and towards the successor.\<close>

definition unlink_prev :: "OrderPool \<Rightarrow> Level \<Rightarrow> u32 \<Rightarrow> u32 \<Rightarrow> (OrderPool \<times> Level) option" where
  "unlink_prev pool lvl prv nxt =
     (if prv \<noteq> INVALID_INDEX then do {
        p \<leftarrow> pool_at pool prv;
        pool \<leftarrow> pool_put pool prv (p\<lparr>nnext := nxt\<rparr>);
        Some (pool, lvl) }
      else Some (pool, lvl\<lparr>lhead := nxt\<rparr>))"

definition unlink_next :: "OrderPool \<Rightarrow> Level \<Rightarrow> u32 \<Rightarrow> u32 \<Rightarrow> (OrderPool \<times> Level) option" where
  "unlink_next pool lvl prv nxt =
     (if nxt \<noteq> INVALID_INDEX then do {
        n \<leftarrow> pool_at pool nxt;
        pool \<leftarrow> pool_put pool nxt (n\<lparr>nprev := prv\<rparr>);
        Some (pool, lvl) }
      else Some (pool, lvl\<lparr>ltail := prv\<rparr>))"

definition unlink :: "OrderPool \<Rightarrow> Level \<Rightarrow> u32 \<Rightarrow> (OrderPool \<times> Level) option" where
  "unlink pool lvl idx = do {
     node \<leftarrow> pool_at pool idx;
     (pool, lvl) \<leftarrow> unlink_prev pool lvl (nprev node) (nnext node);
     node \<leftarrow> pool_at pool idx;
     unlink_next pool lvl (nprev node) (nnext node) }"

text \<open>The two loops of \<open>advanceBest\<close>: down for bids, up for asks.\<close>

partial_function (option) advance_bid :: "Level list \<Rightarrow> u32 \<Rightarrow> u32 option" where
  "advance_bid lad b =
     (if b \<noteq> INVALID_INDEX then do {
        l \<leftarrow> vec_at lad b;
        if lhead l = INVALID_INDEX
        then (if b = 0 then Some INVALID_INDEX else advance_bid lad (b - 1))
        else Some b }
      else Some b)"

partial_function (option) advance_ask :: "Level list \<Rightarrow> u32 \<Rightarrow> u32 option" where
  "advance_ask lad b =
     (if b \<noteq> INVALID_INDEX then do {
        l \<leftarrow> vec_at lad b;
        if lhead l = INVALID_INDEX
        then (if b + 1 \<ge> WINDOW then Some INVALID_INDEX else advance_ask lad (b + 1))
        else Some b }
      else Some b)"

definition advanceBest :: "LadderSide \<Rightarrow> LadderSide option" where
  "advanceBest s = do {
     b \<leftarrow> (if bid s then advance_bid (ladder s) (bestSlot s) else advance_ask (ladder s) (bestSlot s));
     Some (s\<lparr>bestSlot := b\<rparr>) }"

datatype LevelPtr = InLadder u32 | InOverflow nat

fun level_at :: "LadderSide \<Rightarrow> LevelPtr \<Rightarrow> Level option" where
  "level_at s (InLadder i) = vec_at (ladder s) i"
| "level_at s (InOverflow k) = (if k < length (overflow s) then Some (snd (overflow s ! k)) else None)"

fun level_put :: "LadderSide \<Rightarrow> LevelPtr \<Rightarrow> Level \<Rightarrow> LadderSide option" where
  "level_put s (InLadder i) l = do { lad \<leftarrow> vec_put (ladder s) i l; Some (s\<lparr>ladder := lad\<rparr>) }"
| "level_put s (InOverflow k) l =
     (if k < length (overflow s)
      then Some (s\<lparr>overflow := (overflow s)[k := (fst (overflow s ! k), l)]\<rparr>) else None)"

definition side_add :: "OrderPool \<Rightarrow> LadderSide \<Rightarrow> u32 \<Rightarrow> u32 \<Rightarrow> (OrderPool \<times> LadderSide) option" where
  "side_add pool s p idx =
     (let s = (if \<not> anchored s then anchor s p else s); slot = priceToSlot s p in
      if slot \<noteq> INVALID_INDEX then do {
        lvl \<leftarrow> level_at s (InLadder slot);
        (pool, lvl) \<leftarrow> linkAtTail pool lvl idx;
        s \<leftarrow> level_put s (InLadder slot) lvl;
        Some (pool,
          if bestSlot s = INVALID_INDEX \<or> (if bid s then slot > bestSlot s else slot < bestSlot s)
          then s\<lparr>bestSlot := slot\<rparr> else s) }
      else
        (let it = overflowLowerBound s p;
             s = (if it = length (overflow s) \<or> fst (overflow s ! it) \<noteq> p
                  then s\<lparr>overflow := take it (overflow s) @ (p, Level_new) # drop it (overflow s)\<rparr>
                  else s) in do {
          lvl \<leftarrow> level_at s (InOverflow it);
          (pool, lvl) \<leftarrow> linkAtTail pool lvl idx;
          s \<leftarrow> level_put s (InOverflow it) lvl;
          Some (pool, s) }))"

definition overflow_erase :: "LadderSide \<Rightarrow> nat \<Rightarrow> LadderSide" where
  "overflow_erase s it = s\<lparr>overflow := take it (overflow s) @ drop (Suc it) (overflow s)\<rparr>"

definition side_remove :: "OrderPool \<Rightarrow> LadderSide \<Rightarrow> u32 \<Rightarrow> u32 \<Rightarrow> (OrderPool \<times> LadderSide) option" where
  "side_remove pool s p idx =
     (let slot = priceToSlot s p in
      if slot \<noteq> INVALID_INDEX then do {
        lvl \<leftarrow> level_at s (InLadder slot);
        (pool, lvl) \<leftarrow> unlink pool lvl idx;
        s \<leftarrow> level_put s (InLadder slot) lvl;
        s \<leftarrow> (if lhead lvl = INVALID_INDEX \<and> slot = bestSlot s then advanceBest s else Some s);
        Some (pool, s) }
      else
        (let it = overflowLowerBound s p in
         if it = length (overflow s) \<or> fst (overflow s ! it) \<noteq> p then Some (pool, s)
         else do {
           lvl \<leftarrow> level_at s (InOverflow it);
           (pool, lvl) \<leftarrow> unlink pool lvl idx;
           s \<leftarrow> level_put s (InOverflow it) lvl;
           Some (pool, if lhead lvl = INVALID_INDEX then overflow_erase s it else s) }))"

definition bestLevel :: "LadderSide \<Rightarrow> (LevelPtr \<times> u32) option" where
  "bestLevel s =
     (let ladderEmpty = (bestSlot s = INVALID_INDEX); overflowEmpty = (overflow s = []) in
      if ladderEmpty \<and> overflowEmpty then None
      else if overflowEmpty then Some (InLadder (bestSlot s), slotToPrice s (bestSlot s))
      else
        (let edge = (if bid s then length (overflow s) - 1 else 0);
             edgePrice = fst (overflow s ! edge) in
         if ladderEmpty then Some (InOverflow edge, edgePrice)
         else
           (let ladderPrice = slotToPrice s (bestSlot s);
                ladderWins = (if bid s then ladderPrice \<ge> edgePrice else ladderPrice \<le> edgePrice) in
            if ladderWins then Some (InLadder (bestSlot s), ladderPrice)
            else Some (InOverflow edge, edgePrice))))"

definition removeEmptyBest :: "LadderSide \<Rightarrow> u32 \<Rightarrow> LadderSide option" where
  "removeEmptyBest s p =
     (let slot = priceToSlot s p in
      if slot \<noteq> INVALID_INDEX then (if slot = bestSlot s then advanceBest s else Some s)
      else
        (let it = overflowLowerBound s p in
         if it \<noteq> length (overflow s) \<and> fst (overflow s ! it) = p
         then Some (overflow_erase s it) else Some s))"

section \<open>Slots and prices\<close>

lemma INVALID_not_slot: "unat i < 2048 \<Longrightarrow> i \<noteq> INVALID_INDEX"
  by (auto simp: INVALID_INDEX_def)

lemma unat_offset:
  "base s \<le> p \<Longrightarrow> unat ((ucast p :: u64) - ucast (base s)) = unat p - unat (base s)"
  by (simp add: unat_sub unat_up word_le_nat_alt)

lemma priceToSlot_iff:
  "priceToSlot s p = i \<and> i \<noteq> INVALID_INDEX \<longleftrightarrow>
     anchored s \<and> unat i < 2048 \<and> unat p = unat (base s) + 100 * unat i"
proof (cases "anchored s \<and> base s \<le> p")
  case False
  then have "priceToSlot s p = INVALID_INDEX" by (auto simp: priceToSlot_def not_le)
  moreover have "unat p < unat (base s)" if "anchored s"
    using False that by (simp add: word_le_nat_alt)
  ultimately show ?thesis by auto
next
  case True
  let ?o = "(ucast p :: u64) - ucast (base s)"
  have o: "unat ?o = unat p - unat (base s)" "unat (base s) \<le> unat p"
    using True by (simp_all add: unat_offset word_le_nat_alt)
  have zero: "?o mod 100 = 0 \<longleftrightarrow> (unat p - unat (base s)) mod 100 = 0"
    using o(1) by (simp add: unat_eq_zero [symmetric] unat_mod)
  have d: "unat (?o div 100) = (unat p - unat (base s)) div 100"
    using o(1) by (simp add: unat_div)
  have small: "?o div 100 \<ge> 2048 \<longleftrightarrow> (unat p - unat (base s)) div 100 \<ge> 2048"
    using d by (simp add: word_le_nat_alt)
  have uc: "unat (ucast (?o div 100) :: u32) = (unat p - unat (base s)) div 100"
    if "(unat p - unat (base s)) div 100 < 2048"
    using that d by (simp add: unsigned_ucast_eq take_bit_nat_eq_self)
  have slot: "priceToSlot s p = (if (unat p - unat (base s)) mod 100 = 0 \<and>
      (unat p - unat (base s)) div 100 < 2048 then ucast (?o div 100) else INVALID_INDEX)"
    using True zero small by (auto simp: priceToSlot_def TICK_def WINDOW_def Let_def)
  show ?thesis
  proof
    assume "priceToSlot s p = i \<and> i \<noteq> INVALID_INDEX"
    then show "anchored s \<and> unat i < 2048 \<and> unat p = unat (base s) + 100 * unat i"
      using True uc o(2) unfolding slot by (auto split: if_splits)
  next
    assume a: "anchored s \<and> unat i < 2048 \<and> unat p = unat (base s) + 100 * unat i"
    then have "(unat p - unat (base s)) mod 100 = 0" "(unat p - unat (base s)) div 100 = unat i"
      by simp_all
    with a uc show "priceToSlot s p = i \<and> i \<noteq> INVALID_INDEX"
      unfolding slot by (auto simp flip: unat_inject simp: INVALID_INDEX_def simp del: unat_inject)
  qed
qed

lemmas priceToSlotD = priceToSlot_iff [THEN iffD1, OF conjI, OF refl]

lemma unat_slotToPrice:
  assumes "unat (base s) + 100 * unat i < 2 ^ 32"
  shows "unat (slotToPrice s i) = unat (base s) + 100 * unat i"
  using assms by (simp add: slotToPrice_def TICK_def unat_word_ariths mult.commute)

lemma priceToSlot_slotToPrice:
  assumes "anchored s" and "unat i < 2048" and "unat (base s) + 100 * unat i < 2 ^ 32"
  shows "priceToSlot s (slotToPrice s i) = i"
  using assms priceToSlot_iff [of s "slotToPrice s i" i] by (simp add: unat_slotToPrice)

lemma slotToPrice_priceToSlot:
  assumes "priceToSlot s p \<noteq> INVALID_INDEX"
  shows "slotToPrice s (priceToSlot s p) = p"
proof -
  note D = priceToSlotD [OF assms]
  have "unat p < 2 ^ 32" using unsigned_less [of p, where 'a = nat] by simp
  with D show ?thesis by (metis unat_inject unat_slotToPrice)
qed

text \<open>Slots and prices of a window depend on its anchoring only.\<close>

lemma priceToSlot_cong:
  "anchored s' = anchored s \<Longrightarrow> base s' = base s \<Longrightarrow> priceToSlot s' = priceToSlot s"
  by (rule ext) (simp add: priceToSlot_def)

lemma slotToPrice_cong: "base s' = base s \<Longrightarrow> slotToPrice s' = slotToPrice s"
  by (rule ext) (simp add: slotToPrice_def)

lemma slot_frame [simp]:
  "priceToSlot (s\<lparr>overflow := ov\<rparr>) = priceToSlot s" "slotToPrice (s\<lparr>overflow := ov\<rparr>) = slotToPrice s"
  "priceToSlot (s\<lparr>ladder := lad\<rparr>) = priceToSlot s" "slotToPrice (s\<lparr>ladder := lad\<rparr>) = slotToPrice s"
  "priceToSlot (s\<lparr>bestSlot := b\<rparr>) = priceToSlot s" "slotToPrice (s\<lparr>bestSlot := b\<rparr>) = slotToPrice s"
  by (simp_all add: fun_eq_iff priceToSlot_def slotToPrice_def)

section \<open>Doubly linked levels in the arena\<close>

definition first :: "u32 list \<Rightarrow> u32 \<Rightarrow> u32" where
  "first xs q = (case xs of [] \<Rightarrow> q | x # _ \<Rightarrow> x)"

definition final :: "u32 \<Rightarrow> u32 list \<Rightarrow> u32" where
  "final p xs = (if xs = [] then p else last xs)"

fun dseg :: "PoolNode list \<Rightarrow> u32 \<Rightarrow> u32 list \<Rightarrow> u32 \<Rightarrow> bool" where
  "dseg ns p [] q \<longleftrightarrow> True"
| "dseg ns p (x # xs) q \<longleftrightarrow> unat x < length ns \<and> x \<noteq> INVALID_INDEX \<and>
     nprev (ns ! unat x) = p \<and> nnext (ns ! unat x) = first xs q \<and> dseg ns x xs q"

definition level_ok :: "PoolNode list \<Rightarrow> Level \<Rightarrow> u32 list \<Rightarrow> bool" where
  "level_ok ns lvl xs \<longleftrightarrow> distinct xs \<and> dseg ns INVALID_INDEX xs INVALID_INDEX \<and>
     lhead lvl = first xs INVALID_INDEX \<and> ltail lvl = final INVALID_INDEX xs"

lemma first_simps [simp]: "first [] q = q" "first (x # xs) q = x" "first (xs @ ys) q = first xs (first ys q)"
  by (simp_all add: first_def split: list.split)

lemma final_simps [simp]: "final p [] = p" "final p (x # xs) = final x xs"
  "final p (xs @ ys) = final (final p xs) ys"
  by (simp_all add: final_def)

lemma final_in: "final p xs = p \<or> final p xs \<in> set xs"
  by (simp add: final_def)

lemma first_in: "first xs q = q \<or> first xs q \<in> set xs"
  by (cases xs) auto

lemma dseg_append [simp]:
  "dseg ns p (xs @ ys) q \<longleftrightarrow> dseg ns p xs (first ys q) \<and> dseg ns (final p xs) ys q"
  by (induction xs arbitrary: p) auto

lemma dseg_frame [frame_simps]:
  assumes "length ns' = length ns"
    and "\<And>x. x \<in> set xs \<Longrightarrow> nnext (ns' ! unat x) = nnext (ns ! unat x) \<and> nprev (ns' ! unat x) = nprev (ns ! unat x)"
  shows "dseg ns' p xs q = dseg ns p xs q"
  using assms by (induction xs arbitrary: p) auto

lemma dseg_valid: "dseg ns p xs q \<Longrightarrow> x \<in> set xs \<Longrightarrow> unat x < length ns \<and> x \<noteq> INVALID_INDEX"
  by (induction xs arbitrary: p) auto

lemma level_ok_empty: "level_ok ns lvl xs \<Longrightarrow> lhead lvl = INVALID_INDEX \<longleftrightarrow> xs = []"
  by (cases xs) (auto simp: level_ok_def)

lemma level_ok_Nil [simp]: "level_ok ns lvl [] \<longleftrightarrow> lvl = Level_new"
  by (cases lvl) (auto simp: level_ok_def Level_new_def)

lemma level_ok_frame:
  assumes "length ns' = length ns"
    and "\<And>x. x \<in> set xs \<Longrightarrow> ns' ! unat x = ns ! unat x"
  shows "level_ok ns' lvl xs = level_ok ns lvl xs"
proof -
  have "dseg ns' p xs q = dseg ns p xs q" for p q
    by (rule dseg_frame) (use assms in simp_all)
  then show ?thesis by (simp add: level_ok_def)
qed

text \<open>Writes that touch links only, and only of the nodes in \<open>S\<close>.\<close>

definition relinks :: "OrderPool \<Rightarrow> OrderPool \<Rightarrow> u32 set \<Rightarrow> bool" where
  "relinks pool pool' S \<longleftrightarrow> length (nodes pool') = length (nodes pool) \<and>
     freeHead pool' = freeHead pool \<and>
     (\<forall>j :: u32. norder (nodes pool' ! unat j) = norder (nodes pool ! unat j)) \<and>
     (\<forall>j. j \<notin> S \<longrightarrow> nodes pool' ! unat j = nodes pool ! unat j)"

lemma pool_put_Some:
  "idx \<in> slots pool \<Longrightarrow> pool_put pool idx n = Some (pool\<lparr>nodes := (nodes pool)[unat idx := n]\<rparr>)"
  by (simp add: pool_put_def slots_def vec_simps)

lemma pool_at_Some: "idx \<in> slots pool \<Longrightarrow> pool_at pool idx = Some (nodes pool ! unat idx)"
  by (simp add: pool_at_def slots_def vec_simps)

lemma slots_write [simp]: "length ns = length (nodes pool) \<Longrightarrow> slots (pool\<lparr>nodes := ns\<rparr>) = slots pool"
  by (simp add: slots_def)

lemmas pool_simps = pool_put_Some pool_at_Some

lemma relinks_refl: "relinks pool pool S"
  by (simp add: relinks_def)

lemma relinks_trans: "relinks a b S \<Longrightarrow> relinks b c T \<Longrightarrow> relinks a c (S \<union> T)"
  by (auto simp: relinks_def)

lemma relinks_mono: "relinks a b S \<Longrightarrow> S \<subseteq> T \<Longrightarrow> relinks a b T"
  by (auto simp: relinks_def)

lemma relinks_slots: "relinks pool pool' S \<Longrightarrow> slots pool' = slots pool"
  by (simp add: relinks_def slots_def)

lemma relinks_same: "relinks pool pool' S \<Longrightarrow> S \<inter> T = {} \<Longrightarrow> j \<in> T \<Longrightarrow>
    nodes pool' ! unat j = nodes pool ! unat j"
  by (auto simp: relinks_def)

lemma dseg_relinks:
  assumes "relinks pool pool' S" and "S \<inter> set xs = {}"
  shows "dseg (nodes pool') p xs q = dseg (nodes pool) p xs q"
  by (rule dseg_frame) (use assms relinks_same [OF assms] in \<open>simp_all add: relinks_def\<close>)

lemma level_ok_relinks:
  assumes "relinks pool pool' S" and "S \<inter> set xs = {}"
  shows "level_ok (nodes pool') lvl xs = level_ok (nodes pool) lvl xs"
  by (simp add: level_ok_def dseg_relinks [OF assms])

text \<open>A write that keeps the order of its node is a relinking of that node.\<close>

lemma relinks_write:
  assumes "x \<in> slots pool" and "norder n = norder (nodes pool ! unat x)"
  shows "relinks pool (pool\<lparr>nodes := (nodes pool)[unat x := n]\<rparr>) {x}"
proof -
  have "norder ((nodes pool)[unat x := n] ! unat j) = norder (nodes pool ! unat j)" for j :: u32
    using assms by (cases "j = x") (auto simp: slots_def)
  then show ?thesis by (auto simp: relinks_def)
qed

lemma linkAtTail_spec:
  assumes lvl: "level_ok (nodes pool) lvl xs"
    and idx: "idx \<in> slots pool" "idx \<noteq> INVALID_INDEX" "idx \<notin> set xs"
  obtains pool' lvl' where "linkAtTail pool lvl idx = Some (pool', lvl')"
    "level_ok (nodes pool') lvl' (xs @ [idx])" "relinks pool pool' (insert idx (set xs))"
proof (cases xs rule: rev_cases)
  case Nil
  let ?n = "(nodes pool ! unat idx)\<lparr>nprev := INVALID_INDEX, nnext := INVALID_INDEX\<rparr>"
  let ?p = "pool\<lparr>nodes := (nodes pool)[unat idx := ?n]\<rparr>"
  from lvl Nil have "lvl = Level_new" by simp
  then have run: "linkAtTail pool lvl idx = Some (?p, \<lparr>lhead = idx, ltail = idx\<rparr>)"
    using idx by (simp add: linkAtTail_def pool_simps Level_new_def)
  have "relinks pool ?p {idx}" using idx by (intro relinks_write) simp_all
  then show ?thesis
    using idx Nil by (intro that [OF run]) (auto simp: level_ok_def slots_def elim: relinks_mono)
next
  case (snoc ys y)
  let ?p1 = "pool\<lparr>nodes := (nodes pool)[unat idx := (nodes pool ! unat idx)\<lparr>nprev := y, nnext := INVALID_INDEX\<rparr>]\<rparr>"
  let ?p2 = "?p1\<lparr>nodes := (nodes ?p1)[unat y := (nodes pool ! unat y)\<lparr>nnext := idx\<rparr>]\<rparr>"
  have seg: "distinct (ys @ [y])" "dseg (nodes pool) INVALID_INDEX (ys @ [y]) INVALID_INDEX"
      "lhead lvl = first ys y" "ltail lvl = y"
    using lvl snoc by (auto simp: level_ok_def)
  have y: "y \<in> slots pool" "y \<noteq> INVALID_INDEX" "y \<noteq> idx"
    using seg idx snoc by (auto simp: slots_def)
  have at: "nodes ?p1 ! unat y = nodes pool ! unat y" using y by simp
  have run: "linkAtTail pool lvl idx = Some (?p2, lvl\<lparr>ltail := idx\<rparr>)"
    using idx y at seg(4) by (simp add: linkAtTail_def pool_simps)
  have "relinks pool ?p1 {idx}" using idx by (intro relinks_write) simp_all
  moreover have "relinks ?p1 ?p2 {y}" by (rule relinks_write) (use y at in simp_all)
  ultimately have rel: "relinks pool ?p2 (insert idx (set xs))"
    by (rule relinks_mono [OF relinks_trans]) (simp add: snoc)
  have "dseg (nodes ?p2) INVALID_INDEX ys y = dseg (nodes pool) INVALID_INDEX ys y"
    by (rule dseg_frame) (use seg idx snoc in \<open>auto simp: nth_update_notin [of _ "set ys"]\<close>)
  then have "level_ok (nodes ?p2) (lvl\<lparr>ltail := idx\<rparr>) (xs @ [idx])"
    using seg idx y snoc by (simp add: level_ok_def slots_def)
  then show ?thesis using rel by (rule that [OF run])
qed

text \<open>
  Unlinking works on the two neighbours independently: the first half joins the part before
  \<open>x\<close> to its successor, the second half the part after \<open>x\<close> to its predecessor.
\<close>

lemma unlink_before:
  assumes seg: "dseg (nodes pool) INVALID_INDEX xs x" and x: "x \<notin> set xs" "distinct xs"
    and hd: "lhead lvl = first xs x"
  obtains pool' lvl' where
    "unlink_prev pool lvl (final INVALID_INDEX xs) nxt = Some (pool', lvl')"
    "dseg (nodes pool') INVALID_INDEX xs nxt" "lhead lvl' = first xs nxt" "ltail lvl' = ltail lvl"
    "relinks pool pool' (set xs)"
proof (cases xs rule: rev_cases)
  case Nil
  then show ?thesis by (intro that [of pool "lvl\<lparr>lhead := nxt\<rparr>"]) (simp_all add: relinks_refl unlink_prev_def)
next
  case (snoc ys y)
  let ?p = "pool\<lparr>nodes := (nodes pool)[unat y := (nodes pool ! unat y)\<lparr>nnext := nxt\<rparr>]\<rparr>"
  have y: "y \<in> slots pool" "y \<noteq> INVALID_INDEX" "y \<notin> set ys"
    using seg x snoc by (auto simp: slots_def)
  have "dseg (nodes ?p) INVALID_INDEX ys y = dseg (nodes pool) INVALID_INDEX ys y"
    by (rule dseg_frame) (use y in \<open>auto simp: nth_update_notin [of _ "set ys"]\<close>)
  moreover have "relinks pool ?p {y}" using y by (intro relinks_write) simp_all
  ultimately show ?thesis
    using seg y snoc hd
    by (intro that [of ?p lvl]) (auto simp: unlink_prev_def pool_simps slots_def elim: relinks_mono)
qed

lemma unlink_after:
  assumes seg: "dseg (nodes pool) x ys INVALID_INDEX" and x: "distinct ys"
    and tl: "ltail lvl = final x ys"
  obtains pool' lvl' where
    "unlink_next pool lvl prv (first ys INVALID_INDEX) = Some (pool', lvl')"
    "dseg (nodes pool') prv ys INVALID_INDEX" "ltail lvl' = final prv ys" "lhead lvl' = lhead lvl"
    "relinks pool pool' (set ys)"
proof (cases ys)
  case Nil
  then show ?thesis by (intro that [of pool "lvl\<lparr>ltail := prv\<rparr>"]) (simp_all add: relinks_refl unlink_next_def)
next
  case (Cons y zs)
  let ?p = "pool\<lparr>nodes := (nodes pool)[unat y := (nodes pool ! unat y)\<lparr>nprev := prv\<rparr>]\<rparr>"
  have y: "y \<in> slots pool" "y \<noteq> INVALID_INDEX" "y \<notin> set zs"
    using seg x Cons by (auto simp: slots_def)
  have "dseg (nodes ?p) y zs INVALID_INDEX = dseg (nodes pool) y zs INVALID_INDEX"
    by (rule dseg_frame) (use y in \<open>auto simp: nth_update_notin [of _ "set zs"]\<close>)
  moreover have "relinks pool ?p {y}" using y by (intro relinks_write) simp_all
  ultimately show ?thesis
    using seg y Cons tl
    by (intro that [of ?p lvl]) (auto simp: unlink_next_def pool_simps slots_def elim: relinks_mono)
qed

lemma unlink_spec:
  assumes lvl: "level_ok (nodes pool) lvl (xs @ x # ys)"
  obtains pool' lvl' where "unlink pool lvl x = Some (pool', lvl')"
    "level_ok (nodes pool') lvl' (xs @ ys)" "relinks pool pool' (set xs \<union> set ys)"
proof -
  have seg: "dseg (nodes pool) INVALID_INDEX xs x" "dseg (nodes pool) x ys INVALID_INDEX"
    and x: "x \<in> slots pool" "x \<notin> set xs" "x \<notin> set ys" "distinct xs" "distinct ys"
      "set xs \<inter> set ys = {}"
    and lk: "nprev (nodes pool ! unat x) = final INVALID_INDEX xs"
      "nnext (nodes pool ! unat x) = first ys INVALID_INDEX"
    and ht: "lhead lvl = first xs x" "ltail lvl = final x ys"
    using lvl by (auto simp: level_ok_def slots_def)
  obtain p1 l1 where p1: "unlink_prev pool lvl (final INVALID_INDEX xs) (first ys INVALID_INDEX) = Some (p1, l1)"
    and s1: "dseg (nodes p1) INVALID_INDEX xs (first ys INVALID_INDEX)"
      "lhead l1 = first xs (first ys INVALID_INDEX)" "ltail l1 = ltail lvl"
    and r1: "relinks pool p1 (set xs)"
    using unlink_before [OF seg(1) x(2,4) ht(1)] by blast
  have n1: "nodes p1 ! unat j = nodes pool ! unat j" if "j \<notin> set xs" for j
    using r1 that by (simp add: relinks_def)
  have d1: "dseg (nodes p1) x ys INVALID_INDEX" and t1: "ltail l1 = final x ys"
    using seg(2) s1(3) ht(2) dseg_relinks [OF r1 x(6)] by simp_all
  obtain p2 l2 where p2: "unlink_next p1 l1 (final INVALID_INDEX xs) (first ys INVALID_INDEX) = Some (p2, l2)"
    and s2: "dseg (nodes p2) (final INVALID_INDEX xs) ys INVALID_INDEX"
      "ltail l2 = final (final INVALID_INDEX xs) ys" "lhead l2 = lhead l1"
    and r2: "relinks p1 p2 (set ys)"
    using unlink_after [OF d1 x(5) t1] by blast
  have run: "unlink pool lvl x = Some (p2, l2)"
    using x lk p1 p2 n1 relinks_slots [OF r1] by (simp add: unlink_def pool_simps)
  have "dseg (nodes p2) INVALID_INDEX xs (first ys INVALID_INDEX)
      = dseg (nodes p1) INVALID_INDEX xs (first ys INVALID_INDEX)"
    by (rule dseg_relinks [OF r2]) (use x(6) in blast)
  with s1 s2 x have "level_ok (nodes p2) l2 (xs @ ys)" by (simp add: level_ok_def)
  then show ?thesis by (rule that [OF run]) (rule relinks_trans [OF r1 r2])
qed

section \<open>Anchoring\<close>

lemma unat_base_anchor: "unat (base (anchor s p)) = (unat p - 102400) - (unat p - 102400) mod 100"
proof -
  define c :: u64 where "c = (if (ucast p :: u64) > 102400 then ucast (p - 102400) else 0)"
  have gt: "(ucast p :: u64) > 102400 \<longleftrightarrow> unat p > 102400" by (simp add: word_less_nat_alt unat_up)
  have uc: "unat c = unat p - 102400"
  proof (cases "unat p > 102400")
    case True
    then have "102400 \<le> p" by (simp add: word_le_nat_alt)
    then have "unat (p - 102400) = unat p - 102400" by (simp add: unat_sub)
    with True gt show ?thesis by (simp add: c_def unat_up)
  qed (use gt in \<open>simp add: c_def\<close>)
  have b: "base (anchor s p) = ucast (c - c mod 100)"
    by (simp add: anchor_def c_def Let_def WINDOW_def TICK_def)
  have "c mod 100 \<le> c" by (simp add: word_le_nat_alt unat_mod)
  then have u: "unat (c - c mod 100) = unat c - unat c mod 100" by (simp add: unat_sub unat_mod)
  have "unat (c - c mod 100) < 2 ^ 32"
    using u uc unsigned_less [of p, where 'a = nat] by simp
  then have "unat (base (anchor s p)) = unat (c - c mod 100)"
    unfolding b by (simp add: unsigned_ucast_eq take_bit_nat_eq_self)
  with u uc show ?thesis by simp
qed

section \<open>Properties\<close>

text \<open>Slots and prices are inverse: a price that has a slot is the price of that slot, two prices
  share a slot only if they are equal, and the slot of a slot's price is the slot itself as long as
  that price fits in 32 bits.\<close>

lemma slot_price_roundtrip:
  assumes "priceToSlot s p \<noteq> INVALID_INDEX"
  shows "slotToPrice s (priceToSlot s p) = p \<and>
    (priceToSlot s q = priceToSlot s p \<longrightarrow> q = p) \<and>
    (unat (base s) + 100 * unat i < 2 ^ 32 \<longrightarrow> unat i < 2048 \<longrightarrow> priceToSlot s (slotToPrice s i) = i)"
proof -
  have rt: "slotToPrice s (priceToSlot s r) = r" if "priceToSlot s r \<noteq> INVALID_INDEX" for r
    using that by (rule slotToPrice_priceToSlot)
  have "anchored s" using priceToSlotD [OF assms] by simp
  then show ?thesis using rt [OF assms] rt [of q] assms priceToSlot_slotToPrice by metis
qed

text \<open>Anchoring centres the window: the base is a multiple of the tick at or below the first
  price, and a first price on a tick multiple always gets a slot of the window.\<close>

lemma anchor_covers_first_price:
  assumes "unat p mod 100 = 0"
  shows "unat (base (anchor s p)) mod 100 = 0 \<and> base (anchor s p) \<le> p \<and> priceToSlot (anchor s p) p \<noteq> INVALID_INDEX"
proof -
  let ?b = "unat (base (anchor s p))"
  obtain k where k: "unat p = 100 * k" using assms by (auto simp: mod_eq_0_iff_dvd)
  have "unat p - 102400 = 100 * (k - 1024)" unfolding k by simp
  then have b: "?b = 100 * (k - 1024)" using unat_base_anchor [of s p] by simp
  define d where "d = k - (k - 1024)"
  let ?i = "of_nat d :: u32"
  have small: "d < 2048" "k = (k - 1024) + d" by (simp_all add: d_def)
  then have i: "unat ?i = d" by (simp add: unat_of_nat_small)
  have "priceToSlot (anchor s p) p = ?i \<and> ?i \<noteq> INVALID_INDEX"
    unfolding priceToSlot_iff i b k using small by (auto simp: anchor_def Let_def)
  moreover have "?b \<le> unat p" unfolding b k by simp
  ultimately show ?thesis using b by (auto simp: word_le_nat_alt)
qed

end
