(* ===== verification/Ladder_Refinement.thy ===== *)
theory Ladder_Refinement
  imports Ladder_Side
begin

text \<open>
  A side of the book as a list of resting entries in price-time priority, and the proofs that
  \<open>add\<close>, \<open>remove\<close>, \<open>bestLevel\<close> and \<open>removeEmptyBest\<close> of \<^verbatim>\<open>include/ladder_side.hpp\<close> act on
  that list: insertion behind all entries at least as good, removal of one entry, and the
  price of the first entry.
\<close>

section \<open>Sorted association vectors\<close>

definition lower_bound :: "('p::linorder \<times> 'l) list \<Rightarrow> 'p \<Rightarrow> nat" where
  "lower_bound xs p = length (takeWhile (\<lambda>e. fst e < p) xs)"

lemma lower_bound_le: "lower_bound xs p \<le> length xs"
  by (simp add: lower_bound_def length_takeWhile_le)

lemma lower_bound_below: "e \<in> set (take (lower_bound xs p) xs) \<Longrightarrow> fst e < p"
  by (auto simp: lower_bound_def takeWhile_eq_take [symmetric] dest: set_takeWhileD)

lemma lower_bound_above:
  assumes "sorted_wrt (<) (map fst xs)" and "e \<in> set (drop (lower_bound xs p) xs)"
  shows "p \<le> fst e"
  using assms
proof (induction xs)
  case Nil
  then show ?case by simp
next
  case (Cons x xs)
  then show ?case by (cases "fst x < p") (auto simp: lower_bound_def)
qed

lemma lower_bound_hit:
  assumes srt: "sorted_wrt (<) (map fst xs)" and mem: "p \<in> fst ` set xs"
  shows "lower_bound xs p < length xs \<and> fst (xs ! lower_bound xs p) = p"
  using assms
proof (induction xs)
  case Nil
  then show ?case by simp
next
  case (Cons x xs)
  then show ?case by (cases "fst x < p") (auto simp: lower_bound_def)
qed

lemma map_of_update:
  "distinct (map fst xs) \<Longrightarrow> k < length xs \<Longrightarrow> fst (xs ! k) = p \<Longrightarrow>
   map_of (xs[k := (p, l)]) = (map_of xs)(p \<mapsto> l)"
proof (induction xs arbitrary: k)
  case Nil
  then show ?case by simp
next
  case (Cons x xs)
  show ?case
  proof (cases k)
    case 0
    with Cons.prems show ?thesis by (cases x) auto
  next
    case (Suc j)
    with Cons.prems have "fst x \<noteq> p" by auto
    with Suc Cons show ?thesis by (cases x) (auto simp: fun_eq_iff)
  qed
qed

lemma map_of_insert_at:
  "p \<notin> fst ` set xs \<Longrightarrow> map_of (take k xs @ (p, l) # drop k xs) = (map_of xs)(p \<mapsto> l)"
proof (induction xs arbitrary: k)
  case Nil
  then show ?case by simp
next
  case (Cons x xs)
  then show ?case by (cases k) (auto simp: fun_upd_twist)
qed

lemma map_of_erase_at:
  assumes "distinct (map fst xs)" and "k < length xs" and "fst (xs ! k) = p"
  shows "map_of (take k xs @ drop (Suc k) xs) = (map_of xs)(p := None)"
  using assms
proof (induction xs arbitrary: k)
  case Nil
  then show ?case by simp
next
  case (Cons x xs)
  show ?case
  proof (cases k)
    case 0
    with Cons.prems have "map_of xs p = None" by (auto simp: map_of_eq_None_iff)
    with 0 Cons.prems show ?thesis by (cases x) (auto simp: fun_eq_iff)
  next
    case (Suc j)
    with Cons have "map_of (take j xs @ drop (Suc j) xs) = (map_of xs)(p := None)"
      by (simp add: fun_upd_def)
    moreover have "fst x \<noteq> p" using Cons.prems Suc by auto
    ultimately show ?thesis using Suc by (cases x) (auto simp: fun_upd_twist)
  qed
qed

lemma sorted_insert_at:
  fixes xs :: "('p::linorder \<times> 'l) list"
  assumes srt: "sorted_wrt (<) (map fst xs)" and new: "p \<notin> fst ` set xs"
  shows "sorted_wrt (<) (map fst (take (lower_bound xs p) xs @ (p, l) # drop (lower_bound xs p) xs))"
proof -
  let ?k = "lower_bound xs p"
  have "sorted_wrt (<) (map fst (take ?k xs @ drop ?k xs))" using srt by simp
  moreover have "p < fst e" if "e \<in> set (drop ?k xs)" for e
    using lower_bound_above [OF srt that] new in_set_dropD [OF that] by (cases "p = fst e") auto
  ultimately show ?thesis
    using lower_bound_below [of _ xs p]
    by (simp only: map_append sorted_wrt_append list.map sorted_wrt.simps) auto
qed

lemma sorted_erase_at:
  "sorted_wrt (<) (map fst xs) \<Longrightarrow> sorted_wrt (<) (map fst (take k xs @ drop (Suc k) xs))"
proof -
  assume "sorted_wrt (<) (map fst xs)"
  then have "sorted_wrt (<) (map fst (take k xs @ drop k xs))" by simp
  then show ?thesis
    by (cases "k < length xs")
      (auto simp: sorted_wrt_append simp flip: Cons_nth_drop_Suc)
qed

lemma sorted_wrt_less_distinct: "sorted_wrt (<) (ps :: 'p::linorder list) \<Longrightarrow> distinct ps"
  by (simp add: strict_sorted_iff)

section \<open>Entries and priority\<close>

type_synonym entry = "u32 \<times> Order"

abbreviation eprice :: "entry \<Rightarrow> u32" where
  "eprice e \<equiv> price (snd e)"

definition better :: "bool \<Rightarrow> u32 \<Rightarrow> u32 \<Rightarrow> bool" where
  "better b p q \<longleftrightarrow> (if b then q < p else p < q)"

interpretation prio: price_priority "better b" for b
  by unfold_locales (auto simp: better_def)

definition side_char :: "bool \<Rightarrow> u8" where
  "side_char b = (if b then ch_B else ch_S)"

definition queue_at :: "entry list \<Rightarrow> u32 \<Rightarrow> u32 list" where
  "queue_at qs p = map fst (filter (\<lambda>e. eprice e = p) qs)"

definition entries_ok :: "bool \<Rightarrow> PoolNode list \<Rightarrow> entry list \<Rightarrow> bool" where
  "entries_ok b ns qs \<longleftrightarrow> distinct (map fst qs) \<and> prioritised (better b) eprice qs \<and>
     (\<forall>(x, ord) \<in> set qs. unat x < length ns \<and> x \<noteq> INVALID_INDEX \<and> norder (ns ! unat x) = ord \<and>
        0 < shares ord \<and> buySellIndicator ord = side_char b)"

section \<open>The shape of a side\<close>

definition in_window :: "LadderSide \<Rightarrow> nat \<Rightarrow> bool" where
  "in_window s i \<longleftrightarrow> unat (base s) + 100 * i < 2 ^ 32"

definition populated :: "LadderSide \<Rightarrow> nat \<Rightarrow> bool" where
  "populated s i \<longleftrightarrow> lhead (ladder s ! i) \<noteq> INVALID_INDEX"

text \<open>
  \<open>best_ok X s\<close>: the cached slot is at least as good as every populated slot, and is populated
  itself unless its price is in \<open>X\<close>, the prices whose level is just being drained.
\<close>

definition best_ok :: "u32 set \<Rightarrow> LadderSide \<Rightarrow> bool" where
  "best_ok X s \<longleftrightarrow>
     (\<forall>i < length (ladder s). populated s i \<longrightarrow> bestSlot s \<noteq> INVALID_INDEX \<and>
        (if bid s then i \<le> unat (bestSlot s) else unat (bestSlot s) \<le> i)) \<and>
     (bestSlot s \<noteq> INVALID_INDEX \<longrightarrow> unat (bestSlot s) < length (ladder s) \<and>
        in_window s (unat (bestSlot s)) \<and>
        (populated s (unat (bestSlot s)) \<or> slotToPrice s (bestSlot s) \<in> X))"

definition overflow_ok :: "u32 set \<Rightarrow> LadderSide \<Rightarrow> bool" where
  "overflow_ok X s \<longleftrightarrow> sorted_wrt (<) (map fst (overflow s)) \<and>
     (\<forall>(p, l) \<in> set (overflow s). priceToSlot s p = INVALID_INDEX \<and>
        (lhead l \<noteq> INVALID_INDEX \<or> p \<in> X))"

definition side_shape :: "u32 set \<Rightarrow> LadderSide \<Rightarrow> bool" where
  "side_shape X s \<longleftrightarrow> length (ladder s) = (if anchored s then 2048 else 0) \<and>
     (\<not> anchored s \<longrightarrow> overflow s = []) \<and>
     (\<forall>i < length (ladder s). populated s i \<longrightarrow> in_window s i) \<and>
     overflow_ok X s \<and> best_ok X s"

definition level_of :: "LadderSide \<Rightarrow> u32 \<Rightarrow> Level" where
  "level_of s p = (if priceToSlot s p \<noteq> INVALID_INDEX then ladder s ! unat (priceToSlot s p)
     else (case map_of (overflow s) p of Some l \<Rightarrow> l | None \<Rightarrow> Level_new))"

definition side_rel :: "u32 set \<Rightarrow> PoolNode list \<Rightarrow> LadderSide \<Rightarrow> entry list \<Rightarrow> bool" where
  "side_rel X ns s qs \<longleftrightarrow> side_shape X s \<and> entries_ok (bid s) ns qs \<and>
     (\<forall>p. level_ok ns (level_of s p) (queue_at qs p))"

text \<open>The level pointer \<open>lp\<close> points at the level of price \<open>p\<close>.\<close>

fun denotes :: "LadderSide \<Rightarrow> LevelPtr \<Rightarrow> u32 \<Rightarrow> bool" where
  "denotes s (InLadder i) p \<longleftrightarrow> i \<noteq> INVALID_INDEX \<and> priceToSlot s p = i"
| "denotes s (InOverflow k) p \<longleftrightarrow> k < length (overflow s) \<and> fst (overflow s ! k) = p \<and>
     priceToSlot s p = INVALID_INDEX"

lemma overflow_ok_mono: "overflow_ok X s \<Longrightarrow> X \<subseteq> Y \<Longrightarrow> overflow_ok Y s"
  unfolding overflow_ok_def by fast

lemma best_ok_mono:
  assumes "best_ok X s" and "X \<subseteq> Y"
  shows "best_ok Y s"
proof -
  have "slotToPrice s (bestSlot s) \<in> X \<Longrightarrow> slotToPrice s (bestSlot s) \<in> Y" using assms(2) by (rule subsetD)
  with assms(1) show ?thesis unfolding best_ok_def by argo
qed

text \<open>A side that keeps its anchoring and best slot and gains no populated slot keeps its shape.\<close>

lemma best_ok_transfer:
  assumes "best_ok X s" and "bid s' = bid s" and "bestSlot s' = bestSlot s" and "base s' = base s"
    and "length (ladder s') = length (ladder s)"
    and "\<And>i. i < length (ladder s) \<Longrightarrow> populated s' i \<Longrightarrow> populated s i"
    and "bestSlot s \<noteq> INVALID_INDEX \<Longrightarrow> unat (bestSlot s) < length (ladder s) \<Longrightarrow>
      populated s (unat (bestSlot s)) \<or> slotToPrice s (bestSlot s) \<in> X \<Longrightarrow>
      populated s' (unat (bestSlot s)) \<or> slotToPrice s (bestSlot s) \<in> Y"
  shows "best_ok Y s'"
proof -
  have eq: "in_window s' = in_window s" "slotToPrice s' = slotToPrice s"
    using assms(4) by (simp_all add: in_window_def fun_eq_iff slotToPrice_def)
  have old: "populated s i \<Longrightarrow> bestSlot s \<noteq> INVALID_INDEX \<and>
      (if bid s then i \<le> unat (bestSlot s) else unat (bestSlot s) \<le> i)" if "i < length (ladder s)" for i
    using assms(1) that by (simp add: best_ok_def)
  have best: "bestSlot s \<noteq> INVALID_INDEX \<Longrightarrow> unat (bestSlot s) < length (ladder s) \<and>
      in_window s (unat (bestSlot s)) \<and>
      (populated s (unat (bestSlot s)) \<or> slotToPrice s (bestSlot s) \<in> X)"
    using assms(1) by (simp add: best_ok_def)
  show ?thesis unfolding best_ok_def eq assms(2,3,5)
    by (intro conjI allI impI) (use old assms(6) best assms(7) in blast)+
qed

lemma side_shape_transfer:
  assumes sh: "side_shape X s" and "bid s' = bid s" and "bestSlot s' = bestSlot s"
    and "base s' = base s" and "anchored s' = anchored s" and "overflow s = [] \<Longrightarrow> overflow s' = []"
    and "length (ladder s') = length (ladder s)"
    and "\<And>i. i < length (ladder s) \<Longrightarrow> populated s' i \<Longrightarrow> populated s i"
    and "bestSlot s \<noteq> INVALID_INDEX \<Longrightarrow> unat (bestSlot s) < length (ladder s) \<Longrightarrow>
      populated s (unat (bestSlot s)) \<or> slotToPrice s (bestSlot s) \<in> X \<Longrightarrow>
      populated s' (unat (bestSlot s)) \<or> slotToPrice s (bestSlot s) \<in> Y"
    and ov: "overflow_ok Y s'"
  shows "side_shape Y s'"
proof -
  have eq: "in_window s' = in_window s" using assms(4) by (simp add: in_window_def fun_eq_iff)
  have "best_ok X s" using sh by (simp add: side_shape_def)
  then have "best_ok Y s'"
    by (rule best_ok_transfer) (use assms in auto)
  with ov sh assms(8) show ?thesis
    unfolding side_shape_def eq assms(5,7) using assms(6) by blast
qed

lemma side_shape_mono: "side_shape X s \<Longrightarrow> X \<subseteq> Y \<Longrightarrow> side_shape Y s"
  unfolding side_shape_def using overflow_ok_mono best_ok_mono by blast

lemma slot_in_ladder:
  assumes "side_shape X s" and "priceToSlot s p \<noteq> INVALID_INDEX"
  shows "unat (priceToSlot s p) < length (ladder s)" "anchored s"
    "unat p = unat (base s) + 100 * unat (priceToSlot s p)" "in_window s (unat (priceToSlot s p))"
proof -
  note D = priceToSlotD [OF assms(2)]
  then show "anchored s" "unat p = unat (base s) + 100 * unat (priceToSlot s p)" by auto
  show "unat (priceToSlot s p) < length (ladder s)" using D assms(1) by (simp add: side_shape_def)
  show "in_window s (unat (priceToSlot s p))"
    using D unsigned_less [of p, where 'a = nat] by (simp add: in_window_def)
qed

lemma level_at_denotes:
  assumes "side_shape X s" and "denotes s lp p"
  shows "level_at s lp = Some (level_of s p)"
proof (cases lp)
  case (InLadder i)
  with assms slot_in_ladder(1) [OF assms(1), of p] show ?thesis
    by (simp add: level_of_def vec_simps)
next
  case (InOverflow k)
  have "distinct (map fst (overflow s))"
    using assms(1) by (auto simp: side_shape_def overflow_ok_def dest: sorted_wrt_less_distinct)
  moreover have "(p, snd (overflow s ! k)) \<in> set (overflow s)"
    using assms(2) InOverflow nth_mem [of k "overflow s"] by (cases "overflow s ! k") auto
  ultimately have "map_of (overflow s) p = Some (snd (overflow s ! k))"
    by (rule map_of_is_SomeI)
  with assms(2) InOverflow show ?thesis by (simp add: level_of_def)
qed

lemma slot_inject:
  "priceToSlot s p \<noteq> INVALID_INDEX \<Longrightarrow> priceToSlot s q = priceToSlot s p \<Longrightarrow> q = p"
  by (metis slotToPrice_priceToSlot)

text \<open>Writing through a level pointer changes the level of its price and nothing else.\<close>

lemma level_put_frame:
  assumes sh: "side_shape X s" and lp: "denotes s lp p"
  obtains s' where "level_put s lp l = Some s'" "level_of s' = (level_of s)(p := l)"
    "denotes s' lp p" "bid s' = bid s" "anchored s' = anchored s" "base s' = base s"
    "bestSlot s' = bestSlot s"
proof (cases lp)
  case (InLadder i)
  let ?s = "s\<lparr>ladder := (ladder s)[unat i := l]\<rparr>"
  have slots: "priceToSlot ?s = priceToSlot s" by (rule priceToSlot_cong) simp_all
  have i: "i \<noteq> INVALID_INDEX" "priceToSlot s p = i" "unat i < length (ladder s)"
    using lp InLadder slot_in_ladder(1) [OF sh, of p] by auto
  have "level_of ?s q = ((level_of s)(p := l)) q" for q
  proof (cases "q = p")
    case False
    then have "priceToSlot s q \<noteq> i" using i slot_inject [of s p q] by auto
    with False show ?thesis by (simp add: level_of_def slots)
  qed (use i in \<open>simp add: level_of_def slots\<close>)
  then have "level_of ?s = (level_of s)(p := l)" by (rule ext)
  with i InLadder show ?thesis by (intro that [of ?s]) (simp_all add: vec_simps slots)
next
  case (InOverflow k)
  let ?s = "s\<lparr>overflow := (overflow s)[k := (fst (overflow s ! k), l)]\<rparr>"
  have slots: "priceToSlot ?s = priceToSlot s" by (rule priceToSlot_cong) simp_all
  have "distinct (map fst (overflow s))"
    using sh by (auto simp: side_shape_def overflow_ok_def dest: sorted_wrt_less_distinct)
  then have "map_of (overflow ?s) = (map_of (overflow s))(p \<mapsto> l)"
    using lp InOverflow by (auto simp: map_of_update)
  then have "level_of ?s = (level_of s)(p := l)"
    using lp InOverflow by (auto simp: level_of_def slots fun_eq_iff)
  with lp InOverflow show ?thesis by (intro that [of ?s]) (auto simp: slots)
qed

lemma populated_level_of:
  assumes "side_shape X s" and "unat i < length (ladder s)" and "in_window s (unat i)"
  shows "level_of s (slotToPrice s i) = ladder s ! unat i" "priceToSlot s (slotToPrice s i) = i"
    "i \<noteq> INVALID_INDEX"
proof -
  have a: "anchored s" "unat i < 2048" using assms by (auto simp: side_shape_def split: if_splits)
  then show "priceToSlot s (slotToPrice s i) = i" "i \<noteq> INVALID_INDEX"
    using assms(3) by (auto simp: priceToSlot_slotToPrice in_window_def INVALID_not_slot)
  then show "level_of s (slotToPrice s i) = ladder s ! unat i" by (simp add: level_of_def)
qed

text \<open>Replacing a populated level: an emptied one is exempt until the best is recomputed.\<close>

lemma level_put_shape:
  assumes sh: "side_shape X s" and lp: "denotes s lp p" and pop: "lhead (level_of s p) \<noteq> INVALID_INDEX"
    and put: "level_put s lp l = Some s'"
  shows "side_shape (if lhead l = INVALID_INDEX then insert p X else X) s'"
proof (cases lp)
  case (InLadder i)
  then have i: "i \<noteq> INVALID_INDEX" "priceToSlot s p = i" "unat i < length (ladder s)"
    and s': "s' = s\<lparr>ladder := (ladder s)[unat i := l]\<rparr>"
    using lp put slot_in_ladder(1) [OF sh, of p] by (auto simp: vec_simps)
  have slots: "priceToSlot s' = priceToSlot s" "slotToPrice s' = slotToPrice s"
    unfolding s' by (rule priceToSlot_cong slotToPrice_cong; simp)+
  have ps: "slotToPrice s i = p" using slotToPrice_priceToSlot [of s p] i by simp
  have popi: "populated s (unat i)" using pop i by (simp add: level_of_def populated_def)
  have popd: "populated s' j = (if j = unat i then lhead l \<noteq> INVALID_INDEX else populated s j)"
    if "j < length (ladder s)" for j
    using that by (simp add: populated_def s')
  then have shrink: "populated s' j \<Longrightarrow> populated s j" if "j < length (ladder s)" for j
    using that popi by (auto split: if_splits)
  let ?X = "if lhead l = INVALID_INDEX then insert p X else X"
  have ov: "overflow_ok ?X s'"
    using sh by (auto simp: side_shape_def overflow_ok_def slots) (auto simp: s')
  show ?thesis
  proof (rule side_shape_transfer [OF sh _ _ _ _ _ _ shrink _ ov])
    assume "unat (bestSlot s) < length (ladder s)"
      and "populated s (unat (bestSlot s)) \<or> slotToPrice s (bestSlot s) \<in> X"
    then show "populated s' (unat (bestSlot s)) \<or> slotToPrice s (bestSlot s) \<in> ?X"
      using ps popd by (cases "bestSlot s = i") auto
  qed (simp_all add: s')
next
  case (InOverflow k)
  then have k: "k < length (overflow s)" "fst (overflow s ! k) = p" "priceToSlot s p = INVALID_INDEX"
    and s': "s' = s\<lparr>overflow := (overflow s)[k := (p, l)]\<rparr>"
    using lp put by auto
  have slots: "priceToSlot s' = priceToSlot s"
    unfolding s' by (rule priceToSlot_cong; simp)
  let ?X = "if lhead l = INVALID_INDEX then insert p X else X"
  have keys: "map fst (overflow s') = map fst (overflow s)"
    using k by (metis (no_types, lifting) fst_conv length_map list_update_id map_update nth_map
        s' LadderSide.select_convs(3) LadderSide.update_convs(3) LadderSide.surjective)
  have "e \<in> insert (p, l) (set (overflow s))" if "e \<in> set (overflow s')" for e
    using that set_update_subset_insert [of "overflow s" k "(p, l)"] by (auto simp: s')
  then have ov: "overflow_ok ?X s'"
    using sh k by (fastforce simp: side_shape_def overflow_ok_def keys slots)
  show ?thesis
    by (rule side_shape_transfer [OF sh _ _ _ _ _ _ _ _ ov])
      (use k in \<open>auto simp: s' populated_def split: if_splits\<close>)
qed

section \<open>Recomputing the best slot\<close>

abbreviation filled :: "Level list \<Rightarrow> nat \<Rightarrow> bool" where
  "filled lad i \<equiv> lhead (lad ! i) \<noteq> INVALID_INDEX"

lemma advance_bid_spec:
  assumes "unat b < length lad" and "length lad = 2048"
  shows "\<exists>b'. advance_bid lad b = Some b' \<and>
    (b' = INVALID_INDEX \<and> (\<forall>i \<le> unat b. \<not> filled lad i) \<or>
     unat b' \<le> unat b \<and> b' \<noteq> INVALID_INDEX \<and> filled lad (unat b') \<and>
       (\<forall>i. unat b' < i \<longrightarrow> i \<le> unat b \<longrightarrow> \<not> filled lad i))"
  using assms(1)
proof (induction "unat b" arbitrary: b)
  case 0
  then have b: "b = 0" "b \<noteq> INVALID_INDEX" by (auto simp: INVALID_INDEX_def unat_eq_zero)
  have z: "unat b = 0" using 0 by simp
  show ?case
    by (subst advance_bid.simps) (use 0 b z in \<open>auto simp: vec_simps\<close>)
next
  case (Suc n)
  have b: "b \<noteq> 0" "b \<noteq> INVALID_INDEX" using Suc.hyps(2) Suc.prems assms(2)
    by (auto simp: INVALID_INDEX_def)
  have pred: "unat (b - 1) = n" using Suc.hyps(2) b(1) by (simp add: unat_minus_one)
  show ?case
  proof (cases "filled lad (unat b)")
    case True
    then have "advance_bid lad b = Some b"
      using b Suc.prems by (subst advance_bid.simps) (simp add: vec_simps)
    with True b show ?thesis by auto
  next
    case False
    then have run: "advance_bid lad b = advance_bid lad (b - 1)"
      using b Suc.prems by (subst advance_bid.simps) (simp add: vec_simps)
    have split: "i \<le> unat b \<longleftrightarrow> i \<le> unat (b - 1) \<or> i = unat b" for i
      using pred Suc.hyps(2) by auto
    show ?thesis
      using Suc.hyps(1) [of "b - 1"] pred Suc.hyps(2) Suc.prems False run
      by (auto simp: split)
  qed
qed

lemma advance_ask_spec:
  assumes "unat b < length lad" and "length lad = 2048"
  shows "\<exists>b'. advance_ask lad b = Some b' \<and>
    (b' = INVALID_INDEX \<and> (\<forall>i < length lad. unat b \<le> i \<longrightarrow> \<not> filled lad i) \<or>
     unat b \<le> unat b' \<and> unat b' < length lad \<and> b' \<noteq> INVALID_INDEX \<and> filled lad (unat b') \<and>
       (\<forall>i. unat b \<le> i \<longrightarrow> i < unat b' \<longrightarrow> \<not> filled lad i))"
  using assms(1)
proof (induction "2048 - unat b" arbitrary: b rule: less_induct)
  case less
  have b: "b \<noteq> INVALID_INDEX" using less.prems assms(2) by (auto simp: INVALID_INDEX_def)
  have suc: "unat (b + 1) = Suc (unat b)"
    using less.prems assms(2) by (simp add: unat_word_ariths)
  show ?case
  proof (cases "filled lad (unat b)")
    case True
    then have "advance_ask lad b = Some b"
      using b less.prems by (subst advance_ask.simps) (simp add: vec_simps)
    with True b less.prems show ?thesis by auto
  next
    case False
    have end_iff: "WINDOW \<le> b + 1 \<longleftrightarrow> \<not> Suc (unat b) < 2048"
      using suc by (simp add: WINDOW_def word_le_nat_alt not_less)
    show ?thesis
    proof (cases "Suc (unat b) < 2048")
      case True
      then have run: "advance_ask lad b = advance_ask lad (b + 1)"
        using False b less.prems end_iff by (subst advance_ask.simps) (simp add: vec_simps)
      have split: "unat b \<le> i \<longleftrightarrow> i = unat b \<or> unat (b + 1) \<le> i" for i using suc by auto
      have "2048 - unat (b + 1) < 2048 - unat b" "unat (b + 1) < length lad"
        using suc True assms(2) by linarith+
      then obtain b' where b': "advance_ask lad (b + 1) = Some b'"
        "b' = INVALID_INDEX \<and> (\<forall>i < length lad. unat (b + 1) \<le> i \<longrightarrow> \<not> filled lad i) \<or>
         unat (b + 1) \<le> unat b' \<and> unat b' < length lad \<and> b' \<noteq> INVALID_INDEX \<and> filled lad (unat b') \<and>
         (\<forall>i. unat (b + 1) \<le> i \<longrightarrow> i < unat b' \<longrightarrow> \<not> filled lad i)"
        using less.hyps [of "b + 1"] by blast
      then show ?thesis unfolding run split using False by blast
    next
      case fin: False
      then have "advance_ask lad b = Some INVALID_INDEX"
        using False b less.prems end_iff by (subst advance_ask.simps) (simp add: vec_simps)
      moreover have "i = unat b" if "i < length lad" "unat b \<le> i" for i
        using that fin assms(2) by linarith
      ultimately show ?thesis using False by auto
    qed
  qed
qed

text \<open>\<open>advanceBest\<close> restores the cached slot after the level it points at was emptied.\<close>

lemma advanceBest_spec:
  assumes sh: "side_shape X s" and b: "bestSlot s \<noteq> INVALID_INDEX"
    and X: "X \<subseteq> {slotToPrice s (bestSlot s)}"
  obtains b' where "advanceBest s = Some (s\<lparr>bestSlot := b'\<rparr>)" "side_shape {} (s\<lparr>bestSlot := b'\<rparr>)"
proof -
  have len: "unat (bestSlot s) < length (ladder s)" "length (ladder s) = 2048" "anchored s"
    using sh b by (auto simp: side_shape_def best_ok_def split: if_splits)
  have win: "populated s i \<Longrightarrow> in_window s i" if "i < length (ladder s)" for i
    using sh that by (simp add: side_shape_def)
  have bnd: "if bid s then i \<le> unat (bestSlot s) else unat (bestSlot s) \<le> i"
    if "i < length (ladder s)" "populated s i" for i
    using sh that by (auto simp: side_shape_def best_ok_def)
  have "\<exists>b'. advanceBest s = Some (s\<lparr>bestSlot := b'\<rparr>) \<and>
    (b' = INVALID_INDEX \<and> (\<forall>i < length (ladder s). \<not> populated s i) \<or>
     b' \<noteq> INVALID_INDEX \<and> unat b' < length (ladder s) \<and> populated s (unat b') \<and>
     (\<forall>i < length (ladder s). populated s i \<longrightarrow> (if bid s then i \<le> unat b' else unat b' \<le> i)))"
  proof (cases "bid s")
    case True
    then have le: "i \<le> unat (bestSlot s)" if "i < length (ladder s)" "populated s i" for i
      using bnd that by simp
    obtain b' where run: "advance_bid (ladder s) (bestSlot s) = Some b'"
      and b': "b' = INVALID_INDEX \<and> (\<forall>i \<le> unat (bestSlot s). \<not> populated s i) \<or>
        unat b' \<le> unat (bestSlot s) \<and> b' \<noteq> INVALID_INDEX \<and> populated s (unat b') \<and>
        (\<forall>i. unat b' < i \<longrightarrow> i \<le> unat (bestSlot s) \<longrightarrow> \<not> populated s i)"
      using advance_bid_spec [OF len(1,2)] by (auto simp: populated_def)
    from run True have "advanceBest s = Some (s\<lparr>bestSlot := b'\<rparr>)" by (simp add: advanceBest_def)
    moreover have "unat b' < length (ladder s)" if "unat b' \<le> unat (bestSlot s)"
      using that len(1) by linarith
    ultimately show ?thesis using b' le True by (metis not_le)
  next
    case False
    then have le: "unat (bestSlot s) \<le> i" if "i < length (ladder s)" "populated s i" for i
      using bnd that by simp
    obtain b' where run: "advance_ask (ladder s) (bestSlot s) = Some b'"
      and b': "b' = INVALID_INDEX \<and> (\<forall>i < length (ladder s). unat (bestSlot s) \<le> i \<longrightarrow> \<not> populated s i) \<or>
        unat (bestSlot s) \<le> unat b' \<and> unat b' < length (ladder s) \<and> b' \<noteq> INVALID_INDEX \<and>
        populated s (unat b') \<and> (\<forall>i. unat (bestSlot s) \<le> i \<longrightarrow> i < unat b' \<longrightarrow> \<not> populated s i)"
      using advance_ask_spec [OF len(1,2)] by (auto simp: populated_def)
    from run False have "advanceBest s = Some (s\<lparr>bestSlot := b'\<rparr>)" by (simp add: advanceBest_def)
    then show ?thesis using b' le False by (metis not_le)
  qed
  then obtain b' where run: "advanceBest s = Some (s\<lparr>bestSlot := b'\<rparr>)"
    and b': "b' = INVALID_INDEX \<and> (\<forall>i < length (ladder s). \<not> populated s i) \<or>
     b' \<noteq> INVALID_INDEX \<and> unat b' < length (ladder s) \<and> populated s (unat b') \<and>
     (\<forall>i < length (ladder s). populated s i \<longrightarrow> (if bid s then i \<le> unat b' else unat b' \<le> i))"
    by blast
  let ?s = "s\<lparr>bestSlot := b'\<rparr>"
  have eq: "populated ?s = populated s" "in_window ?s = in_window s" "slotToPrice ?s = slotToPrice s"
    "priceToSlot ?s = priceToSlot s"
    by (simp_all add: fun_eq_iff populated_def in_window_def slotToPrice_def priceToSlot_def)
  have "p \<notin> X" if "(p, l) \<in> set (overflow s)" for p l
  proof
    assume "p \<in> X"
    with X have p: "p = slotToPrice s (bestSlot s)" by auto
    have "in_window s (unat (bestSlot s))" using sh b by (simp add: side_shape_def best_ok_def)
    then have "priceToSlot s p = bestSlot s" using populated_level_of(2) [OF sh len(1)] p by simp
    with b sh that show False by (auto simp: side_shape_def overflow_ok_def)
  qed
  then have "overflow_ok {} ?s"
    using sh by (fastforce simp: side_shape_def overflow_ok_def eq)
  moreover have "best_ok {} ?s" using b' win by (auto simp: best_ok_def eq)
  ultimately have "side_shape {} ?s" using sh by (simp add: side_shape_def eq)
  then show ?thesis by (rule that [OF run])
qed

lemma overflow_index:
  assumes "side_shape X s"
  shows "overflowLowerBound s p \<noteq> length (overflow s) \<and> fst (overflow s ! overflowLowerBound s p) = p
    \<longleftrightarrow> p \<in> fst ` set (overflow s)"
    and "p \<in> fst ` set (overflow s) \<Longrightarrow> overflowLowerBound s p < length (overflow s)"
proof -
  have eq: "overflowLowerBound s p = lower_bound (overflow s) p"
    by (simp add: overflowLowerBound_def lower_bound_def)
  have srt: "sorted_wrt (<) (map fst (overflow s))"
    using assms by (simp add: side_shape_def overflow_ok_def)
  then show "p \<in> fst ` set (overflow s) \<Longrightarrow> overflowLowerBound s p < length (overflow s)"
    unfolding eq by (simp add: lower_bound_hit)
  show "overflowLowerBound s p \<noteq> length (overflow s) \<and> fst (overflow s ! overflowLowerBound s p) = p
    \<longleftrightarrow> p \<in> fst ` set (overflow s)"
    (is "?at \<longleftrightarrow> ?mem")
  proof
    assume ?at
    then have "overflow s ! overflowLowerBound s p \<in> set (overflow s)"
      using lower_bound_le [of "overflow s" p] by (simp add: eq)
    then show ?mem using \<open>?at\<close> by (metis image_eqI)
  next
    assume ?mem
    with lower_bound_hit [OF srt] show ?at by (metis eq nat_neq_iff)
  qed
qed

text \<open>Erasing the drained entry of the overflow vector.\<close>

lemma overflow_erase_ok:
  assumes ok: "overflow_ok {p} s" and k: "k < length (overflow s)" "fst (overflow s ! k) = p"
    and slot: "priceToSlot s p = INVALID_INDEX" and empty: "level_of s p = Level_new"
  shows "overflow_ok {} (overflow_erase s k)" "level_of (overflow_erase s k) = level_of s"
proof -
  let ?s = "overflow_erase s k"
  have srt: "sorted_wrt (<) (map fst (overflow s))" using ok by (simp add: overflow_ok_def)
  then have dst: "distinct (map fst (overflow s))" by (rule sorted_wrt_less_distinct)
  have mo: "map_of (overflow ?s) = (map_of (overflow s))(p := None)"
    using map_of_erase_at [OF dst k] by (simp add: overflow_erase_def)
  have slots: "priceToSlot ?s = priceToSlot s" by (simp add: overflow_erase_def)
  have lad: "ladder ?s = ladder s" by (simp add: overflow_erase_def)
  show "level_of ?s = level_of s"
    using empty slot unfolding fun_eq_iff level_of_def slots mo lad by (auto split: option.splits)
  have srt': "sorted_wrt (<) (map fst (overflow ?s))"
    using sorted_erase_at [OF srt] by (simp add: overflow_erase_def)
  have mem: "(q, l) \<in> set (overflow s) \<and> q \<noteq> p" if "(q, l) \<in> set (overflow ?s)" for q l
  proof -
    have "map_of (overflow ?s) q = Some l"
      using that srt' by (intro map_of_is_SomeI sorted_wrt_less_distinct)
    then show ?thesis unfolding mo by (auto split: if_splits dest: map_of_SomeD)
  qed
  show "overflow_ok {} ?s"
    using srt' mem ok by (fastforce simp: overflow_ok_def slots)
qed

text \<open>Draining is completed by \<open>removeEmptyBest\<close>: no exempt level is left, no level changes.\<close>

lemma removeEmptyBest_spec:
  assumes sh: "side_shape {p} s" and empty: "level_of s p = Level_new"
  obtains s' where "removeEmptyBest s p = Some s'" "side_shape {} s'" "level_of s' = level_of s"
    "bid s' = bid s"
proof (cases "priceToSlot s p = INVALID_INDEX")
  case False
  have nov: "p \<notin> fst ` set (overflow s)"
    using sh False by (auto simp: side_shape_def overflow_ok_def)
  show ?thesis
  proof (cases "priceToSlot s p = bestSlot s")
    case True
    then have "slotToPrice s (bestSlot s) = p" using slotToPrice_priceToSlot [OF False] by simp
    then obtain b' where b': "advanceBest s = Some (s\<lparr>bestSlot := b'\<rparr>)" "side_shape {} (s\<lparr>bestSlot := b'\<rparr>)"
      using advanceBest_spec [OF sh] False True by auto
    have "level_of (s\<lparr>bestSlot := b'\<rparr>) = level_of s"
      by (simp add: fun_eq_iff level_of_def priceToSlot_def)
    then show ?thesis
      by (rule that [rotated 2]) (use b' False True in \<open>auto simp: removeEmptyBest_def\<close>)
  next
    case other: False
    then have "slotToPrice s (bestSlot s) \<noteq> p" if "bestSlot s \<noteq> INVALID_INDEX"
      using sh that populated_level_of(2) [OF sh, of "bestSlot s"]
      by (auto simp: side_shape_def best_ok_def)
    then have "best_ok {} s" using sh by (auto simp: side_shape_def best_ok_def)
    moreover have "overflow_ok {} s"
      using sh nov by (force simp: side_shape_def overflow_ok_def)
    ultimately have "side_shape {} s" using sh by (simp add: side_shape_def)
    with False other show ?thesis by (intro that [of s]) (simp_all add: removeEmptyBest_def Let_def)
  qed
next
  case slot: True
  have "slotToPrice s (bestSlot s) \<noteq> p" if "bestSlot s \<noteq> INVALID_INDEX"
    using sh that slot populated_level_of(2) [OF sh, of "bestSlot s"]
    by (auto simp: side_shape_def best_ok_def)
  then have bok: "best_ok {} s" using sh by (auto simp: side_shape_def best_ok_def)
  note idx = overflow_index [OF sh, of p]
  show ?thesis
  proof (cases "p \<in> fst ` set (overflow s)")
    case False
    then have "overflow_ok {} s" using sh by (force simp: side_shape_def overflow_ok_def)
    then have "side_shape {} s" using sh bok by (simp add: side_shape_def)
    moreover have "removeEmptyBest s p = Some s"
      using slot idx(1) False by (auto simp: removeEmptyBest_def Let_def)
    ultimately show ?thesis by (intro that [of s]) simp_all
  next
    case True
    let ?s = "overflow_erase s (overflowLowerBound s p)"
    have k: "overflowLowerBound s p < length (overflow s)" "fst (overflow s ! overflowLowerBound s p) = p"
      using idx True by auto
    have ov: "overflow_ok {} ?s" and lv: "level_of ?s = level_of s"
      using sh k slot empty by (auto simp: side_shape_def intro: overflow_erase_ok)
    then have "side_shape {} ?s"
      using bok by (intro side_shape_transfer [OF sh]) (auto simp: overflow_erase_def populated_def best_ok_def)
    with lv slot idx True show ?thesis
      by (intro that [of ?s]) (simp_all add: removeEmptyBest_def Let_def overflow_erase_def)
  qed
qed

section \<open>The best level\<close>

definition live_price :: "LadderSide \<Rightarrow> u32 \<Rightarrow> bool" where
  "live_price s p \<longleftrightarrow> lhead (level_of s p) \<noteq> INVALID_INDEX"

lemma live_price_cases:
  assumes "side_shape {} s"
  shows "live_price s p \<longleftrightarrow>
    (if priceToSlot s p \<noteq> INVALID_INDEX then populated s (unat (priceToSlot s p))
     else p \<in> fst ` set (overflow s))"
proof (cases "priceToSlot s p = INVALID_INDEX")
  case True
  then show ?thesis
    using assms by (force simp: live_price_def level_of_def Level_new_def side_shape_def
        overflow_ok_def map_of_eq_None_iff split: option.splits dest: map_of_SomeD)
qed (simp add: live_price_def level_of_def populated_def)

text \<open>The price of the cached slot is live and best among the window's prices.\<close>

lemma best_slot_price:
  assumes sh: "side_shape {} s"
  shows "bestSlot s \<noteq> INVALID_INDEX \<Longrightarrow> live_price s (slotToPrice s (bestSlot s)) \<and>
      denotes s (InLadder (bestSlot s)) (slotToPrice s (bestSlot s))"
    and "priceToSlot s q \<noteq> INVALID_INDEX \<Longrightarrow> live_price s q \<Longrightarrow>
      bestSlot s \<noteq> INVALID_INDEX \<and> \<not> better (bid s) q (slotToPrice s (bestSlot s))"
proof -
  have best: "unat (bestSlot s) < length (ladder s)" "in_window s (unat (bestSlot s))"
    "populated s (unat (bestSlot s))" if "bestSlot s \<noteq> INVALID_INDEX"
    using sh that by (auto simp: side_shape_def best_ok_def)
  show "live_price s (slotToPrice s (bestSlot s)) \<and>
      denotes s (InLadder (bestSlot s)) (slotToPrice s (bestSlot s))" if b: "bestSlot s \<noteq> INVALID_INDEX"
    using b best [OF b] populated_level_of [OF sh best(1,2) [OF b]]
    by (simp add: live_price_def populated_def)
  assume slot: "priceToSlot s q \<noteq> INVALID_INDEX" and "live_price s q"
  then have "populated s (unat (priceToSlot s q))" using live_price_cases [OF sh, of q] by simp
  then have b: "bestSlot s \<noteq> INVALID_INDEX"
    and cmp: "if bid s then unat (priceToSlot s q) \<le> unat (bestSlot s)
      else unat (bestSlot s) \<le> unat (priceToSlot s q)"
    using sh slot_in_ladder(1) [OF sh slot] by (auto simp: side_shape_def best_ok_def)
  have "unat (slotToPrice s (bestSlot s)) = unat (base s) + 100 * unat (bestSlot s)"
    using best(2) [OF b] by (intro unat_slotToPrice) (simp add: in_window_def)
  moreover have "unat q = unat (base s) + 100 * unat (priceToSlot s q)"
    by (rule slot_in_ladder(3) [OF sh slot])
  ultimately show "bestSlot s \<noteq> INVALID_INDEX \<and> \<not> better (bid s) q (slotToPrice s (bestSlot s))"
    using b cmp by (auto simp: better_def word_less_nat_alt split: if_splits)
qed

text \<open>The price at the edge of the overflow vector is live and best among its prices.\<close>

lemma overflow_edge_price:
  assumes sh: "side_shape {} s" and ne: "overflow s \<noteq> []"
  defines "k \<equiv> if bid s then length (overflow s) - 1 else 0"
  shows "live_price s (fst (overflow s ! k))" and "denotes s (InOverflow k) (fst (overflow s ! k))"
    and "q \<in> fst ` set (overflow s) \<Longrightarrow> \<not> better (bid s) q (fst (overflow s ! k))"
proof -
  have k: "k < length (overflow s)" using ne by (auto simp: k_def)
  then have mem: "overflow s ! k \<in> set (overflow s)" by simp
  then have inv: "priceToSlot s (fst (overflow s ! k)) = INVALID_INDEX"
    using sh by (auto simp: side_shape_def overflow_ok_def)
  with k show "denotes s (InOverflow k) (fst (overflow s ! k))" by simp
  show "live_price s (fst (overflow s ! k))" using live_price_cases [OF sh] inv mem by auto
  assume "q \<in> fst ` set (overflow s)"
  then obtain j where j: "j < length (overflow s)" "q = fst (overflow s ! j)"
    by (auto simp: in_set_conv_nth)
  have "sorted_wrt (<) (map fst (overflow s))" using sh by (simp add: side_shape_def overflow_ok_def)
  then have lt: "a < b \<Longrightarrow> b < length (overflow s) \<Longrightarrow> fst (overflow s ! a) < fst (overflow s ! b)" for a b
    by (simp add: sorted_wrt_iff_nth_less)
  consider "j = k" | "bid s" "j < k" | "\<not> bid s" "k < j"
    using j(1) by (fastforce simp: k_def split: if_splits)
  then show "\<not> better (bid s) q (fst (overflow s ! k))"
    using lt [of j k] lt [of k j] j k by cases (auto simp: better_def)
qed

lemma bestLevel_best:
  assumes sh: "side_shape {} s"
  shows "case bestLevel s of None \<Rightarrow> \<forall>q. \<not> live_price s q
    | Some (lp, p) \<Rightarrow> live_price s p \<and> denotes s lp p \<and> (\<forall>q. live_price s q \<longrightarrow> \<not> better (bid s) q p)"
proof -
  let ?b = "slotToPrice s (bestSlot s)"
  let ?k = "if bid s then length (overflow s) - 1 else 0"
  let ?e = "fst (overflow s ! ?k)"
  have lad: "bestSlot s \<noteq> INVALID_INDEX" "\<not> better (bid s) q ?b"
    if "live_price s q" "priceToSlot s q \<noteq> INVALID_INDEX" for q
    using best_slot_price(2) [OF sh that(2,1)] by auto
  have ovf: "overflow s \<noteq> []" "\<not> better (bid s) q ?e"
    if "live_price s q" "priceToSlot s q = INVALID_INDEX" for q
  proof -
    have mem: "q \<in> fst ` set (overflow s)" using live_price_cases [OF sh, of q] that by simp
    then show ne: "overflow s \<noteq> []" by auto
    show "\<not> better (bid s) q ?e" by (rule overflow_edge_price(3) [OF sh ne mem])
  qed
  have tr: "\<not> better (bid s) q r" if "\<not> better (bid s) q p" "\<not> better (bid s) p r" for q p r
    using that by (auto simp: better_def split: if_splits)
  note bp = best_slot_price(1) [OF sh] and ep = overflow_edge_price(1,2) [OF sh]
  consider (none) "bestSlot s = INVALID_INDEX" "overflow s = []"
    | (window) "bestSlot s \<noteq> INVALID_INDEX" "overflow s = []"
    | (vector) "bestSlot s = INVALID_INDEX" "overflow s \<noteq> []"
    | (both) "bestSlot s \<noteq> INVALID_INDEX" "overflow s \<noteq> []" by blast
  then show ?thesis
  proof cases
    case none
    then show ?thesis using lad ovf by (auto simp: bestLevel_def)
  next
    case window
    then have "bestLevel s = Some (InLadder (bestSlot s), ?b)" by (simp add: bestLevel_def)
    then show ?thesis using bp window lad(2) ovf(1) by auto
  next
    case vector
    then have "bestLevel s = Some (InOverflow ?k, ?e)" by (simp add: bestLevel_def Let_def)
    moreover have "\<not> better (bid s) q ?e" if "live_price s q" for q
      using that ovf(2) lad(1) vector by blast
    ultimately show ?thesis using ep vector by auto
  next
    case both
    then have run: "bestLevel s = (if \<not> better (bid s) ?e ?b then Some (InLadder (bestSlot s), ?b)
        else Some (InOverflow ?k, ?e))"
      by (auto simp: bestLevel_def Let_def better_def not_less)
    show ?thesis
    proof (cases "better (bid s) ?e ?b")
      case True
      then have "\<not> better (bid s) q ?e" if "live_price s q" for q
        using that lad(2) ovf(2) tr prio.asym by blast
      with True run ep both show ?thesis by auto
    next
      case False
      then have "\<not> better (bid s) q ?b" if "live_price s q" for q
        using that lad(2) ovf(2) tr by blast
      with False run bp both show ?thesis by auto
    qed
  qed
qed

lemma queue_at_empty: "queue_at qs p = [] \<longleftrightarrow> p \<notin> eprice ` set qs"
  by (force simp: queue_at_def filter_empty_conv)

lemma bestLevel_spec:
  assumes "side_rel {} ns s qs"
  shows "case qs of [] \<Rightarrow> bestLevel s = None
    | e # es \<Rightarrow> \<exists>lp. bestLevel s = Some (lp, eprice e) \<and> denotes s lp (eprice e)"
proof -
  have sh: "side_shape {} s" and pr: "prioritised (better (bid s)) eprice qs"
    using assms by (auto simp: side_rel_def entries_ok_def)
  have live: "live_price s p \<longleftrightarrow> p \<in> eprice ` set qs" for p
    using assms level_ok_empty queue_at_empty unfolding side_rel_def live_price_def by blast
  note best = bestLevel_best [OF sh]
  show ?thesis
  proof (cases qs)
    case Nil
    with best live show ?thesis by (auto split: option.splits)
  next
    case (Cons e es)
    then obtain lp p where run: "bestLevel s = Some (lp, p)"
      using best live [of "eprice e"] by (auto split: option.splits)
    with best have p: "live_price s p" "denotes s lp p" "\<And>q. live_price s q \<Longrightarrow> \<not> better (bid s) q p"
      by auto
    then obtain y where y: "y \<in> set qs" "p = eprice y" using live by auto
    have "eprice e = eprice y"
      by (rule prio.head_is_best [of "bid s"]) (use pr y p(3) live Cons in auto)
    with run p y Cons show ?thesis by auto
  qed
qed

section \<open>Frame\<close>

lemma queue_at_subset: "set (queue_at qs p) \<subseteq> fst ` set qs"
  by (auto simp: queue_at_def)

text \<open>A side does not depend on nodes it does not hold, nor on the growth of the arena.\<close>

lemma side_rel_frame:
  assumes rel: "side_rel X ns s qs" and "length ns \<le> length ns'"
    and same: "\<And>x. x \<in> fst ` set qs \<Longrightarrow> ns' ! unat x = ns ! unat x"
  shows "side_rel X ns' s qs"
proof -
  have seg: "dseg ns' p xs q" if "dseg ns p xs q" "set xs \<subseteq> fst ` set qs" for p q xs
    using that assms(2) same by (induction xs arbitrary: p) auto
  have "level_ok ns' (level_of s p) (queue_at qs p)" for p
    using rel seg [OF _ queue_at_subset] by (auto simp: side_rel_def level_ok_def)
  moreover have "entries_ok (bid s) ns' qs"
    using rel assms(2) same by (fastforce simp: side_rel_def entries_ok_def)
  ultimately show ?thesis using rel by (simp add: side_rel_def)
qed

lemma entries_ok_relinks:
  assumes "entries_ok b (nodes pool) qs" and "relinks pool pool' S"
  shows "entries_ok b (nodes pool') qs"
  using assms by (auto simp: entries_ok_def relinks_def)

end
