(* ===== verification/Ladder_Operations.thy ===== *)
theory Ladder_Operations
  imports Ladder_Refinement
begin

text \<open>
  \<open>add\<close> and \<open>remove\<close> of \<^verbatim>\<open>include/ladder_side.hpp\<close> on the list of resting entries: \<open>add\<close>
  puts an entry behind every entry at least as good, \<open>remove\<close> takes one entry out; both keep
  the shape of the side and touch the links of its own nodes only.
\<close>

section \<open>Adding an entry\<close>

lemma queue_at_rest_in:
  assumes "prioritised (better b) eprice qs"
  shows "queue_at (rest_in (better b) eprice (x, ord) qs) p
    = queue_at qs p @ (if price ord = p then [x] else [])"
  using prio.rest_in_fifo [OF assms, of p "(x, ord)"] by (simp add: queue_at_def)

lemma distinct_rest_in:
  "distinct (map fst (rest_in bt eprice e qs)) \<longleftrightarrow> distinct (map fst (e # qs))"
  by (induction qs) auto

lemma entries_ok_rest_in:
  assumes "entries_ok b ns qs" and "x \<notin> fst ` set qs"
    and "unat x < length ns" "x \<noteq> INVALID_INDEX" "norder (ns ! unat x) = ord" "0 < shares ord"
      "buySellIndicator ord = side_char b"
  shows "entries_ok b ns (rest_in (better b) eprice (x, ord) qs)"
  using assms by (auto simp: entries_ok_def distinct_rest_in prio.rest_in_prioritised)

text \<open>
  Linking an order at the tail of its level through a level pointer: every level then holds
  the queue of the extended list.
\<close>

lemma link_level:
  assumes sh: "side_shape X s" and lv: "\<And>q. level_ok (nodes pool) (level_of s q) (queue_at qs q)"
    and ent: "entries_ok (bid s) (nodes pool) qs" and lp: "denotes s lp (price ord)"
    and x: "x \<in> slots pool" "x \<noteq> INVALID_INDEX" "x \<notin> fst ` set qs" "norder (nodes pool ! unat x) = ord"
      "0 < shares ord" "buySellIndicator ord = side_char (bid s)"
  obtains pool' lvl' s' where
    "level_at s lp = Some (level_of s (price ord))"
    "linkAtTail pool (level_of s (price ord)) x = Some (pool', lvl')" "lhead lvl' \<noteq> INVALID_INDEX"
    "level_put s lp lvl' = Some s'" "bid s' = bid s" "anchored s' = anchored s" "base s' = base s"
    "bestSlot s' = bestSlot s" "level_of s' = (level_of s)(price ord := lvl')"
    "\<And>q. level_ok (nodes pool') (level_of s' q)
       (queue_at (rest_in (better (bid s)) eprice (x, ord) qs) q)"
    "entries_ok (bid s) (nodes pool') (rest_in (better (bid s)) eprice (x, ord) qs)"
    "relinks pool pool' (insert x (fst ` set qs))"
proof -
  let ?p = "price ord" and ?qs = "rest_in (better (bid s)) eprice (x, ord) qs"
  have xq: "x \<notin> set (queue_at qs q)" for q using x(3) queue_at_subset by blast
  obtain pool' lvl' where lk: "linkAtTail pool (level_of s ?p) x = Some (pool', lvl')"
    "level_ok (nodes pool') lvl' (queue_at qs ?p @ [x])" "relinks pool pool' (insert x (set (queue_at qs ?p)))"
    using linkAtTail_spec [OF lv x(1,2) xq] by blast
  obtain s' where s': "level_put s lp lvl' = Some s'" "level_of s' = (level_of s)(?p := lvl')"
    "bid s' = bid s" "anchored s' = anchored s" "base s' = base s" "bestSlot s' = bestSlot s"
    using level_put_frame [OF sh lp] by metis
  have pr: "prioritised (better (bid s)) eprice qs" using ent by (simp add: entries_ok_def)
  have ent': "entries_ok (bid s) (nodes pool') ?qs"
    using entries_ok_rest_in [OF entries_ok_relinks [OF ent lk(3)] x(3)] x lk(3)
    by (simp add: relinks_def slots_def)
  have "level_ok (nodes pool') (level_of s' q) (queue_at ?qs q)" for q
  proof (cases "q = ?p")
    case True
    with lk(2) show ?thesis by (simp add: s' queue_at_rest_in [OF pr])
  next
    case False
    have "distinct (map fst qs)" using ent by (simp add: entries_ok_def)
    then have "set (queue_at qs ?p) \<inter> set (queue_at qs q) = {}"
      using False by (auto simp: queue_at_def distinct_map inj_on_def)
    with xq have "insert x (set (queue_at qs ?p)) \<inter> set (queue_at qs q) = {}" by auto
    with level_ok_relinks [OF lk(3)] lv False show ?thesis by (simp add: s' queue_at_rest_in [OF pr])
  qed
  moreover have "lhead lvl' \<noteq> INVALID_INDEX" using level_ok_empty [OF lk(2)] by simp
  moreover have "relinks pool pool' (insert x (fst ` set qs))"
    using lk(3) queue_at_subset by (blast intro: relinks_mono)
  ultimately show ?thesis using s' lk ent' level_at_denotes [OF sh lp] by (intro that)
qed

lemma anchor_fields [simp]:
  "bid (anchor s p) = bid s" "overflow (anchor s p) = overflow s" "bestSlot (anchor s p) = bestSlot s"
  "anchored (anchor s p)" "ladder (anchor s p) = replicate 2048 Level_new"
  by (simp_all add: anchor_def Let_def WINDOW_def)

lemma side_rel_anchor:
  assumes rel: "side_rel {} ns s qs" and "\<not> anchored s"
  shows "side_rel {} ns (anchor s p) qs" and "qs = []"
proof -
  have ov: "overflow s = []" and best: "bestSlot s = INVALID_INDEX" and ent: "entries_ok (bid s) ns qs"
    using assms by (auto simp: side_rel_def side_shape_def best_ok_def)
  have "priceToSlot s q = INVALID_INDEX" for q using assms(2) by (simp add: priceToSlot_def)
  then have "level_of s q = Level_new" for q using ov by (simp add: level_of_def)
  then have "queue_at qs q = []" for q
    using rel level_ok_empty [of ns "level_of s q" "queue_at qs q"]
    by (simp add: side_rel_def Level_new_def)
  then show qs: "qs = []" by (cases qs) (auto simp: queue_at_empty)
  have "level_of (anchor s p) q = Level_new" for q
    using priceToSlotD [of "anchor s p" q] ov by (auto simp: level_of_def)
  moreover have "side_shape {} (anchor s p)"
    using ov best by (auto simp: side_shape_def overflow_ok_def best_ok_def populated_def Level_new_def)
  ultimately show "side_rel {} ns (anchor s p) qs"
    using ent by (simp add: side_rel_def qs queue_at_def)
qed

text \<open>The cached best slot after a populated slot was added.\<close>

lemma side_shape_add_slot:
  assumes sh: "side_shape {} s" and slot: "priceToSlot s p \<noteq> INVALID_INDEX"
    and put: "level_put s (InLadder (priceToSlot s p)) l = Some s'" and l: "lhead l \<noteq> INVALID_INDEX"
  shows "side_shape {} (if bestSlot s' = INVALID_INDEX \<or>
      (if bid s' then priceToSlot s p > bestSlot s' else priceToSlot s p < bestSlot s')
    then s'\<lparr>bestSlot := priceToSlot s p\<rparr> else s')" (is "side_shape {} ?s")
proof -
  let ?i = "priceToSlot s p"
  note D = slot_in_ladder [OF sh slot]
  have s': "s' = s\<lparr>ladder := (ladder s)[unat ?i := l]\<rparr>" using put D(1) by (simp add: vec_simps)
  have f: "bid ?s = bid s" "base ?s = base s" "anchored ?s = anchored s" "overflow ?s = overflow s"
    "ladder ?s = (ladder s)[unat ?i := l]" "priceToSlot ?s = priceToSlot s"
    by (simp_all add: s')
  have best: "bestSlot ?s = (if bestSlot s = INVALID_INDEX \<or>
      (if bid s then ?i > bestSlot s else ?i < bestSlot s) then ?i else bestSlot s)"
    by (simp add: s')
  have pop: "populated ?s j \<longleftrightarrow> j = unat ?i \<or> populated s j" if "j < length (ladder s)" for j
    using that l D(1) by (auto simp: populated_def f nth_list_update)
  have win: "in_window ?s = in_window s" by (simp add: fun_eq_iff in_window_def f)
  have "overflow_ok {} ?s" using sh unfolding side_shape_def overflow_ok_def f by simp
  moreover have "best_ok {} ?s"
  proof -
    have old: "bestSlot s \<noteq> INVALID_INDEX \<and> (if bid s then j \<le> unat (bestSlot s) else unat (bestSlot s) \<le> j)"
      if "j < length (ladder s)" "populated s j" for j
      using sh that by (simp add: side_shape_def best_ok_def)
    have ob: "bestSlot s \<noteq> INVALID_INDEX \<Longrightarrow> unat (bestSlot s) < length (ladder s) \<and>
        in_window s (unat (bestSlot s)) \<and> populated s (unat (bestSlot s))"
      using sh by (simp add: side_shape_def best_ok_def)
    have len: "length (ladder ?s) = length (ladder s)" by (simp add: f)
    show ?thesis unfolding best_ok_def win f(1) len
    proof (intro conjI allI impI)
      fix j assume j: "j < length (ladder s)" "populated ?s j"
      show "bestSlot ?s \<noteq> INVALID_INDEX" using slot unfolding best by simp
      show "if bid s then j \<le> unat (bestSlot ?s) else unat (bestSlot ?s) \<le> j"
        using pop [OF j(1)] j old [OF j(1)] unfolding best
        by (auto simp: word_less_nat_alt split: if_splits)
    next
      assume "bestSlot ?s \<noteq> INVALID_INDEX"
      show "unat (bestSlot ?s) < length (ladder s)" "in_window s (unat (bestSlot ?s))"
        using ob D unfolding best by auto
      then show "populated ?s (unat (bestSlot ?s)) \<or> slotToPrice ?s (bestSlot ?s) \<in> {}"
        using ob pop unfolding best by (auto split: if_splits)
    qed
  qed
  ultimately show ?thesis
    using sh pop D by (auto simp: side_shape_def win f)
qed

lemma level_of_bestSlot [simp]: "level_of (s\<lparr>bestSlot := b\<rparr>) = level_of s"
  by (simp add: fun_eq_iff level_of_def)

text \<open>Opening an entry of the overflow vector for a price that has none.\<close>

lemma overflow_insert:
  assumes sh: "side_shape {} s" and anc: "anchored s" and slot: "priceToSlot s p = INVALID_INDEX"
    and new: "p \<notin> fst ` set (overflow s)"
  defines "k \<equiv> overflowLowerBound s p"
  defines "s' \<equiv> s\<lparr>overflow := take k (overflow s) @ (p, Level_new) # drop k (overflow s)\<rparr>"
  shows "side_shape {p} s'" "level_of s' = level_of s" "denotes s' (InOverflow k) p"
proof -
  let ?ov = "overflow s"
  have k: "k = lower_bound ?ov p" by (simp add: k_def overflowLowerBound_def lower_bound_def)
  then have le: "k \<le> length ?ov" by (simp add: lower_bound_le)
  have srt: "sorted_wrt (<) (map fst ?ov)" using sh by (simp add: side_shape_def overflow_ok_def)
  have mo: "map_of (overflow s') = (map_of ?ov)(p \<mapsto> Level_new)"
    using map_of_insert_at [OF new] by (simp add: s'_def)
  have slots: "priceToSlot s' = priceToSlot s" by (simp add: s'_def)
  have none: "map_of ?ov p = None" using new by (simp add: map_of_eq_None_iff)
  show "level_of s' = level_of s"
  proof
    fix q
    show "level_of s' q = level_of s q"
      using none slot unfolding level_of_def slots mo by (cases "q = p") (simp_all add: s'_def)
  qed
  show "denotes s' (InOverflow k) p" using le slot by (simp add: s'_def nth_append)
  have "set (take k ?ov @ (p, Level_new) # drop k ?ov) = insert (p, Level_new) (set ?ov)"
    by (metis append_take_drop_id list.set(2) set_append Un_insert_right)
  then have ins: "set (overflow s') = insert (p, Level_new) (set ?ov)" by (simp add: s'_def)
  have "sorted_wrt (<) (map fst (overflow s'))"
    using sorted_insert_at [OF srt new] by (simp add: s'_def k)
  then have ov: "overflow_ok {p} s'"
    using sh slot unfolding overflow_ok_def slots ins
    by (auto simp: side_shape_def overflow_ok_def)
  have "best_ok {} s" and len: "length (ladder s) = 2048"
    and win: "\<forall>i < length (ladder s). populated s i \<longrightarrow> in_window s i"
    using sh anc by (auto simp: side_shape_def)
  then have "best_ok {p} s'"
    by (rule_tac best_ok_transfer) (auto simp: s'_def populated_def)
  with ov anc len win show "side_shape {p} s'"
    by (simp add: side_shape_def s'_def populated_def in_window_def)
qed

lemma overflow_fill:
  assumes sh: "side_shape {p} s" and lp: "denotes s (InOverflow k) p"
    and put: "level_put s (InOverflow k) l = Some s'" and l: "lhead l \<noteq> INVALID_INDEX"
  shows "side_shape {} s'"
proof -
  have k: "k < length (overflow s)" "fst (overflow s ! k) = p" "priceToSlot s p = INVALID_INDEX"
    using lp by auto
  have s': "s' = s\<lparr>overflow := (overflow s)[k := (p, l)]\<rparr>" using put k by auto
  have srt: "sorted_wrt (<) (map fst (overflow s))" using sh by (simp add: side_shape_def overflow_ok_def)
  have keys: "map fst (overflow s') = map fst (overflow s)"
    using k by (simp add: s' map_update list_update_same_conv)
  have mo: "map_of (overflow s') = (map_of (overflow s))(p \<mapsto> l)"
    using map_of_update [OF sorted_wrt_less_distinct [OF srt] k(1,2)] by (simp add: s')
  have mem: "(q = p \<and> m = l) \<or> (q \<noteq> p \<and> (q, m) \<in> set (overflow s))" if "(q, m) \<in> set (overflow s')" for q m
  proof -
    have "map_of (overflow s') q = Some m"
      using that srt keys by (intro map_of_is_SomeI sorted_wrt_less_distinct) simp_all
    then show ?thesis unfolding mo by (auto split: if_splits dest: map_of_SomeD)
  qed
  have "slotToPrice s (bestSlot s) \<noteq> p" if "bestSlot s \<noteq> INVALID_INDEX"
    using sh that k(3) populated_level_of(2) [OF sh, of "bestSlot s"]
    by (auto simp: side_shape_def best_ok_def)
  moreover have "overflow_ok {} s'"
    using srt mem l k(3) sh unfolding overflow_ok_def keys
    by (force simp: s' side_shape_def overflow_ok_def)
  ultimately show ?thesis
    by (intro side_shape_transfer [OF sh]) (use k in \<open>auto simp: s' populated_def\<close>)
qed

text \<open>Linking through a level pointer, and the side it leaves, as one fact.\<close>

definition add_post :: "OrderPool \<Rightarrow> LadderSide \<Rightarrow> entry list \<Rightarrow> u32 \<Rightarrow> Order \<Rightarrow> OrderPool \<Rightarrow> LadderSide \<Rightarrow> bool" where
  "add_post pool s qs x ord pool' s' \<longleftrightarrow>
     side_rel {} (nodes pool') s' (rest_in (better (bid s)) eprice (x, ord) qs) \<and>
     bid s' = bid s \<and> relinks pool pool' (insert x (fst ` set qs))"

lemma side_add_anchored:
  assumes rel: "side_rel {} (nodes pool) s qs" and anc: "anchored s"
    and x: "x \<in> slots pool" "x \<noteq> INVALID_INDEX" "x \<notin> fst ` set qs" "norder (nodes pool ! unat x) = ord"
      "0 < shares ord" "buySellIndicator ord = side_char (bid s)"
  shows "\<exists>pool' s'. side_add pool s (price ord) x = Some (pool', s') \<and> add_post pool s qs x ord pool' s'"
proof -
  let ?p = "price ord"
  have sh: "side_shape {} s" and ent: "entries_ok (bid s) (nodes pool) qs"
    and lv: "\<And>q. level_ok (nodes pool) (level_of s q) (queue_at qs q)"
    using rel by (auto simp: side_rel_def)
  consider (slot) "priceToSlot s ?p \<noteq> INVALID_INDEX"
    | (old) "priceToSlot s ?p = INVALID_INDEX" "?p \<in> fst ` set (overflow s)"
    | (new) "priceToSlot s ?p = INVALID_INDEX" "?p \<notin> fst ` set (overflow s)" by blast
  then show ?thesis
  proof cases
    case slot
    then have lp: "denotes s (InLadder (priceToSlot s ?p)) ?p" by simp
    show ?thesis
    proof (rule link_level [OF sh lv ent lp x])
      fix pool' lvl' s'
      assume run: "level_at s (InLadder (priceToSlot s ?p)) = Some (level_of s ?p)"
          "linkAtTail pool (level_of s ?p) x = Some (pool', lvl')"
          "level_put s (InLadder (priceToSlot s ?p)) lvl' = Some s'"
        and ne: "lhead lvl' \<noteq> INVALID_INDEX" and b: "bid s' = bid s"
        and lv': "\<And>q. level_ok (nodes pool') (level_of s' q)
           (queue_at (rest_in (better (bid s)) eprice (x, ord) qs) q)"
        and ent': "entries_ok (bid s) (nodes pool') (rest_in (better (bid s)) eprice (x, ord) qs)"
        and rl: "relinks pool pool' (insert x (fst ` set qs))"
      let ?s = "if bestSlot s' = INVALID_INDEX \<or>
          (if bid s' then priceToSlot s ?p > bestSlot s' else priceToSlot s ?p < bestSlot s')
        then s'\<lparr>bestSlot := priceToSlot s ?p\<rparr> else s'"
      have sh': "side_shape {} ?s" by (rule side_shape_add_slot [OF sh slot run(3) ne])
      have f: "bid ?s = bid s" "level_of ?s = level_of s'" using b by simp_all
      have "side_add pool s ?p x = Some (pool', ?s)"
        using run slot anc by (simp add: side_add_def Let_def del: level_at.simps level_put.simps)
      moreover have "add_post pool s qs x ord pool' ?s"
        unfolding add_post_def side_rel_def f using sh' lv' ent' rl by blast
      ultimately show ?thesis by blast
    qed
  next
    case old
    let ?k = "overflowLowerBound s ?p"
    note idx = overflow_index [OF sh, of ?p]
    have lp: "denotes s (InOverflow ?k) ?p" using old idx by simp
    have live: "lhead (level_of s ?p) \<noteq> INVALID_INDEX"
      using live_price_cases [OF sh, of ?p] old by (simp add: live_price_def)
    show ?thesis
    proof (rule link_level [OF sh lv ent lp x])
      fix pool' lvl' s'
      assume run: "level_at s (InOverflow ?k) = Some (level_of s ?p)"
          "linkAtTail pool (level_of s ?p) x = Some (pool', lvl')"
          "level_put s (InOverflow ?k) lvl' = Some s'"
        and ne: "lhead lvl' \<noteq> INVALID_INDEX" and b: "bid s' = bid s"
        and lv': "\<And>q. level_ok (nodes pool') (level_of s' q)
           (queue_at (rest_in (better (bid s)) eprice (x, ord) qs) q)"
        and ent': "entries_ok (bid s) (nodes pool') (rest_in (better (bid s)) eprice (x, ord) qs)"
        and rl: "relinks pool pool' (insert x (fst ` set qs))"
      have sh': "side_shape {} s'" using level_put_shape [OF sh lp live run(3)] ne by simp
      have "side_add pool s ?p x = Some (pool', s')"
        using run old anc idx by (simp add: side_add_def Let_def del: level_at.simps level_put.simps)
      then show ?thesis using sh' b lv' ent' rl by (simp add: add_post_def side_rel_def)
    qed
  next
    case new
    let ?k = "overflowLowerBound s ?p"
    let ?s = "s\<lparr>overflow := take ?k (overflow s) @ (?p, Level_new) # drop ?k (overflow s)\<rparr>"
    note ins = overflow_insert [OF sh anc new]
    have lv1: "level_ok (nodes pool) (level_of ?s q) (queue_at qs q)" for q
      unfolding ins(2) by (rule lv)
    have miss: "?k = length (overflow s) \<or> fst (overflow s ! ?k) \<noteq> ?p"
      using overflow_index(1) [OF sh, of ?p] new(2) by blast
    have ent1: "entries_ok (bid ?s) (nodes pool) qs" and x1: "buySellIndicator ord = side_char (bid ?s)"
      using ent x(6) by simp_all
    show ?thesis
    proof (rule link_level [OF ins(1) lv1 ent1 ins(3) x(1-5) x1])
      fix pool' lvl' s'
      assume run: "level_at ?s (InOverflow ?k) = Some (level_of ?s ?p)"
          "linkAtTail pool (level_of ?s ?p) x = Some (pool', lvl')"
          "level_put ?s (InOverflow ?k) lvl' = Some s'"
        and ne: "lhead lvl' \<noteq> INVALID_INDEX" and b: "bid s' = bid ?s"
        and lv': "\<And>q. level_ok (nodes pool') (level_of s' q)
           (queue_at (rest_in (better (bid ?s)) eprice (x, ord) qs) q)"
        and ent': "entries_ok (bid ?s) (nodes pool') (rest_in (better (bid ?s)) eprice (x, ord) qs)"
        and rl: "relinks pool pool' (insert x (fst ` set qs))"
      have sh': "side_shape {} s'" by (rule overflow_fill [OF ins(1,3) run(3) ne])
      have "side_add pool s ?p x = Some (pool', s')"
        using run new(1) anc miss unfolding side_add_def Let_def by (simp del: level_at.simps level_put.simps)
      then show ?thesis using sh' b lv' ent' rl by (simp add: add_post_def side_rel_def)
    qed
  qed
qed

lemma side_add_spec:
  assumes rel: "side_rel {} (nodes pool) s qs"
    and x: "x \<in> slots pool" "x \<noteq> INVALID_INDEX" "x \<notin> fst ` set qs" "norder (nodes pool ! unat x) = ord"
      "0 < shares ord" "buySellIndicator ord = side_char (bid s)"
  obtains pool' s' where "side_add pool s (price ord) x = Some (pool', s')"
    "side_rel {} (nodes pool') s' (rest_in (better (bid s)) eprice (x, ord) qs)"
    "bid s' = bid s" "relinks pool pool' (insert x (fst ` set qs))"
proof -
  let ?s = "if anchored s then s else anchor s (price ord)"
  have "side_rel {} (nodes pool) ?s qs" "anchored ?s" "bid ?s = bid s"
    using rel side_rel_anchor(1) [OF rel] by simp_all
  moreover have "side_add pool ?s (price ord) x = side_add pool s (price ord) x"
    by (simp add: side_add_def)
  ultimately obtain pool' s' where "side_add pool s (price ord) x = Some (pool', s')"
    and "add_post pool ?s qs x ord pool' s'"
    using side_add_anchored [of pool ?s qs x ord] x by auto
  then show ?thesis using that \<open>bid ?s = bid s\<close> unfolding add_post_def by simp
qed

section \<open>Removing an entry\<close>

definition drop_entry :: "u32 \<Rightarrow> entry list \<Rightarrow> entry list" where
  "drop_entry x qs = filter (\<lambda>e. fst e \<noteq> x) qs"

lemma set_drop_entry [simp]: "set (drop_entry x qs) = {e \<in> set qs. fst e \<noteq> x}"
  by (auto simp: drop_entry_def)

lemma fst_drop_entry: "fst ` set (drop_entry x qs) = fst ` set qs - {x}"
  by auto

lemma queue_at_drop: "queue_at (drop_entry x qs) p = filter (\<lambda>y. y \<noteq> x) (queue_at qs p)"
  by (simp add: queue_at_def drop_entry_def filter_map o_def conj_commute)

lemma entries_ok_drop: "entries_ok b ns qs \<Longrightarrow> entries_ok b ns (drop_entry x qs)"
  by (auto simp: entries_ok_def drop_entry_def distinct_map_filter prioritised_filter)

lemma filter_split_at: "x \<notin> set ys \<Longrightarrow> x \<notin> set zs \<Longrightarrow> filter (\<lambda>y. y \<noteq> x) (ys @ x # zs) = ys @ zs"
proof -
  assume "x \<notin> set ys" "x \<notin> set zs"
  then have "filter (\<lambda>y. y \<noteq> x) ys = ys" "filter (\<lambda>y. y \<noteq> x) zs = zs"
    by (auto simp: filter_id_conv)
  then show ?thesis by simp
qed

text \<open>
  Unlinking an entry from its level: every level then holds the queue of the shorter list, and
  the level of its price may be drained.
\<close>

lemma unlink_level:
  assumes sh: "side_shape {} s" and lv: "\<And>q. level_ok (nodes pool) (level_of s q) (queue_at qs q)"
    and dst: "distinct (map fst qs)" and lp: "denotes s lp (price ord)" and x: "(x, ord) \<in> set qs"
  obtains pool' lvl' s' where
    "level_at s lp = Some (level_of s (price ord))"
    "unlink pool (level_of s (price ord)) x = Some (pool', lvl')"
    "level_put s lp lvl' = Some s'" "bid s' = bid s" "level_of s' = (level_of s)(price ord := lvl')"
    "anchored s' = anchored s" "base s' = base s"
    "side_shape (if lhead lvl' = INVALID_INDEX then {price ord} else {}) s'" "denotes s' lp (price ord)"
    "\<And>q. level_ok (nodes pool') (level_of s' q) (queue_at (drop_entry x qs) q)"
    "relinks pool pool' (fst ` set qs - {x})"
proof -
  let ?p = "price ord"
  have "x \<in> set (queue_at qs ?p)" using x by (force simp: queue_at_def)
  then obtain ys zs where q: "queue_at qs ?p = ys @ x # zs" by (meson split_list)
  have dq: "distinct (ys @ x # zs)" using lv [of ?p] unfolding q by (simp add: level_ok_def)
  have "level_ok (nodes pool) (level_of s ?p) (ys @ x # zs)" using lv [of ?p] unfolding q .
  then obtain pool' lvl' where un: "unlink pool (level_of s ?p) x = Some (pool', lvl')"
    "level_ok (nodes pool') lvl' (ys @ zs)" "relinks pool pool' (set ys \<union> set zs)"
    by (rule unlink_spec)
  obtain s' where s': "level_put s lp lvl' = Some s'" "level_of s' = (level_of s)(?p := lvl')"
    "denotes s' lp ?p" "bid s' = bid s" "anchored s' = anchored s" "base s' = base s"
    using level_put_frame [OF sh lp] by metis
  have "lhead (level_of s ?p) \<noteq> INVALID_INDEX" using level_ok_empty [OF lv [of ?p]] q by simp
  note sh' = level_put_shape [OF sh lp this s'(1)]
  have "level_ok (nodes pool') (level_of s' q) (queue_at (drop_entry x qs) q)" for q
  proof (cases "q = ?p")
    case True
    have "queue_at (drop_entry x qs) ?p = ys @ zs"
      using dq filter_split_at [of x ys zs] unfolding queue_at_drop q by auto
    with True un(2) show ?thesis by (simp add: s')
  next
    case False
    then have "set (queue_at qs ?p) \<inter> set (queue_at qs q) = {}"
      using dst by (auto simp: queue_at_def distinct_map inj_on_def)
    then have disj: "(set ys \<union> set zs) \<inter> set (queue_at qs q) = {}" "x \<notin> set (queue_at qs q)"
      unfolding q by auto
    then have "queue_at (drop_entry x qs) q = queue_at qs q"
      unfolding queue_at_drop by (auto simp: filter_id_conv)
    with level_ok_relinks [OF un(3) disj(1)] lv False show ?thesis by (simp add: s')
  qed
  moreover have "relinks pool pool' (fst ` set qs - {x})"
    using dq queue_at_subset [of qs ?p] unfolding q by (intro relinks_mono [OF un(3)]) auto
  moreover have "side_shape (if lhead lvl' = INVALID_INDEX then {?p} else {}) s'"
    using sh' by (simp split: if_splits)
  ultimately show ?thesis using s' un level_at_denotes [OF sh lp] by (intro that)
qed

lemma overflowLowerBound_at:
  assumes "side_shape X s" and "denotes s (InOverflow k) p"
  shows "overflowLowerBound s p = k"
proof -
  have "distinct (map fst (overflow s))"
    using assms(1) by (auto simp: side_shape_def overflow_ok_def dest: sorted_wrt_less_distinct)
  moreover have "overflowLowerBound s p < length (overflow s)" "fst (overflow s ! overflowLowerBound s p) = p"
    using overflow_index [OF assms(1), of p] assms(2) nth_mem [of k "overflow s"] by auto
  ultimately show ?thesis
    using assms(2) by (auto simp: distinct_conv_nth)
qed

text \<open>
  The clean-up \<open>remove\<close> does after unlinking is the one \<open>removeEmptyBest\<close> does after a drain.
\<close>

lemma side_remove_cleanup:
  assumes sh: "side_shape {} s" and lp: "denotes s lp p" and at: "level_at s lp = Some l"
    and un: "unlink pool l x = Some (pool', l')" and put: "level_put s lp l' = Some s'"
    and sh': "side_shape Y s'" and lp': "denotes s' lp p"
    and a: "anchored s' = anchored s" "base s' = base s"
  shows "side_remove pool s p x =
    map_option (Pair pool') (if lhead l' = INVALID_INDEX then removeEmptyBest s' p else Some s')"
proof (cases lp)
  case (InLadder i)
  then have i: "priceToSlot s p = i" "priceToSlot s' p = i" "i \<noteq> INVALID_INDEX" using lp lp' by auto
  show ?thesis
    using at un put i InLadder
    by (simp add: side_remove_def removeEmptyBest_def Let_def map_option_case del: level_at.simps level_put.simps
        split: option.split)
next
  case (InOverflow k)
  have "denotes s (InOverflow k) p" "denotes s' (InOverflow k) p" using lp lp' InOverflow by simp_all
  note k = this [unfolded denotes.simps] overflowLowerBound_at [OF sh this(1)] overflowLowerBound_at [OF sh' this(2)]
  show ?thesis
    using k at un put InOverflow
    by (simp add: side_remove_def removeEmptyBest_def Let_def del: level_at.simps level_put.simps)
qed

lemma entry_level:
  assumes "side_rel {} ns s qs" and "(x, ord) \<in> set qs"
  obtains lp where "denotes s lp (price ord)"
proof (cases "priceToSlot s (price ord) = INVALID_INDEX")
  case False
  then show ?thesis by (intro that [of "InLadder (priceToSlot s (price ord))"]) simp
next
  case True
  have sh: "side_shape {} s" and lv: "level_ok ns (level_of s (price ord)) (queue_at qs (price ord))"
    using assms(1) by (simp_all add: side_rel_def)
  have "queue_at qs (price ord) \<noteq> []" using assms(2) by (force simp: queue_at_empty)
  then have "live_price s (price ord)" using level_ok_empty [OF lv] by (simp add: live_price_def)
  then have "price ord \<in> fst ` set (overflow s)" using live_price_cases [OF sh] True by simp
  with True overflow_index [OF sh, of "price ord"] show ?thesis
    by (intro that [of "InOverflow (overflowLowerBound s (price ord))"]) simp
qed

lemma side_remove_spec:
  assumes rel: "side_rel {} (nodes pool) s qs" and x: "(x, ord) \<in> set qs"
  obtains pool' s' where "side_remove pool s (price ord) x = Some (pool', s')"
    "side_rel {} (nodes pool') s' (drop_entry x qs)" "bid s' = bid s"
    "relinks pool pool' (fst ` set qs - {x})"
proof -
  let ?p = "price ord"
  have sh: "side_shape {} s" and ent: "entries_ok (bid s) (nodes pool) qs"
    and lv: "\<And>q. level_ok (nodes pool) (level_of s q) (queue_at qs q)"
    using rel by (auto simp: side_rel_def)
  have dst: "distinct (map fst qs)" using ent by (simp add: entries_ok_def)
  obtain lp where lp: "denotes s lp ?p" by (rule entry_level [OF rel x])
  show ?thesis
  proof (rule unlink_level [OF sh lv dst lp x])
    fix pool' lvl' s'
    assume run: "level_at s lp = Some (level_of s ?p)" "unlink pool (level_of s ?p) x = Some (pool', lvl')"
        "level_put s lp lvl' = Some s'"
      and f: "bid s' = bid s" "level_of s' = (level_of s)(?p := lvl')" "anchored s' = anchored s" "base s' = base s"
      and sh': "side_shape (if lhead lvl' = INVALID_INDEX then {?p} else {}) s'" and lp': "denotes s' lp ?p"
      and lv': "\<And>q. level_ok (nodes pool') (level_of s' q) (queue_at (drop_entry x qs) q)"
      and rl: "relinks pool pool' (fst ` set qs - {x})"
    have ent': "entries_ok (bid s) (nodes pool') (drop_entry x qs)"
      by (rule entries_ok_drop [OF entries_ok_relinks [OF ent rl]])
    note clean = side_remove_cleanup [OF sh lp run sh' lp' f(3,4)]
    show ?thesis
    proof (cases "lhead lvl' = INVALID_INDEX")
      case True
      have "level_of s' ?p = Level_new"
        using level_ok_empty [OF lv' [of ?p]] lv' [of ?p] True f(2) by simp
      then obtain s2 where s2: "removeEmptyBest s' ?p = Some s2" "side_shape {} s2"
        "level_of s2 = level_of s'" "bid s2 = bid s'"
        using removeEmptyBest_spec [of ?p s'] sh' True by auto
      show ?thesis
        by (rule that [of pool' s2]) (use clean s2 True lv' ent' f rl in \<open>simp_all add: side_rel_def\<close>)
    next
      case False
      show ?thesis
        by (rule that [of pool' s']) (use clean sh' False lv' ent' f rl in \<open>simp_all add: side_rel_def\<close>)
    qed
  qed
qed

lemma side_rel_new: "side_rel {} ns (LadderSide_new b) []"
  by (auto simp: side_rel_def LadderSide_new_def side_shape_def overflow_ok_def best_ok_def
      entries_ok_def queue_at_def level_of_def priceToSlot_def)

section \<open>Rewriting an entry in place\<close>

definition set_entry :: "u32 \<Rightarrow> Order \<Rightarrow> entry list \<Rightarrow> entry list" where
  "set_entry x ord qs = map (\<lambda>e. if fst e = x then (x, ord) else e) qs"

lemma fst_set_entry [simp]: "map fst (set_entry x ord qs) = map fst qs"
  by (auto simp: set_entry_def)

lemma fst_set_entry_image [simp]: "fst ` set (set_entry x ord qs) = fst ` set qs"
  by (metis fst_set_entry image_set)

text \<open>An order whose shares change keeps its place: price and slot decide the place, not shares.\<close>

lemma side_rel_set_entry:
  assumes rel: "side_rel X ns s qs" and x: "(x, r) \<in> set qs"
    and r': "price r' = price r" "buySellIndicator r' = buySellIndicator r" "0 < shares r'"
  shows "side_rel X (ns[unat x := (ns ! unat x)\<lparr>norder := r'\<rparr>]) s (set_entry x r' qs)"
proof -
  let ?ns = "ns[unat x := (ns ! unat x)\<lparr>norder := r'\<rparr>]"
  have ent: "entries_ok (bid s) ns qs" using rel by (simp add: side_rel_def)
  then have xv: "unat x < length ns" using x by (auto simp: entries_ok_def)
  have uniq: "e = (x, r)" if "e \<in> set qs" "fst e = x" for e
    using ent x that by (auto simp: entries_ok_def distinct_map inj_on_def)
  have pr: "eprice (if fst e = x then (x, r') else e) = eprice e" if "e \<in> set qs" for e
    using uniq [OF that] r'(1) by (cases e) auto
  have q: "queue_at (set_entry x r' qs) p = queue_at qs p" for p
  proof -
    have "filter ((\<lambda>e. eprice e = p) \<circ> (\<lambda>e. if fst e = x then (x, r') else e)) qs
        = filter (\<lambda>e. eprice e = p) qs"
      by (rule filter_cong) (simp_all add: pr)
    moreover have "fst \<circ> (\<lambda>e :: entry. if fst e = x then (x, r') else e) = fst" by auto
    ultimately show ?thesis unfolding queue_at_def set_entry_def filter_map map_map by simp
  qed
  have links: "nnext (?ns ! unat j) = nnext (ns ! unat j) \<and> nprev (?ns ! unat j) = nprev (ns ! unat j)" for j :: u32
    using xv by (cases "j = x") auto
  have "dseg ?ns a xs b = dseg ns a xs b" for a xs b
    by (rule dseg_frame) (use links in simp_all)
  then have lv: "level_ok ?ns (level_of s p) (queue_at (set_entry x r' qs) p)" for p
    using rel by (simp add: side_rel_def level_ok_def q)
  have "map eprice (set_entry x r' qs) = map eprice qs"
    unfolding set_entry_def using pr by simp
  then have "prioritised (better (bid s)) eprice (set_entry x r' qs)"
    using ent by (simp add: entries_ok_def prioritised_prices)
  moreover have "unat y < length ns \<and> y \<noteq> INVALID_INDEX \<and> norder (?ns ! unat y) = ord \<and>
      0 < shares ord \<and> buySellIndicator ord = side_char (bid s)"
    if "(y, ord) \<in> set (set_entry x r' qs)" for y ord
  proof (cases "y = x")
    case True
    then have "ord = r'" using that by (auto simp: set_entry_def split: if_splits)
    with True ent x xv r' show ?thesis by (auto simp: entries_ok_def)
  next
    case False
    then have "(y, ord) \<in> set qs" using that by (auto simp: set_entry_def split: if_splits)
    with False ent show ?thesis by (auto simp: entries_ok_def)
  qed
  ultimately have "entries_ok (bid s) ?ns (set_entry x r' qs)"
    using ent unfolding entries_ok_def fst_set_entry length_list_update by blast
  with rel lv show ?thesis by (simp add: side_rel_def)
qed

section \<open>Properties\<close>

text \<open>C21: Adding an order at a price puts it behind every resting order with a price at least as
  good and in front of the worse ones, whether the price has a slot, an overflow entry or neither;
  the side stays well formed and only the links of its own nodes change.\<close>

theorem add_rests_in_priority:
  assumes "side_rel {} (nodes pool) s qs" and "x \<in> slots pool" and "x \<noteq> INVALID_INDEX" and "x \<notin> fst ` set qs"
    and "norder (nodes pool ! unat x) = ord" and "0 < shares ord" and "buySellIndicator ord = side_char (bid s)"
  shows "\<exists>pool' s'. side_add pool s (price ord) x = Some (pool', s') \<and>
    side_rel {} (nodes pool') s' (rest_in (better (bid s)) eprice (x, ord) qs) \<and>
    relinks pool pool' (insert x (fst ` set qs))"
  using side_add_spec [OF assms] by metis

definition one_order :: Order where
  "one_order = \<lparr>orderReferenceNumberHigh = 0, orderReferenceNumberLow = 1, shares = 10, price = 1500000, buySellIndicator = ch_B\<rparr>"

definition one_pool :: OrderPool where
  "one_pool = \<lparr>nodes = [fresh_node one_order], freeHead = INVALID_INDEX\<rparr>"

lemma one_pool_facts:
  "0 \<in> slots one_pool" "(0 :: u32) \<noteq> INVALID_INDEX" "0 \<notin> fst ` set ([] :: entry list)"
  "norder (nodes one_pool ! unat (0 :: u32)) = one_order" "0 < shares one_order"
  "buySellIndicator one_order = side_char (bid (LadderSide_new True))"
  by (simp_all add: one_pool_def one_order_def slots_def fresh_node_def INVALID_INDEX_def LadderSide_new_def side_char_def)

lemma price_one_order: "price one_order = 1500000"
  by (simp add: one_order_def)

theorem add_rests_in_priority_witness:
  "\<exists>pool' s'. side_add one_pool (LadderSide_new True) 1500000 0 = Some (pool', s') \<and>
     side_rel {} (nodes pool') s' [(0, one_order)]"
  using add_rests_in_priority [OF side_rel_new one_pool_facts] by (auto simp: price_one_order)

text \<open>C22: Removing a resting order by its price and slot takes exactly that order out of the side and
  keeps the order of the rest; an emptied best slot or overflow entry is cleaned up.\<close>

theorem remove_takes_one_out:
  assumes "side_rel {} (nodes pool) s qs" and "(x, ord) \<in> set qs"
  shows "\<exists>pool' s'. side_remove pool s (price ord) x = Some (pool', s') \<and>
    side_rel {} (nodes pool') s' (drop_entry x qs) \<and> relinks pool pool' (fst ` set qs - {x})"
  using side_remove_spec [OF assms] by metis

lemma one_side: "\<exists>(pool :: OrderPool) s. side_rel {} (nodes pool) s [(0, one_order)]"
  by (rule side_add_spec [OF side_rel_new one_pool_facts]) auto

theorem remove_takes_one_out_witness:
  "\<exists>(pool :: OrderPool) s pool' s'. side_rel {} (nodes pool) s [(0, one_order)] \<and> side_remove pool s 1500000 0 = Some (pool', s') \<and>
     side_rel {} (nodes pool') s' []"
proof -
  obtain pool :: OrderPool and s where s: "side_rel {} (nodes pool) s [(0, one_order)]" using one_side by blast
  have "drop_entry 0 [(0, one_order)] = []" by (simp add: drop_entry_def)
  with remove_takes_one_out [OF s, of 0 one_order] s show ?thesis
    unfolding price_one_order by (metis list.set_intros(1))
qed

text \<open>The best level is that of the first entry in price-time priority: none on an empty side,
  and otherwise the level of the best price, whose head is the oldest order at that price.\<close>

lemma best_level_is_first_entry:
  assumes "side_rel {} ns s qs"
  shows "(qs = [] \<longrightarrow> bestLevel s = None) \<and>
    (\<forall>x ord es. qs = (x, ord) # es \<longrightarrow> (\<exists>lp l. bestLevel s = Some (lp, price ord) \<and>
       level_at s lp = Some l \<and> lhead l = x))"
proof -
  note best = bestLevel_spec [OF assms]
  have sh: "side_shape {} s" using assms by (simp add: side_rel_def)
  show ?thesis
  proof (intro conjI allI impI)
    show "bestLevel s = None" if "qs = []" using best that by simp
    fix x ord es assume qs: "qs = (x, ord) # es"
    then obtain lp where lp: "bestLevel s = Some (lp, price ord)" "denotes s lp (price ord)" using best by auto
    have "level_ok ns (level_of s (price ord)) (queue_at qs (price ord))" using assms by (simp add: side_rel_def)
    then have "lhead (level_of s (price ord)) = x" by (simp add: qs queue_at_def level_ok_def)
    with lp level_at_denotes [OF sh lp(2)]
    show "\<exists>lp l. bestLevel s = Some (lp, price ord) \<and> level_at s lp = Some l \<and> lhead l = x" by blast
  qed
qed

end
