(* ===== verification/Order_Book.thy ===== *)
theory Order_Book
  imports Ladder_Operations
begin

text \<open>
  One order book (\<^verbatim>\<open>include/orderbook.hpp\<close>, \<^verbatim>\<open>src/orderbook.cpp\<close>): the matching loops of
  \<open>handleBuyOrder\<close> and \<open>handleSellOrder\<close>, resting the remainder, and \<open>removeByIndex\<close>.  The arena
  the book points to is passed in and returned.  The reference is \<open>match_against\<close>, which walks
  the opposite side's entries in price-time priority; the loops are shown to end and to
  implement it.
\<close>

section \<open>Model\<close>

record ItchOrderExecuted =
  message_type :: u8
  stock_locate :: u16
  tracking_number :: u16
  timestamp_high :: u16
  timestamp_low :: u32
  order_reference_number :: u64
  executed_shares :: u32
  match_number :: u64

record OrderBook =
  bids :: LadderSide
  asks :: LadderSide

definition OrderBook_new :: OrderBook where
  "OrderBook_new = \<lparr>bids = LadderSide_new True, asks = LadderSide_new False\<rparr>"

text \<open>The execution record the loops fill in; \<open>-1\<close> is converted to each field's width.\<close>

definition executedOrder :: "u64 \<Rightarrow> u32 \<Rightarrow> ItchOrderExecuted" where
  "executedOrder ref shrs = \<lparr>message_type = ch_E, stock_locate = -1, tracking_number = -1,
     timestamp_high = -1, timestamp_low = -1, order_reference_number = ref,
     executed_shares = shrs, match_number = -1\<rparr>"

text \<open>What the two nested loops work on: the arena, the opposite side, the incoming order and
  the two output buffers.\<close>

record MatchState =
  mpool :: OrderPool
  mside :: LadderSide
  morder :: Order
  mremoved :: "u64 list"
  mexecuted :: "ItchOrderExecuted list"

text \<open>Popping the filled head off its level: \<open>filledIdx\<close>, the level's new head, and the free.\<close>

definition pop_head :: "OrderPool \<Rightarrow> Level \<Rightarrow> PoolNode \<Rightarrow> (OrderPool \<times> Level) option" where
  "pop_head pool level node =
     (let filledIdx = lhead level; level = level\<lparr>lhead := nnext node\<rparr> in do {
        (pool, level) \<leftarrow>
          (if lhead level \<noteq> INVALID_INDEX then do {
             n \<leftarrow> pool_at pool (lhead level);
             pool \<leftarrow> pool_put pool (lhead level) (n\<lparr>nprev := INVALID_INDEX\<rparr>);
             Some (pool, level) }
           else Some (pool, level\<lparr>ltail := INVALID_INDEX\<rparr>));
        pool \<leftarrow> pool_free pool filledIdx;
        Some (pool, level) })"

text \<open>One iteration of the inner loop: execute against the head of the level.\<close>

definition fill_head :: "LevelPtr \<Rightarrow> Level \<Rightarrow> MatchState \<Rightarrow> MatchState option" where
  "fill_head lp level m = do {
     node \<leftarrow> pool_at (mpool m) (lhead level);
     let executedShares = min (shares (morder m)) (shares (norder node));
     let ref = order_ref (norder node);
     let m = m\<lparr>mexecuted := mexecuted m @ [executedOrder ref executedShares],
               morder := (morder m)\<lparr>shares := shares (morder m) - executedShares\<rparr>\<rparr>;
     let node = node\<lparr>norder := (norder node)\<lparr>shares := shares (norder node) - executedShares\<rparr>\<rparr>;
     pool \<leftarrow> pool_put (mpool m) (lhead level) node;
     if shares (norder node) = 0 then do {
       (pool, level) \<leftarrow> pop_head pool level node;
       side \<leftarrow> level_put (mside m) lp level;
       Some (m\<lparr>mpool := pool, mside := side, mremoved := mremoved m @ [ref]\<rparr>) }
     else Some (m\<lparr>mpool := pool\<rparr>) }"

partial_function (option) drain_level :: "LevelPtr \<Rightarrow> MatchState \<Rightarrow> MatchState option" where
  "drain_level lp m = do {
     level \<leftarrow> level_at (mside m) lp;
     if 0 < shares (morder m) \<and> lhead level \<noteq> INVALID_INDEX then do {
       m \<leftarrow> fill_head lp level m;
       drain_level lp m }
     else Some m }"

definition clear_level :: "LevelPtr \<Rightarrow> u32 \<Rightarrow> MatchState \<Rightarrow> MatchState option" where
  "clear_level lp bestPrice m = do {
     level \<leftarrow> level_at (mside m) lp;
     if lhead level = INVALID_INDEX then do {
       side \<leftarrow> removeEmptyBest (mside m) bestPrice;
       Some (m\<lparr>mside := side\<rparr>) }
     else Some m }"

text \<open>The outer loops of \<open>handleBuyOrder\<close> and \<open>handleSellOrder\<close>.\<close>

partial_function (option) buy_loop :: "MatchState \<Rightarrow> MatchState option" where
  "buy_loop m =
     (if 0 < shares (morder m) then
        (case bestLevel (mside m) of
           None \<Rightarrow> Some m
         | Some (lp, bestPrice) \<Rightarrow>
             if bestPrice > price (morder m) then Some m
             else do {
               m \<leftarrow> drain_level lp m;
               m \<leftarrow> clear_level lp bestPrice m;
               buy_loop m })
      else Some m)"

partial_function (option) sell_loop :: "MatchState \<Rightarrow> MatchState option" where
  "sell_loop m =
     (if 0 < shares (morder m) then
        (case bestLevel (mside m) of
           None \<Rightarrow> Some m
         | Some (lp, bestPrice) \<Rightarrow>
             if bestPrice < price (morder m) then Some m
             else do {
               m \<leftarrow> drain_level lp m;
               m \<leftarrow> clear_level lp bestPrice m;
               sell_loop m })
      else Some m)"

text \<open>What a handler leaves behind: the arena, the book, the order (its shares reduced) and
  the three outputs.\<close>

record HandleResult =
  rpool :: OrderPool
  rbook :: OrderBook
  rorder :: Order
  restingIdx :: u32
  removedRefs :: "u64 list"
  executedOrders :: "ItchOrderExecuted list"

definition handleBuyOrder ::
  "OrderPool \<Rightarrow> OrderBook \<Rightarrow> Order \<Rightarrow> u64 list \<Rightarrow> ItchOrderExecuted list \<Rightarrow> HandleResult option" where
  "handleBuyOrder pool book buyOrder removed executed = do {
     m \<leftarrow> buy_loop \<lparr>mpool = pool, mside = asks book, morder = buyOrder, mremoved = removed,
                    mexecuted = executed\<rparr>;
     let book = book\<lparr>asks := mside m\<rparr>;
     (pool, book, idx) \<leftarrow>
       (if 0 < shares (morder m) then do {
          (idx, pool) \<leftarrow> allocate (mpool m) (morder m);
          (pool, side) \<leftarrow> side_add pool (bids book) (price (morder m)) idx;
          Some (pool, book\<lparr>bids := side\<rparr>, idx) }
        else Some (mpool m, book, INVALID_INDEX));
     Some \<lparr>rpool = pool, rbook = book, rorder = morder m, restingIdx = idx,
           removedRefs = mremoved m, executedOrders = mexecuted m\<rparr> }"

definition handleSellOrder ::
  "OrderPool \<Rightarrow> OrderBook \<Rightarrow> Order \<Rightarrow> u64 list \<Rightarrow> ItchOrderExecuted list \<Rightarrow> HandleResult option" where
  "handleSellOrder pool book sellOrder removed executed = do {
     m \<leftarrow> sell_loop \<lparr>mpool = pool, mside = bids book, morder = sellOrder, mremoved = removed,
                     mexecuted = executed\<rparr>;
     let book = book\<lparr>bids := mside m\<rparr>;
     (pool, book, idx) \<leftarrow>
       (if 0 < shares (morder m) then do {
          (idx, pool) \<leftarrow> allocate (mpool m) (morder m);
          (pool, side) \<leftarrow> side_add pool (asks book) (price (morder m)) idx;
          Some (pool, book\<lparr>asks := side\<rparr>, idx) }
        else Some (mpool m, book, INVALID_INDEX));
     Some \<lparr>rpool = pool, rbook = book, rorder = morder m, restingIdx = idx,
           removedRefs = mremoved m, executedOrders = mexecuted m\<rparr> }"

text \<open>\<open>std::runtime_error\<close> as a value.\<close>

datatype exn = runtime_error string

definition handleOrder ::
  "OrderPool \<Rightarrow> OrderBook \<Rightarrow> Order \<Rightarrow> u64 list \<Rightarrow> ItchOrderExecuted list \<Rightarrow> (exn + HandleResult) option" where
  "handleOrder pool book ord removed executed =
     (if buySellIndicator ord = ch_B then map_option Inr (handleBuyOrder pool book ord removed executed)
      else if buySellIndicator ord = ch_S then map_option Inr (handleSellOrder pool book ord removed executed)
      else Some (Inl (runtime_error ''Invalid buy/sell indicator'')))"

definition removeByIndex :: "OrderPool \<Rightarrow> OrderBook \<Rightarrow> u32 \<Rightarrow> (OrderPool \<times> OrderBook) option" where
  "removeByIndex pool book idx = do {
     node \<leftarrow> pool_at pool idx;
     let p = price (norder node);
     (pool, book) \<leftarrow>
       (if buySellIndicator (norder node) = ch_B then do {
          (pool, side) \<leftarrow> side_remove pool (bids book) p idx;
          Some (pool, book\<lparr>bids := side\<rparr>) }
        else do {
          (pool, side) \<leftarrow> side_remove pool (asks book) p idx;
          Some (pool, book\<lparr>asks := side\<rparr>) });
     pool \<leftarrow> pool_free pool idx;
     Some (pool, book) }"

section \<open>Reference: matching in price-time priority\<close>

text \<open>
  \<open>crosses b limit p\<close>: an incoming order with price \<open>limit\<close> trades with a resting price \<open>p\<close> of the
  side with bid flag \<open>b\<close>.  \<open>match_against\<close> returns the incoming order with its unfilled shares,
  the remaining entries, the references of the filled entries and the executions, in order.
\<close>

definition crosses :: "bool \<Rightarrow> u32 \<Rightarrow> u32 \<Rightarrow> bool" where
  "crosses b limit p \<longleftrightarrow> (if b then limit \<le> p else p \<le> limit)"

fun match_against :: "bool \<Rightarrow> Order \<Rightarrow> ('i \<times> Order) list \<Rightarrow>
    Order \<times> ('i \<times> Order) list \<times> u64 list \<times> ItchOrderExecuted list" where
  "match_against b ord [] = (ord, [], [], [])"
| "match_against b ord ((x, r) # qs) =
     (if shares ord = 0 \<or> \<not> crosses b (price ord) (price r) then (ord, (x, r) # qs, [], [])
      else if shares r \<le> shares ord then
        (case match_against b (ord\<lparr>shares := shares ord - shares r\<rparr>) qs of (ord', qs', rs, es) \<Rightarrow>
           (ord', qs', order_ref r # rs, executedOrder (order_ref r) (shares r) # es))
      else (ord\<lparr>shares := 0\<rparr>, (x, r\<lparr>shares := shares r - shares ord\<rparr>) # qs, [],
            [executedOrder (order_ref r) (shares ord)]))"

text \<open>Outputs already produced, put in front of the outputs of a run.\<close>

definition after :: "u64 list \<Rightarrow> ItchOrderExecuted list \<Rightarrow> 'o \<times> 'q \<times> u64 list \<times> ItchOrderExecuted list \<Rightarrow>
    'o \<times> 'q \<times> u64 list \<times> ItchOrderExecuted list" where
  "after rs es = (\<lambda>(ord, qs, rs', es'). (ord, qs, rs @ rs', es @ es'))"

lemma after_simps [simp]:
  "after rs es (ord, qs, rs', es') = (ord, qs, rs @ rs', es @ es')"
  "after [] [] r = r" "after rs es (after rs' es' r) = after (rs @ rs') (es @ es') r"
  by (auto simp: after_def split: prod.split)

lemma match_stop: "shares ord = 0 \<Longrightarrow> match_against b ord qs = (ord, qs, [], [])"
  by (cases qs) auto

lemma match_no_cross:
  "(\<And>e es. qs = e # es \<Longrightarrow> \<not> crosses b (price ord) (price (snd e))) \<Longrightarrow>
   match_against b ord qs = (ord, qs, [], [])"
  by (cases qs) auto

lemma match_fill:
  assumes "0 < shares ord" and "crosses b (price ord) (price r)" and "shares r \<le> shares ord"
  shows "match_against b ord ((x, r) # qs) = after [order_ref r] [executedOrder (order_ref r) (shares r)]
    (match_against b (ord\<lparr>shares := shares ord - shares r\<rparr>) qs)"
  using assms by (auto simp: after_def word_neq_0_conv [symmetric] split: prod.split)

lemma match_part:
  assumes "0 < shares ord" and "crosses b (price ord) (price r)" and "shares ord < shares r"
  shows "match_against b ord ((x, r) # qs) =
    (ord\<lparr>shares := 0\<rparr>, (x, r\<lparr>shares := shares r - shares ord\<rparr>) # qs, [],
     [executedOrder (order_ref r) (shares ord)])"
  using assms by (auto simp: word_neq_0_conv [symmetric])

section \<open>One execution\<close>

lemma pop_head_unlink:
  assumes lvl: "level_ok (nodes pool) lvl (x # xs)"
  shows "pop_head pool lvl (nodes pool ! unat x) =
    do { (pool, lvl) \<leftarrow> unlink pool lvl x; pool \<leftarrow> pool_free pool x; Some (pool, lvl) }"
proof -
  have x: "lhead lvl = x" "x \<in> slots pool" "nprev (nodes pool ! unat x) = INVALID_INDEX"
    using lvl by (auto simp: level_ok_def slots_def)
  then show ?thesis
    by (simp add: pop_head_def unlink_def unlink_prev_def unlink_next_def pool_simps Let_def)
qed

text \<open>The state of the loops: the opposite side holds \<open>qs\<close>, whose slots the run owns.\<close>

definition match_rel :: "u32 set \<Rightarrow> u32 list \<Rightarrow> entry list \<Rightarrow> MatchState \<Rightarrow> bool" where
  "match_rel X fs qs m \<longleftrightarrow> side_rel X (nodes (mpool m)) (mside m) qs \<and> pool_ok (mpool m) fs \<and>
     fst ` set qs \<subseteq> in_use (mpool m) fs"

lemma match_rel_head:
  assumes "match_rel X fs ((x, r) # qs) m"
  shows "x \<in> slots (mpool m)" "norder (nodes (mpool m) ! unat x) = r" "0 < shares r" "x \<notin> fst ` set qs"
    "distinct (map fst ((x, r) # qs))" "lhead (level_of (mside m) (price r)) = x" "x \<in> in_use (mpool m) fs"
    "level_ok (nodes (mpool m)) (level_of (mside m) (price r)) (x # queue_at qs (price r))"
proof -
  have e: "entries_ok (bid (mside m)) (nodes (mpool m)) ((x, r) # qs)"
    and l: "level_ok (nodes (mpool m)) (level_of (mside m) (price r)) (queue_at ((x, r) # qs) (price r))"
    using assms by (auto simp: match_rel_def side_rel_def)
  show "x \<in> slots (mpool m)" "norder (nodes (mpool m) ! unat x) = r" "0 < shares r" "x \<notin> fst ` set qs"
    "distinct (map fst ((x, r) # qs))"
    using e by (auto simp: entries_ok_def slots_def)
  show "lhead (level_of (mside m) (price r)) = x" 
    "level_ok (nodes (mpool m)) (level_of (mside m) (price r)) (x # queue_at qs (price r))"
    using l by (auto simp: queue_at_def level_ok_def)
  show "x \<in> in_use (mpool m) fs" using assms by (auto simp: match_rel_def)
qed

text \<open>The head has at most as many shares: it is filled, popped and its slot freed.\<close>

lemma fill_head_full:
  assumes rel: "match_rel {} fs ((x, r) # qs) m" and lp: "denotes (mside m) lp (price r)"
    and shr: "shares r \<le> shares (morder m)"
  obtains pool' side' where
    "fill_head lp (level_of (mside m) (price r)) m = Some \<lparr>mpool = pool', mside = side',
       morder = (morder m)\<lparr>shares := shares (morder m) - shares r\<rparr>, mremoved = mremoved m @ [order_ref r],
       mexecuted = mexecuted m @ [executedOrder (order_ref r) (shares r)]\<rparr>"
    "side_rel (if queue_at qs (price r) = [] then {price r} else {}) (nodes pool') side' qs"
    "denotes side' lp (price r)" "bid side' = bid (mside m)"
    "pool_step (mpool m) fs (fst ` set ((x, r) # qs)) pool' (x # fs) (fst ` set qs)"
proof -
  let ?pool = "mpool m" and ?s = "mside m" and ?p = "price r" and ?es = "(x, r) # qs"
  let ?n = "(nodes ?pool ! unat x)\<lparr>norder := r\<lparr>shares := 0\<rparr>\<rparr>"
  let ?p1 = "?pool\<lparr>nodes := (nodes ?pool)[unat x := ?n]\<rparr>"
  note h = match_rel_head [OF rel]
  have sh: "side_shape {} ?s" and lv: "\<And>q. level_ok (nodes ?pool) (level_of ?s q) (queue_at ?es q)"
    and ent: "entries_ok (bid ?s) (nodes ?pool) ?es" and ok: "pool_ok ?pool fs"
    and own: "fst ` set ?es \<subseteq> in_use ?pool fs"
    using rel by (auto simp: match_rel_def side_rel_def)
  have links: "nnext (nodes ?p1 ! unat j) = nnext (nodes ?pool ! unat j) \<and>
      nprev (nodes ?p1 ! unat j) = nprev (nodes ?pool ! unat j)" for j :: u32
    using h(1) by (cases "j = x") (auto simp: slots_def)
  have "dseg (nodes ?p1) a xs b = dseg (nodes ?pool) a xs b" for a xs b
    by (rule dseg_frame) (use links in simp_all)
  then have lv1: "level_ok (nodes ?p1) (level_of ?s q) xs = level_ok (nodes ?pool) (level_of ?s q) xs" for q xs
    by (simp add: level_ok_def)
  have lv1': "level_ok (nodes ?p1) (level_of ?s q) (queue_at ?es q)" for q unfolding lv1 by (rule lv)
  have step1: "pool_step ?pool fs (fst ` set ?es) ?p1 fs (fst ` set ?es)"
    by (rule pool_step_write [OF ok own]) auto
  have n1: "nodes ?p1 ! unat x = ?n" using h(1) by (simp add: slots_def)
  show ?thesis
  proof (rule unlink_level [OF sh lv1' h(5) lp])
    show "(x, r) \<in> set ?es" by simp
    fix p2 lvl' s'
    assume run: "level_at ?s lp = Some (level_of ?s ?p)" "unlink ?p1 (level_of ?s ?p) x = Some (p2, lvl')"
        "level_put ?s lp lvl' = Some s'" and f: "bid s' = bid ?s" "level_of s' = (level_of ?s)(?p := lvl')"
      and sh': "side_shape (if lhead lvl' = INVALID_INDEX then {?p} else {}) s'" "denotes s' lp ?p"
      and lv': "\<And>q. level_ok (nodes p2) (level_of s' q) (queue_at (drop_entry x ?es) q)"
      and rl: "relinks ?p1 p2 (fst ` set ?es - {x})"
    have de: "drop_entry x ?es = qs" using h(4) by (auto simp: drop_entry_def filter_id_conv)
    have step2: "pool_step ?p1 fs (fst ` set ?es) p2 fs (fst ` set ?es)"
      by (rule pool_step_write) (use step1 rl pool_step_owned [OF step1] in \<open>auto simp: relinks_def pool_step_def\<close>)
    have step3: "pool_step p2 fs (fst ` set ?es) (freed p2 x) (x # fs) (fst ` set ?es - {x})"
      by (rule pool_step_freed) (use pool_step_ok [OF step2] pool_step_owned [OF step2] in auto)
    have "fst ` set ?es - {x} = fst ` set qs" using h(4) by auto
    then have step: "pool_step ?pool fs (fst ` set ?es) (freed p2 x) (x # fs) (fst ` set qs)"
      using pool_step_trans [OF step1 pool_step_trans [OF step2 step3]] by simp
    have "lhead lvl' = INVALID_INDEX \<longleftrightarrow> queue_at qs ?p = []"
      using level_ok_empty [OF lv' [of ?p]] f(2) by (simp add: de)
    moreover have "entries_ok (bid ?s) (nodes p2) qs"
    proof (rule entries_ok_relinks [OF _ rl])
      show "entries_ok (bid ?s) (nodes ?p1) qs"
        using ent h(4) by (auto simp: entries_ok_def prioritised_Cons nth_update_notin [of x "fst ` set qs"] rev_image_eqI)
    qed
    ultimately have "side_rel (if queue_at qs ?p = [] then {?p} else {}) (nodes p2) s' qs"
      using sh' lv' f by (simp add: side_rel_def de)
    then have rel': "side_rel (if queue_at qs ?p = [] then {?p} else {}) (nodes (freed p2 x)) s' qs"
    proof (rule side_rel_frame)
      fix y assume "y \<in> fst ` set qs"
      then have "y \<noteq> x" using h(4) by blast
      then show "nodes (freed p2 x) ! unat y = nodes p2 ! unat y" by (rule freed_other)
    qed simp
    have "x \<in> slots p2" using h(1) relinks_slots [OF rl] by simp
    then have pop: "pop_head ?p1 (level_of ?s ?p) ?n = Some (freed p2 x, lvl')"
      using pop_head_unlink [of ?p1 "level_of ?s ?p" x "queue_at qs ?p"] h(8) run(2)
      unfolding lv1 n1 by (simp add: pool_free_Some)
    have "fill_head lp (level_of ?s ?p) m = Some \<lparr>mpool = freed p2 x, mside = s',
       morder = (morder m)\<lparr>shares := shares (morder m) - shares r\<rparr>, mremoved = mremoved m @ [order_ref r],
       mexecuted = mexecuted m @ [executedOrder (order_ref r) (shares r)]\<rparr>"
      using h(1,2,6) pop run(3) min_absorb2 [OF shr] by (simp add: fill_head_def pool_simps Let_def)
    then show ?thesis using rel' sh'(2) f(1) step by (rule that)
  qed
qed

text \<open>The head has more shares than the incoming order: it is reduced in place.\<close>

lemma fill_head_part:
  assumes rel: "match_rel {} fs ((x, r) # qs) m" and shr: "shares (morder m) < shares r"
  obtains pool' where
    "fill_head lp (level_of (mside m) (price r)) m = Some \<lparr>mpool = pool', mside = mside m,
       morder = (morder m)\<lparr>shares := 0\<rparr>, mremoved = mremoved m,
       mexecuted = mexecuted m @ [executedOrder (order_ref r) (shares (morder m))]\<rparr>"
    "side_rel {} (nodes pool') (mside m) ((x, r\<lparr>shares := shares r - shares (morder m)\<rparr>) # qs)"
    "pool_step (mpool m) fs (fst ` set ((x, r) # qs)) pool' fs (fst ` set ((x, r) # qs))"
proof -
  let ?pool = "mpool m" and ?r = "r\<lparr>shares := shares r - shares (morder m)\<rparr>"
  let ?p1 = "?pool\<lparr>nodes := (nodes ?pool)[unat x := (nodes ?pool ! unat x)\<lparr>norder := ?r\<rparr>]\<rparr>"
  note h = match_rel_head [OF rel]
  have pos: "shares r - shares (morder m) \<noteq> 0" using shr by auto
  have run: "fill_head lp (level_of (mside m) (price r)) m = Some \<lparr>mpool = ?p1, mside = mside m,
       morder = (morder m)\<lparr>shares := 0\<rparr>, mremoved = mremoved m,
       mexecuted = mexecuted m @ [executedOrder (order_ref r) (shares (morder m))]\<rparr>"
    using h(1,2,6) pos min_absorb1 [OF less_imp_le [OF shr]]
    by (simp add: fill_head_def pool_simps Let_def)
  have "side_rel {} (nodes ?pool) (mside m) ((x, r) # qs)" using rel by (simp add: match_rel_def)
  then have "side_rel {} (nodes ?p1) (mside m) (set_entry x ?r ((x, r) # qs))"
    using side_rel_set_entry [of "{}" "nodes ?pool" "mside m" "(x, r) # qs" x r ?r] pos
    unfolding word_neq_0_conv by simp
  moreover have "set_entry x ?r ((x, r) # qs) = (x, ?r) # qs"
    using h(4) by (auto simp: set_entry_def rev_image_eqI intro!: map_idI)
  ultimately have "side_rel {} (nodes ?p1) (mside m) ((x, ?r) # qs)" by simp
  moreover have "pool_step ?pool fs (fst ` set ((x, r) # qs)) ?p1 fs (fst ` set ((x, r) # qs))"
    by (rule pool_step_write) (use rel in \<open>auto simp: match_rel_def\<close>)
  ultimately show ?thesis using run by (intro that)
qed

section \<open>Draining a level\<close>

text \<open>
  What a stretch of the loops does: it goes from one state to another with outputs \<open>rs\<close>, \<open>es\<close>,
  and the reference run from the first is those outputs followed by the run from the second.
\<close>

definition progress :: "u32 list \<Rightarrow> entry list \<Rightarrow> MatchState \<Rightarrow> u32 list \<Rightarrow> entry list \<Rightarrow> MatchState \<Rightarrow> bool" where
  "progress fs qs m fs' qs' m' \<longleftrightarrow> bid (mside m') = bid (mside m) \<and> price (morder m') = price (morder m) \<and>
     pool_step (mpool m) fs (fst ` set qs) (mpool m') fs' (fst ` set qs') \<and> length qs' \<le> length qs \<and>
     (\<exists>rs es. mremoved m' = mremoved m @ rs \<and> mexecuted m' = mexecuted m @ es \<and>
        match_against (bid (mside m)) (morder m) qs =
        after rs es (match_against (bid (mside m)) (morder m') qs'))"

lemma progress_trans:
  assumes a: "progress fs qs m fs1 qs1 m1" and b: "progress fs1 qs1 m1 fs2 qs2 m2"
  shows "progress fs qs m fs2 qs2 m2"
proof -
  obtain rs es where 1: "mremoved m1 = mremoved m @ rs" "mexecuted m1 = mexecuted m @ es"
    "match_against (bid (mside m)) (morder m) qs = after rs es (match_against (bid (mside m)) (morder m1) qs1)"
    using a by (auto simp: progress_def)
  obtain rs' es' where 2: "mremoved m2 = mremoved m1 @ rs'" "mexecuted m2 = mexecuted m1 @ es'"
    "match_against (bid (mside m1)) (morder m1) qs1 = after rs' es' (match_against (bid (mside m1)) (morder m2) qs2)"
    using b by (auto simp: progress_def)
  have "mremoved m2 = mremoved m @ (rs @ rs') \<and> mexecuted m2 = mexecuted m @ (es @ es') \<and>
      match_against (bid (mside m)) (morder m) qs =
      after (rs @ rs') (es @ es') (match_against (bid (mside m)) (morder m2) qs2)"
    using 1 2 a by (simp add: progress_def)
  moreover have "pool_step (mpool m) fs (fst ` set qs) (mpool m2) fs2 (fst ` set qs2)"
    using a b unfolding progress_def by (blast intro: pool_step_trans)
  ultimately show ?thesis using a b unfolding progress_def by auto
qed

lemma progress_refl:
  "match_rel X fs qs m \<Longrightarrow> progress fs qs m fs qs m"
  by (auto simp: progress_def match_rel_def pool_step_refl intro!: exI [of _ "[]"])

abbreviation drained :: "entry list \<Rightarrow> u32 \<Rightarrow> u32 set" where
  "drained qs p \<equiv> (if queue_at qs p = [] then {p} else {})"

lemma match_rel_level:
  assumes "match_rel X fs qs m" and "denotes (mside m) lp p"
  shows "level_at (mside m) lp = Some (level_of (mside m) p)"
    "lhead (level_of (mside m) p) = INVALID_INDEX \<longleftrightarrow> queue_at qs p = []"
proof -
  have "side_shape X (mside m)" and "level_ok (nodes (mpool m)) (level_of (mside m) p) (queue_at qs p)"
    using assms(1) by (auto simp: match_rel_def side_rel_def)
  then show "level_at (mside m) lp = Some (level_of (mside m) p)"
    "lhead (level_of (mside m) p) = INVALID_INDEX \<longleftrightarrow> queue_at qs p = []"
    using level_at_denotes assms(2) level_ok_empty by blast+
qed

lemma drain_stop:
  assumes "match_rel X fs qs m" and "denotes (mside m) lp p"
    and "shares (morder m) = 0 \<or> queue_at qs p = []"
  shows "drain_level lp m = Some m"
  using assms(3) match_rel_level [OF assms(1,2)]
  by (subst drain_level.simps) auto

lemma drain_step:
  assumes "match_rel X fs qs m" and "denotes (mside m) lp p"
    and "0 < shares (morder m)" and "queue_at qs p \<noteq> []"
  shows "drain_level lp m = do { m \<leftarrow> fill_head lp (level_of (mside m) p) m; drain_level lp m }"
  using assms(3,4) match_rel_level [OF assms(1,2)]
  by (subst drain_level.simps) auto

lemma best_price_head:
  assumes "match_rel X fs (e # qs) m" and "queue_at (e # qs) p \<noteq> []"
    and "\<forall>e' \<in> set (e # qs). \<not> better (bid (mside m)) (eprice e') p"
  shows "eprice e = p"
proof -
  obtain y where "y \<in> set (e # qs)" "eprice y = p" using assms(2) unfolding queue_at_empty by blast
  moreover have "prioritised (better (bid (mside m))) eprice (e # qs)"
    using assms(1) by (simp add: match_rel_def side_rel_def entries_ok_def)
  ultimately show ?thesis
    using prio.head_is_best [of "bid (mside m)" eprice e qs y] assms(3) by simp
qed

text \<open>
  The inner loop ends; it has executed the incoming order against the best level until one of
  them was exhausted.
\<close>

lemma drain_spec:
  assumes "match_rel (drained qs p) fs qs m" and "denotes (mside m) lp p"
    and "crosses (bid (mside m)) (price (morder m)) p"
    and "\<forall>e \<in> set qs. \<not> better (bid (mside m)) (eprice e) p"
  shows "\<exists>fs' qs' m'. drain_level lp m = Some m' \<and> progress fs qs m fs' qs' m' \<and>
    match_rel (drained qs' p) fs' qs' m' \<and> denotes (mside m') lp p \<and>
    (shares (morder m') = 0 \<or> queue_at qs' p = []) \<and>
    (queue_at qs p \<noteq> [] \<longrightarrow> shares (morder m') = 0 \<or> length qs' < length qs)"
  using assms
proof (induction qs arbitrary: fs m)
  case Nil
  have q: "queue_at [] p = []" by (simp add: queue_at_def)
  then have "drain_level lp m = Some m" using drain_stop [OF Nil(1,2)] by blast
  with Nil q show ?case using progress_refl [OF Nil(1)] by blast
next
  case (Cons e qs)
  show ?case
  proof (cases "shares (morder m) = 0 \<or> queue_at (e # qs) p = []")
    case True
    then have "drain_level lp m = Some m" by (rule drain_stop [OF Cons.prems(1,2)])
    with Cons.prems True show ?thesis using progress_refl [OF Cons.prems(1)] by blast
  next
    case False
    then have pos: "0 < shares (morder m)" and ne: "queue_at (e # qs) p \<noteq> []"
      unfolding word_neq_0_conv [symmetric] by simp_all
    obtain x r where e: "e = (x, r)" by (cases e)
    have pr: "price r = p" using best_price_head [OF Cons.prems(1) ne Cons.prems(4)] e by simp
    have rel: "match_rel {} fs ((x, r) # qs) m" using Cons.prems(1) ne e by simp
    have lp: "denotes (mside m) lp (price r)" using Cons.prems(2) pr by simp
    have cr: "crosses (bid (mside m)) (price (morder m)) (price r)" using Cons.prems(3) pr by simp
    note step = drain_step [OF Cons.prems(1,2) pos ne]
    show ?thesis
    proof (cases "shares r \<le> shares (morder m)")
      case True
      obtain pool' side' where full:
        "fill_head lp (level_of (mside m) (price r)) m = Some \<lparr>mpool = pool', mside = side',
           morder = (morder m)\<lparr>shares := shares (morder m) - shares r\<rparr>, mremoved = mremoved m @ [order_ref r],
           mexecuted = mexecuted m @ [executedOrder (order_ref r) (shares r)]\<rparr>" (is "_ = Some ?m")
        "side_rel (drained qs (price r)) (nodes pool') side' qs"
        "denotes side' lp (price r)" "bid side' = bid (mside m)"
        "pool_step (mpool m) fs (fst ` set ((x, r) # qs)) pool' (x # fs) (fst ` set qs)"
        using fill_head_full [OF rel lp True] by blast
      have run: "drain_level lp m = drain_level lp ?m" using step full(1) pr by simp
      have rel1: "match_rel (drained qs p) (x # fs) qs ?m"
        using full(2) [unfolded pr] pool_step_ok [OF full(5)] pool_step_owned [OF full(5)] by (simp add: match_rel_def)
      have prog: "progress fs (e # qs) m (x # fs) qs ?m"
        using full(4,5) match_fill [OF pos cr True, of x qs] e unfolding progress_def by auto
      have lp1: "denotes (mside ?m) lp p" using full(3) pr by simp
      have cr1: "crosses (bid (mside ?m)) (price (morder ?m)) p" using Cons.prems(3) full(4) by simp
      have b1: "\<forall>e \<in> set qs. \<not> better (bid (mside ?m)) (eprice e) p" using Cons.prems(4) full(4) by simp
      obtain fs' qs' m' where fin: "drain_level lp ?m = Some m'" "progress (x # fs) qs ?m fs' qs' m'"
        "match_rel (drained qs' p) fs' qs' m'" "denotes (mside m') lp p"
        "shares (morder m') = 0 \<or> queue_at qs' p = []"
        using Cons.IH [OF rel1 lp1 cr1 b1] by blast
      have "length qs' < length (e # qs)" using fin(2) by (simp add: progress_def)
      with fin progress_trans [OF prog fin(2)] show ?thesis unfolding run by blast
    next
      case False
      then have lt: "shares (morder m) < shares r" by simp
      obtain pool' where part:
        "fill_head lp (level_of (mside m) (price r)) m = Some \<lparr>mpool = pool', mside = mside m,
           morder = (morder m)\<lparr>shares := 0\<rparr>, mremoved = mremoved m,
           mexecuted = mexecuted m @ [executedOrder (order_ref r) (shares (morder m))]\<rparr>" (is "_ = Some ?m")
        "side_rel {} (nodes pool') (mside m) ((x, r\<lparr>shares := shares r - shares (morder m)\<rparr>) # qs)"
        "pool_step (mpool m) fs (fst ` set ((x, r) # qs)) pool' fs (fst ` set ((x, r) # qs))"
        using fill_head_part [OF rel lt] by blast
      let ?qs = "(x, r\<lparr>shares := shares r - shares (morder m)\<rparr>) # qs"
      have q: "queue_at ?qs p \<noteq> []" using pr by (simp add: queue_at_def)
      have rel1: "match_rel {} fs ?qs ?m"
        using part(2) pool_step_ok [OF part(3)] pool_step_owned [OF part(3)] by (simp add: match_rel_def)
      have stop: "drain_level lp ?m = Some ?m" by (rule drain_stop [OF rel1]) (use Cons.prems(2) in simp_all)
      have run: "drain_level lp m = Some ?m" using step part(1) pr stop by simp
      have prog: "progress fs (e # qs) m fs ?qs ?m"
        using part(3) match_part [OF pos cr lt, of x qs] e match_stop [of "morder ?m"]
        unfolding progress_def by auto
      show ?thesis unfolding run
        by (intro exI [of _ fs] exI [of _ ?qs] exI [of _ ?m] conjI) (use prog rel1 q Cons.prems(2) in simp_all)
    qed
  qed
qed

section \<open>The outer loops\<close>

lemma clear_level_spec:
  assumes rel: "match_rel (drained qs p) fs qs m" and lp: "denotes (mside m) lp p"
  obtains side where "clear_level lp p m = Some (m\<lparr>mside := side\<rparr>)" "match_rel {} fs qs (m\<lparr>mside := side\<rparr>)"
    "bid side = bid (mside m)"
proof (cases "queue_at qs p = []")
  case False
  then have "clear_level lp p m = Some (m\<lparr>mside := mside m\<rparr>)"
    using match_rel_level [OF rel lp] by (simp add: clear_level_def)
  then show ?thesis by (rule that) (use rel False in simp_all)
next
  case True
  then have sh: "side_shape {p} (mside m)" and new: "level_of (mside m) p = Level_new"
    using rel by (auto simp: match_rel_def side_rel_def dest: spec [of _ p])
  obtain side where side: "removeEmptyBest (mside m) p = Some side" "side_shape {} side"
    "level_of side = level_of (mside m)" "bid side = bid (mside m)"
    by (rule removeEmptyBest_spec [OF sh new])
  have "match_rel {} fs qs (m\<lparr>mside := side\<rparr>)" using rel side by (simp add: match_rel_def side_rel_def)
  moreover have "clear_level lp p m = Some (m\<lparr>mside := side\<rparr>)"
    using True match_rel_level [OF rel lp] side(1) by (simp add: clear_level_def)
  ultimately show ?thesis using that side(4) by blast
qed

text \<open>
  The two outer loops differ only in the side they match against and the comparison that ends
  them; what they share is proved once.
\<close>

locale matching_loop =
  fixes loop :: "MatchState \<Rightarrow> MatchState option" and b :: bool
  assumes unfold: "loop m =
     (if 0 < shares (morder m) then
        (case bestLevel (mside m) of
           None \<Rightarrow> Some m
         | Some (lp, p) \<Rightarrow>
             if \<not> crosses b (price (morder m)) p then Some m
             else do { m \<leftarrow> drain_level lp m; m \<leftarrow> clear_level lp p m; loop m })
      else Some m)"
begin

lemma terminates_and_matches:
  assumes "match_rel {} fs qs m" and "bid (mside m) = b"
  shows "\<exists>fs' qs' m'. loop m = Some m' \<and> progress fs qs m fs' qs' m' \<and> match_rel {} fs' qs' m' \<and>
    match_against b (morder m') qs' = (morder m', qs', [], [])"
  using assms
proof (induction "if shares (morder m) = 0 then 0 else Suc (length qs)" arbitrary: m fs qs rule: less_induct)
  case less
  note rel = less.prems(1) and b = less.prems(2)
  have srel: "side_rel {} (nodes (mpool m)) (mside m) qs" using rel by (simp add: match_rel_def)
  note best = bestLevel_spec [OF srel]
  have stop: ?case if "loop m = Some m" "match_against b (morder m) qs = (morder m, qs, [], [])"
    using that rel progress_refl [OF rel] by blast
  show ?case
  proof (cases "shares (morder m) = 0")
    case True
    then show ?thesis by (intro stop) (simp_all add: unfold [of m] match_stop)
  next
    case pos: False
    then have pos': "0 < shares (morder m)" by (simp add: word_neq_0_conv)
    show ?thesis
    proof (cases qs)
      case Nil
      then show ?thesis using best by (intro stop) (simp_all add: unfold [of m])
    next
      case (Cons e es)
      let ?p = "eprice e"
      obtain lp where bl: "bestLevel (mside m) = Some (lp, ?p)" and lp: "denotes (mside m) lp ?p"
        using best Cons by auto
      show ?thesis
      proof (cases "crosses b (price (morder m)) ?p")
        case False
        then show ?thesis
          by (intro stop match_no_cross) (simp_all add: unfold [of m] bl Cons)
      next
        case True
        have ne: "queue_at qs ?p \<noteq> []" using Cons by (simp add: queue_at_def)
        have rel0: "match_rel (drained qs ?p) fs qs m" using rel ne by simp
        have top: "\<forall>e' \<in> set qs. \<not> better (bid (mside m)) (eprice e') ?p"
          using srel Cons prio.irrefl by (auto simp: side_rel_def entries_ok_def prioritised_Cons)
        obtain fs1 qs1 m1 where d: "drain_level lp m = Some m1" "progress fs qs m fs1 qs1 m1"
          "match_rel (drained qs1 ?p) fs1 qs1 m1" "denotes (mside m1) lp ?p"
          "shares (morder m1) = 0 \<or> length qs1 < length qs"
          using drain_spec [OF rel0 lp _ top] True b ne by blast
        obtain side where c: "clear_level lp ?p m1 = Some (m1\<lparr>mside := side\<rparr>)"
          "match_rel {} fs1 qs1 (m1\<lparr>mside := side\<rparr>)" "bid side = bid (mside m1)"
          by (rule clear_level_spec [OF d(3,4)])
        let ?m = "m1\<lparr>mside := side\<rparr>"
        have prog: "progress fs qs m fs1 qs1 ?m" using d(2) c(3) by (simp add: progress_def)
        have b1: "bid (mside ?m) = b" using c(3) d(2) b by (simp add: progress_def)
        have run: "loop m = loop ?m" using pos' bl True d(1) c(1) by (simp add: unfold [of m])
        have "(if shares (morder ?m) = 0 then 0 else Suc (length qs1))
            < (if shares (morder m) = 0 then 0 else Suc (length qs))" using d(5) pos by auto
        from less.hyps [OF this c(2) b1] show ?thesis
          unfolding run using progress_trans [OF prog] by blast
      qed
    qed
  qed
qed

end

interpretation buy: matching_loop buy_loop False
proof
  fix m
  show "buy_loop m =
     (if 0 < shares (morder m) then
        (case bestLevel (mside m) of None \<Rightarrow> Some m
         | Some (lp, p) \<Rightarrow> if \<not> crosses False (price (morder m)) p then Some m
             else do { m \<leftarrow> drain_level lp m; m \<leftarrow> clear_level lp p m; buy_loop m })
      else Some m)"
    by (subst buy_loop.simps) (auto simp: crosses_def not_le split: option.split)
qed

interpretation sell: matching_loop sell_loop True
proof
  fix m
  show "sell_loop m =
     (if 0 < shares (morder m) then
        (case bestLevel (mside m) of None \<Rightarrow> Some m
         | Some (lp, p) \<Rightarrow> if \<not> crosses True (price (morder m)) p then Some m
             else do { m \<leftarrow> drain_level lp m; m \<leftarrow> clear_level lp p m; sell_loop m })
      else Some m)"
    by (subst sell_loop.simps) (auto simp: crosses_def not_le split: option.split)
qed

end
