(* ===== verification/Book_Refinement.thy ===== *)
theory Book_Refinement
  imports Order_Book
begin

text \<open>
  A whole book as two lists of entries, the reference handler \<open>handle_spec\<close> on them, and the
  proofs that \<open>handleOrder\<close> and \<open>removeByIndex\<close> of \<^verbatim>\<open>src/orderbook.cpp\<close> implement it, return,
  and own exactly the slots of the resting entries.
\<close>

section \<open>The reference book\<close>

type_synonym 'i book = "('i \<times> Order) list \<times> ('i \<times> Order) list"

text \<open>
  \<open>rest_order b i ord qs\<close> rests what is left of an order, if anything, on the side with bid flag
  \<open>b\<close>; \<open>handle_spec\<close> matches an incoming order against the other side first.
\<close>

definition rest_order :: "bool \<Rightarrow> 'i \<Rightarrow> Order \<Rightarrow> ('i \<times> Order) list \<Rightarrow> ('i \<times> Order) list" where
  "rest_order b i ord qs = (if 0 < shares ord then rest_in (better b) (\<lambda>e. price (snd e)) (i, ord) qs else qs)"

definition handle_spec :: "'i \<Rightarrow> Order \<Rightarrow> 'i book \<Rightarrow>
    Order \<times> 'i book \<times> u64 list \<times> ItchOrderExecuted list" where
  "handle_spec i ord = (\<lambda>(bq, aq).
     (if buySellIndicator ord = ch_B then
        (case match_against False ord aq of (ord', aq', rs, es) \<Rightarrow>
           (ord', (rest_order True i ord' bq, aq'), rs, es))
      else
        (case match_against True ord bq of (ord', bq', rs, es) \<Rightarrow>
           (ord', (bq', rest_order False i ord' aq), rs, es))))"

section \<open>Representation\<close>

definition own :: "entry list \<times> entry list \<Rightarrow> u32 set" where
  "own = (\<lambda>(bq, aq). fst ` set bq \<union> fst ` set aq)"

definition book_rel :: "PoolNode list \<Rightarrow> OrderBook \<Rightarrow> entry list \<times> entry list \<Rightarrow> bool" where
  "book_rel ns book = (\<lambda>(bq, aq). side_rel {} ns (bids book) bq \<and> bid (bids book) \<and>
     side_rel {} ns (asks book) aq \<and> \<not> bid (asks book) \<and> fst ` set bq \<inter> fst ` set aq = {})"

lemma own_simp [simp]: "own (bq, aq) = fst ` set bq \<union> fst ` set aq"
  by (simp add: own_def)

lemma book_rel_new: "book_rel ns OrderBook_new ([], [])"
  using side_rel_new [of ns] by (simp add: book_rel_def OrderBook_new_def) (simp add: LadderSide_new_def)

lemma book_rel_frame:
  assumes "book_rel ns book q" and "length ns \<le> length ns'"
    and "\<And>x. x \<in> own q \<Longrightarrow> ns' ! unat x = ns ! unat x"
  shows "book_rel ns' book q"
  using assms unfolding book_rel_def own_def by (auto intro: side_rel_frame)

lemma side_rel_pool_step:
  assumes "side_rel X (nodes pool) s qs" and st: "pool_step pool fs A pool' fs' A'"
    and "fst ` set qs \<subseteq> in_use pool fs" and "A \<inter> fst ` set qs = {}"
  shows "side_rel X (nodes pool') s qs"
  using assms(1) pool_step_growth [OF st] by (rule side_rel_frame) (rule pool_step_other [OF st assms(3,4)])

lemma book_rel_pool_step:
  assumes "book_rel (nodes pool) book q" and st: "pool_step pool fs A pool' fs' A'"
    and "own q \<subseteq> in_use pool fs" and "A \<inter> own q = {}"
  shows "book_rel (nodes pool') book q"
  using assms(1) pool_step_growth [OF st] by (rule book_rel_frame) (rule pool_step_other [OF st assms(3,4)])

section \<open>Resting the remainder\<close>

lemma rest_remainder:
  assumes rel: "side_rel {} (nodes pool) s qs" and ok: "pool_ok pool fs"
    and room: "card (in_use pool fs) < unat INVALID_INDEX" and own: "fst ` set qs \<subseteq> in_use pool fs"
    and ord: "0 < shares ord" "buySellIndicator ord = side_char (bid s)"
  obtains idx pool1 pool2 s' fs' where "allocate pool ord = Some (idx, pool1)"
    "side_add pool1 s (price ord) idx = Some (pool2, s')" "idx \<noteq> INVALID_INDEX" "idx \<notin> in_use pool fs"
    "side_rel {} (nodes pool2) s' (rest_in (better (bid s)) eprice (idx, ord) qs)" "bid s' = bid s"
    "pool_step pool fs (fst ` set qs) pool2 fs' (insert idx (fst ` set qs))"
proof -
  obtain idx pool1 fs1 where al: "allocate pool ord = Some (idx, pool1)" "pool_step pool fs {} pool1 fs1 {idx}"
    "idx \<noteq> INVALID_INDEX" "idx \<notin> in_use pool fs" "nodes pool1 ! unat idx = fresh_node ord"
    using pool_step_allocate [OF ok] room unfolding has_room_iff [OF ok] by metis
  have rel1: "side_rel {} (nodes pool1) s qs" by (rule side_rel_pool_step [OF rel al(2) own]) simp
  have st1: "pool_step pool fs (fst ` set qs) pool1 fs1 (insert idx (fst ` set qs))"
    using pool_step_frame [OF al(2) own] by simp
  have "idx \<in> in_use pool1 fs1" using pool_step_owned [OF st1] by simp
  then have idx: "idx \<in> slots pool1" "idx \<notin> fst ` set qs" using al(4) own by (auto simp: in_use_def)
  have nd: "norder (nodes pool1 ! unat idx) = ord" using al(5) by (simp add: fresh_node_def)
  obtain pool2 s' where ad: "side_add pool1 s (price ord) idx = Some (pool2, s')"
    "side_rel {} (nodes pool2) s' (rest_in (better (bid s)) eprice (idx, ord) qs)"
    "bid s' = bid s" "relinks pool1 pool2 (insert idx (fst ` set qs))"
    by (rule side_add_spec [OF rel1 idx(1) al(3) idx(2) nd ord])
  have "pool_step pool1 fs1 (insert idx (fst ` set qs)) pool2 fs1 (insert idx (fst ` set qs))"
    by (rule pool_step_write [OF pool_step_ok [OF st1] pool_step_owned [OF st1]])
      (use ad(4) in \<open>auto simp: relinks_def\<close>)
  from pool_step_trans [OF st1 this] show ?thesis using al ad by (intro that)
qed

text \<open>The last third of both handlers, with the index \<open>INVALID_INDEX\<close> when nothing rests.\<close>

lemma rest_if_any:
  assumes rel: "side_rel {} (nodes pool) s qs" and ok: "pool_ok pool fs"
    and room: "card (in_use pool fs) < unat INVALID_INDEX" and own: "fst ` set qs \<subseteq> in_use pool fs"
    and ord: "buySellIndicator ord = side_char (bid s)"
  obtains idx pool' s' fs' where
    "(if 0 < shares ord then do { (idx, pool) \<leftarrow> allocate pool ord;
        (pool, side) \<leftarrow> side_add pool s (price ord) idx; Some (pool, f side, idx) }
      else Some (pool, f s, INVALID_INDEX)) = Some (pool', f s', idx)"
    "idx = INVALID_INDEX \<longleftrightarrow> shares ord = 0"
    "side_rel {} (nodes pool') s' (rest_order (bid s) idx ord qs)" "bid s' = bid s"
    "pool_step pool fs (fst ` set qs) pool' fs' (fst ` set (rest_order (bid s) idx ord qs))"
proof (cases "shares ord = 0")
  case True
  then show ?thesis
    by (intro that [of pool s INVALID_INDEX fs]) (use rel ok own pool_step_refl in \<open>auto simp: rest_order_def\<close>)
next
  case False
  then have pos: "0 < shares ord" by (simp add: word_neq_0_conv)
  show ?thesis
  proof (rule rest_remainder [OF rel ok room own pos ord])
    fix idx pool1 pool2 s' fs'
    assume "allocate pool ord = Some (idx, pool1)" "side_add pool1 s (price ord) idx = Some (pool2, s')"
      "idx \<noteq> INVALID_INDEX" "idx \<notin> in_use pool fs"
      "side_rel {} (nodes pool2) s' (rest_in (better (bid s)) eprice (idx, ord) qs)" "bid s' = bid s"
      "pool_step pool fs (fst ` set qs) pool2 fs' (insert idx (fst ` set qs))"
    then show ?thesis
      by (intro that [of pool2 s' idx fs']) (use pos False in \<open>simp_all add: rest_order_def\<close>)
  qed
qed

section \<open>Handling an order\<close>

lemma match_keeps:
  "match_against b ord qs = (ord', qs', rs, es) \<Longrightarrow> ord' = ord\<lparr>shares := shares ord'\<rparr>"
  by (induction b ord qs arbitrary: ord' qs' rs es rule: match_against.induct)
    (auto split: if_splits prod.splits)

lemma match_keeps_fields:
  assumes "match_against b ord qs = (ord', qs', rs, es)"
  shows "price ord' = price ord" "buySellIndicator ord' = buySellIndicator ord" "order_ref ord' = order_ref ord"
proof -
  have "price (ord\<lparr>shares := shares ord'\<rparr>) = price ord"
    "buySellIndicator (ord\<lparr>shares := shares ord'\<rparr>) = buySellIndicator ord"
    "order_ref (ord\<lparr>shares := shares ord'\<rparr>) = order_ref ord" by (simp_all add: order_ref_def)
  then show "price ord' = price ord" "buySellIndicator ord' = buySellIndicator ord" "order_ref ord' = order_ref ord"
    using match_keeps [OF assms] by metis+
qed

text \<open>Matching fills a prefix of the entries; the rest keep their slots.\<close>

lemma match_slots:
  assumes "match_against b ord qs = (ord', qs', rs, es)"
  shows "map fst qs' = drop (length rs) (map fst qs)"
    and "rs = map (\<lambda>e. order_ref (snd e)) (take (length rs) qs)"
    and "fst ` set qs' \<subseteq> fst ` set qs"
proof -
  show slots: "map fst qs' = drop (length rs) (map fst qs)"
    using assms by (induction b ord qs arbitrary: ord' qs' rs es rule: match_against.induct)
      (auto split: if_splits prod.splits)
  show "rs = map (\<lambda>e. order_ref (snd e)) (take (length rs) qs)"
    using assms by (induction b ord qs arbitrary: ord' qs' rs es rule: match_against.induct)
      (auto split: if_splits prod.splits)
  show "fst ` set qs' \<subseteq> fst ` set qs"
    using arg_cong [OF slots, of set] set_drop_subset [of "length rs" "map fst qs"] by simp
qed

text \<open>What a handler promises: the reference result on the entries, and ownership of their slots.\<close>

definition handle_post :: "OrderPool \<Rightarrow> u32 list \<Rightarrow> entry list \<times> entry list \<Rightarrow> Order \<Rightarrow> u64 list \<Rightarrow>
    ItchOrderExecuted list \<Rightarrow> HandleResult \<Rightarrow> u32 list \<Rightarrow> entry list \<times> entry list \<Rightarrow> bool" where
  "handle_post pool fs q ord rm ex res fs' q' \<longleftrightarrow>
     (\<exists>rs es. handle_spec (restingIdx res) ord q = (rorder res, q', rs, es) \<and>
        removedRefs res = rm @ rs \<and> executedOrders res = ex @ es) \<and>
     (restingIdx res = INVALID_INDEX \<longleftrightarrow> shares (rorder res) = 0) \<and>
     book_rel (nodes (rpool res)) (rbook res) q' \<and> pool_step pool fs (own q) (rpool res) fs' (own q')"

text \<open>The state in which a handler is called, \<open>own q \<subseteq> in_use pool fs\<close> included.\<close>

definition handle_pre :: "OrderPool \<Rightarrow> u32 list \<Rightarrow> OrderBook \<Rightarrow> entry list \<times> entry list \<Rightarrow> bool" where
  "handle_pre pool fs book q \<longleftrightarrow> book_rel (nodes pool) book q \<and> pool_ok pool fs \<and> own q \<subseteq> in_use pool fs \<and>
     card (in_use pool fs) < unat INVALID_INDEX"

text \<open>
  Both handlers: match against the entries \<open>qs\<close> of one side, then rest on the other, whose
  entries \<open>ts\<close> the matching does not touch.
\<close>

lemma match_then_rest:
  assumes loop: "\<exists>fs' qs' m'. loop m = Some m' \<and> progress fs qs m fs' qs' m' \<and> match_rel {} fs' qs' m' \<and>
      match_against b (morder m') qs' = (morder m', qs', [], [])"
    and b: "bid (mside m) = b" and ts: "side_rel {} (nodes (mpool m)) t ts" "bid t = (\<not> b)"
    and disj: "fst ` set qs \<inter> fst ` set ts = {}" and ok: "pool_ok (mpool m) fs"
    and own: "fst ` set qs \<union> fst ` set ts \<subseteq> in_use (mpool m) fs"
    and room: "card (in_use (mpool m) fs) < unat INVALID_INDEX"
    and ord: "buySellIndicator (morder m) = side_char (\<not> b)"
  obtains m' qs' rs es idx pool' t' fs' where "loop m = Some m'"
    "match_against b (morder m) qs = (morder m', qs', rs, es)"
    "mremoved m' = mremoved m @ rs" "mexecuted m' = mexecuted m @ es"
    "(if 0 < shares (morder m') then do { (idx, pool) \<leftarrow> allocate (mpool m') (morder m');
        (pool, side) \<leftarrow> side_add pool t (price (morder m')) idx; Some (pool, f m' side, idx) }
      else Some (mpool m', f m' t, INVALID_INDEX)) = Some (pool', f m' t', idx)"
    "idx = INVALID_INDEX \<longleftrightarrow> shares (morder m') = 0"
    "side_rel {} (nodes pool') (mside m') qs'" "bid (mside m') = b"
    "side_rel {} (nodes pool') t' (rest_order (\<not> b) idx (morder m') ts)" "bid t' = (\<not> b)"
    "fst ` set qs' \<inter> fst ` set (rest_order (\<not> b) idx (morder m') ts) = {}"
    "pool_step (mpool m) fs (fst ` set qs \<union> fst ` set ts) pool' fs'
       (fst ` set qs' \<union> fst ` set (rest_order (\<not> b) idx (morder m') ts))"
proof -
  obtain fs1 qs' m' where l: "loop m = Some m'" "progress fs qs m fs1 qs' m'" "match_rel {} fs1 qs' m'"
    "match_against b (morder m') qs' = (morder m', qs', [], [])" using loop by blast
  have st: "pool_step (mpool m) fs (fst ` set qs) (mpool m') fs1 (fst ` set qs')"
    using l(2) by (simp add: progress_def)
  obtain rs es where out: "mremoved m' = mremoved m @ rs" "mexecuted m' = mexecuted m @ es"
    "match_against b (morder m) qs = (morder m', qs', rs, es)"
    using l(2,4) b by (auto simp: progress_def)
  have b': "bid (mside m') = b" using l(2) b by (simp add: progress_def)
  have ts': "side_rel {} (nodes (mpool m')) t ts"
    by (rule side_rel_pool_step [OF ts(1) st]) (use own disj in auto)
  have iu: "in_use (mpool m') fs1 = (in_use (mpool m) fs - fst ` set qs) \<union> fst ` set qs'"
    "fst ` set qs' \<inter> (in_use (mpool m) fs - fst ` set qs) = {}"
    using st by (auto simp: pool_step_def)
  then have own': "fst ` set ts \<subseteq> in_use (mpool m') fs1" and disj': "fst ` set qs' \<inter> fst ` set ts = {}"
    using own disj by blast+
  have ind: "buySellIndicator (morder m') = side_char (bid t)"
    using match_keeps_fields(2) [OF out(3)] ord ts(2) by simp
  have "in_use (mpool m') fs1 \<subseteq> in_use (mpool m) fs"
    using iu(1) match_slots(3) [OF out(3)] own by auto
  then have room': "card (in_use (mpool m') fs1) < unat INVALID_INDEX"
    using card_mono [OF in_use_finite [OF ok]] room by (metis le_less_trans)
  show ?thesis
  proof (rule rest_if_any [OF ts' pool_step_ok [OF st] room' own' ind, of "f m'"])
    fix idx pool' t' fs'
    assume run: "(if 0 < shares (morder m') then do { (idx, pool) \<leftarrow> allocate (mpool m') (morder m');
        (pool, side) \<leftarrow> side_add pool t (price (morder m')) idx; Some (pool, f m' side, idx) }
      else Some (mpool m', f m' t, INVALID_INDEX)) = Some (pool', f m' t', idx)"
      and idx: "idx = INVALID_INDEX \<longleftrightarrow> shares (morder m') = 0"
      and rel: "side_rel {} (nodes pool') t' (rest_order (bid t) idx (morder m') ts)" "bid t' = bid t"
      and st': "pool_step (mpool m') fs1 (fst ` set ts) pool' fs' (fst ` set (rest_order (bid t) idx (morder m') ts))"
    let ?ts = "rest_order (bid t) idx (morder m') ts"
    have own1: "fst ` set qs' \<subseteq> in_use (mpool m') fs1" by (rule pool_step_owned [OF st])
    have "side_rel {} (nodes (mpool m')) (mside m') qs'" using l(3) by (simp add: match_rel_def)
    then have rel1: "side_rel {} (nodes pool') (mside m') qs'"
      by (rule side_rel_pool_step [OF _ st' own1]) (use disj' in blast)
    have fin: "fst ` set qs' \<inter> fst ` set ?ts = {}"
    proof -
      have "fst ` set ?ts \<inter> (in_use (mpool m') fs1 - fst ` set ts) = {}"
        using st' by (simp add: pool_step_def)
      then show ?thesis using own1 disj' by blast
    qed
    have "pool_step (mpool m) fs (fst ` set qs \<union> fst ` set ts) (mpool m') fs1 (fst ` set qs' \<union> fst ` set ts)"
      by (rule pool_step_frame [OF st]) (use own disj in blast)+
    moreover have "pool_step (mpool m') fs1 (fst ` set qs' \<union> fst ` set ts) pool' fs' (fst ` set qs' \<union> fst ` set ?ts)"
      unfolding Un_commute [of "fst ` set qs'"]
      by (rule pool_step_frame [OF st' own1]) (use disj' in blast)
    ultimately have "pool_step (mpool m) fs (fst ` set qs \<union> fst ` set ts) pool' fs' (fst ` set qs' \<union> fst ` set ?ts)"
      by (rule pool_step_trans)
    then show ?thesis
      using fin rel(1) unfolding ts(2)
      by (intro that [OF l(1) out(3,1,2) run idx rel1 b']) (use rel(2) ts(2) in blast)+
  qed
qed

lemma handleBuyOrder_spec:
  assumes pre: "handle_pre pool fs book (bq, aq)" and ord: "buySellIndicator ord = ch_B"
  shows "\<exists>res fs' q'. handleBuyOrder pool book ord rm ex = Some res \<and>
    handle_post pool fs (bq, aq) ord rm ex res fs' q'"
proof -
  let ?m = "\<lparr>mpool = pool, mside = asks book, morder = ord, mremoved = rm, mexecuted = ex\<rparr>"
  have br: "side_rel {} (nodes pool) (bids book) bq" "bid (bids book)" "side_rel {} (nodes pool) (asks book) aq"
    "\<not> bid (asks book)" "fst ` set aq \<inter> fst ` set bq = {}"
    and ok: "pool_ok pool fs" and own: "fst ` set aq \<union> fst ` set bq \<subseteq> in_use pool fs"
    and room: "card (in_use pool fs) < unat INVALID_INDEX"
    using pre by (auto simp: handle_pre_def book_rel_def)
  have "match_rel {} fs aq ?m" using br ok own by (simp add: match_rel_def)
  note loop = buy.terminates_and_matches [OF this]
  show ?thesis
  proof (rule match_then_rest [of buy_loop ?m fs aq False "bids book" bq "\<lambda>m side. book\<lparr>asks := mside m, bids := side\<rparr>"])
    fix m' qs' rs es idx pool' t' fs'
    assume run: "buy_loop ?m = Some m'"
      and out: "match_against False (morder ?m) aq = (morder m', qs', rs, es)"
        "mremoved m' = mremoved ?m @ rs" "mexecuted m' = mexecuted ?m @ es"
      and rest: "(if 0 < shares (morder m') then do { (idx, pool) \<leftarrow> allocate (mpool m') (morder m');
          (pool, side) \<leftarrow> side_add pool (bids book) (price (morder m')) idx;
          Some (pool, book\<lparr>asks := mside m', bids := side\<rparr>, idx) }
        else Some (mpool m', book\<lparr>asks := mside m', bids := bids book\<rparr>, INVALID_INDEX))
        = Some (pool', book\<lparr>asks := mside m', bids := t'\<rparr>, idx)"
      and post: "idx = INVALID_INDEX \<longleftrightarrow> shares (morder m') = 0"
        "side_rel {} (nodes pool') (mside m') qs'" "bid (mside m') = False"
        "side_rel {} (nodes pool') t' (rest_order (\<not> False) idx (morder m') bq)" "bid t' = (\<not> False)"
        "fst ` set qs' \<inter> fst ` set (rest_order (\<not> False) idx (morder m') bq) = {}"
        "pool_step (mpool ?m) fs (fst ` set aq \<union> fst ` set bq) pool' fs'
           (fst ` set qs' \<union> fst ` set (rest_order (\<not> False) idx (morder m') bq))"
    let ?res = "\<lparr>rpool = pool', rbook = book\<lparr>asks := mside m', bids := t'\<rparr>, rorder = morder m', restingIdx = idx,
        removedRefs = rm @ rs, executedOrders = ex @ es\<rparr>"
    have "handleBuyOrder pool book ord rm ex = Some ?res"
      unfolding handleBuyOrder_def using run rest out by (simp del: Option.bind_assoc split: if_splits)
    moreover have "handle_post pool fs (bq, aq) ord rm ex ?res fs' (rest_order True idx (morder m') bq, qs')"
      using ord out post by (simp add: handle_post_def handle_spec_def book_rel_def Int_commute Un_commute)
    ultimately show ?thesis by blast
  qed (use loop br ok own room ord in \<open>simp_all add: side_char_def\<close>)
qed

lemma handleSellOrder_spec:
  assumes pre: "handle_pre pool fs book (bq, aq)" and ord: "buySellIndicator ord = ch_S"
  shows "\<exists>res fs' q'. handleSellOrder pool book ord rm ex = Some res \<and>
    handle_post pool fs (bq, aq) ord rm ex res fs' q'"
proof -
  let ?m = "\<lparr>mpool = pool, mside = bids book, morder = ord, mremoved = rm, mexecuted = ex\<rparr>"
  have br: "side_rel {} (nodes pool) (bids book) bq" "bid (bids book)" "side_rel {} (nodes pool) (asks book) aq"
    "\<not> bid (asks book)" "fst ` set bq \<inter> fst ` set aq = {}"
    and ok: "pool_ok pool fs" and own: "fst ` set bq \<union> fst ` set aq \<subseteq> in_use pool fs"
    and room: "card (in_use pool fs) < unat INVALID_INDEX"
    using pre by (auto simp: handle_pre_def book_rel_def)
  have "match_rel {} fs bq ?m" using br ok own by (simp add: match_rel_def)
  note loop = sell.terminates_and_matches [OF this]
  show ?thesis
  proof (rule match_then_rest [of sell_loop ?m fs bq True "asks book" aq "\<lambda>m side. book\<lparr>bids := mside m, asks := side\<rparr>"])
    fix m' qs' rs es idx pool' t' fs'
    assume run: "sell_loop ?m = Some m'"
      and out: "match_against True (morder ?m) bq = (morder m', qs', rs, es)"
        "mremoved m' = mremoved ?m @ rs" "mexecuted m' = mexecuted ?m @ es"
      and rest: "(if 0 < shares (morder m') then do { (idx, pool) \<leftarrow> allocate (mpool m') (morder m');
          (pool, side) \<leftarrow> side_add pool (asks book) (price (morder m')) idx;
          Some (pool, book\<lparr>bids := mside m', asks := side\<rparr>, idx) }
        else Some (mpool m', book\<lparr>bids := mside m', asks := asks book\<rparr>, INVALID_INDEX))
        = Some (pool', book\<lparr>bids := mside m', asks := t'\<rparr>, idx)"
      and post: "idx = INVALID_INDEX \<longleftrightarrow> shares (morder m') = 0"
        "side_rel {} (nodes pool') (mside m') qs'" "bid (mside m') = True"
        "side_rel {} (nodes pool') t' (rest_order (\<not> True) idx (morder m') aq)" "bid t' = (\<not> True)"
        "fst ` set qs' \<inter> fst ` set (rest_order (\<not> True) idx (morder m') aq) = {}"
        "pool_step (mpool ?m) fs (fst ` set bq \<union> fst ` set aq) pool' fs'
           (fst ` set qs' \<union> fst ` set (rest_order (\<not> True) idx (morder m') aq))"
    let ?res = "\<lparr>rpool = pool', rbook = book\<lparr>bids := mside m', asks := t'\<rparr>, rorder = morder m', restingIdx = idx,
        removedRefs = rm @ rs, executedOrders = ex @ es\<rparr>"
    have "handleSellOrder pool book ord rm ex = Some ?res"
      unfolding handleSellOrder_def using run rest out by (simp del: Option.bind_assoc split: if_splits)
    moreover have "handle_post pool fs (bq, aq) ord rm ex ?res fs' (qs', rest_order False idx (morder m') aq)"
      using ord out post by (simp add: handle_post_def handle_spec_def book_rel_def)
    ultimately show ?thesis by blast
  qed (use loop br ok own room ord in \<open>simp_all add: side_char_def\<close>)
qed

lemma handleOrder_spec:
  assumes "handle_pre pool fs book q" and "buySellIndicator ord \<in> {ch_B, ch_S}"
  obtains res fs' q' where "handleOrder pool book ord rm ex = Some (Inr res)"
    "handle_post pool fs q ord rm ex res fs' q'"
proof -
  obtain bq aq where q: "q = (bq, aq)" by (cases q)
  show ?thesis
  proof (cases "buySellIndicator ord = ch_B")
    case True
    then obtain res fs' q' where "handleBuyOrder pool book ord rm ex = Some res"
      "handle_post pool fs q ord rm ex res fs' q'"
      using handleBuyOrder_spec [of pool fs book bq aq ord rm ex] assms(1) q by auto
    with True show ?thesis by (intro that [of res fs' q']) (simp_all add: handleOrder_def)
  next
    case False
    then have s: "buySellIndicator ord = ch_S" using assms(2) by simp
    then obtain res fs' q' where "handleSellOrder pool book ord rm ex = Some res"
      "handle_post pool fs q ord rm ex res fs' q'"
      using handleSellOrder_spec [of pool fs book bq aq ord rm ex] assms(1) q by auto
    with s show ?thesis by (intro that [of res fs' q']) (simp_all add: handleOrder_def)
  qed
qed

lemma handleOrder_throws:
  "buySellIndicator ord \<notin> {ch_B, ch_S} \<Longrightarrow>
   handleOrder pool book ord rm ex = Some (Inl (runtime_error ''Invalid buy/sell indicator''))"
  by (simp add: handleOrder_def)

section \<open>Removing by index\<close>

definition drop_book :: "u32 \<Rightarrow> entry list \<times> entry list \<Rightarrow> entry list \<times> entry list" where
  "drop_book x = map_prod (drop_entry x) (drop_entry x)"

lemma own_drop_book: "own (drop_book x q) = own q - {x}"
  by (cases q) (auto simp: drop_book_def)

lemma drop_entry_id: "x \<notin> fst ` set qs \<Longrightarrow> drop_entry x qs = qs"
  by (auto simp: drop_entry_def filter_id_conv)

lemma removeByIndex_spec:
  assumes rel: "book_rel (nodes pool) book (bq, aq)" and ok: "pool_ok pool fs"
    and own: "own (bq, aq) \<subseteq> in_use pool fs" and x: "(x, ord) \<in> set bq \<union> set aq"
  obtains pool' book' where "removeByIndex pool book x = Some (pool', book')"
    "book_rel (nodes pool') book' (drop_book x (bq, aq))"
    "pool_step pool fs (own (bq, aq)) pool' (x # fs) (own (drop_book x (bq, aq)))"
proof -
  define b where "b \<longleftrightarrow> (x, ord) \<in> set bq"
  define s where "s = (if b then bids book else asks book)"
  define t where "t = (if b then asks book else bids book)"
  define qs where "qs = (if b then bq else aq)"
  define ts where "ts = (if b then aq else bq)"
  have xq: "(x, ord) \<in> set qs" using x by (auto simp: qs_def b_def)
  have r: "side_rel {} (nodes pool) s qs" "bid s = b" "side_rel {} (nodes pool) t ts" "bid t = (\<not> b)"
    "fst ` set qs \<inter> fst ` set ts = {}" "own (bq, aq) = fst ` set qs \<union> fst ` set ts"
    using rel by (auto simp: book_rel_def s_def t_def qs_def ts_def)
  have nd: "x \<in> slots pool" "norder (nodes pool ! unat x) = ord" "buySellIndicator ord = side_char b"
    using r(1,2) xq by (auto simp: side_rel_def entries_ok_def slots_def)
  obtain p1 s' where rm: "side_remove pool s (price ord) x = Some (p1, s')"
    "side_rel {} (nodes p1) s' (drop_entry x qs)" "bid s' = bid s" "relinks pool p1 (fst ` set qs - {x})"
    by (rule side_remove_spec [OF r(1) xq])
  let ?p = "freed p1 x" and ?book = "if b then book\<lparr>bids := s'\<rparr> else book\<lparr>asks := s'\<rparr>"
  have run: "removeByIndex pool book x = Some (?p, ?book)"
    using nd rm(1) relinks_slots [OF rm(4)]
    by (auto simp: removeByIndex_def pool_simps pool_free_Some s_def side_char_def)
  have iu: "fst ` set qs \<subseteq> in_use pool fs" "fst ` set ts \<subseteq> in_use pool fs" using own r(6) by blast+
  have st1: "pool_step pool fs (fst ` set qs) p1 fs (fst ` set qs)"
    by (rule pool_step_write [OF ok iu(1)]) (use rm(4) in \<open>simp_all add: relinks_def\<close>)
  have "x \<in> fst ` set qs" using xq by force
  then have st2: "pool_step p1 fs (fst ` set qs) ?p (x # fs) (fst ` set qs - {x})"
    by (rule pool_step_freed [OF pool_step_ok [OF st1] pool_step_owned [OF st1]])
  note st = pool_step_trans [OF st1 st2]
  have ts: "side_rel {} (nodes ?p) t ts" by (rule side_rel_pool_step [OF r(3) st iu(2) r(5)])
  have "nodes ?p ! unat y = nodes p1 ! unat y" if "y \<in> fst ` set (drop_entry x qs)" for y
    by (rule freed_other) (use that in auto)
  then have qs: "side_rel {} (nodes ?p) s' (drop_entry x qs)"
    by (intro side_rel_frame [OF rm(2)]) simp_all
  have dt: "drop_entry x ts = ts" by (rule drop_entry_id) (use r(5) \<open>x \<in> fst ` set qs\<close> in blast)
  have "book_rel (nodes ?p) ?book (drop_book x (bq, aq))"
    using qs ts dt r(2,4,5) rm(3) unfolding book_rel_def drop_book_def s_def t_def qs_def ts_def
    by (cases b) auto
  moreover have "pool_step pool fs (own (bq, aq)) ?p (x # fs) (own (drop_book x (bq, aq)))"
  proof -
    have "pool_step pool fs (fst ` set qs \<union> fst ` set ts) ?p (x # fs) (fst ` set qs - {x} \<union> fst ` set ts)"
      by (rule pool_step_frame [OF st iu(2) r(5)])
    moreover have "fst ` set qs - {x} \<union> fst ` set ts = own (drop_book x (bq, aq))"
      unfolding own_drop_book r(6) using r(5) \<open>x \<in> fst ` set qs\<close> by blast
    ultimately show ?thesis using r(6) by simp
  qed
  ultimately show ?thesis by (rule that [OF run])
qed

section \<open>Rewriting an order in place\<close>

definition set_book :: "u32 \<Rightarrow> Order \<Rightarrow> entry list \<times> entry list \<Rightarrow> entry list \<times> entry list" where
  "set_book x ord = map_prod (set_entry x ord) (set_entry x ord)"

lemma own_set_book [simp]: "own (set_book x ord q) = own q"
  by (cases q) (simp add: set_book_def)

lemma set_entry_id: "x \<notin> fst ` set qs \<Longrightarrow> set_entry x ord qs = qs"
  by (auto simp: set_entry_def rev_image_eqI intro!: map_idI)

lemma book_rel_set_book:
  assumes rel: "book_rel ns book (bq, aq)" and x: "(x, r) \<in> set bq \<union> set aq"
    and r': "price r' = price r" "buySellIndicator r' = buySellIndicator r" "0 < shares r'"
  shows "book_rel (ns[unat x := (ns ! unat x)\<lparr>norder := r'\<rparr>]) book (set_book x r' (bq, aq))"
proof -
  let ?ns = "ns[unat x := (ns ! unat x)\<lparr>norder := r'\<rparr>]"
  have sides: "side_rel {} ns (bids book) bq" "side_rel {} ns (asks book) aq" "bid (bids book)" "\<not> bid (asks book)"
    "fst ` set bq \<inter> fst ` set aq = {}" using rel by (auto simp: book_rel_def)
  have frame: "side_rel {} ?ns s qs \<and> set_entry x r' qs = qs" if "side_rel {} ns s qs" "x \<notin> fst ` set qs" for s qs
    by (intro conjI side_rel_frame [OF that(1)] set_entry_id [OF that(2)])
      (simp_all only: length_list_update order_refl nth_update_notin [OF that(2)])
  consider (bid) "(x, r) \<in> set bq" "x \<notin> fst ` set aq" | (ask) "(x, r) \<in> set aq" "x \<notin> fst ` set bq"
  proof (cases "(x, r) \<in> set bq")
    case True
    then have "x \<in> fst ` set bq" by (rule rev_image_eqI) simp
    then show ?thesis using that True sides(5) by blast
  next
    case False
    then have aq: "(x, r) \<in> set aq" using x by simp
    then have "x \<in> fst ` set aq" by (rule rev_image_eqI) simp
    then show ?thesis using that aq sides(5) by blast
  qed
  then have "side_rel {} ?ns (bids book) (set_entry x r' bq) \<and> side_rel {} ?ns (asks book) (set_entry x r' aq)"
  proof cases
    case bid
    then show ?thesis using side_rel_set_entry [OF sides(1) bid(1) r'] frame [OF sides(2)] by simp
  next
    case ask
    then show ?thesis using side_rel_set_entry [OF sides(2) ask(1) r'] frame [OF sides(1)] by simp
  qed
  then show ?thesis using sides(3-5) by (simp add: book_rel_def set_book_def)
qed

end
