(* ===== verification/Flat_Hash_Map.thy ===== *)
theory Flat_Hash_Map
  imports Interfaces
begin

text \<open>
  The open-addressed hash table (\<^verbatim>\<open>include/flat_hash_map.hpp\<close>) with 64-bit keys and the
  sentinel \<open>EMPTY = UINT64_MAX\<close>, the instance the engine uses.  The template flag \<open>Identity\<close>
  is a field.  Each probe loop is a \<^theory_text>\<open>partial_function (option)\<close>, because on a full table
  it does not end.  The proofs show that with a free slot left every operation returns and
  that the table behaves as a finite map; deletion by Algorithm R keeps every probe chain.
\<close>

section \<open>Model\<close>

definition EMPTY :: u64 where
  "EMPTY = 0xFFFFFFFFFFFFFFFF"

record 'v Entry =
  ekey :: u64
  evalue :: 'v

record 'v FlatHashMap =
  hmask :: u64
  table :: "'v Entry list"
  identity :: bool

definition FlatHashMap_new :: "bool \<Rightarrow> 'v \<Rightarrow> u64 \<Rightarrow> 'v FlatHashMap option" where
  "FlatHashMap_new ident v0 capacity =
     (if capacity AND (capacity - 1) = 0 \<and> capacity > 0
      then Some \<lparr>hmask = capacity - 1,
             table = replicate (unat capacity) \<lparr>ekey = EMPTY, evalue = v0\<rparr>, identity = ident\<rparr>
      else None)"

definition hash :: "'v FlatHashMap \<Rightarrow> u64 \<Rightarrow> u64" where
  "hash m k = (if identity m then k AND hmask m else (k * 11400714819323198485) AND hmask m)"

partial_function (option) insert_probe :: "'v FlatHashMap \<Rightarrow> u64 \<Rightarrow> u64 \<Rightarrow> u64 option" where
  "insert_probe m k idx = do {
     e \<leftarrow> vec_at (table m) idx;
     if ekey e \<noteq> EMPTY \<and> ekey e \<noteq> k then insert_probe m k ((idx + 1) AND hmask m)
     else Some idx }"

definition hm_insert :: "'v FlatHashMap \<Rightarrow> u64 \<Rightarrow> 'v \<Rightarrow> 'v FlatHashMap option" where
  "hm_insert m k v = do {
     idx \<leftarrow> insert_probe m k (hash m k);
     t \<leftarrow> vec_put (table m) idx \<lparr>ekey = k, evalue = v\<rparr>;
     Some (m\<lparr>table := t\<rparr>) }"

text \<open>\<open>find\<close> returns a pointer to the value, or \<open>nullptr\<close>: an optional value.\<close>

partial_function (option) find_probe :: "'v FlatHashMap \<Rightarrow> u64 \<Rightarrow> u64 \<Rightarrow> 'v option option" where
  "find_probe m k idx = do {
     e \<leftarrow> vec_at (table m) idx;
     if ekey e \<noteq> EMPTY then
       (if ekey e = k then Some (Some (evalue e)) else find_probe m k ((idx + 1) AND hmask m))
     else Some None }"

definition hm_find :: "'v FlatHashMap \<Rightarrow> u64 \<Rightarrow> 'v option option" where
  "hm_find m k = find_probe m k (hash m k)"

partial_function (option) erase_probe :: "'v FlatHashMap \<Rightarrow> u64 \<Rightarrow> u64 \<Rightarrow> u64 option" where
  "erase_probe m k i = do {
     e \<leftarrow> vec_at (table m) i;
     if ekey e \<noteq> EMPTY then
       (if ekey e = k then Some i else erase_probe m k ((i + 1) AND hmask m))
     else Some i }"

partial_function (option) erase_shift ::
  "'v FlatHashMap \<Rightarrow> u64 \<Rightarrow> u64 \<Rightarrow> 'v FlatHashMap option" where
  "erase_shift m i j0 = (let j = (j0 + 1) AND hmask m in do {
     e \<leftarrow> vec_at (table m) j;
     if ekey e = EMPTY then Some m
     else (let h = hash m (ekey e) in
       if (j - h) AND hmask m \<ge> (j - i) AND hmask m then do {
         t \<leftarrow> vec_put (table m) i e;
         t \<leftarrow> vec_put t j (e\<lparr>ekey := EMPTY\<rparr>);
         erase_shift (m\<lparr>table := t\<rparr>) j j }
       else erase_shift m i j) })"

definition hm_erase :: "'v FlatHashMap \<Rightarrow> u64 \<Rightarrow> 'v FlatHashMap option" where
  "hm_erase m k = do {
     i \<leftarrow> erase_probe m k (hash m k);
     e \<leftarrow> vec_at (table m) i;
     if ekey e = EMPTY then Some m
     else do {
       t \<leftarrow> vec_put (table m) i (e\<lparr>ekey := EMPTY\<rparr>);
       erase_shift (m\<lparr>table := t\<rparr>) i i } }"

section \<open>The finite map a table represents\<close>

definition hm_map :: "'v FlatHashMap \<Rightarrow> u64 \<Rightarrow> 'v option" where
  "hm_map m k = (if k = EMPTY then None
     else map_option evalue (List.find (\<lambda>e. ekey e = k) (table m)))"

definition occ :: "'v Entry list \<Rightarrow> nat \<Rightarrow> bool" where
  "occ t i \<longleftrightarrow> ekey (t ! i) \<noteq> EMPTY"

text \<open>
  \<open>on_path t h x y\<close>: slot \<open>y\<close> lies before \<open>x\<close> on the probe path that starts at home \<open>h\<close>.
\<close>

definition on_path :: "'v Entry list \<Rightarrow> nat \<Rightarrow> nat \<Rightarrow> nat \<Rightarrow> bool" where
  "on_path t h x y \<longleftrightarrow> cdist (length t) h y < cdist (length t) h x"

definition keys_distinct :: "'v Entry list \<Rightarrow> bool" where
  "keys_distinct t \<longleftrightarrow>
     (\<forall>x < length t. \<forall>y < length t. occ t x \<longrightarrow> ekey (t ! x) = ekey (t ! y) \<longrightarrow> x = y)"

text \<open>Every probe path to a stored key is free of holes, except possibly the slots of \<open>H\<close>.\<close>

definition chains_ok :: "(u64 \<Rightarrow> nat) \<Rightarrow> 'v Entry list \<Rightarrow> nat set \<Rightarrow> bool" where
  "chains_ok home t H \<longleftrightarrow>
     (\<forall>x < length t. occ t x \<longrightarrow>
        (\<forall>y < length t. on_path t (home (ekey (t ! x))) x y \<longrightarrow> occ t y \<or> y \<in> H))"

lemma chains_okD:
  "chains_ok home t H \<Longrightarrow> x < length t \<Longrightarrow> occ t x \<Longrightarrow> y < length t \<Longrightarrow>
   cdist (length t) (home (ekey (t ! x))) y < cdist (length t) (home (ekey (t ! x))) x \<Longrightarrow>
   occ t y \<or> y \<in> H"
  by (simp add: chains_ok_def on_path_def)

definition home :: "'v FlatHashMap \<Rightarrow> u64 \<Rightarrow> nat" where
  "home m k = unat (hash m k)"

definition hm_shape :: "'v FlatHashMap \<Rightarrow> bool" where
  "hm_shape m \<longleftrightarrow> (\<exists>n < 64. hmask m = mask n \<and> length (table m) = 2 ^ n)"

definition hm_ok :: "'v FlatHashMap \<Rightarrow> bool" where
  "hm_ok m \<longleftrightarrow> hm_shape m \<and> keys_distinct (table m) \<and> chains_ok (home m) (table m) {} \<and>
     (\<exists>e < length (table m). \<not> occ (table m) e)"

definition content :: "'v Entry list \<Rightarrow> (u64 \<times> 'v) set" where
  "content t = {(ekey (t ! i), evalue (t ! i)) | i. i < length t \<and> occ t i}"

lemma content_iff:
  "(k, v) \<in> content t \<longleftrightarrow>
     (\<exists>i < length t. occ t i \<and> ekey (t ! i) = k \<and> evalue (t ! i) = v)"
  by (auto simp: content_def)

definition capacity :: "'v FlatHashMap \<Rightarrow> nat" where
  "capacity m = length (table m)"

lemma hash_less: "hm_shape m \<Longrightarrow> home m k < length (table m)"
  by (auto simp: hm_shape_def home_def hash_def unat_and_mask)

lemma shape_next:
  "hm_shape m \<Longrightarrow> unat i < length (table m) \<Longrightarrow>
   unat ((i + 1) AND hmask m) = cnext (length (table m)) (unat i)"
  by (auto simp: hm_shape_def unat_cnext)

lemma shape_dist:
  "hm_shape m \<Longrightarrow> unat i < length (table m) \<Longrightarrow> unat j < length (table m) \<Longrightarrow>
   unat ((j - i) AND hmask m) = cdist (length (table m)) (unat i) (unat j)"
  by (auto simp: hm_shape_def unat_cdist)

lemma shape_update [simp]: "length t = length (table m) \<Longrightarrow> hm_shape (m\<lparr>table := t\<rparr>) = hm_shape m"
  by (simp add: hm_shape_def)

lemma hash_update [simp]: "hash (m\<lparr>table := t\<rparr>) k = hash m k"
  by (simp add: hash_def)

lemma home_update [simp]: "home (m\<lparr>table := t\<rparr>) = home m"
  by (rule ext) (simp add: home_def)

lemma hm_map_content:
  assumes "keys_distinct (table m)"
  shows "hm_map m k = Some v \<longleftrightarrow> (k, v) \<in> content (table m)"
proof
  assume "hm_map m k = Some v"
  then have "k \<noteq> EMPTY" and "\<exists>e. List.find (\<lambda>e. ekey e = k) (table m) = Some e \<and> evalue e = v"
    by (auto simp: hm_map_def split: if_splits)
  then show "(k, v) \<in> content (table m)"
    by (auto simp: content_def occ_def find_Some_iff)
next
  assume "(k, v) \<in> content (table m)"
  then obtain i where i: "i < length (table m)" "ekey (table m ! i) = k" "evalue (table m ! i) = v"
    and k: "k \<noteq> EMPTY" by (auto simp: content_def occ_def)
  then have "table m ! i \<in> set (table m) \<and> ekey (table m ! i) = k" by simp
  then have "List.find (\<lambda>e. ekey e = k) (table m) \<noteq> None"
    unfolding find_None_iff by blast
  then obtain e where e: "List.find (\<lambda>e. ekey e = k) (table m) = Some e" by blast
  then obtain j where j: "j < length (table m)" "ekey (table m ! j) = k" "e = table m ! j"
    by (auto simp: find_Some_iff)
  with i k assms have "j = i" by (auto simp: keys_distinct_def occ_def)
  with e i j k show "hm_map m k = Some v" by (simp add: hm_map_def)
qed

lemma hm_map_eqI:
  assumes "keys_distinct (table m)" and "\<And>k v. (k, v) \<in> content (table m) \<longleftrightarrow> f k = Some v"
  shows "hm_map m = f"
  by (rule ext, rule option_eqI) (simp add: assms hm_map_content)

text \<open>Two tables with the same keys have the same probe chains.\<close>

lemma same_keys:
  assumes "length t' = length t" and "\<And>x. x < length t \<Longrightarrow> ekey (t' ! x) = ekey (t ! x)"
  shows "keys_distinct t' = keys_distinct t" and "chains_ok hm t' H = chains_ok hm t H"
    and "x < length t \<Longrightarrow> occ t' x = occ t x"
    and "(\<exists>e < length t. \<not> occ t' e) = (\<exists>e < length t. \<not> occ t e)"
  using assms by (auto simp: keys_distinct_def chains_ok_def on_path_def occ_def)

section \<open>Probing\<close>

text \<open>\<open>stop_at m k i s\<close>: going forward from \<open>i\<close>, slot \<open>s\<close> is the first that is empty or holds \<open>k\<close>.\<close>

definition stops :: "'v FlatHashMap \<Rightarrow> u64 \<Rightarrow> nat \<Rightarrow> bool" where
  "stops m k x \<longleftrightarrow> \<not> occ (table m) x \<or> ekey (table m ! x) = k"

definition stop_at :: "'v FlatHashMap \<Rightarrow> u64 \<Rightarrow> nat \<Rightarrow> nat \<Rightarrow> bool" where
  "stop_at m k i s \<longleftrightarrow> s < length (table m) \<and> stops m k s \<and>
     (\<forall>x < length (table m). cdist (length (table m)) i x < cdist (length (table m)) i s \<longrightarrow>
        \<not> stops m k x)"

lemma stop_at_exists:
  assumes "e < length (table m)" and "\<not> occ (table m) e"
  shows "\<exists>s. stop_at m k i s"
proof -
  let ?N = "length (table m)"
  have "\<exists>s. (s < ?N \<and> stops m k s) \<and>
      (\<forall>x. x < ?N \<and> stops m k x \<longrightarrow> cdist ?N i s \<le> cdist ?N i x)"
    by (rule ex_has_least_nat [of _ e]) (use assms in \<open>simp add: stops_def\<close>)
  then show ?thesis by (auto simp: stop_at_def) (meson leD)
qed

lemma stop_at_unique:
  "stop_at m k i s \<Longrightarrow> stop_at m k i s' \<Longrightarrow> i < length (table m) \<Longrightarrow> s = s'"
  unfolding stop_at_def by (metis cdist_inj linorder_neqE_nat)

lemma stop_at_step:
  assumes "stop_at m k i s" and "i < length (table m)" and "\<not> stops m k i"
  shows "stop_at m k (cnext (length (table m)) i) s"
    and "cdist (length (table m)) (cnext (length (table m)) i) s < cdist (length (table m)) i s"
proof -
  let ?N = "length (table m)"
  have s: "s < ?N" "s \<noteq> i" "stops m k s" using assms by (auto simp: stop_at_def)
  show lt: "cdist ?N (cnext ?N i) s < cdist ?N i s"
    using cdist_cnext [of s ?N i] s assms(2) by auto
  have "cdist ?N i x < cdist ?N i s"
    if "x < ?N" "cdist ?N (cnext ?N i) x < cdist ?N (cnext ?N i) s" for x
    using that s assms(2) by (auto simp: cdist_def cnext_def split: if_splits)
  with assms(1) s show "stop_at m k (cnext ?N i) s"
    by (auto simp: stop_at_def)
qed

text \<open>One induction serves the three probe loops: they advance until they stop.\<close>

lemma probe_induct [consumes 3, case_names stop step]:
  assumes "hm_shape m" and "stop_at m k (unat i) s" and "unat i < length (table m)"
    and stop: "\<And>i. unat i = s \<Longrightarrow> unat i < length (table m) \<Longrightarrow> stops m k s \<Longrightarrow> P i"
    and step: "\<And>i. unat i < length (table m) \<Longrightarrow> \<not> stops m k (unat i) \<Longrightarrow>
      P ((i + 1) AND hmask m) \<Longrightarrow> P i"
  shows "P i"
  using assms(2,3)
proof (induction "cdist (length (table m)) (unat i) s" arbitrary: i rule: less_induct)
  case less
  let ?N = "length (table m)"
  show ?case
  proof (cases "stops m k (unat i)")
    case True
    then have "cdist ?N (unat i) s \<le> cdist ?N (unat i) (unat i)"
      using less.prems by (auto simp: stop_at_def not_less [symmetric])
    then have "unat i = s"
      using less.prems cdist_eq_0 [of "unat i" ?N s] by (simp add: stop_at_def)
    with True less.prems show ?thesis by (intro stop) auto
  next
    case False
    let ?j = "(i + 1) AND hmask m"
    have j: "unat ?j = cnext ?N (unat i)"
      using assms(1) less.prems(2) by (rule shape_next)
    show ?thesis
    proof (rule step [OF less.prems(2) False], rule less.hyps)
      show "stop_at m k (unat ?j) s"
        using stop_at_step(1) [OF less.prems False] j by simp
      show "cdist ?N (unat ?j) s < cdist ?N (unat i) s"
        using stop_at_step(2) [OF less.prems False] j by simp
      show "unat ?j < ?N" using j less.prems(2) by (simp add: cnext_less)
    qed
  qed
qed

lemma insert_probe_stop:
  assumes "hm_shape m" and "stop_at m k (unat i) s" and "unat i < length (table m)"
  shows "insert_probe m k i = Some (of_nat s)"
  using assms
proof (induction i rule: probe_induct)
  case (stop i)
  then show ?case
    by (subst insert_probe.simps) (auto simp: vec_simps stops_def occ_def)
next
  case (step i)
  then show ?case
    by (subst insert_probe.simps) (simp add: vec_simps stops_def occ_def)
qed

lemma erase_probe_stop:
  assumes "hm_shape m" and "stop_at m k (unat i) s" and "unat i < length (table m)"
  shows "erase_probe m k i = Some (of_nat s)"
  using assms
proof (induction i rule: probe_induct)
  case (stop i)
  then show ?case
    by (subst erase_probe.simps) (auto simp: vec_simps stops_def occ_def)
next
  case (step i)
  then show ?case
    by (subst erase_probe.simps) (simp add: vec_simps stops_def occ_def)
qed

lemma find_probe_stop:
  assumes "hm_shape m" and "stop_at m k (unat i) s" and "unat i < length (table m)"
  shows "find_probe m k i =
    Some (if occ (table m) s then Some (evalue (table m ! s)) else None)"
  using assms
proof (induction i rule: probe_induct)
  case (stop i)
  then show ?case
    by (subst find_probe.simps) (auto simp: vec_simps stops_def occ_def)
next
  case (step i)
  then show ?case
    by (subst find_probe.simps) (simp add: vec_simps stops_def occ_def)
qed

text \<open>Where probing from the home slot stops, in terms of the stored content.\<close>

lemma stop_at_home:
  assumes "hm_ok m" and st: "stop_at m k (home m k) s"
  shows "(occ (table m) s \<longrightarrow> ekey (table m ! s) = k) \<and>
    (\<not> occ (table m) s \<longrightarrow> (\<forall>x < length (table m). occ (table m) x \<longrightarrow> ekey (table m ! x) \<noteq> k))"
proof (intro conjI impI allI)
  assume "occ (table m) s"
  then show "ekey (table m ! s) = k" using st by (simp add: stop_at_def stops_def)
next
  fix x assume no: "\<not> occ (table m) s" and x: "x < length (table m)" "occ (table m) x"
  let ?N = "length (table m)"
  show "ekey (table m ! x) \<noteq> k"
  proof
    assume k: "ekey (table m ! x) = k"
    with st x have "\<not> cdist ?N (home m k) x < cdist ?N (home m k) s"
      by (auto simp: stop_at_def stops_def)
    moreover have "s \<noteq> x" using no x by blast
    moreover have "home m k < ?N" using assms(1) by (simp add: hm_ok_def hash_less)
    ultimately have "on_path (table m) (home m k) x s"
      using st x cdist_inj [of "home m k" ?N s x] by (auto simp: stop_at_def on_path_def)
    with assms(1) x k no st show False
      by (auto simp: hm_ok_def chains_ok_def stop_at_def)
  qed
qed

lemma hm_ok_stop:
  assumes "hm_ok m"
  obtains s where "stop_at m k (unat (hash m k)) s" "unat (hash m k) < length (table m)" "hm_shape m"
proof -
  from assms obtain e where "e < length (table m)" "\<not> occ (table m) e" by (auto simp: hm_ok_def)
  then obtain s where "stop_at m k (unat (hash m k)) s" using stop_at_exists by blast
  moreover have "unat (hash m k) < length (table m)"
    using assms hash_less [of m k] by (simp add: hm_ok_def home_def)
  ultimately show ?thesis using assms by (intro that) (simp_all add: hm_ok_def)
qed

section \<open>Lookup and insertion\<close>

lemma hm_find_spec:
  assumes "hm_ok m"
  shows "hm_find m k = Some (hm_map m k)"
proof -
  obtain s where s: "stop_at m k (unat (hash m k)) s" "unat (hash m k) < length (table m)"
    "hm_shape m" using assms by (rule hm_ok_stop)
  have kd: "keys_distinct (table m)" using assms by (simp add: hm_ok_def)
  from s(1) have "stop_at m k (home m k) s" by (simp add: home_def)
  note home = stop_at_home [OF assms this]
  have "hm_map m k = (if occ (table m) s then Some (evalue (table m ! s)) else None)"
  proof (cases "occ (table m) s")
    case True
    then have "(k, evalue (table m ! s)) \<in> content (table m)"
      using home s(1) by (auto simp: content_def stop_at_def)
    with True show ?thesis by (simp add: hm_map_content [OF kd])
  next
    case False
    have "hm_map m k \<noteq> Some v" for v
      unfolding hm_map_content [OF kd] using home False by (auto simp: content_def)
    with False show ?thesis by (cases "hm_map m k") auto
  qed
  with s show ?thesis by (simp add: hm_find_def find_probe_stop)
qed

lemma length_fits:
  "hm_shape m \<Longrightarrow> x < length (table m) \<Longrightarrow> unat (of_nat x :: u64) = x"
proof -
  assume "hm_shape m" and x: "x < length (table m)"
  then obtain n where n: "n < 64" "length (table m) = 2 ^ n" by (auto simp: hm_shape_def)
  have "(2::nat) ^ n \<le> 2 ^ 64" using n(1) by (intro power_increasing) auto
  with n x have "x < 2 ^ 64" by linarith
  then show ?thesis by (intro unat_of_nat_small) simp
qed

text \<open>Writing a key at the slot where probing for it stopped.\<close>

lemma put_at_stop:
  assumes ok: "hm_ok m" and st: "stop_at m k (home m k) s" and k: "k \<noteq> EMPTY"
    and t_def: "t = (table m)[s := \<lparr>ekey = k, evalue = v\<rparr>]"
  shows "keys_distinct t" and "chains_ok (home m) t {}"
    and "(k', v') \<in> content t \<longleftrightarrow> (if k' = k then v' = v else (k', v') \<in> content (table m))"
proof -
  let ?N = "length (table m)"
  note home = stop_at_home [OF ok st]
  have s: "s < ?N" using st by (simp add: stop_at_def)
  have len: "length t = ?N" by (simp add: t_def)
  have nth: "t ! x = (if x = s then \<lparr>ekey = k, evalue = v\<rparr> else table m ! x)" if "x < ?N" for x
    using that by (simp add: t_def nth_list_update)
  have occ: "occ t x \<longleftrightarrow> x = s \<or> occ (table m) x" if "x < ?N" for x
    using that k by (auto simp: occ_def nth)
  have other: "ekey (table m ! x) \<noteq> k" if "x < ?N" "x \<noteq> s" "occ (table m) x" for x
  proof (cases "occ (table m) s")
    case True
    with home that s ok show ?thesis by (auto simp: hm_ok_def keys_distinct_def)
  next
    case False with home that show ?thesis by blast
  qed
  have kd: "keys_distinct (table m)" and ch: "chains_ok (home m) (table m) {}"
    using ok by (auto simp: hm_ok_def)
  show "keys_distinct t" unfolding keys_distinct_def len
  proof (intro allI impI)
    fix x y assume x: "x < ?N" "y < ?N" "occ t x" and e: "ekey (t ! x) = ekey (t ! y)"
    show "x = y"
    proof (cases "x = s \<or> y = s")
      case True
      then show ?thesis
      proof
        assume "x = s"
        with x e have "ekey (t ! y) = k" by (simp add: nth)
        with x k \<open>x = s\<close> other [of y] show ?thesis by (auto simp: nth occ_def split: if_splits)
      next
        assume "y = s"
        with x e have "ekey (t ! x) = k" by (simp add: nth)
        with x k \<open>y = s\<close> other [of x] show ?thesis by (auto simp: nth occ_def split: if_splits)
      qed
    next
      case False
      with x e kd show ?thesis by (auto simp: nth occ keys_distinct_def)
    qed
  qed
  show "chains_ok (home m) t {}" unfolding chains_ok_def len on_path_def
  proof (intro allI impI)
    fix x y assume x: "x < ?N" "y < ?N" "occ t x"
      and p: "cdist ?N (home m (ekey (t ! x))) y < cdist ?N (home m (ekey (t ! x))) x"
    show "occ t y \<or> y \<in> {}"
    proof (cases "x = s")
      case True
      with p x st show ?thesis by (auto simp: nth occ stop_at_def stops_def)
    next
      case False
      with x have "occ (table m) x" "t ! x = table m ! x" by (simp_all add: occ nth)
      with p x chains_okD [OF ch, of x y] show ?thesis by (simp add: occ)
    qed
  qed
  show "(k', v') \<in> content t \<longleftrightarrow> (if k' = k then v' = v else (k', v') \<in> content (table m))"
  proof (cases "k' = k")
    case True
    have "(k, v) \<in> content t" using s k by (auto simp: content_iff len nth occ intro!: exI [of _ s])
    moreover have "v' = v" if "(k, v') \<in> content t"
    proof -
      from that obtain i where i: "i < ?N" "occ t i" "ekey (t ! i) = k" "evalue (t ! i) = v'"
        by (auto simp: content_iff len)
      with other [of i] have "i = s" by (auto simp: occ nth split: if_splits)
      with i show ?thesis by (simp add: nth)
    qed
    ultimately show ?thesis using True by auto
  next
    case False
    have "i \<noteq> s" if "occ (table m) i" "ekey (table m ! i) = k'" for i
      using that home False by auto
    with False show ?thesis
      by (auto simp: content_iff len nth occ split: if_splits)
  qed
qed

text \<open>The number of stored keys, and when a free slot is left.\<close>

lemma card_dom_occ:
  assumes "keys_distinct (table m)"
  shows "card (dom (hm_map m)) = card {i. i < length (table m) \<and> occ (table m) i}"
proof -
  let ?I = "{i. i < length (table m) \<and> occ (table m) i}"
  have "dom (hm_map m) = (\<lambda>i. ekey (table m ! i)) ` ?I"
    using assms by (auto simp: dom_def hm_map_content content_iff)
  moreover have "inj_on (\<lambda>i. ekey (table m ! i)) ?I"
    using assms by (auto simp: inj_on_def keys_distinct_def)
  ultimately show ?thesis by (simp add: card_image)
qed

lemma free_slot_iff:
  assumes "keys_distinct (table m)"
  shows "(\<exists>e < length (table m). \<not> occ (table m) e) \<longleftrightarrow> card (dom (hm_map m)) < capacity m"
proof -
  let ?I = "{i. i < length (table m) \<and> occ (table m) i}"
  have "?I \<subseteq> {..< length (table m)}" by auto
  then have "card ?I < card {..< length (table m)} \<longleftrightarrow> ?I \<noteq> {..< length (table m)}"
    by (metis card_mono card_subset_eq finite_lessThan le_neq_implies_less nat_neq_iff)
  then show ?thesis
    using card_dom_occ [OF assms] by (auto simp: capacity_def)
qed

lemma finite_dom_hm_map: "finite (dom (hm_map m))"
proof -
  have "dom (hm_map m) \<subseteq> ekey ` set (table m)"
    by (auto simp: hm_map_def find_Some_iff split: if_splits)
  then show ?thesis by (rule finite_subset) simp
qed

lemma hm_insert_put:
  assumes "hm_ok m"
  obtains s where "stop_at m k (home m k) s"
    "hm_insert m k v = Some (m\<lparr>table := (table m)[s := \<lparr>ekey = k, evalue = v\<rparr>]\<rparr>)"
proof -
  obtain s where s: "stop_at m k (unat (hash m k)) s" "unat (hash m k) < length (table m)"
    "hm_shape m" using assms by (rule hm_ok_stop)
  then have "unat (of_nat s :: u64) = s" "s < length (table m)"
    using length_fits by (auto simp: stop_at_def)
  with s show ?thesis
    by (intro that [of s]) (simp_all add: home_def hm_insert_def insert_probe_stop vec_simps)
qed

lemma hm_insert_spec:
  assumes ok: "hm_ok m" and k: "k \<noteq> EMPTY"
    and room: "k \<in> dom (hm_map m) \<or> card (dom (hm_map m)) + 1 < capacity m"
  obtains m' where "hm_insert m k v = Some m'" "hm_ok m'" "hm_map m' = (hm_map m)(k \<mapsto> v)"
    "capacity m' = capacity m"
proof -
  obtain s where st: "stop_at m k (home m k) s"
    and ins: "hm_insert m k v = Some (m\<lparr>table := (table m)[s := \<lparr>ekey = k, evalue = v\<rparr>]\<rparr>)"
    using ok by (rule hm_insert_put)
  let ?t = "(table m)[s := \<lparr>ekey = k, evalue = v\<rparr>]" and ?m = "m\<lparr>table := (table m)[s := \<lparr>ekey = k, evalue = v\<rparr>]\<rparr>"
  note put = put_at_stop [OF ok st k refl, where v = v]
  have kd: "keys_distinct (table m)" using ok by (simp add: hm_ok_def)
  have map: "hm_map ?m = (hm_map m)(k \<mapsto> v)"
    by (rule hm_map_eqI) (use put(1,3) in \<open>auto simp: hm_map_content [OF kd]\<close>)
  have "card (dom (hm_map ?m)) < capacity ?m"
    using room ok free_slot_iff [OF kd] finite_dom_hm_map [of m]
    by (auto simp: map hm_ok_def card_insert_if insert_absorb capacity_def)
  then have "hm_ok ?m"
    using put ok free_slot_iff [of ?m] by (simp add: hm_ok_def)
  with map show ?thesis by (intro that [OF ins]) (simp_all add: capacity_def)
qed

text \<open>The sentinel is not stored: inserting it leaves the map as it was.\<close>

lemma hm_insert_EMPTY:
  assumes ok: "hm_ok m"
  obtains m' where "hm_insert m EMPTY v = Some m'" "hm_ok m'" "hm_map m' = hm_map m"
    "capacity m' = capacity m"
proof -
  obtain s where st: "stop_at m EMPTY (home m EMPTY) s"
    and ins: "hm_insert m EMPTY v = Some (m\<lparr>table := (table m)[s := \<lparr>ekey = EMPTY, evalue = v\<rparr>]\<rparr>)"
    using ok by (rule hm_insert_put)
  let ?t = "(table m)[s := \<lparr>ekey = EMPTY, evalue = v\<rparr>]"
  have s: "s < length (table m)" "ekey (table m ! s) = EMPTY"
    using st by (auto simp: stop_at_def stops_def occ_def)
  then have key: "ekey (?t ! x) = ekey (table m ! x)" if "x < length (table m)" for x
    using that by (auto simp: nth_list_update)
  note same = same_keys [of ?t "table m", simplified, OF key]
  have ok': "hm_ok (m\<lparr>table := ?t\<rparr>)" using ok same by (simp add: hm_ok_def)
  have "evalue (?t ! i) = evalue (table m ! i)" if "occ (table m) i" "i < length (table m)" for i
    using that s by (auto simp: occ_def nth_list_update)
  then have "(k, w) \<in> content ?t \<longleftrightarrow> (k, w) \<in> content (table m)" for k w
    using same(3) by (simp add: content_iff key cong: conj_cong)
  moreover have "keys_distinct (table m)" using ok by (simp add: hm_ok_def)
  ultimately have "hm_map (m\<lparr>table := ?t\<rparr>) = hm_map m"
    using ok' by (intro hm_map_eqI) (simp_all add: hm_ok_def hm_map_content)
  with ok' show ?thesis by (intro that [OF ins]) (simp_all add: capacity_def)
qed

section \<open>Deletion by Algorithm R\<close>

text \<open>
  The state of the shift loop: slot \<open>i\<close> is a hole, every slot from \<open>i\<close> up to \<open>j\<close> is occupied
  by a key whose path does not need the hole, probe paths are intact up to the hole, and some
  free slot \<open>e\<close> lies ahead of \<open>j\<close>.
\<close>

definition shift_inv :: "(u64 \<Rightarrow> nat) \<Rightarrow> 'v Entry list \<Rightarrow> nat \<Rightarrow> nat \<Rightarrow> nat \<Rightarrow> bool" where
  "shift_inv hm t i j e \<longleftrightarrow>
     i < length t \<and> j < length t \<and> e < length t \<and> \<not> occ t i \<and> \<not> occ t e \<and>
     cdist (length t) i j < cdist (length t) i e \<and>
     keys_distinct t \<and> chains_ok hm t {i} \<and>
     (\<forall>x < length t. x \<noteq> i \<longrightarrow> cdist (length t) i x \<le> cdist (length t) i j \<longrightarrow>
        occ t x \<and> \<not> on_path t (hm (ekey (t ! x))) x i)"

lemma shift_inv_next:
  assumes "shift_inv hm t i j e"
  shows "cnext (length t) j < length t" "cnext (length t) j \<noteq> i"
    "cdist (length t) i (cnext (length t) j) = Suc (cdist (length t) i j)"
    "cdist (length t) (cnext (length t) j) e < cdist (length t) j e"
  using assms unfolding shift_inv_def
  by (auto simp: cdist_def cnext_def split: if_splits)

text \<open>The loop ends at a free slot: then the hole is on no path any more.\<close>

lemma shift_stop:
  assumes inv: "shift_inv hm t i j e" and "\<And>k. hm k < length t"
    and free: "\<not> occ t (cnext (length t) j)"
  shows "chains_ok hm t {}"
  unfolding chains_ok_def on_path_def
proof (intro allI impI)
  let ?N = "length t" and ?j = "cnext (length t) j"
  fix x y assume x: "x < ?N" "occ t x" "y < ?N"
    and p: "cdist ?N (hm (ekey (t ! x))) y < cdist ?N (hm (ekey (t ! x))) x"
  let ?h = "hm (ekey (t ! x))"
  have h: "?h < ?N" by (rule assms(2))
  from inv have ch: "chains_ok hm t {i}" and i: "i < ?N" "\<not> occ t i"
    by (auto simp: shift_inv_def)
  note nx = shift_inv_next [OF inv]
  show "occ t y \<or> y \<in> {}"
  proof (rule ccontr)
    assume "\<not> (occ t y \<or> y \<in> {})"
    with chains_okD [OF ch x p] have "y = i" by simp
    with p have on: "on_path t ?h x i" by (simp add: on_path_def)
    with inv x i have far: "cdist ?N i j < cdist ?N i x"
      by (auto simp: shift_inv_def not_less)
    moreover have "x \<noteq> ?j" using free x by auto
    ultimately have "cdist ?N i ?j < cdist ?N i x"
      using nx i x cdist_inj [of i ?N ?j x] by simp
    then have "cdist ?N ?h ?j < cdist ?N ?h x"
      using on i x h nx(1) by (auto simp: on_path_def cdist_def split: if_splits)
    with chains_okD [OF ch x(1,2) nx(1)] free nx(2) show False by simp
  qed
qed

text \<open>An occupant that does not need the hole stays, and the scan goes on.\<close>

lemma shift_keep:
  assumes inv: "shift_inv hm t i j e" and "\<And>k. hm k < length t"
    and occ: "occ t (cnext (length t) j)"
    and keep: "cdist (length t) (hm (ekey (t ! cnext (length t) j))) (cnext (length t) j)
      < cdist (length t) i (cnext (length t) j)"
  shows "shift_inv hm t i (cnext (length t) j) e"
proof -
  let ?N = "length t" and ?j = "cnext (length t) j"
  let ?h = "hm (ekey (t ! ?j))"
  note nx = shift_inv_next [OF inv]
  from inv have i: "i < ?N" "e < ?N" "\<not> occ t e" "cdist ?N i j < cdist ?N i e"
    by (auto simp: shift_inv_def)
  have "?j \<noteq> e" using occ i by auto
  then have "cdist ?N i ?j < cdist ?N i e"
    using nx i cdist_inj [of i ?N ?j e] by simp
  moreover have "\<not> on_path t ?h ?j i"
    using keep i nx(1) assms(2) [of "ekey (t ! ?j)"]
    by (auto simp: on_path_def cdist_def split: if_splits)
  moreover have "x = ?j" if "x < ?N" "cdist ?N i x \<le> cdist ?N i ?j" "\<not> cdist ?N i x \<le> cdist ?N i j" for x
    using that nx i cdist_inj [of i ?N x ?j] by simp
  ultimately show ?thesis
    using inv occ nx(1) unfolding shift_inv_def by blast
qed

text \<open>An occupant whose path leads through the hole moves into it and leaves a new hole.\<close>

lemma shift_move:
  assumes inv: "shift_inv hm t i j e" and hm: "\<And>k. hm k < length t"
    and jn: "jn = cnext (length t) j" and occ: "occ t jn"
    and move: "cdist (length t) i jn \<le> cdist (length t) (hm (ekey (t ! jn))) jn"
    and t': "t' = t[i := t ! jn, jn := (t ! jn)\<lparr>ekey := EMPTY\<rparr>]"
  shows "shift_inv hm t' jn jn e" and "content t' = content t"
proof -
  let ?N = "length t" and ?h = "hm (ekey (t ! jn))"
  note nx = shift_inv_next [OF inv, folded jn]
  from inv have i: "i < ?N" "e < ?N" "\<not> occ t e" "\<not> occ t i" "cdist ?N i j < cdist ?N i e"
    and kd: "keys_distinct t" and ch: "chains_ok hm t {i}"
    by (auto simp: shift_inv_def)
  have len: "length t' = ?N" by (simp add: t')
  have nth: "t' ! x = (if x = jn then (t ! jn)\<lparr>ekey := EMPTY\<rparr> else if x = i then t ! jn else t ! x)"
    if "x < ?N" for x using that nx(2) by (simp add: t' nth_list_update)
  have occ': "occ t' x \<longleftrightarrow> x \<noteq> jn \<and> (x = i \<or> occ t x)" if "x < ?N" for x
    using that occ by (auto simp: occ_def nth)
  have ne: "e \<noteq> jn" "e \<noteq> i" using occ i by auto
  have kd': "keys_distinct t'" unfolding keys_distinct_def len
  proof (intro allI impI)
    fix x y assume x: "x < ?N" "y < ?N" "occ t' x" and eq: "ekey (t' ! x) = ekey (t' ! y)"
    from x eq have "occ t' y" by (simp add: occ_def)
    with x have xy: "x \<noteq> jn" "y \<noteq> jn" by (auto simp: occ')
    define f where "f z = (if z = i then jn else z)" for z
    have fz: "t' ! z = t ! f z" "f z < ?N" if "z < ?N" "z \<noteq> jn" for z
      using that nx(1) by (auto simp: f_def nth)
    have "occ t (f x)" using x xy fz by (simp add: occ_def)
    then have "f x = f y" using kd x xy eq fz by (simp add: keys_distinct_def)
    with xy show "x = y" by (auto simp: f_def split: if_splits)
  qed
  have ch': "chains_ok hm t' {jn}" unfolding chains_ok_def len on_path_def
  proof (intro allI impI)
    fix x y assume x: "x < ?N" "y < ?N" "occ t' x"
      and p: "cdist ?N (hm (ekey (t' ! x))) y < cdist ?N (hm (ekey (t' ! x))) x"
    show "occ t' y \<or> y \<in> {jn}"
    proof (cases "x = i")
      case True
      with p x nx have p: "cdist ?N ?h y < cdist ?N ?h i" by (simp add: nth split: if_splits)
      have "cdist ?N ?h i < cdist ?N ?h jn"
        using move nx(1,2) i hm [of "ekey (t ! jn)"] by (auto simp: cdist_def split: if_splits)
      with p chains_okD [OF ch nx(1) occ x(2)] have "occ t y" by auto
      then show ?thesis using x by (auto simp: occ')
    next
      case False
      with x have "occ t x" "t' ! x = t ! x" by (auto simp: occ' nth)
      with p chains_okD [OF ch x(1) _ x(2)] x show ?thesis by (auto simp: occ')
    qed
  qed
  have "0 < cdist ?N jn e" using ne nx(1) i cdist_eq_0 [of jn ?N e] by simp
  moreover have "x = jn" if "x < ?N" "cdist ?N jn x \<le> cdist ?N jn jn" for x
    using that nx(1) cdist_eq_0 [of jn ?N x] by simp
  ultimately show "shift_inv hm t' jn jn e"
    using kd' ch' nx(1) i ne by (auto simp: shift_inv_def len occ')
  show "content t' = content t"
  proof (intro set_eqI, clarify)
    fix k v
    show "(k, v) \<in> content t' \<longleftrightarrow> (k, v) \<in> content t"
    proof
      assume "(k, v) \<in> content t'"
      then obtain x where x: "x < ?N" "occ t' x" "ekey (t' ! x) = k" "evalue (t' ! x) = v"
        by (auto simp: content_iff len)
      then show "(k, v) \<in> content t"
        using occ nx(1) by (auto simp: content_iff occ' nth split: if_splits)
    next
      assume "(k, v) \<in> content t"
      then obtain x where x: "x < ?N" "occ t x" "ekey (t ! x) = k" "evalue (t ! x) = v"
        by (auto simp: content_iff)
      let ?y = "if x = jn then i else x"
      have "?y < ?N \<and> occ t' ?y \<and> ekey (t' ! ?y) = k \<and> evalue (t' ! ?y) = v"
        using x i nx by (auto simp: occ' nth)
      then show "(k, v) \<in> content t'" by (auto simp: content_iff len)
    qed
  qed
qed

text \<open>The shift loop ends, and leaves an intact table with the same content.\<close>

lemma erase_shift_spec:
  assumes "hm_shape m" and "shift_inv (home m) (table m) (unat i) (unat j) e"
  shows "\<exists>t. erase_shift m i j = Some (m\<lparr>table := t\<rparr>) \<and> length t = length (table m) \<and>
    keys_distinct t \<and> chains_ok (home m) t {} \<and> content t = content (table m)"
  using assms
proof (induction "cdist (length (table m)) (unat j) e" arbitrary: m i j rule: less_induct)
  case less
  let ?N = "length (table m)" and ?j = "(j + 1) AND hmask m" and ?jn = "cnext (length (table m)) (unat j)"
  note inv = less.prems(2) and shape = less.prems(1)
  have hm: "home m k < ?N" for k using shape by (rule hash_less)
  note nx = shift_inv_next [OF inv]
  have ij: "unat i < ?N" "unat j < ?N" using inv by (auto simp: shift_inv_def)
  have uj: "unat ?j = ?jn" using shape ij(2) by (rule shape_next)
  have at: "vec_at (table m) ?j = Some (table m ! ?jn)" using uj nx(1) by (simp add: vec_simps)
  show ?case
  proof (cases "occ (table m) ?jn")
    case False
    then have "erase_shift m i j = Some m"
      by (subst erase_shift.simps) (simp add: at occ_def Let_def)
    moreover have "chains_ok (home m) (table m) {}" using inv hm False by (rule shift_stop)
    ultimately show ?thesis
      using inv by (intro exI [of _ "table m"]) (simp add: shift_inv_def)
  next
    case True
    let ?h = "hash m (ekey (table m ! ?jn))"
    have uh: "unat ?h = home m (ekey (table m ! ?jn))" by (simp add: home_def)
    have test: "(?j - i) AND hmask m \<le> (?j - ?h) AND hmask m \<longleftrightarrow>
        cdist ?N (unat i) ?jn \<le> cdist ?N (home m (ekey (table m ! ?jn))) ?jn"
      using shape_dist [OF shape, of i ?j] shape_dist [OF shape, of ?h ?j] uj uh ij nx(1) hm
      by (simp add: word_le_nat_alt)
    show ?thesis
    proof (cases "cdist ?N (unat i) ?jn \<le> cdist ?N (home m (ekey (table m ! ?jn))) ?jn")
      case move: True
      let ?t = "(table m)[unat i := table m ! ?jn, ?jn := (table m ! ?jn)\<lparr>ekey := EMPTY\<rparr>]"
      let ?m = "m\<lparr>table := ?t\<rparr>"
      have eq: "erase_shift m i j = erase_shift ?m ?j ?j"
        using True move ij uj nx(1)
        by (subst erase_shift.simps) (simp add: at occ_def Let_def test vec_simps)
      note mv = shift_move [OF inv hm refl True move refl]
      have "\<exists>t. erase_shift ?m ?j ?j = Some (?m\<lparr>table := t\<rparr>) \<and> length t = length (table ?m) \<and>
          keys_distinct t \<and> chains_ok (home ?m) t {} \<and> content t = content (table ?m)"
        by (rule less.hyps) (use nx(4) uj shape mv(1) in simp_all)
      with eq mv(2) show ?thesis by simp
    next
      case keep: False
      have eq: "erase_shift m i j = erase_shift m i ?j"
        using True keep by (subst erase_shift.simps) (simp add: at occ_def Let_def test)
      have "shift_inv (home m) (table m) (unat i) ?jn e"
        using inv hm True keep by (intro shift_keep) auto
      then show ?thesis
        using less.hyps [of m ?j i] nx(4) uj shape eq by simp
    qed
  qed
qed

text \<open>Emptying an occupied slot sets the loop up: its key is gone and every path is intact up to it.\<close>

lemma punch_hole:
  assumes ok: "hm_ok m" and s: "s < length (table m)" "occ (table m) s"
    and t: "t = (table m)[s := (table m ! s)\<lparr>ekey := EMPTY\<rparr>]"
  shows "\<exists>e. shift_inv (home m) t s s e"
    and "(k, v) \<in> content t \<longleftrightarrow> k \<noteq> ekey (table m ! s) \<and> (k, v) \<in> content (table m)"
proof -
  let ?N = "length (table m)"
  from ok have kd: "keys_distinct (table m)" and ch: "chains_ok (home m) (table m) {}"
    by (auto simp: hm_ok_def)
  have len: "length t = ?N" by (simp add: t)
  have nth: "t ! x = (if x = s then (table m ! s)\<lparr>ekey := EMPTY\<rparr> else table m ! x)"
    if "x < ?N" for x using that by (simp add: t nth_list_update)
  have occ: "occ t x \<longleftrightarrow> x \<noteq> s \<and> occ (table m) x" if "x < ?N" for x
    using that by (auto simp: occ_def nth)
  obtain e where e: "e < ?N" "\<not> occ (table m) e" using ok by (auto simp: hm_ok_def)
  have "keys_distinct t" using kd by (auto simp: keys_distinct_def occ nth occ_def len)
  moreover have "chains_ok (home m) t {s}" unfolding chains_ok_def on_path_def len
  proof (intro allI impI)
    fix x y assume x: "x < ?N" "y < ?N" "occ t x"
      and p: "cdist ?N (home m (ekey (t ! x))) y < cdist ?N (home m (ekey (t ! x))) x"
    then have "x \<noteq> s" "occ (table m) x" by (auto simp: occ)
    with p x chains_okD [OF ch, of x y] show "occ t y \<or> y \<in> {s}" by (simp add: occ nth)
  qed
  moreover have "x = s" if "x < ?N" "cdist ?N s x = 0" for x
    using that s cdist_eq_0 [of s ?N x] by simp
  moreover have "0 < cdist ?N s e" using e s cdist_eq_0 [of s ?N e] by auto
  ultimately show "\<exists>e. shift_inv (home m) t s s e"
    using s e by (intro exI [of _ e]) (auto simp: shift_inv_def occ len)
  have "ekey (table m ! x) = ekey (table m ! s) \<longleftrightarrow> x = s" if "x < ?N" "occ (table m) x" for x
    using that kd s by (auto simp: keys_distinct_def)
  then show "(k, v) \<in> content t \<longleftrightarrow> k \<noteq> ekey (table m ! s) \<and> (k, v) \<in> content (table m)"
    by (auto simp: content_iff len occ nth)
qed

text \<open>What deletion does to the table: a no-op on an absent key, else an intact table without it.\<close>

lemma hm_erase_table:
  assumes ok: "hm_ok m"
  obtains t where "hm_erase m k = Some (m\<lparr>table := t\<rparr>)" "length t = length (table m)"
    "keys_distinct t" "chains_ok (home m) t {}"
    "\<And>k' v. (k', v) \<in> content t \<longleftrightarrow> k' \<noteq> k \<and> (k', v) \<in> content (table m)"
proof -
  obtain s where s: "stop_at m k (unat (hash m k)) s" "unat (hash m k) < length (table m)"
    "hm_shape m" using ok by (rule hm_ok_stop)
  from s(1) have "stop_at m k (home m k) s" by (simp add: home_def)
  note home = stop_at_home [OF ok this]
  have us: "unat (of_nat s :: u64) = s" and sN: "s < length (table m)"
    using s length_fits by (auto simp: stop_at_def)
  have pr: "erase_probe m k (hash m k) = Some (of_nat s)"
    using s by (simp add: erase_probe_stop)
  show ?thesis
  proof (cases "occ (table m) s")
    case False
    then have "hm_erase m k = Some (m\<lparr>table := table m\<rparr>)" using us sN
      by (simp add: hm_erase_def pr vec_simps occ_def)
    then show ?thesis
      by (rule that) (use ok home False in \<open>auto simp: hm_ok_def content_iff\<close>)
  next
    case True
    let ?t = "(table m)[s := (table m ! s)\<lparr>ekey := EMPTY\<rparr>]"
    note hole = punch_hole [OF ok sN True refl]
    obtain e where inv: "shift_inv (home m) ?t s s e" using hole(1) by blast
    obtain t where t: "erase_shift (m\<lparr>table := ?t\<rparr>) (of_nat s) (of_nat s) = Some (m\<lparr>table := t\<rparr>)"
        "length t = length (table m)" "keys_distinct t" "chains_ok (home m) t {}" "content t = content ?t"
      using erase_shift_spec [of "m\<lparr>table := ?t\<rparr>" "of_nat s" "of_nat s" e] inv s(3) us by auto
    have "hm_erase m k = Some (m\<lparr>table := t\<rparr>)"
      using True us sN t(1) by (simp add: hm_erase_def pr vec_simps occ_def)
    then show ?thesis using t home True hole(2) by (intro that [of t]) auto
  qed
qed

lemma hm_erase_spec:
  assumes ok: "hm_ok m"
  obtains m' where "hm_erase m k = Some m'" "hm_ok m'" "hm_map m' = (hm_map m)(k := None)"
    "capacity m' = capacity m"
proof -
  obtain t where er: "hm_erase m k = Some (m\<lparr>table := t\<rparr>)" and t: "length t = length (table m)"
      "keys_distinct t" "chains_ok (home m) t {}"
    and con: "\<And>k' v. (k', v) \<in> content t \<longleftrightarrow> k' \<noteq> k \<and> (k', v) \<in> content (table m)"
    using ok by (rule hm_erase_table) blast
  let ?m = "m\<lparr>table := t\<rparr>"
  have kd: "keys_distinct (table m)" and sh: "hm_shape m" using ok by (auto simp: hm_ok_def)
  have map: "hm_map ?m = (hm_map m)(k := None)"
    by (rule hm_map_eqI) (use t(2) con in \<open>auto simp: hm_map_content [OF kd]\<close>)
  have "card (dom (hm_map ?m)) \<le> card (dom (hm_map m))"
    by (rule card_mono) (auto simp: map finite_dom_hm_map)
  then have "card (dom (hm_map ?m)) < capacity ?m"
    using ok free_slot_iff [OF kd] t(1) by (auto simp: hm_ok_def capacity_def)
  then have "hm_ok ?m" using free_slot_iff [of ?m] t sh by (simp add: hm_ok_def)
  with map t(1) show ?thesis by (intro that [OF er]) (simp_all add: capacity_def)
qed

section \<open>The constructor\<close>

lemma FlatHashMap_new_ok:
  assumes "FlatHashMap_new ident v0 cap = Some m"
  shows "hm_ok m \<and> hm_map m = Map.empty \<and> capacity m = unat cap"
proof -
  from assms have cap: "cap AND (cap - 1) = 0" "0 < cap"
    and m: "m = \<lparr>hmask = cap - 1, table = replicate (unat cap) \<lparr>ekey = EMPTY, evalue = v0\<rparr>,
      identity = ident\<rparr>"
    by (auto simp: FlatHashMap_new_def split: if_splits)
  obtain n where n: "n < 64" "cap = 2 ^ n" using and_pred_power_of_two [OF cap] by auto
  have "unat cap = 2 ^ n" using n by (simp add: unat_two_power)
  moreover have "cap - 1 = mask n" using n by (simp add: mask_eq_exp_minus_1)
  ultimately have sh: "hm_shape m" using n(1) by (auto simp: m hm_shape_def)
  have no: "\<not> occ (table m) x" if "x < length (table m)" for x
    using that by (simp add: m occ_def)
  have len: "length (table m) = unat cap" "0 < unat cap"
    using cap(2) by (auto simp: m unat_gt_0 word_neq_0_conv)
  have "hm_ok m"
    using sh no len by (auto simp: hm_ok_def keys_distinct_def chains_ok_def intro!: exI [of _ 0])
  moreover from this have "hm_map m = Map.empty"
    by (intro hm_map_eqI) (auto simp: hm_ok_def content_iff no)
  ultimately show ?thesis using len by (simp add: capacity_def)
qed

section \<open>The table implements the map interface\<close>

interpretation fhm: key_map hm_ok hm_map capacity "\<lambda>k. k \<noteq> EMPTY" hm_find hm_insert hm_erase
proof
  fix m :: "'v FlatHashMap" and k v
  assume ok: "hm_ok m"
  show "hm_find m k = Some (hm_map m k)" by (rule hm_find_spec [OF ok])
  show "finite (dom (hm_map m))" by (rule finite_dom_hm_map)
  show "\<exists>m'. hm_erase m k = Some m' \<and> hm_ok m' \<and> hm_map m' = (hm_map m)(k := None) \<and>
      capacity m' = capacity m"
    by (rule hm_erase_spec [OF ok, of k]) blast
  assume "k \<noteq> EMPTY" "k \<in> dom (hm_map m) \<or> card (dom (hm_map m)) + 1 < capacity m"
  then show "\<exists>m'. hm_insert m k v = Some m' \<and> hm_ok m' \<and> hm_map m' = (hm_map m)(k \<mapsto> v) \<and>
      capacity m' = capacity m"
    by (rule hm_insert_spec [OF ok, where v = v]) blast
qed

section \<open>A full table\<close>

text \<open>With no free slot, a probe for an absent key never meets its end.\<close>

definition full_without :: "'v FlatHashMap \<Rightarrow> u64 \<Rightarrow> bool" where
  "full_without m k \<longleftrightarrow> (\<forall>j < length (table m). ekey (table m ! j) \<noteq> EMPTY \<and> ekey (table m ! j) \<noteq> k)"

lemma find_probe_full:
  assumes "find_probe m k i = Some r"
  shows "\<not> full_without m k"
proof (rule find_probe.raw_induct [where P = "\<lambda>m k i r. \<not> full_without m k", OF _ assms])
  fix go :: "'v FlatHashMap \<Rightarrow> u64 \<Rightarrow> u64 \<Rightarrow> 'v option option" and m k i r
  assume IH: "\<And>m k i r. go m k i = Some r \<Longrightarrow> \<not> full_without m k"
    and body: "do { e \<leftarrow> vec_at (table m) i;
      if ekey e \<noteq> EMPTY then
        (if ekey e = k then Some (Some (evalue e)) else go m k ((i + 1) AND hmask m))
      else Some None } = Some r"
  then obtain e where "vec_at (table m) i = Some e" by (auto split: bind_splits)
  then have e: "e = table m ! unat i" "unat i < length (table m)" "vec_at (table m) i = Some e"
    by (auto simp: vec_at_eq_Some)
  consider "ekey e = EMPTY" | "ekey e = k" | "go m k ((i + 1) AND hmask m) = Some r"
    using body e(3) by (auto split: if_splits)
  then show "\<not> full_without m k"
    using e IH by cases (auto simp: full_without_def)
qed

section \<open>Properties\<close>

text \<open>C20: Inserting a key other than the sentinel into an intact table with two free slots returns;
  the table stays intact, and afterwards the inserted key is found with the new value and every
  other key as before.\<close>

theorem insert_then_find:
  assumes "hm_ok m" and "k \<noteq> EMPTY" and "card (dom (hm_map m)) + 1 < capacity m"
  shows "\<exists>m'. hm_insert m k v = Some m' \<and> hm_ok m' \<and>
    (\<forall>k'. hm_find m' k' = Some (if k' = k then Some v else hm_map m k'))"
  using assms by (rule fhm.find_after_ins)

theorem insert_then_find_witness:
  "\<exists>m m'. FlatHashMap_new True (0::nat) 4 = Some m \<and> hm_insert m 9 7 = Some m' \<and> hm_find m' 9 = Some (Some 7)"
proof -
  obtain m where m: "FlatHashMap_new True (0::nat) 4 = Some m" by (simp add: FlatHashMap_new_def)
  note ok = FlatHashMap_new_ok [OF m]
  show ?thesis
    using insert_then_find [of m 9 7] ok m by (auto simp: EMPTY_def)
qed

text \<open>C19: Erasing any key from an intact table returns: the backward shift of Algorithm R ends, the
  table stays intact, the key is no longer found and every other key is found as before.\<close>

theorem erase_then_find:
  assumes "hm_ok m"
  shows "\<exists>m'. hm_erase m k = Some m' \<and> hm_ok m' \<and>
    (\<forall>k'. hm_find m' k' = Some (if k' = k then None else hm_map m k'))"
  using assms by (rule fhm.find_after_del)

theorem erase_then_find_witness:
  "\<exists>m m1 m2 m'. FlatHashMap_new True (0::nat) 4 = Some m \<and> hm_insert m 9 7 = Some m1 \<and> hm_insert m1 13 8 = Some m2 \<and>
     hash m2 9 = hash m2 13 \<and> hm_find m2 9 = Some (Some 7) \<and>
     hm_erase m2 9 = Some m' \<and> hm_find m' 9 = Some None \<and> hm_find m' 13 = Some (Some 8)"
proof -
  obtain m where m: "FlatHashMap_new True (0::nat) 4 = Some m" by (simp add: FlatHashMap_new_def)
  note new = FlatHashMap_new_ok [OF m]
  obtain m1 where m1: "hm_insert m 9 7 = Some m1" "hm_ok m1" "hm_map m1 = [9 \<mapsto> 7]" "capacity m1 = 4"
    by (rule hm_insert_spec [of m 9 7]) (use new in \<open>auto simp: EMPTY_def\<close>)
  obtain m2 where m2: "hm_insert m1 13 8 = Some m2" "hm_ok m2" "hm_map m2 = [9 \<mapsto> 7, 13 \<mapsto> 8]" "capacity m2 = 4"
    by (rule hm_insert_spec [of m1 13 8]) (use m1 in \<open>auto simp: EMPTY_def\<close>)
  have "hmask m2 = 3 \<and> identity m2"
    using m m1(1) m2(1) by (auto simp: FlatHashMap_new_def hm_insert_def bind_eq_Some_conv)
  then have "hash m2 9 = hash m2 13" by (simp add: hash_def)
  moreover have "hm_find m2 9 = Some (Some 7)" using m2(3) by (simp add: hm_find_spec [OF m2(2)])
  ultimately show ?thesis using erase_then_find [OF m2(2), of 9] m m1(1) m2(1,3) by auto
qed

text \<open>C38: On a table with no free slot, looking up a key that is not stored does not return: the
  probe loop has no other exit.\<close>

theorem find_full_table_diverges:
  assumes "full_without m k"
  shows "hm_find m k = None"
proof (cases "hm_find m k")
  case (Some r)
  then have "find_probe m k (hash m k) = Some r" by (simp add: hm_find_def)
  then show ?thesis using find_probe_full assms by blast
qed simp

theorem find_full_table_diverges_witness:
  "hm_find \<lparr>hmask = 1, table = [\<lparr>ekey = 4, evalue = 0::nat\<rparr>, \<lparr>ekey = 5, evalue = 0\<rparr>], identity = True\<rparr> 8 = None"
  by (rule find_full_table_diverges) (auto simp: full_without_def less_Suc_eq EMPTY_def)

text \<open>The sentinel itself cannot be stored: inserting under it returns and changes no lookup, so
  an order with that reference is lost.\<close>

lemma insert_sentinel_lost:
  assumes "hm_ok m"
  shows "\<exists>m'. hm_insert m EMPTY v = Some m' \<and> hm_ok m' \<and> (\<forall>k. hm_find m' k = hm_find m k)"
proof -
  obtain m' where "hm_insert m EMPTY v = Some m'" "hm_ok m'" "hm_map m' = hm_map m"
    by (rule hm_insert_EMPTY [OF assms])
  then show ?thesis using assms by (auto simp: hm_find_spec)
qed

end
