(* ===== verification/Matching_Engine.thy ===== *)
theory Matching_Engine
  imports Book_Refinement Flat_Hash_Map
begin

text \<open>
  The matching engine (\<^verbatim>\<open>include/matching_engine.hpp\<close>, \<^verbatim>\<open>src/matching_engine.cpp\<close>): one arena,
  one order index and one book per stock locate, driven by ITCH messages.  \<open>processMessage\<close> is
  one function per message type; \<open>run\<close> feeds it a length-prefixed file.  \<open>tscNow()\<close> is hardware:
  its readings are arguments.  \<open>hugepages\<close>, \<open>reserve\<close>, \<open>prefetch\<close> and progress output do not
  change the state and are left out.
\<close>

section \<open>Model\<close>

record OrderLocation =
  stockLocate :: u16
  poolIdx :: u32

record EngineScratch =
  scratchRemoved :: "u64 list"
  scratchExecuted :: "ItchOrderExecuted list"

record MatchingEngine =
  pool :: OrderPool
  orderMap :: "OrderLocation FlatHashMap"
  orderBooks :: "u16 \<Rightarrow> OrderBook"
  latencies :: "u64 list"
  wireLatencies :: "u64 list"

text \<open>\<open>mapCapacity\<close> is 8388608 in the constructor; smaller tables serve for examples.\<close>

definition MatchingEngine_sized :: "u64 \<Rightarrow> MatchingEngine option" where
  "MatchingEngine_sized mapCapacity = do {
     m \<leftarrow> FlatHashMap_new True \<lparr>stockLocate = 0, poolIdx = 0\<rparr> mapCapacity;
     Some \<lparr>pool = OrderPool_new, orderMap = m, orderBooks = (\<lambda>i. OrderBook_new),
           latencies = [], wireLatencies = []\<rparr> }"

definition MatchingEngine_new :: "MatchingEngine option" where
  "MatchingEngine_new = MatchingEngine_sized 8388608"

text \<open>The index after a handled order: filled references dropped, a resting remainder entered.\<close>

definition updateMap :: "OrderLocation FlatHashMap \<Rightarrow> u64 \<Rightarrow> u16 \<Rightarrow> HandleResult \<Rightarrow> OrderLocation FlatHashMap option" where
  "updateMap m ref loc res = do {
     m \<leftarrow> fold_opt hm_erase m (removedRefs res);
     if restingIdx res \<noteq> INVALID_INDEX
     then hm_insert m ref \<lparr>stockLocate = loc, poolIdx = restingIdx res\<rparr>
     else Some m }"

text \<open>\<open>case 'A'\<close> and \<open>case 'F'\<close>; \<open>clk\<close> holds the two readings of the time stamp counter.\<close>

definition processAdd :: "u64 \<times> u64 \<Rightarrow> MatchingEngine \<Rightarrow> bytes \<Rightarrow> u64 \<Rightarrow>
    (exn + MatchingEngine \<times> EngineScratch) option" where
  "processAdd clk e data tWireCycles = do {
     (l, _) \<leftarrow> take_bytes 2 data;
     let loc = (bswap (load_le l) :: u16);
     (ord, _) \<leftarrow> readAddOrder data;
     r \<leftarrow> handleOrder (pool e) (orderBooks e loc) ord [] [];
     case r of
       Inl x \<Rightarrow> Some (Inl x)
     | Inr res \<Rightarrow> do {
         m \<leftarrow> updateMap (orderMap e) (order_ref (rorder res)) loc res;
         let (startCycles, endCycles) = clk;
         Some (Inr
           (e\<lparr>pool := rpool res, orderMap := m, orderBooks := (orderBooks e)(loc := rbook res),
              latencies := latencies e @ [endCycles - startCycles],
              wireLatencies := (if tWireCycles \<noteq> 0 then wireLatencies e @ [startCycles - tWireCycles]
                                else wireLatencies e)\<rparr>,
            \<lparr>scratchRemoved = removedRefs res, scratchExecuted = executedOrders res\<rparr>)) } }"

text \<open>Removing the order a location points to, and its index entry.\<close>

definition dropOrder :: "MatchingEngine \<Rightarrow> OrderLocation \<Rightarrow> u64 \<Rightarrow> MatchingEngine option" where
  "dropOrder e loc ref = do {
     (p, book) \<leftarrow> removeByIndex (pool e) (orderBooks e (stockLocate loc)) (poolIdx loc);
     m \<leftarrow> hm_erase (orderMap e) ref;
     Some (e\<lparr>pool := p, orderBooks := (orderBooks e)(stockLocate loc := book), orderMap := m\<rparr>) }"

text \<open>\<open>case 'D'\<close>.\<close>

definition processDelete :: "MatchingEngine \<Rightarrow> bytes \<Rightarrow> MatchingEngine option" where
  "processDelete e data = do {
     (d, _) \<leftarrow> readDeleteOrder data;
     let ref = join_ref (delRefHigh d) (delRefLow d);
     found \<leftarrow> hm_find (orderMap e) ref;
     (case found of None \<Rightarrow> Some e | Some loc \<Rightarrow> dropOrder e loc ref) }"

text \<open>\<open>case 'E'\<close>, \<open>case 'C'\<close> and \<open>case 'X'\<close>.\<close>

definition processExecuted :: "MatchingEngine \<Rightarrow> bytes \<Rightarrow> MatchingEngine option" where
  "processExecuted e data = do {
     (msg, _) \<leftarrow> readOrderExecuted data;
     found \<leftarrow> hm_find (orderMap e) (orderRef msg);
     (case found of None \<Rightarrow> Some e
      | Some loc \<Rightarrow> do {
          node \<leftarrow> pool_at (pool e) (poolIdx loc);
          if msgShares msg \<ge> shares (norder node) then dropOrder e loc (orderRef msg)
          else do {
            p \<leftarrow> pool_put (pool e) (poolIdx loc)
              (node\<lparr>norder := (norder node)\<lparr>shares := shares (norder node) - msgShares msg\<rparr>\<rparr>);
            Some (e\<lparr>pool := p\<rparr>) } }) }"

text \<open>\<open>case 'U'\<close>.\<close>

definition processReplace :: "MatchingEngine \<Rightarrow> bytes \<Rightarrow> EngineScratch \<Rightarrow>
    (exn + MatchingEngine \<times> EngineScratch) option" where
  "processReplace e data scratch = do {
     (rep, _) \<leftarrow> readOrderReplace data;
     found \<leftarrow> hm_find (orderMap e) (originalOrderRef rep);
     (case found of None \<Rightarrow> Some (Inr (e, scratch))
      | Some loc \<Rightarrow> do {
          node \<leftarrow> pool_at (pool e) (poolIdx loc);
          let side = buySellIndicator (norder node);
          e \<leftarrow> dropOrder e loc (originalOrderRef rep);
          let newOrder = \<lparr>orderReferenceNumberHigh = ref_high (newOrderRef rep),
                orderReferenceNumberLow = ref_low (newOrderRef rep),
                shares = repShares rep, price = repPrice rep, buySellIndicator = side\<rparr>;
          r \<leftarrow> handleOrder (pool e) (orderBooks e (stockLocate loc)) newOrder [] [];
          (case r of
             Inl x \<Rightarrow> Some (Inl x)
           | Inr res \<Rightarrow> do {
               m \<leftarrow> updateMap (orderMap e) (newOrderRef rep) (stockLocate loc) res;
               Some (Inr
                 (e\<lparr>pool := rpool res, orderMap := m,
                    orderBooks := (orderBooks e)(stockLocate loc := rbook res)\<rparr>,
                  \<lparr>scratchRemoved = removedRefs res, scratchExecuted = executedOrders res\<rparr>)) }) }) }"

definition processMessage :: "u64 \<times> u64 \<Rightarrow> MatchingEngine \<Rightarrow> bytes \<Rightarrow> u16 \<Rightarrow> EngineScratch \<Rightarrow> u64 \<Rightarrow>
    (exn + MatchingEngine \<times> EngineScratch) option" where
  "processMessage clk e data messageLength scratch tWireCycles = do {
     (messageType, data) \<leftarrow> readByte data;
     if messageType = ch_A \<or> messageType = ch_F then processAdd clk e data tWireCycles
     else if messageType = ch_D then map_option (\<lambda>e. Inr (e, scratch)) (processDelete e data)
     else if messageType = ch_E \<or> messageType = ch_C \<or> messageType = ch_X
     then map_option (\<lambda>e. Inr (e, scratch)) (processExecuted e data)
     else if messageType = ch_U then processReplace e data scratch
     else Some (Inr (e, scratch)) }"

text \<open>
  The loop of \<open>run\<close> over the mapped file: \<open>data\<close> is what is left of it, \<open>clk n\<close> the readings
  for the message after \<open>n\<close> messages.
\<close>

function run_loop :: "(nat \<Rightarrow> u64 \<times> u64) \<Rightarrow> nat \<Rightarrow> MatchingEngine \<Rightarrow> EngineScratch \<Rightarrow> bytes \<Rightarrow>
    (exn + MatchingEngine \<times> EngineScratch) option" where
  "run_loop clk messageCount e scratch data =
     (if data = [] then Some (Inr (e, scratch))
      else case take_bytes 2 data of
        None \<Rightarrow> None
      | Some (l, data') \<Rightarrow>
          (let messageLength = (bswap (load_le l) :: u16) in
           case processMessage (clk messageCount) e data' messageLength scratch 0 of
             None \<Rightarrow> None
           | Some (Inl x) \<Rightarrow> Some (Inl x)
           | Some (Inr (e', scratch')) \<Rightarrow>
               run_loop clk (Suc messageCount) e' scratch' (drop (unat messageLength) data')))"
  by pat_completeness auto
termination
  by (relation "measure (\<lambda>(_, _, _, _, data). length data)") (auto simp: take_bytes_def split: if_splits)

declare run_loop.simps [simp del]

text \<open>
  The recorded cycle counts are converted at the end where the counter counts cycles
  (\<open>tscIsCycles()\<close>); \<open>toNs\<close> is then the division by the calibrated rate.  The file is \<open>None\<close>
  if it could not be mapped, and \<open>run\<close> then returns at once.
\<close>

definition convertLatencies :: "(u64 \<Rightarrow> u64) option \<Rightarrow> MatchingEngine \<Rightarrow> MatchingEngine" where
  "convertLatencies toNs e = (case toNs of
      None \<Rightarrow> e
    | Some f \<Rightarrow> e\<lparr>latencies := map f (latencies e), wireLatencies := map f (wireLatencies e)\<rparr>)"

definition run :: "(nat \<Rightarrow> u64 \<times> u64) \<Rightarrow> (u64 \<Rightarrow> u64) option \<Rightarrow> MatchingEngine \<Rightarrow> bytes option \<Rightarrow>
    (exn + MatchingEngine) option" where
  "run clk toNs e file = (case file of
      None \<Rightarrow> Some (Inr e)
    | Some data \<Rightarrow> map_option (map_sum id (\<lambda>(e, _). convertLatencies toNs e))
        (run_loop clk 0 e \<lparr>scratchRemoved = [], scratchExecuted = []\<rparr> data))"

end
