(* ===== verification/Engine_Invariant.thy ===== *)
theory Engine_Invariant
  imports Matching_Engine
begin

text \<open>
  The invariant of the engine and its preservation by every message
  (\<^verbatim>\<open>src/matching_engine.cpp\<close>): every slot of the arena is free or rests in exactly one book,
  every book is well formed, and every index entry points at a resting order with that
  reference.  It holds whatever references the messages carry, duplicates included.
\<close>

section \<open>The invariant\<close>

type_synonym books = "u16 \<Rightarrow> entry list \<times> entry list"

definition resting :: "('i \<times> Order) list \<times> ('i \<times> Order) list \<Rightarrow> ('i \<times> Order) set" where
  "resting q = set (fst q) \<union> set (snd q)"

definition store_ok :: "OrderPool \<Rightarrow> (u16 \<Rightarrow> OrderBook) \<Rightarrow> u32 list \<Rightarrow> books \<Rightarrow> bool" where
  "store_ok p bs fs Q \<longleftrightarrow> pool_ok p fs \<and> (\<forall>l. book_rel (nodes p) (bs l) (Q l)) \<and>
     (\<forall>l l'. l \<noteq> l' \<longrightarrow> own (Q l) \<inter> own (Q l') = {}) \<and> in_use p fs = (\<Union>l. own (Q l))"

definition index_sound :: "(u64 \<rightharpoonup> OrderLocation) \<Rightarrow> books \<Rightarrow> bool" where
  "index_sound m Q \<longleftrightarrow> (\<forall>ref loc. m ref = Some loc \<longrightarrow>
     (\<exists>ord. (poolIdx loc, ord) \<in> resting (Q (stockLocate loc)) \<and> order_ref ord = ref))"

definition engine_ok :: "MatchingEngine \<Rightarrow> u32 list \<Rightarrow> books \<Rightarrow> bool" where
  "engine_ok e fs Q \<longleftrightarrow> store_ok (pool e) (orderBooks e) fs Q \<and> hm_ok (orderMap e) \<and>
     index_sound (hm_map (orderMap e)) Q"

text \<open>Room for one more order: an unused arena index, and two free slots of the index table.\<close>

definition room :: "MatchingEngine \<Rightarrow> books \<Rightarrow> bool" where
  "room e Q \<longleftrightarrow> card (\<Union>l. own (Q l)) < unat INVALID_INDEX \<and>
     card (dom (hm_map (orderMap e))) + 1 < capacity (orderMap e)"

lemma own_resting: "own q = fst ` resting q"
  by (cases q) (auto simp: resting_def own_def)

lemma resting_node:
  assumes "book_rel ns book q" and "(x, ord) \<in> resting q"
  shows "unat x < length ns" "norder (ns ! unat x) = ord" "buySellIndicator ord \<in> {ch_B, ch_S}" "0 < shares ord"
  using assms by (auto simp: book_rel_def side_rel_def entries_ok_def resting_def side_char_def split: prod.splits)

text \<open>A step on the slots of one book keeps every other book.\<close>

lemma store_ok_step:
  assumes ok: "store_ok p bs fs Q" and st: "pool_step p fs (own (Q l)) p' fs' (own q')"
    and rel: "book_rel (nodes p') book' q'"
  shows "store_ok p' (bs(l := book')) fs' (Q(l := q'))"
proof -
  have iu: "in_use p fs = (\<Union>l. own (Q l))" and disj: "\<And>k l. k \<noteq> l \<Longrightarrow> own (Q k) \<inter> own (Q l) = {}"
    using ok by (auto simp: store_ok_def)
  have new: "in_use p' fs' = (in_use p fs - own (Q l)) \<union> own q'" "own q' \<inter> (in_use p fs - own (Q l)) = {}"
    using st by (auto simp: pool_step_def)
  have others: "own (Q k) \<subseteq> in_use p fs - own (Q l)" if "k \<noteq> l" for k
    using iu disj [OF that] by blast
  have "book_rel (nodes p') (bs k) (Q k)" if "k \<noteq> l" for k
  proof (rule book_rel_pool_step [OF _ st])
    show "book_rel (nodes p) (bs k) (Q k)" using ok by (simp add: store_ok_def)
    show "own (Q k) \<subseteq> in_use p fs" "own (Q l) \<inter> own (Q k) = {}" using others [OF that] by blast+
  qed
  moreover have "own ((Q(l := q')) k) \<inter> own ((Q(l := q')) k') = {}" if kk: "k \<noteq> k'" for k k'
  proof -
    consider "k \<noteq> l" "k' \<noteq> l" | "k = l" "k' \<noteq> l" | "k \<noteq> l" "k' = l" using kk by blast
    then show ?thesis
    proof cases
      case 1
      then show ?thesis using disj [OF kk] by simp
    next
      case 2
      have "own q' \<inter> own (Q k') = {}" using others [OF 2(2)] new(2) by blast
      with 2 show ?thesis by simp
    next
      case 3
      have "own (Q k) \<inter> own q' = {}" using others [OF 3(1)] new(2) by blast
      with 3 show ?thesis by simp
    qed
  qed
  moreover have "in_use p' fs' = (\<Union>k. own ((Q(l := q')) k))"
  proof -
    define U where "U = (\<Union>k \<in> - {l}. own (Q k))"
    have all: "(\<Union>k. f k) = f l \<union> (\<Union>k \<in> - {l}. f k)" for f :: "u16 \<Rightarrow> u32 set"
    proof -
      have "UNIV = insert l (- {l})" by auto
      then show ?thesis by (metis UN_insert)
    qed
    have a: "in_use p fs = own (Q l) \<union> U" unfolding iu U_def by (rule all)
    have b: "own (Q l) \<inter> U = {}"
    proof (rule equals0I)
      fix x assume "x \<in> own (Q l) \<inter> U"
      then obtain k where "x \<in> own (Q l)" "x \<in> own (Q k)" "k \<noteq> l" by (auto simp: U_def)
      then show False using disj [of k l] by auto
    qed
    have "in_use p fs - own (Q l) = U" unfolding a using b by blast
    then have c: "in_use p' fs' = U \<union> own q'" using new(1) by simp
    have "(\<Union>k \<in> - {l}. own ((Q(l := q')) k)) = U" unfolding U_def by (rule SUP_cong) simp_all
    then have "(\<Union>k. own ((Q(l := q')) k)) = own q' \<union> U"
      using all [of "\<lambda>k. own ((Q(l := q')) k)"] by simp
    with c show ?thesis by (simp add: Un_commute)
  qed
  moreover have "pool_ok p' fs'" by (rule pool_step_ok [OF st])
  ultimately show ?thesis using rel unfolding store_ok_def by simp
qed

lemma store_ok_pre:
  assumes "store_ok p bs fs Q" and "card (\<Union>l. own (Q l)) < unat INVALID_INDEX"
  shows "handle_pre p fs (bs l) (Q l)"
  using assms by (auto simp: store_ok_def handle_pre_def)

section \<open>Matching and the index\<close>

text \<open>An entry whose reference is not reported as filled survives; every survivor was there.\<close>

lemma match_survives:
  assumes "match_against b ord qs = (ord', qs', rs, es)" and "(x, r) \<in> set qs" and "order_ref r \<notin> set rs"
  shows "\<exists>r'. (x, r') \<in> set qs' \<and> order_ref r' = order_ref r"
  using assms
proof (induction b ord qs arbitrary: ord' qs' rs es rule: match_against.induct)
  case (2 b ord y q qs)
  have "order_ref (q\<lparr>shares := n\<rparr>) = order_ref q" for n by (simp add: order_ref_def)
  with 2 show ?case by (fastforce split: if_splits prod.splits)
qed simp

lemma match_origin:
  assumes "match_against b ord qs = (ord', qs', rs, es)" and "(x, r') \<in> set qs'"
  shows "\<exists>r. (x, r) \<in> set qs \<and> order_ref r' = order_ref r"
  using assms
proof (induction b ord qs arbitrary: ord' qs' rs es rule: match_against.induct)
  case (2 b ord y q qs)
  have "order_ref (q\<lparr>shares := n\<rparr>) = order_ref q" for n by (simp add: order_ref_def)
  with 2 show ?case by (fastforce split: if_splits prod.splits)
qed simp

lemma set_rest_order: "set (rest_order b i ord qs) = (if 0 < shares ord then insert (i, ord) (set qs) else set qs)"
  by (simp add: rest_order_def)

text \<open>Either direction: match against one side, rest on the other.\<close>

lemma handle_cases:
  assumes "handle_spec i ord q = (ord', q', rs, es)"
  obtains b qs qs' ts where "match_against b ord qs = (ord', qs', rs, es)" "resting q = set qs \<union> set ts"
    "resting q' = set qs' \<union> set (rest_order (\<not> b) i ord' ts)"
    "distinct (map fst (fst q @ snd q)) \<Longrightarrow> distinct (map fst (qs @ ts))"
proof (cases "buySellIndicator ord = ch_B")
  case True
  obtain o1 q1 r1 e1 where m: "match_against False ord (snd q) = (o1, q1, r1, e1)"
    by (metis prod_cases4)
  show ?thesis
    by (rule that [of False "snd q" q1 "fst q"])
      (use assms True m in \<open>auto simp: handle_spec_def resting_def case_prod_beta\<close>)
next
  case False
  obtain o1 q1 r1 e1 where m: "match_against True ord (fst q) = (o1, q1, r1, e1)"
    by (metis prod_cases4)
  show ?thesis
    by (rule that [of True "fst q" q1 "snd q"])
      (use assms False m in \<open>auto simp: handle_spec_def resting_def case_prod_beta\<close>)
qed

lemma handle_survives:
  assumes h: "handle_spec i ord q = (ord', q', rs, es)" and r: "(x, r) \<in> resting q" "order_ref r \<notin> set rs"
  shows "\<exists>r'. (x, r') \<in> resting q' \<and> order_ref r' = order_ref r"
proof (rule handle_cases [OF h])
  fix b qs qs' ts
  assume m: "match_against b ord qs = (ord', qs', rs, es)" and q: "resting q = set qs \<union> set ts"
    "resting q' = set qs' \<union> set (rest_order (\<not> b) i ord' ts)"
  consider "(x, r) \<in> set qs" | "(x, r) \<in> set ts" using r(1) q(1) by blast
  then show ?thesis
  proof cases
    case 1
    then show ?thesis using match_survives [OF m _ r(2)] q(2) by blast
  next
    case 2
    then show ?thesis using q(2) by (auto simp: set_rest_order)
  qed
qed

lemma handle_rests:
  assumes h: "handle_spec i ord q = (ord', q', rs, es)"
  shows "0 < shares ord' \<Longrightarrow> (i, ord') \<in> resting q'" "order_ref ord' = order_ref ord"
  by (rule handle_cases [OF h]; auto simp: set_rest_order dest: match_keeps_fields(3))+

section \<open>Adding an order\<close>

lemma fold_erase:
  assumes ok: "hm_ok m"
  obtains m' where "fold_opt hm_erase m rs = Some m'" "hm_ok m'" "hm_map m' = hm_map m |` (- set rs)"
    "capacity m' = capacity m" "card (dom (hm_map m')) \<le> card (dom (hm_map m))"
proof -
  obtain m' where m': "fold_opt hm_erase m rs = Some m'" "hm_ok m'" "hm_map m' = hm_map m |` (- set rs)"
    "capacity m' = capacity m" using fhm.del_all [OF ok] by blast
  moreover have "card (dom (hm_map m')) \<le> card (dom (hm_map m))"
    unfolding m'(3) by (rule card_mono) (auto simp: finite_dom_hm_map)
  ultimately show ?thesis by (rule that)
qed

text \<open>What the index holds after a handled order; \<open>EMPTY\<close> cannot be stored.\<close>

definition index_after :: "(u64 \<rightharpoonup> OrderLocation) \<Rightarrow> u64 \<Rightarrow> u16 \<Rightarrow> u32 \<Rightarrow> u64 list \<Rightarrow> (u64 \<rightharpoonup> OrderLocation)" where
  "index_after m ref l idx rs = (if idx \<noteq> INVALID_INDEX \<and> ref \<noteq> EMPTY
     then (m |` (- set rs))(ref \<mapsto> \<lparr>stockLocate = l, poolIdx = idx\<rparr>) else m |` (- set rs))"

lemma updateMap_spec:
  assumes ok: "hm_ok m" and cap: "card (dom (hm_map m)) + 1 < capacity m"
  obtains m' where "updateMap m ref l res = Some m'" "hm_ok m'" "capacity m' = capacity m"
    "hm_map m' = index_after (hm_map m) ref l (restingIdx res) (removedRefs res)"
proof -
  let ?loc = "\<lparr>stockLocate = l, poolIdx = restingIdx res\<rparr>"
  obtain m1 where m1: "fold_opt hm_erase m (removedRefs res) = Some m1" "hm_ok m1"
    "hm_map m1 = hm_map m |` (- set (removedRefs res))" "capacity m1 = capacity m"
    "card (dom (hm_map m1)) \<le> card (dom (hm_map m))"
    by (rule fold_erase [OF ok])
  consider (none) "restingIdx res = INVALID_INDEX" | (lost) "restingIdx res \<noteq> INVALID_INDEX" "ref = EMPTY"
    | (put) "restingIdx res \<noteq> INVALID_INDEX" "ref \<noteq> EMPTY" by blast
  then show ?thesis
  proof cases
    case none
    then show ?thesis by (intro that [of m1]) (use m1 in \<open>simp_all add: updateMap_def index_after_def\<close>)
  next
    case lost
    obtain m2 where "hm_insert m1 EMPTY ?loc = Some m2" "hm_ok m2" "hm_map m2 = hm_map m1" "capacity m2 = capacity m1"
      by (rule hm_insert_EMPTY [OF m1(2)])
    then show ?thesis by (intro that [of m2]) (use m1 lost in \<open>simp_all add: updateMap_def index_after_def\<close>)
  next
    case put
    have "card (dom (hm_map m1)) + 1 < capacity m1" using m1(4,5) cap by linarith
    then obtain m2 where "hm_insert m1 ref ?loc = Some m2" "hm_ok m2" "hm_map m2 = (hm_map m1)(ref \<mapsto> ?loc)"
      "capacity m2 = capacity m1"
      using fhm.ins [OF m1(2) put(2), of ?loc] by blast
    then show ?thesis by (intro that [of m2]) (use m1 put in \<open>simp_all add: updateMap_def index_after_def\<close>)
  qed
qed

lemma index_sound_handle:
  assumes snd: "index_sound m Q" and h: "handle_spec i ord (Q l) = (ord', q', rs, es)"
    and idx: "i = INVALID_INDEX \<longleftrightarrow> shares ord' = 0"
  shows "index_sound (index_after m (order_ref ord) l i rs) (Q(l := q'))"
  unfolding index_sound_def
proof (intro allI impI)
  fix ref loc assume a: "index_after m (order_ref ord) l i rs ref = Some loc"
  show "\<exists>r. (poolIdx loc, r) \<in> resting ((Q(l := q')) (stockLocate loc)) \<and> order_ref r = ref"
  proof (cases "i \<noteq> INVALID_INDEX \<and> order_ref ord \<noteq> EMPTY \<and> ref = order_ref ord")
    case True
    then have "loc = \<lparr>stockLocate = l, poolIdx = i\<rparr>" using a by (auto simp: index_after_def)
    moreover have "0 < shares ord'" using True idx by (simp add: word_neq_0_conv [symmetric])
    ultimately show ?thesis using True handle_rests [OF h] by auto
  next
    case False
    then have m: "m ref = Some loc" "ref \<notin> set rs"
      using a by (auto simp: index_after_def restrict_map_def split: if_splits)
    then obtain r where r: "(poolIdx loc, r) \<in> resting (Q (stockLocate loc))" "order_ref r = ref"
      using snd by (auto simp: index_sound_def)
    then show ?thesis
      using handle_survives [OF h] m(2) by (cases "stockLocate loc = l") auto
  qed
qed

text \<open>
  Handling an order for book \<open>l\<close>, and the index update after it, on an engine that satisfies
  the invariant.
\<close>

lemma handle_engine:
  assumes ok: "engine_ok e fs Q" and rm: "room e Q" and side: "buySellIndicator ord \<in> {ch_B, ch_S}"
  obtains res m fs' q' where "handleOrder (pool e) (orderBooks e l) ord [] [] = Some (Inr res)"
    "updateMap (orderMap e) (order_ref ord) l res = Some m" "order_ref (rorder res) = order_ref ord"
    "handle_spec (restingIdx res) ord (Q l) = (rorder res, q', removedRefs res, executedOrders res)"
    "restingIdx res = INVALID_INDEX \<longleftrightarrow> shares (rorder res) = 0"
    "store_ok (rpool res) ((orderBooks e)(l := rbook res)) fs' (Q(l := q'))" "hm_ok m"
    "hm_map m = index_after (hm_map (orderMap e)) (order_ref ord) l (restingIdx res) (removedRefs res)"
    "index_sound (hm_map m) (Q(l := q'))" "capacity m = capacity (orderMap e)"
proof -
  have st: "store_ok (pool e) (orderBooks e) fs Q" and mok: "hm_ok (orderMap e)"
    and snd: "index_sound (hm_map (orderMap e)) Q"
    and cap: "card (\<Union>l. own (Q l)) < unat INVALID_INDEX" "card (dom (hm_map (orderMap e))) + 1 < capacity (orderMap e)"
    using ok rm by (auto simp: engine_ok_def room_def)
  obtain res fs' q' where run: "handleOrder (pool e) (orderBooks e l) ord [] [] = Some (Inr res)"
    and post: "handle_post (pool e) fs (Q l) ord [] [] res fs' q'"
    by (rule handleOrder_spec [OF store_ok_pre [OF st cap(1)] side])
  have h: "handle_spec (restingIdx res) ord (Q l) = (rorder res, q', removedRefs res, executedOrders res)"
    and idx: "restingIdx res = INVALID_INDEX \<longleftrightarrow> shares (rorder res) = 0"
    and rel: "book_rel (nodes (rpool res)) (rbook res) q'" "pool_step (pool e) fs (own (Q l)) (rpool res) fs' (own q')"
    using post by (auto simp: handle_post_def)
  obtain m where m: "updateMap (orderMap e) (order_ref ord) l res = Some m" "hm_ok m" "capacity m = capacity (orderMap e)"
    "hm_map m = index_after (hm_map (orderMap e)) (order_ref ord) l (restingIdx res) (removedRefs res)"
    by (rule updateMap_spec [OF mok cap(2)])
  have "index_sound (hm_map m) (Q(l := q'))" unfolding m(4) by (rule index_sound_handle [OF snd h idx])
  then show ?thesis
    using run m h idx store_ok_step [OF st rel(2,1)] handle_rests(2) [OF h] by (intro that)
qed

section \<open>Removing and reducing an order\<close>

lemma located:
  assumes ok: "engine_ok e fs Q" and loc: "hm_map (orderMap e) ref = Some loc"
  obtains ord where "(poolIdx loc, ord) \<in> resting (Q (stockLocate loc))" "order_ref ord = ref"
    "pool_at (pool e) (poolIdx loc) = Some (nodes (pool e) ! unat (poolIdx loc))"
    "norder (nodes (pool e) ! unat (poolIdx loc)) = ord" "buySellIndicator ord \<in> {ch_B, ch_S}" "0 < shares ord"
    "poolIdx loc \<in> own (Q (stockLocate loc))"
proof -
  obtain ord where o: "(poolIdx loc, ord) \<in> resting (Q (stockLocate loc))" "order_ref ord = ref"
    using assms by (auto simp: engine_ok_def index_sound_def)
  have "book_rel (nodes (pool e)) (orderBooks e (stockLocate loc)) (Q (stockLocate loc))"
    using ok by (simp add: engine_ok_def store_ok_def)
  note n = resting_node [OF this o(1)]
  show ?thesis
    by (rule that [OF o]) (use n o(1) in \<open>auto simp: pool_at_def vec_simps own_resting rev_image_eqI\<close>)
qed

lemma slot_once:
  assumes ok: "store_ok p bs fs Q" and "(x, r) \<in> resting (Q l)" and "(x, r') \<in> resting (Q l')"
  shows "l' = l" "r' = r"
proof -
  have "x \<in> own (Q l) \<inter> own (Q l')" using assms(2,3) by (auto simp: own_resting rev_image_eqI)
  then show "l' = l" using ok by (auto simp: store_ok_def)
  then have "book_rel (nodes p) (bs l) (Q l)" "(x, r') \<in> resting (Q l)"
    using ok assms(3) by (simp_all add: store_ok_def)
  then show "r' = r" using resting_node(2) assms(2) by blast
qed

lemma resting_drop_book: "resting (drop_book x q) = {e \<in> resting q. fst e \<noteq> x}"
  by (cases q) (auto simp: resting_def drop_book_def)

lemma dropOrder_spec:
  assumes ok: "engine_ok e fs Q" and loc: "hm_map (orderMap e) ref = Some loc"
  obtains e' fs' where "dropOrder e loc ref = Some e'"
    "engine_ok e' fs' (Q(stockLocate loc := drop_book (poolIdx loc) (Q (stockLocate loc))))"
    "hm_map (orderMap e') = (hm_map (orderMap e))(ref := None)" "capacity (orderMap e') = capacity (orderMap e)"
    "latencies e' = latencies e" "wireLatencies e' = wireLatencies e"
proof -
  let ?l = "stockLocate loc" and ?x = "poolIdx loc"
  let ?Q = "Q(?l := drop_book ?x (Q ?l))"
  obtain ord where o: "(?x, ord) \<in> resting (Q ?l)" "order_ref ord = ref"
    by (rule located [OF ok loc])
  obtain bq aq where q: "Q ?l = (bq, aq)" by (cases "Q ?l")
  have st: "store_ok (pool e) (orderBooks e) fs Q" and mok: "hm_ok (orderMap e)"
    and snd: "index_sound (hm_map (orderMap e)) Q" using ok by (auto simp: engine_ok_def)
  have br: "book_rel (nodes (pool e)) (orderBooks e ?l) (bq, aq)" "pool_ok (pool e) fs"
    "own (bq, aq) \<subseteq> in_use (pool e) fs"
    using st q by (auto simp: store_ok_def simp flip: q)
  have "(?x, ord) \<in> set bq \<union> set aq" using o(1) q by (simp add: resting_def)
  then obtain p' book' where rm: "removeByIndex (pool e) (orderBooks e ?l) ?x = Some (p', book')"
    "book_rel (nodes p') book' (drop_book ?x (bq, aq))"
    "pool_step (pool e) fs (own (bq, aq)) p' (?x # fs) (own (drop_book ?x (bq, aq)))"
    by (rule removeByIndex_spec [OF br])
  obtain m where m: "hm_erase (orderMap e) ref = Some m" "hm_ok m" "hm_map m = (hm_map (orderMap e))(ref := None)"
    "capacity m = capacity (orderMap e)" by (rule hm_erase_spec [OF mok])
  have "index_sound (hm_map m) ?Q" unfolding index_sound_def
  proof (intro allI impI)
    fix ref' loc' assume "hm_map m ref' = Some loc'"
    then have n: "ref' \<noteq> ref" "hm_map (orderMap e) ref' = Some loc'" by (auto simp: m(3) split: if_splits)
    then obtain r where r: "(poolIdx loc', r) \<in> resting (Q (stockLocate loc'))" "order_ref r = ref'"
      using snd by (auto simp: index_sound_def)
    have "poolIdx loc' \<noteq> ?x"
    proof
      assume same: "poolIdx loc' = ?x"
      have "r = ord" using slot_once(2) [OF st o(1)] r(1) unfolding same by blast
      with r(2) o(2) n(1) show False by simp
    qed
    with r show "\<exists>r. (poolIdx loc', r) \<in> resting (?Q (stockLocate loc')) \<and> order_ref r = ref'"
      by (auto simp: resting_drop_book)
  qed
  moreover have "store_ok p' ((orderBooks e)(?l := book')) (?x # fs) ?Q"
    using store_ok_step [OF st, of ?l p' "?x # fs" "drop_book ?x (Q ?l)" book'] rm(2,3) q by simp
  ultimately show ?thesis
    by (intro that [of "e\<lparr>pool := p', orderBooks := (orderBooks e)(?l := book'), orderMap := m\<rparr>" "?x # fs"])
      (use rm(1) m in \<open>simp_all add: dropOrder_def engine_ok_def\<close>)
qed

lemma resting_set_book:
  "resting (set_book x r q) = (\<lambda>e. if fst e = x then (x, r) else e) ` resting q"
  by (cases q) (auto simp: resting_def set_book_def set_entry_def)

text \<open>Reducing the shares of an indexed order in place.\<close>

lemma reduce_spec:
  assumes ok: "engine_ok e fs Q" and loc: "hm_map (orderMap e) ref = Some loc"
    and lt: "n < shares (norder (nodes (pool e) ! unat (poolIdx loc)))"
  defines "ord \<equiv> norder (nodes (pool e) ! unat (poolIdx loc))"
  defines "ord' \<equiv> ord\<lparr>shares := shares ord - n\<rparr>"
  obtains p where
    "pool_put (pool e) (poolIdx loc) ((nodes (pool e) ! unat (poolIdx loc))\<lparr>norder := ord'\<rparr>) = Some p"
    "engine_ok (e\<lparr>pool := p\<rparr>) fs (Q(stockLocate loc := set_book (poolIdx loc) ord' (Q (stockLocate loc))))"
proof -
  let ?l = "stockLocate loc" and ?x = "poolIdx loc"
  let ?Q = "Q(?l := set_book ?x ord' (Q ?l))"
  obtain r where o: "(?x, r) \<in> resting (Q ?l)" "order_ref r = ref" "norder (nodes (pool e) ! unat ?x) = r"
    "?x \<in> own (Q ?l)" by (rule located [OF ok loc])
  then have r: "(?x, ord) \<in> resting (Q ?l)" "order_ref ord = ref" by (simp_all add: ord_def)
  obtain bq aq where q: "Q ?l = (bq, aq)" by (cases "Q ?l")
  have st: "store_ok (pool e) (orderBooks e) fs Q" and mok: "hm_ok (orderMap e)"
    and snd: "index_sound (hm_map (orderMap e)) Q" using ok by (auto simp: engine_ok_def)
  have br: "book_rel (nodes (pool e)) (orderBooks e ?l) (bq, aq)" "pool_ok (pool e) fs"
    "own (Q ?l) \<subseteq> in_use (pool e) fs"
    using st q by (auto simp: store_ok_def simp flip: q)
  let ?p = "(pool e)\<lparr>nodes := (nodes (pool e))[unat ?x := (nodes (pool e) ! unat ?x)\<lparr>norder := ord'\<rparr>]\<rparr>"
  have "shares ord - n \<noteq> 0" using lt by (auto simp: ord_def)
  then have pos: "0 < shares ord'" unfolding word_neq_0_conv by (simp add: ord'_def)
  have slot: "?x \<in> slots (pool e)" using br(3) o(4) by (auto simp: in_use_def)
  have "book_rel (nodes ?p) (orderBooks e ?l) (set_book ?x ord' (bq, aq))"
    using book_rel_set_book [OF br(1), of ?x ord ord'] r(1) q pos by (simp add: resting_def ord'_def)
  moreover have "pool_step (pool e) fs (own (Q ?l)) ?p fs (own (Q ?l))"
    by (rule pool_step_write [OF br(2,3)]) (use o(4) in \<open>auto simp: nth_update_notin [of ?x "- own (Q ?l)"]\<close>)
  ultimately have "store_ok ?p ((orderBooks e)(?l := orderBooks e ?l)) fs ?Q"
    using q by (intro store_ok_step [OF st]) simp_all
  moreover have "index_sound (hm_map (orderMap e)) ?Q" unfolding index_sound_def
  proof (intro allI impI)
    fix ref' loc' assume "hm_map (orderMap e) ref' = Some loc'"
    then obtain r' where r': "(poolIdx loc', r') \<in> resting (Q (stockLocate loc'))" "order_ref r' = ref'"
      using snd by (auto simp: index_sound_def)
    show "\<exists>r. (poolIdx loc', r) \<in> resting (?Q (stockLocate loc')) \<and> order_ref r = ref'"
    proof (cases "poolIdx loc' = ?x")
      case True
      then have "stockLocate loc' = ?l" "r' = ord" using slot_once [OF st r(1)] r'(1) by auto
      then have "(?x, ord') \<in> resting (?Q ?l)" "order_ref ord' = ref'"
        using r(1) r'(2) by (force simp: resting_set_book, simp add: ord'_def order_ref_def)
      with True \<open>stockLocate loc' = ?l\<close> show ?thesis by auto
    next
      case False
      then have "(poolIdx loc', r') \<in> resting (?Q (stockLocate loc'))"
        using r'(1) by (force simp: resting_set_book image_iff)
      with r'(2) show ?thesis by blast
    qed
  qed
  ultimately show ?thesis
    by (intro that [of ?p]) (use slot mok in \<open>simp_all add: pool_simps engine_ok_def\<close>)
qed

end
