(* ===== verification/Engine_Steps.thy ===== *)
theory Engine_Steps
  imports Engine_Invariant
begin

text \<open>
  The engine as a state machine on the index and the entries of the books: one rule per
  message and outcome, with the arena slot of a resting order left open.  \<open>processMessage\<close> of
  \<^verbatim>\<open>src/matching_engine.cpp\<close> simulates it, and invariants of the machine, proved by rule
  induction, hold of every engine that processed any sequence of messages.
\<close>

section \<open>Messages\<close>

datatype message =
    AddMsg u16 Order
  | DeleteMsg u64
  | ReduceMsg u64 u32
  | ReplaceMsg u64 u64 u32 u32
  | OtherMsg

definition decode :: "bytes \<Rightarrow> message option" where
  "decode data = do {
     (t, data) \<leftarrow> readByte data;
     if t = ch_A \<or> t = ch_F then do {
       (l, _) \<leftarrow> take_bytes 2 data;
       (ord, _) \<leftarrow> readAddOrder data;
       Some (AddMsg (bswap (load_le l)) ord) }
     else if t = ch_D then do {
       (d, _) \<leftarrow> readDeleteOrder data;
       Some (DeleteMsg (join_ref (delRefHigh d) (delRefLow d))) }
     else if t = ch_E \<or> t = ch_C \<or> t = ch_X then do {
       (x, _) \<leftarrow> readOrderExecuted data;
       Some (ReduceMsg (orderRef x) (msgShares x)) }
     else if t = ch_U then do {
       (r, _) \<leftarrow> readOrderReplace data;
       Some (ReplaceMsg (originalOrderRef r) (newOrderRef r) (repShares r) (repPrice r)) }
     else Some OtherMsg }"

text \<open>The order a replace message creates.\<close>

definition replacement :: "u64 \<Rightarrow> u32 \<Rightarrow> u32 \<Rightarrow> u8 \<Rightarrow> Order" where
  "replacement ref n p side = \<lparr>orderReferenceNumberHigh = ref_high ref, orderReferenceNumberLow = ref_low ref,
     shares = n, price = p, buySellIndicator = side\<rparr>"

lemma order_ref_replacement [simp]: "order_ref (replacement ref n p side) = ref"
  by (simp add: order_ref_def replacement_def)

section \<open>The state machine\<close>

text \<open>No arena slot holds two resting orders.\<close>

definition slots_ok :: "books \<Rightarrow> bool" where
  "slots_ok Q \<longleftrightarrow> (\<forall>l. distinct (map fst (fst (Q l) @ snd (Q l)))) \<and>
     (\<forall>l l'. l \<noteq> l' \<longrightarrow> own (Q l) \<inter> own (Q l') = {})"

lemma store_ok_slots:
  assumes "store_ok p bs fs Q"
  shows "slots_ok Q"
proof -
  have "distinct (map fst (fst (Q l) @ snd (Q l)))" for l
  proof -
    have "book_rel (nodes p) (bs l) (Q l)" using assms by (simp add: store_ok_def)
    then show ?thesis by (cases "Q l") (auto simp: book_rel_def side_rel_def entries_ok_def)
  qed
  then show ?thesis using assms by (simp add: slots_ok_def store_ok_def)
qed

type_synonym machine = "(u64 \<rightharpoonup> OrderLocation) \<times> books"

inductive engine_step :: "machine \<times> EngineScratch \<Rightarrow> message \<Rightarrow> machine \<times> EngineScratch \<Rightarrow> bool" where
  add: "handle_spec i ord (Q l) = (ord', q', rs, es) \<Longrightarrow> i = INVALID_INDEX \<longleftrightarrow> shares ord' = 0 \<Longrightarrow>
    buySellIndicator ord \<in> {ch_B, ch_S} \<Longrightarrow> slots_ok (Q(l := q')) \<Longrightarrow>
    engine_step ((m, Q), s) (AddMsg l ord) ((index_after m (order_ref ord) l i rs, Q(l := q')),
      \<lparr>scratchRemoved = rs, scratchExecuted = es\<rparr>)"
| delete: "m ref = Some loc \<Longrightarrow>
    engine_step ((m, Q), s) (DeleteMsg ref)
      ((m(ref := None), Q(stockLocate loc := drop_book (poolIdx loc) (Q (stockLocate loc)))), s)"
| delete_unknown: "m ref = None \<Longrightarrow> engine_step ((m, Q), s) (DeleteMsg ref) ((m, Q), s)"
| reduce_all: "m ref = Some loc \<Longrightarrow> (poolIdx loc, ord) \<in> resting (Q (stockLocate loc)) \<Longrightarrow> shares ord \<le> n \<Longrightarrow>
    engine_step ((m, Q), s) (ReduceMsg ref n)
      ((m(ref := None), Q(stockLocate loc := drop_book (poolIdx loc) (Q (stockLocate loc)))), s)"
| reduce: "m ref = Some loc \<Longrightarrow> (poolIdx loc, ord) \<in> resting (Q (stockLocate loc)) \<Longrightarrow> n < shares ord \<Longrightarrow>
    engine_step ((m, Q), s) (ReduceMsg ref n)
      ((m, Q(stockLocate loc := set_book (poolIdx loc) (ord\<lparr>shares := shares ord - n\<rparr>) (Q (stockLocate loc)))), s)"
| reduce_unknown: "m ref = None \<Longrightarrow> engine_step ((m, Q), s) (ReduceMsg ref n) ((m, Q), s)"
| replace: "m ref = Some loc \<Longrightarrow> (poolIdx loc, ord) \<in> resting (Q (stockLocate loc)) \<Longrightarrow>
    engine_step ((m(ref := None), Q(stockLocate loc := drop_book (poolIdx loc) (Q (stockLocate loc)))), s)
      (AddMsg (stockLocate loc) (replacement ref' n p (buySellIndicator ord))) st' \<Longrightarrow>
    engine_step ((m, Q), s) (ReplaceMsg ref ref' n p) st'"
| replace_unknown: "m ref = None \<Longrightarrow> engine_step ((m, Q), s) (ReplaceMsg ref ref' n p) ((m, Q), s)"
| other: "engine_step ((m, Q), s) OtherMsg ((m, Q), s)"

inductive_cases engine_step_AddE: "engine_step ((m, Q), s) (AddMsg l ord) st'"

text \<open>What the machine sees of an engine.\<close>

definition view :: "MatchingEngine \<Rightarrow> books \<Rightarrow> machine" where
  "view e Q = (hm_map (orderMap e), Q)"

definition valid_side :: "message \<Rightarrow> bool" where
  "valid_side msg = (case msg of AddMsg l ord \<Rightarrow> buySellIndicator ord \<in> {ch_B, ch_S} | _ \<Rightarrow> True)"

section \<open>The code simulates the machine\<close>

lemma processAdd_sim:
  assumes ok: "engine_ok e fs Q" and rm: "room e Q" and side: "buySellIndicator ord \<in> {ch_B, ch_S}"
    and loc: "take_bytes 2 data = Some (lb, d1)" and ord: "readAddOrder data = Some (ord, d2)"
  shows "\<exists>e' s' fs' Q'. processAdd clk e data tw = Some (Inr (e', s')) \<and> engine_ok e' fs' Q' \<and>
    capacity (orderMap e') = capacity (orderMap e) \<and>
    engine_step (view e Q, s) (AddMsg (bswap (load_le lb)) ord) (view e' Q', s')"
proof -
  let ?l = "bswap (load_le lb) :: u16"
  obtain res m fs' q' where h: "handleOrder (pool e) (orderBooks e ?l) ord [] [] = Some (Inr res)"
    "updateMap (orderMap e) (order_ref ord) ?l res = Some m" "order_ref (rorder res) = order_ref ord"
    "handle_spec (restingIdx res) ord (Q ?l) = (rorder res, q', removedRefs res, executedOrders res)"
    "restingIdx res = INVALID_INDEX \<longleftrightarrow> shares (rorder res) = 0"
    "store_ok (rpool res) ((orderBooks e)(?l := rbook res)) fs' (Q(?l := q'))" "hm_ok m"
    "hm_map m = index_after (hm_map (orderMap e)) (order_ref ord) ?l (restingIdx res) (removedRefs res)"
    "index_sound (hm_map m) (Q(?l := q'))" "capacity m = capacity (orderMap e)"
    by (rule handle_engine [OF ok rm side])
  obtain c0 c1 where clk: "clk = (c0, c1)" by (cases clk)
  let ?e = "e\<lparr>pool := rpool res, orderMap := m, orderBooks := (orderBooks e)(?l := rbook res),
      latencies := latencies e @ [c1 - c0],
      wireLatencies := (if tw \<noteq> 0 then wireLatencies e @ [c0 - tw] else wireLatencies e)\<rparr>"
  let ?s = "\<lparr>scratchRemoved = removedRefs res, scratchExecuted = executedOrders res\<rparr>"
  have "processAdd clk e data tw = Some (Inr (?e, ?s))"
    using loc ord h(1-3) by (simp add: processAdd_def clk)
  moreover have "engine_ok ?e fs' (Q(?l := q'))" using h by (simp add: engine_ok_def)
  moreover have "engine_step (view e Q, s) (AddMsg ?l ord) (view ?e (Q(?l := q')), ?s)"
    using engine_step.add [where Q = Q, OF h(4,5) side store_ok_slots [OF h(6)]] by (simp add: view_def h(8))
  ultimately show ?thesis using h(10) by (intro exI conjI) (assumption | simp)+
qed

lemma processDelete_sim:
  assumes ok: "engine_ok e fs Q" and d: "readDeleteOrder data = Some (d, d')"
  shows "\<exists>e' fs' Q'. processDelete e data = Some e' \<and> engine_ok e' fs' Q' \<and>
    capacity (orderMap e') = capacity (orderMap e) \<and>
    engine_step (view e Q, s) (DeleteMsg (join_ref (delRefHigh d) (delRefLow d))) (view e' Q', s)"
proof -
  let ?ref = "join_ref (delRefHigh d) (delRefLow d)"
  have find: "hm_find (orderMap e) ?ref = Some (hm_map (orderMap e) ?ref)"
    using ok by (simp add: engine_ok_def hm_find_spec)
  show ?thesis
  proof (cases "hm_map (orderMap e) ?ref")
    case None
    then have "processDelete e data = Some e" using d find by (simp add: processDelete_def)
    with ok None show ?thesis using engine_step.delete_unknown by (metis view_def)
  next
    case (Some loc)
    obtain e' fs' where dr: "dropOrder e loc ?ref = Some e'"
      "engine_ok e' fs' (Q(stockLocate loc := drop_book (poolIdx loc) (Q (stockLocate loc))))" (is "engine_ok _ _ ?Q")
      "hm_map (orderMap e') = (hm_map (orderMap e))(?ref := None)" "capacity (orderMap e') = capacity (orderMap e)"
      by (rule dropOrder_spec [OF ok Some])
    have "processDelete e data = Some e'" using d find Some dr(1) by (simp add: processDelete_def)
    moreover have "engine_step (view e Q, s) (DeleteMsg ?ref) (view e' ?Q, s)"
      unfolding view_def dr(3) by (rule engine_step.delete [where m = "hm_map (orderMap e)", OF Some])
    ultimately show ?thesis using dr by blast
  qed
qed

lemma processExecuted_sim:
  assumes ok: "engine_ok e fs Q" and d: "readOrderExecuted data = Some (x, d')"
  shows "\<exists>e' fs' Q'. processExecuted e data = Some e' \<and> engine_ok e' fs' Q' \<and>
    capacity (orderMap e') = capacity (orderMap e) \<and>
    engine_step (view e Q, s) (ReduceMsg (orderRef x) (msgShares x)) (view e' Q', s)"
proof -
  let ?ref = "orderRef x" and ?n = "msgShares x"
  have find: "hm_find (orderMap e) ?ref = Some (hm_map (orderMap e) ?ref)"
    using ok by (simp add: engine_ok_def hm_find_spec)
  show ?thesis
  proof (cases "hm_map (orderMap e) ?ref")
    case None
    then have "processExecuted e data = Some e" using d find by (simp add: processExecuted_def)
    with ok None show ?thesis using engine_step.reduce_unknown by (metis view_def)
  next
    case (Some loc)
    obtain ord where o: "(poolIdx loc, ord) \<in> resting (Q (stockLocate loc))"
      "pool_at (pool e) (poolIdx loc) = Some (nodes (pool e) ! unat (poolIdx loc))"
      "norder (nodes (pool e) ! unat (poolIdx loc)) = ord"
      by (rule located [OF ok Some])
    show ?thesis
    proof (cases "shares ord \<le> ?n")
      case True
      obtain e' fs' where dr: "dropOrder e loc ?ref = Some e'"
        "engine_ok e' fs' (Q(stockLocate loc := drop_book (poolIdx loc) (Q (stockLocate loc))))" (is "engine_ok _ _ ?Q")
        "hm_map (orderMap e') = (hm_map (orderMap e))(?ref := None)" "capacity (orderMap e') = capacity (orderMap e)"
        by (rule dropOrder_spec [OF ok Some])
      have "processExecuted e data = Some e'" using d find Some dr(1) o True by (simp add: processExecuted_def)
      moreover have "engine_step (view e Q, s) (ReduceMsg ?ref ?n) (view e' ?Q, s)"
        unfolding view_def dr(3) by (rule engine_step.reduce_all [where Q = Q and m = "hm_map (orderMap e)", OF Some o(1) True])
      ultimately show ?thesis using dr by blast
    next
      case False
      then have lt: "?n < shares ord" by simp
      obtain p where p: "pool_put (pool e) (poolIdx loc)
          ((nodes (pool e) ! unat (poolIdx loc))\<lparr>norder := ord\<lparr>shares := shares ord - ?n\<rparr>\<rparr>) = Some p"
        "engine_ok (e\<lparr>pool := p\<rparr>) fs
          (Q(stockLocate loc := set_book (poolIdx loc) (ord\<lparr>shares := shares ord - ?n\<rparr>) (Q (stockLocate loc))))"
        (is "engine_ok ?e _ ?Q")
        using reduce_spec [OF ok Some, of ?n] lt o(3) by auto
      have "processExecuted e data = Some ?e" using d find Some o p(1) False by (simp add: processExecuted_def)
      moreover have "engine_step (view e Q, s) (ReduceMsg ?ref ?n) (view ?e ?Q, s)"
        using engine_step.reduce [where Q = Q and m = "hm_map (orderMap e)", OF Some o(1) lt] by (simp add: view_def)
      moreover have "capacity (orderMap ?e) = capacity (orderMap e)" by simp
      ultimately show ?thesis using p(2) by blast
    qed
  qed
qed

lemma room_drop:
  assumes ok: "engine_ok e fs Q" and rm: "room e Q"
    and m: "hm_map (orderMap e') = (hm_map (orderMap e))(ref := None)" "capacity (orderMap e') = capacity (orderMap e)"
  shows "room e' (Q(l := drop_book x (Q l)))"
proof -
  have "finite (\<Union>l. own (Q l))"
    using ok in_use_finite [of "pool e" fs] by (simp add: engine_ok_def store_ok_def)
  moreover have "(\<Union>k. own ((Q(l := drop_book x (Q l))) k)) \<subseteq> (\<Union>l. own (Q l))"
    by (auto simp: own_drop_book split: if_splits)
  ultimately have "card (\<Union>k. own ((Q(l := drop_book x (Q l))) k)) \<le> card (\<Union>l. own (Q l))"
    by (rule card_mono)
  moreover have "card (dom (hm_map (orderMap e'))) \<le> card (dom (hm_map (orderMap e)))"
    unfolding m by (rule card_mono) (auto simp: finite_dom_hm_map)
  ultimately show ?thesis using rm unfolding room_def m(2) by linarith
qed

lemma processReplace_sim:
  assumes ok: "engine_ok e fs Q" and rm: "room e Q" and d: "readOrderReplace data = Some (r, d')"
  shows "\<exists>e' s' fs' Q'. processReplace e data s = Some (Inr (e', s')) \<and> engine_ok e' fs' Q' \<and>
    capacity (orderMap e') = capacity (orderMap e) \<and>
    engine_step (view e Q, s) (ReplaceMsg (originalOrderRef r) (newOrderRef r) (repShares r) (repPrice r)) (view e' Q', s')"
proof -
  let ?ref = "originalOrderRef r"
  have find: "hm_find (orderMap e) ?ref = Some (hm_map (orderMap e) ?ref)"
    using ok by (simp add: engine_ok_def hm_find_spec)
  show ?thesis
  proof (cases "hm_map (orderMap e) ?ref")
    case None
    then have "processReplace e data s = Some (Inr (e, s))" using d find by (simp add: processReplace_def)
    with ok None show ?thesis using engine_step.replace_unknown by (metis view_def)
  next
    case (Some loc)
    let ?l = "stockLocate loc"
    obtain ord where o: "(poolIdx loc, ord) \<in> resting (Q ?l)"
      "pool_at (pool e) (poolIdx loc) = Some (nodes (pool e) ! unat (poolIdx loc))"
      "norder (nodes (pool e) ! unat (poolIdx loc)) = ord" "buySellIndicator ord \<in> {ch_B, ch_S}"
      by (rule located [OF ok Some])
    let ?new = "replacement (newOrderRef r) (repShares r) (repPrice r) (buySellIndicator ord)"
    have side: "buySellIndicator ?new \<in> {ch_B, ch_S}" using o(4) by (simp add: replacement_def)
    obtain e1 fs1 where dr: "dropOrder e loc ?ref = Some e1"
      "engine_ok e1 fs1 (Q(?l := drop_book (poolIdx loc) (Q ?l)))" (is "engine_ok _ _ ?Q")
      "hm_map (orderMap e1) = (hm_map (orderMap e))(?ref := None)" "capacity (orderMap e1) = capacity (orderMap e)"
      by (rule dropOrder_spec [OF ok Some])
    obtain res m fs' q' where h: "handleOrder (pool e1) (orderBooks e1 ?l) ?new [] [] = Some (Inr res)"
      "updateMap (orderMap e1) (order_ref ?new) ?l res = Some m"
      "handle_spec (restingIdx res) ?new (?Q ?l) = (rorder res, q', removedRefs res, executedOrders res)"
      "restingIdx res = INVALID_INDEX \<longleftrightarrow> shares (rorder res) = 0"
      "store_ok (rpool res) ((orderBooks e1)(?l := rbook res)) fs' (?Q(?l := q'))" "hm_ok m"
      "hm_map m = index_after (hm_map (orderMap e1)) (order_ref ?new) ?l (restingIdx res) (removedRefs res)"
      "index_sound (hm_map m) (?Q(?l := q'))" "capacity m = capacity (orderMap e1)"
      by (rule handle_engine [OF dr(2) room_drop [OF ok rm dr(3,4)] side])
    let ?e = "e1\<lparr>pool := rpool res, orderMap := m, orderBooks := (orderBooks e1)(?l := rbook res)\<rparr>"
    let ?s = "\<lparr>scratchRemoved = removedRefs res, scratchExecuted = executedOrders res\<rparr>"
    have run: "processReplace e data s = Some (Inr (?e, ?s))"
      using d find Some o dr(1) h(1,2) unfolding order_ref_replacement
      by (simp add: processReplace_def replacement_def)
    have eok: "engine_ok ?e fs' (?Q(?l := q'))" using h by (simp add: engine_ok_def)
    have "engine_step ((hm_map (orderMap e1), ?Q), s) (AddMsg ?l ?new) (view ?e (?Q(?l := q')), ?s)"
      using engine_step.add [where Q = ?Q, OF h(3,4) side store_ok_slots [OF h(5)], where m = "hm_map (orderMap e1)" and s = s]
      by (simp add: view_def h(7))
    then have "engine_step (view e Q, s) (ReplaceMsg ?ref (newOrderRef r) (repShares r) (repPrice r))
        (view ?e (?Q(?l := q')), ?s)"
      unfolding dr(3) view_def [of e]
      by (rule engine_step.replace [where Q = Q and m = "hm_map (orderMap e)", OF Some o(1)])
    then show ?thesis using run eok h(9) dr(4) by (intro exI conjI) (assumption | simp)+
  qed
qed

text \<open>
  One message: the code returns, keeps the invariant and makes a step of the machine.
\<close>

lemma processMessage_sim:
  assumes ok: "engine_ok e fs Q" and rm: "room e Q" and d: "decode data = Some msg" and v: "valid_side msg"
  shows "\<exists>e' s' fs' Q'. processMessage clk e data len s tw = Some (Inr (e', s')) \<and> engine_ok e' fs' Q' \<and>
    capacity (orderMap e') = capacity (orderMap e) \<and> engine_step (view e Q, s) msg (view e' Q', s')"
proof -
  obtain t rest where t: "readByte data = Some (t, rest)" using d by (auto simp: decode_def split: bind_splits)
  consider (A) "t = ch_A \<or> t = ch_F" | (D) "t = ch_D" | (E) "t = ch_E \<or> t = ch_C \<or> t = ch_X" | (U) "t = ch_U"
    | (other) "t \<notin> {ch_A, ch_F, ch_D, ch_E, ch_C, ch_X, ch_U}" by blast
  then show ?thesis
  proof cases
    case A
    then obtain lb d1 ord d2 where r: "take_bytes 2 rest = Some (lb, d1)" "readAddOrder rest = Some (ord, d2)"
      "msg = AddMsg (bswap (load_le lb)) ord"
      using d t by (auto simp: decode_def split: bind_splits)
    have run: "processMessage clk e data len s tw = processAdd clk e rest tw"
      using A t by (auto simp: processMessage_def)
    have side: "buySellIndicator ord \<in> {ch_B, ch_S}" using v by (simp add: r(3) valid_side_def)
    show ?thesis unfolding run r(3) by (rule processAdd_sim [OF ok rm side r(1,2)])
  next
    case D
    then obtain x d' where r: "readDeleteOrder rest = Some (x, d')"
      "msg = DeleteMsg (join_ref (delRefHigh x) (delRefLow x))"
      using d t by (auto simp: decode_def split: bind_splits)
    have "processMessage clk e data len s tw = map_option (\<lambda>e. Inr (e, s)) (processDelete e rest)"
      using D t by (auto simp: processMessage_def)
    with processDelete_sim [OF ok r(1), of s] r(2) show ?thesis by auto
  next
    case E
    then obtain x d' where r: "readOrderExecuted rest = Some (x, d')" "msg = ReduceMsg (orderRef x) (msgShares x)"
      using d t by (auto simp: decode_def split: bind_splits)
    have "processMessage clk e data len s tw = map_option (\<lambda>e. Inr (e, s)) (processExecuted e rest)"
      using E t by (auto simp: processMessage_def)
    with processExecuted_sim [OF ok r(1), of s] r(2) show ?thesis by auto
  next
    case U
    then obtain x d' where r: "readOrderReplace rest = Some (x, d')"
      "msg = ReplaceMsg (originalOrderRef x) (newOrderRef x) (repShares x) (repPrice x)"
      using d t by (auto simp: decode_def split: bind_splits)
    have run: "processMessage clk e data len s tw = processReplace e rest s"
      using U t by (auto simp: processMessage_def)
    show ?thesis unfolding run r(2) by (rule processReplace_sim [OF ok rm r(1)])
  next
    case other
    then have "msg = OtherMsg" "processMessage clk e data len s tw = Some (Inr (e, s))"
      using d t by (auto simp: decode_def processMessage_def)
    with ok show ?thesis using engine_step.other by (metis view_def)
  qed
qed

text \<open>
  The other two outcomes: the bytes of a message that does not decode are read past their end, and an
  Add Order message with another side throws.
\<close>

lemma processMessage_undecoded:
  "decode data = None \<Longrightarrow> processMessage clk e data len s tw = None"
  by (auto simp: decode_def processMessage_def processAdd_def processDelete_def processExecuted_def
      processReplace_def split: bind_splits if_splits)

lemma processMessage_throws:
  assumes "decode data = Some msg" and "\<not> valid_side msg"
  shows "processMessage clk e data len s tw = Some (Inl (runtime_error ''Invalid buy/sell indicator''))"
  using assms
  by (auto simp: decode_def processMessage_def processAdd_def valid_side_def handleOrder_throws
      split: bind_splits if_splits)

section \<open>Messages without effect\<close>

text \<open>The reference a message looks up, if it does.\<close>

fun target :: "message \<Rightarrow> u64 option" where
  "target (DeleteMsg ref) = Some ref"
| "target (ReduceMsg ref n) = Some ref"
| "target (ReplaceMsg ref ref' n p) = Some ref"
| "target _ = None"

definition idle :: "(u64 \<rightharpoonup> OrderLocation) \<Rightarrow> message \<Rightarrow> bool" where
  "idle m msg \<longleftrightarrow> msg = OtherMsg \<or> (\<exists>ref. target msg = Some ref \<and> m ref = None)"

lemma processMessage_idle:
  assumes ok: "engine_ok e fs Q" and d: "decode data = Some msg" and idle: "idle (hm_map (orderMap e)) msg"
  shows "processMessage clk e data len s tw = Some (Inr (e, s))"
proof -
  have find: "hm_find (orderMap e) ref = Some (hm_map (orderMap e) ref)" for ref
    using ok by (simp add: engine_ok_def hm_find_spec)
  obtain t rest where t: "readByte data = Some (t, rest)" using d by (auto simp: decode_def split: bind_splits)
  have na: "t \<noteq> ch_A \<and> t \<noteq> ch_F"
    using d t idle by (auto simp: decode_def idle_def split: bind_splits)
  consider (D) "t = ch_D" | (E) "t = ch_E \<or> t = ch_C \<or> t = ch_X" | (U) "t = ch_U"
    | (other) "t \<notin> {ch_A, ch_F, ch_D, ch_E, ch_C, ch_X, ch_U}" using na by blast
  then show ?thesis
  proof cases
    case D
    then obtain x d' where "readDeleteOrder rest = Some (x, d')" "msg = DeleteMsg (join_ref (delRefHigh x) (delRefLow x))"
      using d t by (auto simp: decode_def split: bind_splits)
    then show ?thesis using D t find idle by (simp add: processMessage_def processDelete_def idle_def)
  next
    case E
    then obtain x d' where "readOrderExecuted rest = Some (x, d')" "msg = ReduceMsg (orderRef x) (msgShares x)"
      using d t by (auto simp: decode_def split: bind_splits)
    then show ?thesis using E t find idle by (auto simp: processMessage_def processExecuted_def idle_def)
  next
    case U
    then obtain x d' where "readOrderReplace rest = Some (x, d')"
      "msg = ReplaceMsg (originalOrderRef x) (newOrderRef x) (repShares x) (repPrice x)"
      using d t by (auto simp: decode_def split: bind_splits)
    then show ?thesis using U t find idle by (simp add: processMessage_def processReplace_def idle_def)
  next
    case other
    then show ?thesis using t by (simp add: processMessage_def)
  qed
qed

end
