(* ===== verification/Engine_Run.thy ===== *)
theory Engine_Run
  imports Engine_Steps
begin

text \<open>
  Runs of the engine over a file (\<open>run\<close> of \<^verbatim>\<open>src/matching_engine.cpp\<close>): sequences of machine
  steps, the growth of the state per message, the length-prefixed framing, and the theorem
  that a file of well-formed messages is processed to its end by machine steps.
\<close>

section \<open>Sequences of steps\<close>

inductive engine_steps :: "machine \<times> EngineScratch \<Rightarrow> message list \<Rightarrow> machine \<times> EngineScratch \<Rightarrow> bool" where
  Nil: "engine_steps st [] st"
| Cons: "engine_step st msg st1 \<Longrightarrow> engine_steps st1 msgs st2 \<Longrightarrow> engine_steps st (msg # msgs) st2"

inductive_cases engine_steps_NilE: "engine_steps st [] st'"
inductive_cases engine_steps_ConsE: "engine_steps st (msg # msgs) st'"

lemma engine_steps_append:
  "engine_steps st msgs st1 \<Longrightarrow> engine_steps st1 msgs' st2 \<Longrightarrow> engine_steps st (msgs @ msgs') st2"
  by (induction rule: engine_steps.induct) (auto intro: engine_steps.Cons)

text \<open>A property every step keeps holds after every sequence of steps.\<close>

lemma engine_steps_invariant:
  assumes "engine_steps st msgs st'" and "I st" and "\<And>st msg st'. engine_step st msg st' \<Longrightarrow> I st \<Longrightarrow> I st'"
  shows "I st'"
  using assms by (induction rule: engine_steps.induct) auto

section \<open>Growth per message\<close>

definition slots_of :: "books \<Rightarrow> u32 set" where
  "slots_of Q = (\<Union>l. own (Q l))"

lemma slots_of_upd: "slots_of (Q(l := q)) \<subseteq> own q \<union> slots_of Q"
  by (auto simp: slots_of_def split: if_splits)

lemma own_in_slots: "own (Q l) \<subseteq> slots_of Q"
  by (auto simp: slots_of_def)

lemma own_handle: "handle_spec i ord q = (ord', q', rs, es) \<Longrightarrow> own q' \<subseteq> insert i (own q)"
proof (rule handle_cases)
  fix b qs qs' ts
  assume m: "match_against b ord qs = (ord', qs', rs, es)" and q: "resting q = set qs \<union> set ts"
    "resting q' = set qs' \<union> set (rest_order (\<not> b) i ord' ts)"
  then show ?thesis using match_slots(3) [OF m] by (auto simp: own_resting q set_rest_order)
qed

lemma slots_of_drop: "slots_of (Q(l := drop_book x (Q l))) \<subseteq> slots_of Q"
  using slots_of_upd [of Q l "drop_book x (Q l)"] own_in_slots [of Q l] unfolding own_drop_book by blast

lemma slots_of_set: "slots_of (Q(l := set_book x r (Q l))) \<subseteq> slots_of Q"
  using slots_of_upd [of Q l "set_book x r (Q l)"] own_in_slots [of Q l] unfolding own_set_book by blast

lemma engine_step_growth:
  "engine_step st msg st' \<Longrightarrow> \<exists>x ref. slots_of (snd (fst st')) \<subseteq> insert x (slots_of (snd (fst st))) \<and>
     dom (fst (fst st')) \<subseteq> insert ref (dom (fst (fst st)))"
proof (induction rule: engine_step.induct)
  case (add i ord Q l ord' q' rs es m s)
  have "slots_of (Q(l := q')) \<subseteq> insert i (slots_of Q)"
    using slots_of_upd [of Q l q'] own_handle [OF add(1)] own_in_slots [of Q l] by blast
  moreover have "dom (index_after m (order_ref ord) l i rs) \<subseteq> insert (order_ref ord) (dom m)"
    by (auto simp: index_after_def)
  ultimately show ?case unfolding fst_conv snd_conv by blast
next
  case (replace m ref loc ord Q s ref' n p st')
  let ?Q = "Q(stockLocate loc := drop_book (poolIdx loc) (Q (stockLocate loc)))"
  obtain x r where "slots_of (snd (fst st')) \<subseteq> insert x (slots_of ?Q)" "dom (fst (fst st')) \<subseteq> insert r (dom (m(ref := None)))"
    using replace.IH unfolding fst_conv snd_conv by blast
  then have "slots_of (snd (fst st')) \<subseteq> insert x (slots_of Q)" "dom (fst (fst st')) \<subseteq> insert r (dom m)"
    using slots_of_drop [of Q "stockLocate loc" "poolIdx loc"] by (blast, auto split: if_splits)
  then show ?case unfolding fst_conv snd_conv by blast
next
  case (delete m ref loc Q s)
  have "dom (m(ref := None)) \<subseteq> insert ref (dom m)" by auto
  then show ?case unfolding fst_conv snd_conv using slots_of_drop [of Q "stockLocate loc" "poolIdx loc"] by blast
next
  case (reduce_all m ref loc ord Q n s)
  have "dom (m(ref := None)) \<subseteq> insert ref (dom m)" by auto
  then show ?case unfolding fst_conv snd_conv using slots_of_drop [of Q "stockLocate loc" "poolIdx loc"] by blast
next
  case (reduce m ref loc ord Q n s)
  show ?case unfolding fst_conv snd_conv using slots_of_set [of Q "stockLocate loc" "poolIdx loc"] by blast
qed auto

lemma card_insert_bound: "finite B \<Longrightarrow> A \<subseteq> insert x B \<Longrightarrow> card A \<le> card B + 1"
  using card_mono [of "insert x B" A] card_insert_if [of B x] by (simp split: if_splits)

text \<open>Room for \<open>k\<close> more messages, each of which may rest one order.\<close>

definition room_for :: "nat \<Rightarrow> MatchingEngine \<Rightarrow> books \<Rightarrow> bool" where
  "room_for k e Q \<longleftrightarrow> card (slots_of Q) + k < unat INVALID_INDEX \<and>
     card (dom (hm_map (orderMap e))) + k < capacity (orderMap e)"

lemma room_for_room: "room_for (Suc k) e Q \<Longrightarrow> room e Q"
  by (auto simp: room_for_def room_def slots_of_def)

lemma room_for_step:
  assumes "engine_ok e fs Q" and rm: "room_for (Suc k) e Q"
    and st: "engine_step (view e Q, s) msg (view e' Q', s')" and cap: "capacity (orderMap e') = capacity (orderMap e)"
  shows "room_for k e' Q'"
proof -
  have fin: "finite (slots_of Q)"
    using assms(1) in_use_finite [of "pool e" fs] by (simp add: engine_ok_def store_ok_def slots_of_def)
  obtain x ref where g: "slots_of Q' \<subseteq> insert x (slots_of Q)"
    "dom (hm_map (orderMap e')) \<subseteq> insert ref (dom (hm_map (orderMap e)))"
    using engine_step_growth [OF st] by (auto simp: view_def)
  have "card (slots_of Q') \<le> card (slots_of Q) + 1" by (rule card_insert_bound [OF fin g(1)])
  moreover have "card (dom (hm_map (orderMap e'))) \<le> card (dom (hm_map (orderMap e))) + 1"
    by (rule card_insert_bound [OF finite_dom_hm_map g(2)])
  ultimately show ?thesis using rm cap unfolding room_for_def by linarith
qed

section \<open>Framed files\<close>

text \<open>A reader is stable if it reads the same, and leaves the rest, when more bytes follow.\<close>

definition stable :: "(bytes \<Rightarrow> ('v \<times> bytes) option) \<Rightarrow> bool" where
  "stable f \<longleftrightarrow> (\<forall>bs v d r. f bs = Some (v, d) \<longrightarrow> f (bs @ r) = Some (v, d @ r))"

lemma stableD: "stable f \<Longrightarrow> f bs = Some (v, d) \<Longrightarrow> f (bs @ r) = Some (v, d @ r)"
  by (simp add: stable_def)

lemma stable_return: "stable (\<lambda>d. Some (v, d))"
  by (simp add: stable_def)

lemma stable_bind: "stable f \<Longrightarrow> (\<And>v. stable (g v)) \<Longrightarrow> stable (\<lambda>bs. f bs \<bind> (\<lambda>(v, d). g v d))"
  by (fastforce simp: stable_def split: bind_splits)

lemma stable_skip: "stable g \<Longrightarrow> stable (\<lambda>bs. skipHeader bs \<bind> g)"
  by (fastforce simp: stable_def skipHeader_def take_bytes_def split: bind_splits if_splits)

lemma stable_take: "stable (take_bytes n)"
  by (auto simp: stable_def take_bytes_def split: if_splits)

lemma stable_byte: "stable readByte"
  by (auto simp: stable_def readByte_def split: list.splits)

lemma stable_u32: "stable readU32"
  unfolding readU32_def by (intro stable_bind stable_take stable_return)

lemma stable_ref: "stable readRef"
  unfolding readRef_def by (intro stable_bind stable_u32 stable_return)

lemmas stable_intros = stable_skip stable_bind stable_take stable_byte stable_u32 stable_ref stable_return

lemma stable_messages:
  "stable readAddOrder" "stable readDeleteOrder" "stable readOrderExecuted" "stable readOrderReplace"
  unfolding readAddOrder_def readDeleteOrder_def readOrderExecuted_def readOrderReplace_def
  by (intro stable_intros)+

lemma decode_more:
  assumes "decode bs = Some msg"
  shows "decode (bs @ r) = Some msg"
proof -
  obtain t d where t: "readByte bs = Some (t, d)" using assms by (auto simp: decode_def split: bind_splits)
  note t' = stableD [OF stable_byte t, of r]
  consider (A) "t = ch_A \<or> t = ch_F" | (D) "t = ch_D" | (E) "t = ch_E \<or> t = ch_C \<or> t = ch_X" | (U) "t = ch_U"
    | (other) "t \<notin> {ch_A, ch_F, ch_D, ch_E, ch_C, ch_X, ch_U}" by blast
  then show ?thesis
  proof cases
    case A
    then obtain lb d1 ord d2 where x: "take_bytes 2 d = Some (lb, d1)" "readAddOrder d = Some (ord, d2)"
      "msg = AddMsg (bswap (load_le lb)) ord"
      using assms t by (auto simp: decode_def split: bind_splits)
    with A t' stableD [OF stable_take x(1), of r] stableD [OF stable_messages(1) x(2), of r]
    show ?thesis by (auto simp: decode_def)
  next
    case D
    then obtain x d' where x: "readDeleteOrder d = Some (x, d')" "msg = DeleteMsg (join_ref (delRefHigh x) (delRefLow x))"
      using assms t by (auto simp: decode_def split: bind_splits)
    with D t' stableD [OF stable_messages(2) x(1), of r] show ?thesis by (auto simp: decode_def)
  next
    case E
    then obtain x d' where x: "readOrderExecuted d = Some (x, d')" "msg = ReduceMsg (orderRef x) (msgShares x)"
      using assms t by (auto simp: decode_def split: bind_splits)
    with E t' stableD [OF stable_messages(3) x(1), of r] show ?thesis by (auto simp: decode_def)
  next
    case U
    then obtain x d' where x: "readOrderReplace d = Some (x, d')"
      "msg = ReplaceMsg (originalOrderRef x) (newOrderRef x) (repShares x) (repPrice x)"
      using assms t by (auto simp: decode_def split: bind_splits)
    with U t' stableD [OF stable_messages(4) x(1), of r] show ?thesis by (auto simp: decode_def)
  next
    case other
    with assms t t' show ?thesis by (auto simp: decode_def)
  qed
qed

definition frame :: "bytes \<Rightarrow> bytes" where
  "frame bs = store_be 2 (of_nat (length bs) :: u16) @ bs"

lemma run_loop_frame:
  assumes len: "length bs < 2 ^ 16"
  shows "run_loop clk n e s (frame bs @ rest) =
    (case processMessage (clk n) e (bs @ rest) (of_nat (length bs)) s 0 of
       None \<Rightarrow> None
     | Some (Inl x) \<Rightarrow> Some (Inl x)
     | Some (Inr (e', s')) \<Rightarrow> run_loop clk (Suc n) e' s' rest)"
proof -
  have be: "bswap (load_le (store_be 2 (w :: u16))) = w" for w by (rule ntoh_store_be) simp
  have ne: "frame bs \<noteq> []" by (auto simp: frame_def store_be_def store_le_def)
  have tb: "take_bytes 2 (frame bs @ rest) = Some (store_be 2 (of_nat (length bs) :: u16), bs @ rest)"
    by (simp add: frame_def)
  have ul: "unat (of_nat (length bs) :: u16) = length bs" using len by (simp add: unat_of_nat_small)
  show ?thesis
    unfolding run_loop.simps [of clk n e s "frame bs @ rest"] tb using ne ul
    by (auto simp: Let_def be split: option.split sum.split)
qed

definition wf_message :: "bytes \<Rightarrow> message \<Rightarrow> bool" where
  "wf_message bs msg \<longleftrightarrow> decode bs = Some msg \<and> valid_side msg \<and> length bs < 2 ^ 16"

text \<open>Well-formed messages are processed by steps of the machine, whatever comes behind them.\<close>

lemma run_loop_prefix:
  assumes "list_all2 wf_message bss msgs" and "engine_ok e fs Q" and "room_for (length msgs) e Q"
  shows "\<exists>e' s' fs' Q'. run_loop clk n e s (concat (map frame bss) @ tail) = run_loop clk (n + length msgs) e' s' tail \<and>
    engine_ok e' fs' Q' \<and> engine_steps (view e Q, s) msgs (view e' Q', s')"
  using assms
proof (induction bss msgs arbitrary: n e s fs Q rule: list_all2_induct)
  case Nil
  then show ?case using engine_steps.Nil [of "(view e Q, s)"]
    by (intro exI [of _ e] exI [of _ s] exI [of _ fs] exI [of _ Q]) simp
next
  case (Cons bs bss msg msgs)
  let ?rest = "concat (map frame bss) @ tail"
  have d: "decode (bs @ ?rest) = Some msg" "valid_side msg" "length bs < 2 ^ 16"
    using Cons.hyps(1) by (auto simp: wf_message_def decode_more)
  have rm: "room_for (Suc (length msgs)) e Q" using Cons.prems(2) by simp
  obtain e1 s1 fs1 Q1 where 1: "processMessage (clk n) e (bs @ ?rest) (of_nat (length bs)) s 0 = Some (Inr (e1, s1))"
    "engine_ok e1 fs1 Q1" "capacity (orderMap e1) = capacity (orderMap e)" "engine_step (view e Q, s) msg (view e1 Q1, s1)"
    using processMessage_sim [OF Cons.prems(1) room_for_room [OF rm] d(1,2)] by blast
  have "room_for (length msgs) e1 Q1" by (rule room_for_step [OF Cons.prems(1) rm 1(4,3)])
  then obtain e' s' fs' Q' where 2: "run_loop clk (Suc n) e1 s1 ?rest = run_loop clk (Suc n + length msgs) e' s' tail"
    "engine_ok e' fs' Q'" "engine_steps (view e1 Q1, s1) msgs (view e' Q', s')"
    using Cons.IH [OF 1(2)] by blast
  have "run_loop clk n e s (concat (map frame (bs # bss)) @ tail) = run_loop clk (n + length (msg # msgs)) e' s' tail"
    using run_loop_frame [OF d(3), of clk n e s ?rest] 1(1) 2(1) by simp
  with 2 engine_steps.Cons [OF 1(4) 2(3)] show ?case by blast
qed

text \<open>A file of well-formed messages is processed to its end.\<close>

lemma run_loop_sim:
  assumes "list_all2 wf_message bss msgs" and "engine_ok e fs Q" and "room_for (length msgs) e Q"
  shows "\<exists>e' s' fs' Q'. run_loop clk n e s (concat (map frame bss)) = Some (Inr (e', s')) \<and>
    engine_ok e' fs' Q' \<and> engine_steps (view e Q, s) msgs (view e' Q', s')"
proof -
  have "run_loop clk k e' s' [] = Some (Inr (e', s'))" for k e' s' by (subst run_loop.simps) simp
  then show ?thesis using run_loop_prefix [OF assms, of clk n s "[]"] by auto
qed

text \<open>A file that ends inside the length of a message, right behind it, or inside an Add Order message.\<close>

definition cut_off :: "bytes \<Rightarrow> bool" where
  "cut_off t \<longleftrightarrow> t \<noteq> [] \<and> (length t \<le> 2 \<or> length t < 38 \<and> (t ! 2 = ch_A \<or> t ! 2 = ch_F))"

lemma readAddOrder_short:
  assumes "length data < 35"
  shows "readAddOrder data = None"
proof -
  have "Suc (length d) = length data - 18" if "drop 18 data = b # d" for b d
    using that length_drop [of 18 data] by simp
  then show ?thesis using assms
    by (fastforce simp: readAddOrder_def skipHeader_def readRef_def readU32_def readByte_def take_bytes_def bind_eq_None_conv split: option.split list.split)
qed

lemma run_loop_cut_off: "cut_off t \<Longrightarrow> run_loop clk n e s t = None"
proof -
  assume cut: "cut_off t"
  show ?thesis
  proof (cases "2 \<le> length t")
    case True
    then obtain l d where t: "take_bytes 2 t = Some (l, d)" "d = drop 2 t" by (simp add: take_bytes_def)
    have "processMessage c e d k s 0 = None" for c k
    proof (cases d)
      case Nil
      then show ?thesis by (simp add: processMessage_def readByte_def)
    next
      case (Cons b d')
      then have "2 < length t" "b = t ! 2" using t(2) nth_via_drop [of 2 t b d'] by (cases "2 < length t"; simp)+
      moreover have "length d' + 3 = length t" using Cons t(2) length_drop [of 2 t] \<open>2 < length t\<close> by simp
      ultimately have "b = ch_A \<or> b = ch_F" "length d' < 35" using cut by (auto simp: cut_off_def)
      then show ?thesis using Cons readAddOrder_short by (auto simp: processMessage_def readByte_def processAdd_def take_bytes_def Let_def)
    qed
    then show ?thesis using cut t(1) by (subst run_loop.simps) (auto simp: cut_off_def Let_def)
  next
    case False
    then show ?thesis using cut by (subst run_loop.simps) (simp add: take_bytes_def cut_off_def)
  qed
qed

section \<open>The initial engine\<close>

lemma engine_ok_new:
  assumes "MatchingEngine_sized c = Some e"
  shows "engine_ok e [] (\<lambda>l. ([], []))" "capacity (orderMap e) = unat c" "hm_map (orderMap e) = Map.empty"
proof -
  obtain m where m: "FlatHashMap_new True \<lparr>stockLocate = 0, poolIdx = 0\<rparr> c = Some m"
    and e: "e = \<lparr>pool = OrderPool_new, orderMap = m, orderBooks = (\<lambda>i. OrderBook_new), latencies = [], wireLatencies = []\<rparr>"
    using assms by (auto simp: MatchingEngine_sized_def split: bind_splits)
  note ok = FlatHashMap_new_ok [OF m]
  show "capacity (orderMap e) = unat c" "hm_map (orderMap e) = Map.empty" using ok by (simp_all add: e)
  show "engine_ok e [] (\<lambda>l. ([], []))"
    using ok by (simp add: engine_ok_def e store_ok_def index_sound_def OrderPool_new_def pool_ok_def
        in_use_def slots_def book_rel_new)
qed

lemma MatchingEngine_new_exists: "\<exists>e. MatchingEngine_new = Some e"
proof -
  have "(8388608 :: u64) AND (8388608 - 1) = 0" by simp
  then show ?thesis by (simp add: MatchingEngine_new_def MatchingEngine_sized_def FlatHashMap_new_def)
qed

text \<open>The recorded times are no part of the invariant.\<close>

lemma convertLatencies_frame [simp]:
  "engine_ok (convertLatencies toNs e) fs Q = engine_ok e fs Q" "view (convertLatencies toNs e) Q = view e Q"
  by (simp_all add: convertLatencies_def engine_ok_def view_def split: option.split)

text \<open>The run over a file, from the constructor on.\<close>

definition no_output :: EngineScratch where
  "no_output = \<lparr>scratchRemoved = [], scratchExecuted = []\<rparr>"

abbreviation start :: "machine \<times> EngineScratch" where
  "start \<equiv> ((Map.empty, \<lambda>l. ([], [])), no_output)"

lemma run_sim:
  assumes "MatchingEngine_sized c = Some e" and "list_all2 wf_message bss msgs"
    and "length msgs < unat c" and "length msgs < unat INVALID_INDEX"
  obtains e' fs Q s where "run clk toNs e (Some (concat (map frame bss))) = Some (Inr e')" "engine_ok e' fs Q"
    "engine_steps start msgs (view e' Q, s)"
proof -
  note new = engine_ok_new [OF assms(1)]
  have "room_for (length msgs) e (\<lambda>l. ([], []))" using new assms(3,4) by (simp add: room_for_def slots_of_def)
  then obtain e' s' fs Q where "run_loop clk 0 e no_output (concat (map frame bss)) = Some (Inr (e', s'))"
    "engine_ok e' fs Q" "engine_steps (view e (\<lambda>l. ([], [])), no_output) msgs (view e' Q, s')"
    using run_loop_sim [OF assms(2) new(1)] by blast
  moreover have "view e (\<lambda>l. ([], [])) = (Map.empty, \<lambda>l. ([], []))" by (simp add: view_def new(3))
  ultimately show ?thesis
    by (intro that [of "convertLatencies toNs e'" fs Q s']) (simp_all add: run_def no_output_def)
qed

end
