(* ===== verification/Engine_Udp.thy ===== *)
theory Engine_Udp
  imports Feed_Handler Engine_Run
begin

text \<open>
  The matching thread in UDP mode (\<open>runUdp\<close> of \<^verbatim>\<open>src/engine_udp.cpp\<close>): popping packet references off
  the ring, feeding the messages of a packet to the engine, and giving the buffer back.
  \<open>consumer_step\<close> is one step of its loop, cut at the calls of the ring and the pool.  A packet of
  well-formed messages is shown to be processed by steps of the abstract engine.
\<close>

section \<open>Model\<close>

type_synonym engine_state = "MatchingEngine \<times> EngineScratch \<times> nat"

text \<open>The loop over the messages of a packet; \<open>mem\<close> is the slot's buffer and \<open>clk n\<close> the readings of the
  time stamp counter for the message after \<open>n\<close> messages.\<close>

function packet_loop :: "(nat \<Rightarrow> u64 \<times> u64) \<Rightarrow> bytes \<Rightarrow> MoldMessageIterator \<Rightarrow> u64 \<Rightarrow> engine_state \<Rightarrow>
    (exn + engine_state) option" where
  "packet_loop clk mem it tw (e, s, n) =
     (case mold_next mem it of
        None \<Rightarrow> None
      | Some (None, _) \<Rightarrow> Some (Inr (e, s, n))
      | Some (Some (off, len), it') \<Rightarrow>
          (case processMessage (clk n) e (drop off mem) len s tw of
             None \<Rightarrow> None
           | Some (Inl x) \<Rightarrow> Some (Inl x)
           | Some (Inr (e', s')) \<Rightarrow> packet_loop clk mem it' tw (e', s', Suc n)))"
  by pat_completeness auto
termination
  by (relation "measure (\<lambda>(clk, mem, it, tw, st). iend it - cursor it)")
    (auto simp: mold_next_def Let_def split: if_splits bind_splits)

declare packet_loop.simps [simp del]

text \<open>The body of a packet starts behind its header; a length below the header's would wrap around.\<close>

definition consume_packet :: "(nat \<Rightarrow> u64 \<times> u64) \<Rightarrow> bytes \<times> u16 \<Rightarrow> u64 \<Rightarrow> engine_state \<Rightarrow> (exn + engine_state) option" where
  "consume_packet clk = (\<lambda>(buf, len) tw st.
     if unat len < kMoldHeaderBytes then None
     else packet_loop clk buf (MoldMessageIterator_new kMoldHeaderBytes (unat len - kMoldHeaderBytes)) tw st)"

datatype eng_pc = EngPop nat | EngPacket PacketRef | EngRelease u32 | EngStop | EngDone | EngThrown exn PacketRef

record EngThread =
  epc :: eng_pc
  est :: engine_state

definition spinLimit :: nat where "spinLimit = 1024"

definition consumer_step :: "(nat \<Rightarrow> u64 \<times> u64) \<Rightarrow> Shared \<times> EngThread \<Rightarrow> (Shared \<times> EngThread) option" where
  "consumer_step clk = (\<lambda>(sh, t). case epc t of
      EngPop spinBudget \<Rightarrow> do {
        (out, r) \<leftarrow> ring_pop (sring sh);
        (case out of
           None \<Rightarrow>
             (if Suc spinBudget \<ge> spinLimit
              then Some (sh, t\<lparr>epc := (if sstop sh then EngStop else EngPop 0)\<rparr>)
              else Some (sh, t\<lparr>epc := EngPop (Suc spinBudget)\<rparr>))
         | Some ref \<Rightarrow>
             Some (sh\<lparr>sring := r\<rparr>, t\<lparr>epc := (if refIdx ref = kPoolInvalid then EngStop else EngPacket ref)\<rparr>)) }
    | EngPacket ref \<Rightarrow> do {
        slot \<leftarrow> vec_at (pslots (spool sh)) (refIdx ref);
        r \<leftarrow> consume_packet clk (sdata slot, slength slot) (tWireCycles ref) (est t);
        Some (sh, (case r of Inl x \<Rightarrow> t\<lparr>epc := EngThrown x ref\<rparr>
                           | Inr st \<Rightarrow> t\<lparr>epc := EngRelease (refIdx ref), est := st\<rparr>)) }
    | EngRelease idx \<Rightarrow> do {
        p \<leftarrow> release (spool sh) idx;
        Some (sh\<lparr>spool := p\<rparr>, t\<lparr>epc := EngPop 0\<rparr>) }
    | EngStop \<Rightarrow> Some (sh\<lparr>sstop := True\<rparr>, t\<lparr>epc := EngDone\<rparr>)
    | _ \<Rightarrow> Some (sh, t))"

text \<open>The set-up of \<open>runUdp\<close>, with its two sizes as arguments, and the conversion at its end.\<close>

definition runUdp_start :: "nat \<Rightarrow> u64 \<Rightarrow> MatchingEngine \<Rightarrow> (Shared \<times> EngThread) option" where
  "runUdp_start kPoolSlots kRingSlots e = do {
     p \<leftarrow> PacketPool_new kPoolSlots;
     r \<leftarrow> SpscRing_new \<lparr>refIdx = 0, tWireCycles = 0\<rparr> kRingSlots;
     Some (\<lparr>spool = p, sring = r, sstop = False\<rparr>,
           \<lparr>epc = EngPop 0, est = (e, \<lparr>scratchRemoved = [], scratchExecuted = []\<rparr>, 0)\<rparr>) }"

definition runUdp_finish :: "(u64 \<Rightarrow> u64) option \<Rightarrow> EngThread \<Rightarrow> MatchingEngine" where
  "runUdp_finish toNs t = convertLatencies toNs (fst (est t))"

section \<open>A packet of well-formed messages\<close>

lemma packet_loop_message:
  assumes "length m < 2 ^ 16" and "mem = pre @ store_be 2 (of_nat (length m) :: u16) @ m @ rest"
    and "cursor it = length pre" and "length pre + 2 + length m \<le> iend it"
    and "processMessage (clk n) e (m @ rest) (of_nat (length m)) s tw = Some (Inr (e', s'))"
  shows "packet_loop clk mem it tw (e, s, n) =
    packet_loop clk mem (it\<lparr>cursor := length pre + 2 + length m\<rparr>) tw (e', s', Suc n)"
proof -
  have "drop (length pre + 2) mem = m @ rest" by (simp add: assms(2))
  then show ?thesis using assms(5)
    by (subst packet_loop.simps) (simp add: mold_next_message [OF assms(1-4)])
qed

lemma packet_loop_sim:
  assumes "list_all2 wf_message bss msgs" and "mem = pre @ wire_messages bss @ rest"
    and "cursor it = length pre" and "iend it = length pre + length (wire_messages bss)"
    and "engine_ok e fs Q" and "room_for (length msgs + k) e Q"
  shows "\<exists>e' s' fs' Q'. packet_loop clk mem it tw (e, s, n) = Some (Inr (e', s', n + length msgs)) \<and>
    engine_ok e' fs' Q' \<and> room_for k e' Q' \<and> engine_steps (view e Q, s) msgs (view e' Q', s')"
  using assms
proof (induction bss msgs arbitrary: pre it e s n fs Q rule: list_all2_induct)
  case Nil
  then show ?case by (subst packet_loop.simps) (auto simp: mold_next_def intro: engine_steps.Nil)
next
  case (Cons bs bss msg msgs)
  let ?rest = "wire_messages bss @ rest" and ?it = "it\<lparr>cursor := length pre + 2 + length bs\<rparr>"
  have d: "decode (bs @ ?rest) = Some msg" "valid_side msg" "length bs < 2 ^ 16"
    using Cons.hyps(1) by (auto simp: wf_message_def decode_more)
  have rm: "room_for (Suc (length msgs + k)) e Q" using Cons.prems(5) by simp
  obtain e1 s1 fs1 Q1 where 1: "processMessage (clk n) e (bs @ ?rest) (of_nat (length bs)) s tw = Some (Inr (e1, s1))"
    "engine_ok e1 fs1 Q1" "capacity (orderMap e1) = capacity (orderMap e)" "engine_step (view e Q, s) msg (view e1 Q1, s1)"
    using processMessage_sim [OF Cons.prems(4) room_for_room [OF rm] d(1,2)] by blast
  have rm1: "room_for (length msgs + k) e1 Q1" by (rule room_for_step [OF Cons.prems(4) rm 1(4,3)])
  have "packet_loop clk mem it tw (e, s, n) = packet_loop clk mem ?it tw (e1, s1, Suc n)"
    by (rule packet_loop_message [where clk = clk and n = n and rest = ?rest, OF d(3) _ Cons.prems(2) _ 1(1)])
      (use Cons.prems in simp_all)
  moreover obtain e' s' fs' Q' where 2: "packet_loop clk mem ?it tw (e1, s1, Suc n) = Some (Inr (e', s', Suc n + length msgs))"
    "engine_ok e' fs' Q'" "room_for k e' Q'" "engine_steps (view e1 Q1, s1) msgs (view e' Q', s')"
    using Cons.IH [of "pre @ store_be 2 (of_nat (length bs) :: u16) @ bs" ?it e1 fs1 Q1 s1 "Suc n"] Cons.prems 1(2) rm1 by auto
  ultimately show ?case using engine_steps.Cons [OF 1(4) 2(4)] 2 by auto
qed

end
