(* ===== verification/Pipeline.thy ===== *)
theory Pipeline
  imports Engine_Udp "HOL-Library.Multiset"
begin

text \<open>
  A network thread and the matching thread of \<^verbatim>\<open>src/engine_udp.cpp\<close> together, taking turns in any order on the
  shared pool, ring and stop flag.  The two network threads of the program differ in how they come by
  a packet; what they do to the shared state is the relation \<open>feed_move\<close>, and the contract
  \<open>feed_thread\<close> is what each of them is shown to keep.  History variables record what was
  received, accepted, lost and processed.  The invariant says who owns which buffer, that a
  buffer keeps its packet from acceptance to processing, and that the engine has processed a prefix of
  the accepted packets in their order.
\<close>

section \<open>What a network thread does to the shared state\<close>

text \<open>As far as the other thread can tell, a network thread holds no buffer, holds one, offers one to the ring, or
  is done with the ring.\<close>

datatype feed_phase = FIdle | FHold u32 | FPush u32 u64 | FDone

definition put_slot :: "Shared \<Rightarrow> u32 \<Rightarrow> BufferSlot \<Rightarrow> Shared" where
  "put_slot sh i sl = sh\<lparr>spool := (spool sh)\<lparr>pslots := (pslots (spool sh))[unat i := sl]\<rparr>\<rparr>"

inductive feed_move :: "Shared \<times> feed_phase \<Rightarrow> Shared \<times> feed_phase \<Rightarrow> bool" where
  stay: "feed_move (sh, ph) (sh, ph)"
| finish: "feed_move (sh, FIdle) (sh, FDone)"
| acquire: "acquire (spool sh) = Some (i, p) \<Longrightarrow>
    feed_move (sh, FIdle) (sh\<lparr>spool := p\<rparr>, if i = kPoolInvalid then FIdle else FHold i)"
| store: "length (sdata sl) = kMaxPacketBytes \<Longrightarrow> feed_move (sh, FHold i) (put_slot sh i sl, FHold i)"
| fill: "length (sdata sl) = kMaxPacketBytes \<Longrightarrow> kMoldHeaderBytes \<le> unat (slength sl) \<Longrightarrow> unat (slength sl) \<le> kMaxPacketBytes \<Longrightarrow>
    feed_move (sh, FHold i) (put_slot sh i sl, FPush i w)"
| push: "ring_push (sring sh) \<lparr>refIdx = i, tWireCycles = w\<rparr> = Some (ok, r) \<Longrightarrow>
    feed_move (sh, FPush i w) (sh\<lparr>sring := r\<rparr>, if ok then FIdle else FHold i)"
| release: "release (spool sh) i = Some p \<Longrightarrow> ph' = FIdle \<or> ph' = FDone \<Longrightarrow> feed_move (sh, FHold i) (sh\<lparr>spool := p\<rparr>, ph')"
| sentinel: "ring_push (sring sh) \<lparr>refIdx = kPoolInvalid, tWireCycles = w\<rparr> = Some (ok, r) \<Longrightarrow>
    feed_move (sh, FIdle) (sh\<lparr>sring := r\<rparr>, if ok \<or> sstop sh then FDone else FIdle)"

inductive_cases feed_move_IdleE: "feed_move (sh, FIdle) st'"
inductive_cases feed_move_HoldE: "feed_move (sh, FHold i) st'"
inductive_cases feed_move_PushE: "feed_move (sh, FPush i w) st'"
inductive_cases feed_move_DoneE: "feed_move (sh, FDone) st'"

text \<open>A network thread: its step under an input from outside, its phase, the packets it hears in a step, and whether
  a step loses a packet it had accepted.\<close>

record ('i, 't) Feed =
  fstep :: "'i \<Rightarrow> Shared \<times> 't \<Rightarrow> (Shared \<times> 't) option"
  fphase :: "'t \<Rightarrow> feed_phase"
  fheard :: "'i \<Rightarrow> 't \<Rightarrow> bytes list"
  flost :: "'t \<Rightarrow> 't \<Rightarrow> bool"
  fstuck :: "'t \<Rightarrow> bool"

section \<open>The system\<close>

text \<open>A packet as it lies in its slot, the buffer and the length in it, with its time stamp.\<close>

type_synonym stamped = "(bytes \<times> u16) \<times> u64"

record 't Pipe =
  shared :: Shared
  net :: 't
  eng :: EngThread
  handled :: "bytes list"
  accepted :: "stamped list"
  refused :: nat
  consumed :: "stamped list"

text \<open>The packet that a move from one phase to the next hands over.\<close>

fun offered :: "PacketPool \<Rightarrow> feed_phase \<Rightarrow> feed_phase \<Rightarrow> stamped list" where
  "offered p (FPush i w) FIdle = [(slot_content p i, w)]"
| "offered p _ _ = []"

definition net_history :: "('i, 't) Feed \<Rightarrow> 'i \<Rightarrow> 't Pipe \<Rightarrow> 't \<Rightarrow> 't Pipe \<Rightarrow> 't Pipe" where
  "net_history F inp s t' s' = s'\<lparr>handled := handled s @ fheard F inp (net s),
     accepted := accepted s @ offered (spool (shared s)) (fphase F (net s)) (fphase F t'),
     refused := refused s + (if flost F (net s) t' then 1 else 0)\<rparr>"

definition eng_history :: "'t Pipe \<Rightarrow> 't Pipe \<Rightarrow> 't Pipe" where
  "eng_history s s' = (case epc (eng s) of
      EngPacket r \<Rightarrow> s'\<lparr>consumed := consumed s @ [(slot_content (spool (shared s)) (refIdx r), tWireCycles r)]\<rparr>
    | _ \<Rightarrow> s')"

inductive pipe_step :: "('i, 't) Feed \<Rightarrow> (nat \<Rightarrow> u64 \<times> u64) \<Rightarrow> 't Pipe \<Rightarrow> 't Pipe \<Rightarrow> bool" for F clk where
  net: "fstep F inp (shared s, net s) = Some (sh', t') \<Longrightarrow>
    pipe_step F clk s (net_history F inp s t' (s\<lparr>shared := sh', net := t'\<rparr>))"
| eng: "consumer_step clk (shared s, eng s) = Some (sh', t') \<Longrightarrow>
    pipe_step F clk s (eng_history s (s\<lparr>shared := sh', eng := t'\<rparr>))"

definition pipe_init :: "Shared \<times> 't \<times> EngThread \<Rightarrow> 't Pipe" where
  "pipe_init = (\<lambda>(sh, n, e). \<lparr>shared = sh, net = n, eng = e, handled = [], accepted = [], refused = 0, consumed = []\<rparr>)"

inductive pipe_reachable :: "('i, 't) Feed \<Rightarrow> (nat \<Rightarrow> u64 \<times> u64) \<Rightarrow> 't Pipe \<Rightarrow> 't Pipe \<Rightarrow> bool" for F clk s0 where
  init: "pipe_reachable F clk s0 s0"
| step: "pipe_reachable F clk s0 s \<Longrightarrow> pipe_step F clk s s' \<Longrightarrow> pipe_reachable F clk s0 s'"

text \<open>Processing packets one after the other.\<close>

fun process_all :: "(nat \<Rightarrow> u64 \<times> u64) \<Rightarrow> stamped list \<Rightarrow> engine_state \<Rightarrow> (exn + engine_state) option" where
  "process_all clk [] st = Some (Inr st)"
| "process_all clk ((c, tw) # cs) st =
     (case consume_packet clk c tw st of
        None \<Rightarrow> None
      | Some (Inl x) \<Rightarrow> Some (Inl x)
      | Some (Inr st') \<Rightarrow> process_all clk cs st')"

lemma process_all_snoc:
  assumes "process_all clk cs st = Some (Inr st1)"
  shows "process_all clk (cs @ [(c, tw)]) st = consume_packet clk c tw st1"
  using assms
proof (induction cs arbitrary: st)
  case (Cons a cs)
  obtain c' tw' where a: "a = (c', tw')" by (cases a)
  from Cons.prems obtain st' where st': "consume_packet clk c' tw' st = Some (Inr st')" "process_all clk cs st' = Some (Inr st1)"
    by (auto simp: a split: option.splits sum.splits)
  with Cons.IH [OF st'(2)] show ?case by (simp add: a)
qed (auto split: option.split sum.split)

section \<open>Ownership and order\<close>

fun net_holds :: "feed_phase \<Rightarrow> u32 list" where
  "net_holds (FHold i) = [i]"
| "net_holds (FPush i w) = [i]"
| "net_holds _ = []"

fun eng_holds :: "eng_pc \<Rightarrow> u32 list" where
  "eng_holds (EngPacket r) = [refIdx r]"
| "eng_holds (EngRelease i) = [i]"
| "eng_holds (EngThrown x r) = [refIdx r]"
| "eng_holds _ = []"

definition data_refs :: "PacketRef list \<Rightarrow> PacketRef list" where
  "data_refs q = filter (\<lambda>r. refIdx r \<noteq> kPoolInvalid) q"

definition entry :: "PacketPool \<Rightarrow> PacketRef \<Rightarrow> stamped" where
  "entry p r = (slot_content p (refIdx r), tWireCycles r)"

fun in_hand :: "eng_pc \<Rightarrow> PacketRef list" where
  "in_hand (EngPacket r) = [r]"
| "in_hand _ = []"

fun pending :: "PacketPool \<Rightarrow> feed_phase \<Rightarrow> stamped list" where
  "pending p (FPush i w) = [(slot_content p i, w)]"
| "pending p _ = []"

definition owners :: "u32 list \<Rightarrow> feed_phase \<Rightarrow> PacketRef list \<Rightarrow> eng_pc \<Rightarrow> u32 list" where
  "owners fs n q e = fs @ net_holds n @ map refIdx (data_refs q) @ eng_holds e"

definition good_packet :: "stamped \<Rightarrow> bool" where
  "good_packet = (\<lambda>((buf, len), w). length buf = kMaxPacketBytes \<and> kMoldHeaderBytes \<le> unat len \<and> unat len \<le> kMaxPacketBytes)"

text \<open>The sentinel is pushed last and then popped last.\<close>

definition session_end :: "feed_phase \<Rightarrow> PacketRef list \<Rightarrow> eng_pc \<Rightarrow> bool \<Rightarrow> bool" where
  "session_end n q e stop \<longleftrightarrow>
     (q = data_refs q \<or> n = FDone \<and> (\<exists>r. q = data_refs q @ [r] \<and> refIdx r = kPoolInvalid)) \<and>
     (e = EngStop \<or> e = EngDone \<longrightarrow> n = FDone \<and> q = []) \<and> (stop \<longrightarrow> e = EngDone)"

definition engine_at :: "(nat \<Rightarrow> u64 \<times> u64) \<Rightarrow> engine_state \<Rightarrow> EngThread \<Rightarrow> stamped list \<Rightarrow> bool" where
  "engine_at clk st0 t cs \<longleftrightarrow> process_all clk cs st0 = Some (case epc t of EngThrown x r \<Rightarrow> Inl x | _ \<Rightarrow> Inr (est t))"

definition pipe_inv :: "('t \<Rightarrow> feed_phase) \<Rightarrow> (nat \<Rightarrow> u64 \<times> u64) \<Rightarrow> engine_state \<Rightarrow> 't Pipe \<Rightarrow> u32 list \<Rightarrow> bool" where
  "pipe_inv ph clk st0 s fs \<longleftrightarrow>
     (let p = spool (shared s); q = ring_queue (sring (shared s)); n = ph (net s); e = epc (eng s) in
      ppool_ok p fs \<and> ring_ok (sring (shared s)) \<and>
      distinct (owners fs n q e) \<and> set (owners fs n q e) = pool_slots p \<and>
      (\<forall>i \<in> pool_slots p. length (fst (slot_content p i)) = kMaxPacketBytes) \<and>
      accepted s = consumed s @ map (entry p) (in_hand e @ data_refs q) \<and>
      list_all good_packet (accepted s @ pending p n) \<and>
      session_end n q e (sstop (shared s)) \<and> engine_at clk st0 (eng s) (consumed s))"

text \<open>What is enough for the invariant to survive a step that leaves the engine's history alone.\<close>

lemma data_refs_simps [simp]:
  "data_refs [] = []" "data_refs (q @ q') = data_refs q @ data_refs q'"
  "data_refs (r # q) = (if refIdx r = kPoolInvalid then data_refs q else r # data_refs q)"
  "data_refs (data_refs q) = data_refs q"
  by (simp_all add: data_refs_def)

lemma data_refs_data: "r \<in> set (data_refs q) \<Longrightarrow> refIdx r \<noteq> kPoolInvalid"
  by (simp add: data_refs_def)

lemma entry_frame:
  "(\<And>i. i \<in> refIdx ` set rs \<Longrightarrow> slot_content p' i = slot_content p i) \<Longrightarrow> map (entry p') rs = map (entry p) rs"
  by (auto simp: entry_def)

lemma pipe_invD:
  assumes "pipe_inv ph clk st0 s fs"
  shows "ppool_ok (spool (shared s)) fs" "ring_ok (sring (shared s))"
    "distinct (owners fs (ph (net s)) (ring_queue (sring (shared s))) (epc (eng s)))"
    "set (owners fs (ph (net s)) (ring_queue (sring (shared s))) (epc (eng s))) = pool_slots (spool (shared s))"
    "\<And>i. i \<in> pool_slots (spool (shared s)) \<Longrightarrow> length (fst (slot_content (spool (shared s)) i)) = kMaxPacketBytes"
    "accepted s = consumed s @ map (entry (spool (shared s))) (in_hand (epc (eng s)) @ data_refs (ring_queue (sring (shared s))))"
    "list_all good_packet (accepted s @ pending (spool (shared s)) (ph (net s)))"
    "session_end (ph (net s)) (ring_queue (sring (shared s))) (epc (eng s)) (sstop (shared s))"
    "engine_at clk st0 (eng s) (consumed s)"
  using assms by (auto simp: pipe_inv_def Let_def)

lemma held_slot:
  assumes "pipe_inv ph clk st0 s fs" and "i \<in> set (net_holds (ph (net s))) \<union> set (eng_holds (epc (eng s)))"
  shows "i \<in> pool_slots (spool (shared s))" "i \<notin> set fs" "i \<noteq> kPoolInvalid" "unat i < length (pslots (spool (shared s)))"
proof -
  note D = pipe_invD [OF assms(1)]
  show 1: "i \<in> pool_slots (spool (shared s))" using D(4) assms(2) by (auto simp: owners_def)
  show "i \<notin> set fs" using D(3) assms(2) by (auto simp: owners_def)
  show "i \<noteq> kPoolInvalid" using 1 packet_pool.free_valid [OF D(1)] by auto
  show "unat i < length (pslots (spool (shared s)))" using 1 by (rule slot_range)
qed

text \<open>Steps that only touch the free list, or only move a thread.\<close>

lemma pipe_inv_pool:
  assumes inv: "pipe_inv ph clk st0 s fs"
    and p: "ppool_ok p' fs'" "pool_slots p' = pool_slots (spool (shared s))"
      "\<And>y. y \<in> pool_slots (spool (shared s)) \<Longrightarrow> slot_content p' y = slot_content (spool (shared s)) y"
    and own: "mset (owners fs' (ph n') (ring_queue (sring (shared s))) (epc e')) =
      mset (owners fs (ph (net s)) (ring_queue (sring (shared s))) (epc (eng s)))"
    and pend: "list_all good_packet (pending p' (ph n'))" and hand: "in_hand (epc e') = in_hand (epc (eng s))"
    and ends: "session_end (ph n') (ring_queue (sring (shared s))) (epc e') stop'"
    and at: "engine_at clk st0 e' (consumed s)"
  shows "pipe_inv ph clk st0 (s\<lparr>shared := (shared s)\<lparr>spool := p', sstop := stop'\<rparr>, net := n', eng := e'\<rparr>) fs'"
proof -
  note D = pipe_invD [OF inv]
  let ?p = "spool (shared s)" and ?q = "ring_queue (sring (shared s))"
  have "refIdx ` set (in_hand (epc (eng s)) @ data_refs ?q) \<subseteq> pool_slots ?p"
    using D(4) by (cases "epc (eng s)") (auto simp: owners_def)
  then have "map (entry p') (in_hand (epc (eng s)) @ data_refs ?q) = map (entry ?p) (in_hand (epc (eng s)) @ data_refs ?q)"
    by (intro entry_frame p(3)) blast
  moreover have "distinct (owners fs' (ph n') ?q (epc e'))" "set (owners fs' (ph n') ?q (epc e')) = pool_slots p'"
    using D(3,4) p(2) mset_eq_imp_distinct_iff [OF own] mset_eq_setD [OF own] by simp_all
  ultimately show ?thesis
    using D p pend ends at hand unfolding pipe_inv_def Let_def by simp
qed

lemma pipe_inv_move:
  assumes inv: "pipe_inv ph clk st0 s fs"
    and "net_holds (ph n') = net_holds (ph (net s))" and "eng_holds (epc e') = eng_holds (epc (eng s))"
    and "list_all good_packet (pending (spool (shared s)) (ph n'))" and "in_hand (epc e') = in_hand (epc (eng s))"
    and "session_end (ph n') (ring_queue (sring (shared s))) (epc e') (sstop (shared s))"
    and "engine_at clk st0 e' (consumed s)"
  shows "pipe_inv ph clk st0 (s\<lparr>net := n', eng := e'\<rparr>) fs"
  using pipe_inv_pool [OF inv, of "spool (shared s)" fs n' e' "sstop (shared s)"] pipe_invD(1) [OF inv] assms
  by (simp add: owners_def)

lemma pipe_inv_history [simp]:
  "pipe_inv ph clk st0 (s\<lparr>handled := hs\<rparr>) fs = pipe_inv ph clk st0 s fs"
  "pipe_inv ph clk st0 (s\<lparr>refused := rs\<rparr>) fs = pipe_inv ph clk st0 s fs"
  "pipe_inv ph clk st0 (s\<lparr>handled := hs, accepted := as\<rparr>) fs = pipe_inv ph clk st0 (s\<lparr>accepted := as\<rparr>) fs"
  by (simp_all add: pipe_inv_def)

lemma session_running:
  "n \<noteq> FDone \<Longrightarrow> session_end n q e stop \<longleftrightarrow> q = data_refs q \<and> e \<noteq> EngStop \<and> e \<noteq> EngDone \<and> \<not> stop"
  by (auto simp: session_end_def)

lemma session_end_done: "session_end n q e stop \<Longrightarrow> session_end FDone q e stop"
  by (auto simp: session_end_def)

section \<open>The network thread's steps\<close>

lemma net_move:
  assumes "pipe_inv ph clk st0 s fs" and "net_holds (ph n') = net_holds (ph (net s))"
    and "pending (spool (shared s)) (ph n') = []" and "ph (net s) \<noteq> FDone"
  shows "pipe_inv ph clk st0 (s\<lparr>net := n'\<rparr>) fs"
proof -
  note D = pipe_invD [OF assms(1)]
  have "session_end (ph n') (ring_queue (sring (shared s))) (epc (eng s)) (sstop (shared s))"
    using D(8) assms(4) session_end_done [OF D(8)] by (cases "ph n' = FDone") (simp_all add: session_running)
  then show ?thesis
    using pipe_inv_move [OF assms(1), of n' "eng s"] assms(2,3) D(9) by simp
qed

lemma net_release:
  assumes inv: "pipe_inv ph clk st0 s fs" and holds: "net_holds (ph (net s)) = [i]"
    and "net_holds (ph n') = []" and "pending (spool (shared s)) (ph n') = []" and "ph (net s) \<noteq> FDone"
  shows "\<exists>p. release (spool (shared s)) i = Some p \<and> pipe_inv ph clk st0 (s\<lparr>shared := (shared s)\<lparr>spool := p\<rparr>, net := n'\<rparr>) (i # fs)"
proof -
  note D = pipe_invD [OF inv]
  have i: "i \<in> pool_slots (spool (shared s))" "i \<notin> set fs" using held_slot [OF inv, of i] holds by simp_all
  obtain p where p: "release (spool (shared s)) i = Some p" "ppool_ok p (i # fs)" "pool_slots p = pool_slots (spool (shared s))"
    "\<And>y. y \<in> pool_slots (spool (shared s)) \<Longrightarrow> slot_content p y = slot_content (spool (shared s)) y"
    using packet_pool.release_ok [OF D(1) i] by blast
  have "session_end (ph n') (ring_queue (sring (shared s))) (epc (eng s)) (sstop (shared s))"
    using D(8) assms(5) session_end_done [OF D(8)] by (cases "ph n' = FDone") (simp_all add: session_running)
  moreover have "pending p (ph n') = []" using assms(4) by (cases "ph n'") auto
  ultimately show ?thesis
    using pipe_inv_pool [OF inv p(2-4), of n' "eng s" "sstop (shared s)"] p(1) holds assms(3) D(9) by (simp add: owners_def)
qed

lemma net_acquire:
  assumes inv: "pipe_inv ph clk st0 s fs" and top: "ph (net s) = FIdle" and acq: "acquire (spool (shared s)) = Some (i, p)"
    and n': "ph n' = (if i = kPoolInvalid then FIdle else FHold i)"
  shows "\<exists>fs'. pipe_inv ph clk st0 (s\<lparr>shared := (shared s)\<lparr>spool := p\<rparr>, net := n'\<rparr>) fs'"
proof -
  note D = pipe_invD [OF inv]
  have run: "ring_queue (sring (shared s)) = data_refs (ring_queue (sring (shared s)))" "epc (eng s) \<noteq> EngStop"
    "epc (eng s) \<noteq> EngDone" "\<not> sstop (shared s)" using D(8) top by (simp_all add: session_running)
  show ?thesis
  proof (cases fs)
    case Nil
    then have "i = kPoolInvalid" "p = spool (shared s)" using packet_pool.acquire_none D(1) acq by simp_all
    moreover from this have "pipe_inv ph clk st0 (s\<lparr>net := n'\<rparr>) fs"
      by (intro net_move [OF inv]) (simp_all add: top n')
    ultimately show ?thesis by auto
  next
    case (Cons j fs')
    obtain p' where p': "acquire (spool (shared s)) = Some (j, p')" "ppool_ok p' fs'" "pool_slots p' = pool_slots (spool (shared s))"
      "slot_content p' = slot_content (spool (shared s))"
      using packet_pool.acquire_some [of "spool (shared s)" j fs'] D(1) Cons by auto
    then have ij: "i = j" "p = p'" using acq by simp_all
    have "j \<noteq> kPoolInvalid" using packet_pool.free_valid [OF D(1)] Cons by auto
    then have n2: "ph n' = FHold j" using n' ij by simp
    have "pipe_inv ph clk st0 (s\<lparr>shared := (shared s)\<lparr>spool := p', sstop := sstop (shared s)\<rparr>, net := n', eng := eng s\<rparr>) fs'"
      by (rule pipe_inv_pool [OF inv p'(2,3)])
        (use p'(4) D(9) run in \<open>auto simp: owners_def top Cons n2 session_running\<close>)
    then show ?thesis using ij by auto
  qed
qed

lemma slot_content_upd:
  "unat i < length (pslots p) \<Longrightarrow> slot_content (p\<lparr>pslots := (pslots p)[unat i := sl]\<rparr>) y =
     (if y = i then (sdata sl, slength sl) else slot_content p y)"
  by (simp add: slot_content_def nth_update_word)

lemma ppool_ok_write:
  assumes "ppool_ok p fs" and "i \<notin> set fs"
  shows "ppool_ok (p\<lparr>pslots := (pslots p)[unat i := sl]\<rparr>) fs"
proof -
  have "pchain ((pslots p)[unat i := sl]) (pfree p) fs = pchain (pslots p) (pfree p) fs"
    by (rule pchain_frame) (use assms(2) in \<open>auto simp: nth_update_notin\<close>)
  then show ?thesis using assms(1) by (simp add: ppool_ok_def)
qed

text \<open>Writing into a slot the thread holds.\<close>

lemma net_write:
  assumes inv: "pipe_inv ph clk st0 s fs" and pc: "ph (net s) = FHold i"
    and sl: "length (sdata sl) = kMaxPacketBytes" and n': "net_holds (ph n') = [i]"
    and good: "list_all good_packet (pending ((spool (shared s))\<lparr>pslots := (pslots (spool (shared s)))[unat i := sl]\<rparr>) (ph n'))"
  shows "pipe_inv ph clk st0 (s\<lparr>shared := (shared s)\<lparr>spool := (spool (shared s))\<lparr>pslots := (pslots (spool (shared s)))[unat i := sl]\<rparr>\<rparr>,
    net := n'\<rparr>) fs"
proof -
  note D = pipe_invD [OF inv]
  let ?p = "spool (shared s)" and ?q = "ring_queue (sring (shared s))" and ?e = "epc (eng s)"
  let ?p' = "?p\<lparr>pslots := (pslots ?p)[unat i := sl]\<rparr>"
  have i: "i \<notin> set fs" "unat i < length (pslots ?p)" using held_slot [OF inv, of i] pc by simp_all
  have "i \<notin> refIdx ` set (in_hand ?e @ data_refs ?q)"
    using D(3) pc by (cases ?e) (auto simp: owners_def)
  then have ent: "map (entry ?p') (in_hand ?e @ data_refs ?q) = map (entry ?p) (in_hand ?e @ data_refs ?q)"
    by (intro entry_frame) (auto simp: slot_content_upd i(2))
  have "ph n' \<noteq> FDone" using n' by auto
  then have "session_end (ph n') ?q ?e (sstop (shared s))" using D(8) pc by (simp add: session_running)
  moreover have "pool_slots ?p' = pool_slots ?p" by (simp add: pool_slots_def)
  moreover have "owners fs (ph n') ?q ?e = owners fs (ph (net s)) ?q ?e" using n' pc by (simp add: owners_def)
  ultimately show ?thesis
    using D ppool_ok_write [OF D(1) i(1)] ent good sl i(2) unfolding pipe_inv_def Let_def by (simp add: slot_content_upd)
qed

text \<open>Offering a reference to the ring.\<close>

lemma net_push_inv:
  assumes inv: "pipe_inv ph clk st0 s fs" and pc: "ph (net s) = FPush i w"
    and run: "ring_push (sring (shared s)) \<lparr>refIdx = i, tWireCycles = w\<rparr> = Some (ok, r)"
    and n': "ph n' = (if ok then FIdle else FHold i)"
  shows "pipe_inv ph clk st0 (s\<lparr>shared := (shared s)\<lparr>sring := r\<rparr>, net := n',
    accepted := accepted s @ offered (spool (shared s)) (ph (net s)) (ph n')\<rparr>) fs"
proof -
  note D = pipe_invD [OF inv]
  let ?r = "sring (shared s)" and ?v = "\<lparr>refIdx = i, tWireCycles = w\<rparr>"
  have i: "i \<noteq> kPoolInvalid" using held_slot [OF inv, of i] pc by simp
  have rn: "ring_queue ?r = data_refs (ring_queue ?r)" "epc (eng s) \<noteq> EngStop" "epc (eng s) \<noteq> EngDone" "\<not> sstop (shared s)"
    using D(8) pc by (simp_all add: session_running)
  have r: "ok = (length (ring_queue ?r) < ring_cap ?r)" "ring_ok r"
    "ring_queue r = (if length (ring_queue ?r) < ring_cap ?r then ring_queue ?r @ [?v] else ring_queue ?r)"
    using spsc.push_result [OF D(2), of ?v] run by auto
  show ?thesis
  proof (cases ok)
    case True
    have q: "ring_queue r = ring_queue ?r @ [?v]" using r(1,3) True by simp
    have dr: "data_refs (ring_queue r) = data_refs (ring_queue ?r) @ [?v]" using i by (simp add: q)
    have "session_end FIdle (ring_queue r) (epc (eng s)) (sstop (shared s))"
      using rn i by (simp add: session_running q)
    moreover have "distinct (owners fs FIdle (ring_queue r) (epc (eng s)))"
      "set (owners fs FIdle (ring_queue r) (epc (eng s))) = pool_slots (spool (shared s))"
      using D(3,4) pc by (auto simp: owners_def dr)
    ultimately show ?thesis
      using r(2) True D pc n' unfolding pipe_inv_def Let_def by (simp add: dr entry_def)
  next
    case False
    have "session_end (FHold i) (ring_queue r) (epc (eng s)) (sstop (shared s))"
      using rn r(1,3) False by (simp add: session_running)
    moreover have "owners fs (FHold i) (ring_queue r) (epc (eng s)) = owners fs (ph (net s)) (ring_queue ?r) (epc (eng s))"
      using pc r(1,3) False by (simp add: owners_def)
    ultimately show ?thesis
      using r False D pc n' unfolding pipe_inv_def Let_def by simp
  qed
qed

lemma net_sentinel_inv:
  assumes inv: "pipe_inv ph clk st0 s fs" and pc: "ph (net s) = FIdle"
    and run: "ring_push (sring (shared s)) \<lparr>refIdx = kPoolInvalid, tWireCycles = w\<rparr> = Some (ok, r)"
    and n': "ph n' = (if ok \<or> sstop (shared s) then FDone else FIdle)"
  shows "pipe_inv ph clk st0 (s\<lparr>shared := (shared s)\<lparr>sring := r\<rparr>, net := n'\<rparr>) fs"
proof -
  note D = pipe_invD [OF inv]
  let ?r = "sring (shared s)" and ?v = "\<lparr>refIdx = kPoolInvalid, tWireCycles = w\<rparr>"
  have rn: "ring_queue ?r = data_refs (ring_queue ?r)" "epc (eng s) \<noteq> EngStop" "epc (eng s) \<noteq> EngDone" "\<not> sstop (shared s)"
    using D(8) pc by (simp_all add: session_running)
  have r: "ok = (length (ring_queue ?r) < ring_cap ?r)" "ring_ok r"
    "ring_queue r = (if length (ring_queue ?r) < ring_cap ?r then ring_queue ?r @ [?v] else ring_queue ?r)"
    using spsc.push_result [OF D(2), of ?v] run by auto
  have dr: "data_refs (ring_queue r) = data_refs (ring_queue ?r)" using r(3) by simp
  have "session_end (ph n') (ring_queue r) (epc (eng s)) (sstop (shared s))"
    using rn r(1,3) n' by (auto simp: session_end_def simp del: length_ring_queue)
  moreover have "owners fs (ph n') (ring_queue r) (epc (eng s)) = owners fs (ph (net s)) (ring_queue ?r) (epc (eng s))"
    using pc n' by (simp add: owners_def dr)
  moreover have "pending (spool (shared s)) (ph n') = []" using n' by simp
  ultimately show ?thesis using r(1,2) D pc unfolding pipe_inv_def Let_def by (simp add: dr del: length_ring_queue)
qed

text \<open>Every move of a network thread keeps the invariant.\<close>

lemma feed_move_inv:
  assumes inv: "pipe_inv ph clk st0 s fs" and move: "feed_move (shared s, ph (net s)) (sh', ph n')"
  shows "\<exists>fs'. pipe_inv ph clk st0 (s\<lparr>shared := sh', net := n',
    accepted := accepted s @ offered (spool (shared s)) (ph (net s)) (ph n')\<rparr>) fs'"
  using move
proof (cases rule: feed_move.cases)
  case stay
  have "pipe_inv ph clk st0 (s\<lparr>net := n'\<rparr>) fs = pipe_inv ph clk st0 s fs" using stay by (simp add: pipe_inv_def)
  moreover have "offered (spool (shared s)) (ph (net s)) (ph n') = []" using stay by (cases "ph (net s)") auto
  ultimately show ?thesis using stay inv by auto
next
  case finish
  have "pipe_inv ph clk st0 (s\<lparr>net := n'\<rparr>) fs" by (rule net_move [OF inv]) (use finish in simp_all)
  then show ?thesis using finish by auto
next
  case (acquire i p)
  then show ?thesis using net_acquire [OF inv, of i p n'] by auto
next
  case (store sl i)
  have "pipe_inv ph clk st0 (s\<lparr>shared := put_slot (shared s) i sl, net := n'\<rparr>) fs"
    unfolding put_slot_def by (rule net_write [OF inv]) (use store in simp_all)
  then show ?thesis using store by auto
next
  case (fill sl i w)
  have i: "unat i < length (pslots (spool (shared s)))" using held_slot(4) [OF inv, of i] fill by simp
  have "pipe_inv ph clk st0 (s\<lparr>shared := put_slot (shared s) i sl, net := n'\<rparr>) fs"
    unfolding put_slot_def by (rule net_write [OF inv]) (use fill i in \<open>simp_all add: good_packet_def slot_content_upd\<close>)
  then show ?thesis using fill by auto
next
  case (push i w ok r)
  then show ?thesis using net_push_inv [OF inv, of i w ok r n'] by auto
next
  case (release i p)
  have "net_holds (ph n') = []" "pending q (ph n') = []" "offered q (FHold i) (ph n') = []" for q using release(4) by auto
  then show ?thesis using net_release [OF inv, of i n'] release by auto
next
  case (sentinel w ok r)
  then show ?thesis using net_sentinel_inv [OF inv, of w ok r n'] by auto
qed

section \<open>The matching thread's steps\<close>

text \<open>Taking a reference off the ring; the sentinel is the last one.\<close>

lemma eng_pop_inv:
  assumes inv: "pipe_inv ph clk st0 s fs" and pc: "epc (eng s) = EngPop b" and q: "ring_queue (sring (shared s)) = ref # q'"
  shows "\<exists>r. ring_pop (sring (shared s)) = Some (Some ref, r) \<and>
    pipe_inv ph clk st0 (s\<lparr>shared := (shared s)\<lparr>sring := r\<rparr>,
      eng := (eng s)\<lparr>epc := (if refIdx ref = kPoolInvalid then EngStop else EngPacket ref)\<rparr>\<rparr>) fs"
proof -
  note D = pipe_invD [OF inv]
  obtain r where r: "ring_pop (sring (shared s)) = Some (Some ref, r)" "ring_ok r" "ring_queue r = q'"
    using spsc.pop_some [OF D(2) q] by blast
  show ?thesis
  proof (cases "refIdx ref = kPoolInvalid")
    case True
    have ne: "ref # q' \<noteq> data_refs (ref # q')" using True data_refs_data [of ref "ref # q'"] by (metis list.set_intros(1))
    then have nd: "ph (net s) = FDone" "\<exists>x. ref # q' = data_refs (ref # q') @ [x]" "\<not> sstop (shared s)"
      using D(8) pc by (auto simp: session_end_def q)
    then obtain x where x: "ref # q' = data_refs q' @ [x]" using True by auto
    then have "q' = []"
    proof (cases "data_refs q'")
      case (Cons y ys)
      then have "refIdx y \<noteq> kPoolInvalid" using data_refs_data [of y q'] by simp
      with x Cons True show ?thesis by simp
    qed simp
    then show ?thesis using r D pc nd True unfolding pipe_inv_def Let_def
      by (auto simp: owners_def session_end_def engine_at_def q)
  next
    case False
    have "session_end (ph (net s)) q' (EngPacket ref) (sstop (shared s))"
      using D(8) pc False by (auto simp: session_end_def q)
    then show ?thesis using r D pc False unfolding pipe_inv_def Let_def
      by (auto simp: owners_def engine_at_def q)
  qed
qed

lemma eng_packet_inv:
  assumes inv: "pipe_inv ph clk st0 s fs" and pc: "epc (eng s) = EngPacket ref"
    and run: "consume_packet clk (slot_content (spool (shared s)) (refIdx ref)) (tWireCycles ref) (est (eng s)) = Some res"
  shows "pipe_inv ph clk st0 (s\<lparr>eng := (case res of Inl x \<Rightarrow> (eng s)\<lparr>epc := EngThrown x ref\<rparr>
      | Inr st \<Rightarrow> (eng s)\<lparr>epc := EngRelease (refIdx ref), est := st\<rparr>),
    consumed := consumed s @ [(slot_content (spool (shared s)) (refIdx ref), tWireCycles ref)]\<rparr>) fs"
proof -
  note D = pipe_invD [OF inv]
  have "process_all clk (consumed s) st0 = Some (Inr (est (eng s)))" using D(9) pc by (simp add: engine_at_def)
  from process_all_snoc [OF this]
  have all: "process_all clk (consumed s @ [(slot_content (spool (shared s)) (refIdx ref), tWireCycles ref)]) st0 = Some res"
    using run by simp
  show ?thesis
  proof (cases res)
    case (Inl x)
    then show ?thesis using D pc all unfolding pipe_inv_def Let_def
      by (auto simp: owners_def session_end_def engine_at_def entry_def)
  next
    case (Inr st)
    then show ?thesis using D pc all unfolding pipe_inv_def Let_def
      by (auto simp: owners_def session_end_def engine_at_def entry_def)
  qed
qed

lemma pending_frame: "(\<And>i. i \<in> set (net_holds n) \<Longrightarrow> slot_content p' i = slot_content p i) \<Longrightarrow> pending p' n = pending p n"
  by (cases n) auto

lemma eng_move:
  assumes "pipe_inv ph clk st0 s fs" and "eng_holds (epc e') = eng_holds (epc (eng s))"
    and "in_hand (epc e') = in_hand (epc (eng s))" and "engine_at clk st0 e' (consumed s)"
    and "session_end (ph (net s)) (ring_queue (sring (shared s))) (epc e') (sstop (shared s))"
  shows "pipe_inv ph clk st0 (s\<lparr>eng := e'\<rparr>) fs"
  using pipe_inv_move [OF assms(1), of "net s" e'] pipe_invD(7) [OF assms(1)] assms by simp

lemma eng_release_inv:
  assumes inv: "pipe_inv ph clk st0 s fs" and pc: "epc (eng s) = EngRelease i"
  shows "\<exists>p. release (spool (shared s)) i = Some p \<and>
    pipe_inv ph clk st0 (s\<lparr>shared := (shared s)\<lparr>spool := p\<rparr>, eng := (eng s)\<lparr>epc := EngPop 0\<rparr>\<rparr>) (i # fs)"
proof -
  note D = pipe_invD [OF inv]
  have i: "i \<in> pool_slots (spool (shared s))" "i \<notin> set fs" using held_slot [OF inv, of i] pc by simp_all
  obtain p where p: "release (spool (shared s)) i = Some p" "ppool_ok p (i # fs)" "pool_slots p = pool_slots (spool (shared s))"
    "\<And>y. y \<in> pool_slots (spool (shared s)) \<Longrightarrow> slot_content p y = slot_content (spool (shared s)) y"
    using packet_pool.release_ok [OF D(1) i] by blast
  have "pending p (ph (net s)) = pending (spool (shared s)) (ph (net s))"
    by (intro pending_frame p(4)) (use held_slot(1) [OF inv] in blast)
  then have "list_all good_packet (pending p (ph (net s)))" using D(7) by simp
  moreover have "session_end (ph (net s)) (ring_queue (sring (shared s))) (EngPop 0) (sstop (shared s))"
    "engine_at clk st0 ((eng s)\<lparr>epc := EngPop 0\<rparr>) (consumed s)"
    using D(8,9) pc by (auto simp: session_end_def engine_at_def)
  ultimately show ?thesis
    using pipe_inv_pool [OF inv p(2-4), of "net s" "(eng s)\<lparr>epc := EngPop 0\<rparr>" "sstop (shared s)"] p(1) pc
    by (simp add: owners_def)
qed

text \<open>Every step of the matching thread is defined except that processing a packet may not be.\<close>

lemma consumer_step_inv:
  assumes inv: "pipe_inv ph clk st0 s fs" and step: "consumer_step clk (shared s, eng s) = Some (sh', e')"
  shows "\<exists>fs'. pipe_inv ph clk st0 (eng_history s (s\<lparr>shared := sh', eng := e'\<rparr>)) fs'"
proof -
  note D = pipe_invD [OF inv]
  show ?thesis
  proof (cases "epc (eng s)")
    case (EngPop b)
    have run: "\<not> sstop (shared s)" using D(8) EngPop by (auto simp: session_end_def)
    show ?thesis
    proof (cases "ring_queue (sring (shared s))")
      case Nil
      have "ring_pop (sring (shared s)) = Some (None, sring (shared s))" by (rule spsc.pop_none [OF D(2) Nil])
      then have "sh' = shared s" "\<exists>b'. e' = (eng s)\<lparr>epc := EngPop b'\<rparr>"
        using step EngPop run by (auto simp: consumer_step_def split: if_splits)
      moreover have "pipe_inv ph clk st0 (s\<lparr>eng := (eng s)\<lparr>epc := EngPop b'\<rparr>\<rparr>) fs" for b'
        by (rule eng_move [OF inv]) (use D(8,9) EngPop in \<open>auto simp: session_end_def engine_at_def\<close>)
      ultimately show ?thesis using EngPop by (auto simp: eng_history_def)
    next
      case (Cons ref q')
      then show ?thesis using eng_pop_inv [OF inv EngPop Cons] step EngPop by (auto simp: consumer_step_def eng_history_def)
    qed
  next
    case (EngPacket ref)
    have "unat (refIdx ref) < length (pslots (spool (shared s)))" using held_slot [OF inv, of "refIdx ref"] EngPacket by simp
    then obtain res where res: "consume_packet clk (slot_content (spool (shared s)) (refIdx ref)) (tWireCycles ref) (est (eng s)) = Some res"
      "sh' = shared s" "e' = (case res of Inl x \<Rightarrow> (eng s)\<lparr>epc := EngThrown x ref\<rparr>
        | Inr st \<Rightarrow> (eng s)\<lparr>epc := EngRelease (refIdx ref), est := st\<rparr>)"
      using step EngPacket by (auto simp: consumer_step_def vec_simps slot_content_def Let_def split: bind_splits)
    then show ?thesis using eng_packet_inv [OF inv EngPacket res(1)] EngPacket by (auto simp: eng_history_def)
  next
    case (EngRelease i)
    then show ?thesis using eng_release_inv [OF inv EngRelease] step by (auto simp: consumer_step_def eng_history_def)
  next
    case EngStop
    then have "sh' = (shared s)\<lparr>sstop := True\<rparr>" "e' = (eng s)\<lparr>epc := EngDone\<rparr>" using step by (auto simp: consumer_step_def)
    moreover have "pipe_inv ph clk st0 (s\<lparr>shared := (shared s)\<lparr>spool := spool (shared s), sstop := True\<rparr>, net := net s,
        eng := (eng s)\<lparr>epc := EngDone\<rparr>\<rparr>) fs"
      by (rule pipe_inv_pool [OF inv D(1)])
        (use D(7-9) EngStop in \<open>auto simp: owners_def session_end_def engine_at_def\<close>)
    ultimately show ?thesis using EngStop by (auto simp: eng_history_def)
  next
    case EngDone
    then show ?thesis using step inv by (auto simp: consumer_step_def eng_history_def)
  next
    case (EngThrown x r)
    then show ?thesis using step inv by (auto simp: consumer_step_def eng_history_def)
  qed
qed

section \<open>What the tracker lets through\<close>

definition packet_of :: "stamped \<Rightarrow> bytes" where
  "packet_of = (\<lambda>((buf, len), w). take (unat len) buf)"

fun sift :: "bytes list \<Rightarrow> SeqTracker \<Rightarrow> bytes list \<times> SeqTracker" where
  "sift [] k = ([], k)"
| "sift (d # ds) k =
     (case parseMoldHeader d of
        None \<Rightarrow> sift ds k
      | Some h \<Rightarrow>
          (let (v, k, _) = trackHeader h k FeedStats_new; (acc, k) = sift ds k
           in (if v = Accept then d # acc else acc, k)))"

lemma trackHeader_stats: "\<exists>st'. trackHeader h k st = (fst (trackHeader h k st0), fst (snd (trackHeader h k st0)), st')"
  by (cases "sessionInit k") (auto simp: trackHeader_def Let_def)

lemma sift_snoc:
  assumes "sift ds k = (acc, k1)" and "parseMoldHeader d = Some h" and "trackHeader h k1 st = (v, k2, st')"
  shows "sift (ds @ [d]) k = (if v = Accept then acc @ [d] else acc, k2)"
  using assms(1)
proof (induction ds arbitrary: k acc)
  case Nil
  obtain st'' where "trackHeader h k1 FeedStats_new = (v, k2, st'')"
    using trackHeader_stats [of h k1 FeedStats_new st] assms(3) by auto
  with Nil assms(2) show ?case by simp
next
  case (Cons a ds)
  then show ?case by (auto split: option.splits prod.splits)
qed

lemma sift_append:
  "sift (ds @ ds') k = (let (acc, k1) = sift ds k; (acc', k2) = sift ds' k1 in (acc @ acc', k2))"
  by (induction ds arbitrary: k) (auto simp: Let_def split: option.split prod.split)

text \<open>The packets on their way from the tracker to the ring: those the thread keeps, then the one it offers.\<close>

definition transit :: "('t \<Rightarrow> bytes list) \<Rightarrow> ('t \<Rightarrow> feed_phase) \<Rightarrow> Shared \<Rightarrow> 't \<Rightarrow> bytes list" where
  "transit kept ph sh t = map packet_of (pending (spool sh) (ph t)) @ kept t"

definition sift_inv :: "('t \<Rightarrow> SeqTracker) \<Rightarrow> ('t \<Rightarrow> bytes list) \<Rightarrow> ('t \<Rightarrow> feed_phase) \<Rightarrow> 't Pipe \<Rightarrow> bool" where
  "sift_inv trk kept ph s \<longleftrightarrow> (\<exists>ps. sift (handled s) SeqTracker_new = (ps, trk (net s)) \<and>
     (refused s = 0 \<longrightarrow> ps = map packet_of (accepted s) @ transit kept ph (shared s) (net s)))"

section \<open>The contract of a network thread\<close>

text \<open>What holds of the shared state, with free slots \<open>fs\<close>, when a network thread in phase \<open>ph\<close> moves.\<close>

definition feed_pre :: "Shared \<Rightarrow> u32 list \<Rightarrow> feed_phase \<Rightarrow> bool" where
  "feed_pre sh fs ph \<longleftrightarrow> ppool_ok (spool sh) fs \<and> ring_ok (sring sh) \<and>
     (\<forall>i \<in> set (net_holds ph). i \<in> pool_slots (spool sh) \<and> i \<notin> set fs) \<and>
     (\<forall>i \<in> pool_slots (spool sh). length (fst (slot_content (spool sh) i)) = kMaxPacketBytes)"

lemma pipe_inv_pre: "pipe_inv ph clk st0 s fs \<Longrightarrow> feed_pre (shared s) fs (ph (net s))"
  using held_slot [of ph clk st0 s fs] by (auto simp: feed_pre_def dest: pipe_invD)

text \<open>Then the calls of pool and ring that a network thread makes are defined.\<close>

lemma feed_preD:
  assumes "feed_pre sh fs ph"
  shows "\<exists>i p. acquire (spool sh) = Some (i, p)" "\<exists>ok r. ring_push (sring sh) v = Some (ok, r)"
    "i \<in> set (net_holds ph) \<Longrightarrow> unat i < length (pslots (spool sh))"
    "i \<in> set (net_holds ph) \<Longrightarrow> \<exists>p. release (spool sh) i = Some p"
    "i \<in> set (net_holds ph) \<Longrightarrow> length (fst (slot_content (spool sh) i)) = kMaxPacketBytes"
proof -
  show "\<exists>i p. acquire (spool sh) = Some (i, p)"
  proof (cases fs)
    case Nil
    then show ?thesis using packet_pool.acquire_none [of "spool sh"] assms by (auto simp: feed_pre_def)
  next
    case (Cons i fs')
    then show ?thesis using packet_pool.acquire_some [of "spool sh" i fs'] assms by (auto simp: feed_pre_def)
  qed
  show "\<exists>ok r. ring_push (sring sh) v = Some (ok, r)"
    using spsc.push_result [of "sring sh" v] assms by (auto simp: feed_pre_def)
  show rng: "unat i < length (pslots (spool sh))" if "i \<in> set (net_holds ph)"
    using assms that by (auto simp: feed_pre_def pool_slots_def)
  show "\<exists>p. release (spool sh) i = Some p" if "i \<in> set (net_holds ph)"
    using rng [OF that] by (simp add: release_def vec_simps)
  show "length (fst (slot_content (spool sh) i)) = kMaxPacketBytes" if "i \<in> set (net_holds ph)"
    using assms that by (auto simp: feed_pre_def)
qed

definition system_inv :: "('i, 't) Feed \<Rightarrow> ('t \<Rightarrow> bool) \<Rightarrow> ('t \<Rightarrow> SeqTracker) \<Rightarrow> ('t \<Rightarrow> bytes list) \<Rightarrow>
    (nat \<Rightarrow> u64 \<times> u64) \<Rightarrow> engine_state \<Rightarrow> 't Pipe \<Rightarrow> bool" where
  "system_inv F feed_ok trk kept clk st0 s \<longleftrightarrow>
     (\<exists>fs. pipe_inv (fphase F) clk st0 s fs) \<and> feed_ok (net s) \<and> sift_inv trk kept (fphase F) s"

lemma pending_consumer:
  assumes inv: "pipe_inv ph clk st0 s fs" and step: "consumer_step clk (shared s, eng s) = Some (sh', e')"
  shows "pending (spool sh') (ph (net s)) = pending (spool (shared s)) (ph (net s))"
proof (rule pending_frame)
  note D = pipe_invD [OF inv]
  fix i assume "i \<in> set (net_holds (ph (net s)))"
  then have i: "i \<in> pool_slots (spool (shared s))" using held_slot(1) [OF inv, of i] by simp
  show "slot_content (spool sh') i = slot_content (spool (shared s)) i"
  proof (cases "epc (eng s)")
    case (EngRelease j)
    have "j \<in> pool_slots (spool (shared s))" "j \<notin> set fs" using held_slot [OF inv, of j] EngRelease by simp_all
    then show ?thesis using packet_pool.release_ok [OF D(1), of j] i step EngRelease by (auto simp: consumer_step_def)
  qed (use step in \<open>auto simp: consumer_step_def bind_eq_Some_conv split: option.splits if_splits\<close>)
qed

text \<open>No move changes the number of buffers.\<close>

lemma feed_move_slots:
  "feed_move (sh, ph) (sh', ph') \<Longrightarrow> length (pslots (spool sh')) = length (pslots (spool sh))"
  by (cases rule: feed_move.cases)
    (auto simp: put_slot_def acquire_def release_def Let_def vec_put_def bind_eq_Some_conv split: if_splits)

lemma consumer_step_slots:
  assumes "consumer_step clk (sh, t) = Some (sh', t')"
  shows "length (pslots (spool sh')) = length (pslots (spool sh))"
  using assms by (cases "epc t") (auto simp: consumer_step_def release_def Let_def vec_put_def bind_eq_Some_conv split: if_splits option.splits)

lemma history_shared [simp]: "shared (net_history F inp s n' s') = shared s'" "shared (eng_history s s') = shared s'"
  by (auto simp: net_history_def eng_history_def split: eng_pc.split)

locale feed_thread =
  fixes F :: "('i, 't) Feed" and feed_ok :: "'t \<Rightarrow> bool" and trk :: "'t \<Rightarrow> SeqTracker" and kept :: "'t \<Rightarrow> bytes list"
  assumes step_defined: "feed_ok t \<Longrightarrow> feed_pre sh fs (fphase F t) \<Longrightarrow> \<not> fstuck F t \<Longrightarrow> fstep F inp (sh, t) \<noteq> None"
    and step_moves: "feed_ok t \<Longrightarrow> feed_pre sh fs (fphase F t) \<Longrightarrow> fstep F inp (sh, t) = Some (sh', t') \<Longrightarrow>
      feed_ok t' \<and> feed_move (sh, fphase F t) (sh', fphase F t')"
    and step_tracks: "feed_ok t \<Longrightarrow> feed_pre sh fs (fphase F t) \<Longrightarrow> fstep F inp (sh, t) = Some (sh', t') \<Longrightarrow>
      \<exists>new. sift (fheard F inp t) (trk t) = (new, trk t') \<and>
        (\<not> flost F t t' \<longrightarrow> transit kept (fphase F) sh t @ new =
          map packet_of (offered (spool sh) (fphase F t) (fphase F t')) @ transit kept (fphase F) sh' t')"
begin

lemma net_step_inv:
  assumes inv: "pipe_inv (fphase F) clk st0 s fs" and ok: "feed_ok (net s)" and step: "fstep F inp (shared s, net s) = Some (sh', t')"
  shows "\<exists>fs'. pipe_inv (fphase F) clk st0 (net_history F inp s t' (s\<lparr>shared := sh', net := t'\<rparr>)) fs'"
proof -
  have "feed_move (shared s, fphase F (net s)) (sh', fphase F t')"
    using step_moves [OF ok pipe_inv_pre [OF inv] step] by blast
  from feed_move_inv [OF inv this] obtain fs' where
    "pipe_inv (fphase F) clk st0 (s\<lparr>shared := sh', net := t',
      accepted := accepted s @ offered (spool (shared s)) (fphase F (net s)) (fphase F t')\<rparr>) fs'" by blast
  then show ?thesis by (auto simp: net_history_def)
qed

lemma sift_inv_net:
  assumes inv: "pipe_inv (fphase F) clk st0 s fs" and ok: "feed_ok (net s)" and step: "fstep F inp (shared s, net s) = Some (sh', t')"
    and sift: "sift_inv trk kept (fphase F) s"
  shows "sift_inv trk kept (fphase F) (net_history F inp s t' (s\<lparr>shared := sh', net := t'\<rparr>))"
proof -
  obtain ps where ps: "sift (handled s) SeqTracker_new = (ps, trk (net s))"
    "refused s = 0 \<Longrightarrow> ps = map packet_of (accepted s) @ transit kept (fphase F) (shared s) (net s)"
    using sift by (auto simp: sift_inv_def)
  obtain new where new: "sift (fheard F inp (net s)) (trk (net s)) = (new, trk t')"
    "\<not> flost F (net s) t' \<Longrightarrow> transit kept (fphase F) (shared s) (net s) @ new =
      map packet_of (offered (spool (shared s)) (fphase F (net s)) (fphase F t')) @ transit kept (fphase F) sh' t'"
    using step_tracks [OF ok pipe_inv_pre [OF inv] step] by blast
  have "sift (handled s @ fheard F inp (net s)) SeqTracker_new = (ps @ new, trk t')"
    using ps(1) new(1) by (simp add: sift_append)
  then show ?thesis using ps(2) new(2) by (auto simp: sift_inv_def net_history_def)
qed

lemma sift_inv_eng:
  assumes inv: "pipe_inv (fphase F) clk st0 s fs" and "sift_inv trk kept (fphase F) s"
    and step: "consumer_step clk (shared s, eng s) = Some (sh', e')"
  shows "sift_inv trk kept (fphase F) (eng_history s (s\<lparr>shared := sh', eng := e'\<rparr>))"
proof -
  have "pending (spool sh') (fphase F (net s)) = pending (spool (shared s)) (fphase F (net s))"
    by (rule pending_consumer [OF inv step])
  moreover have "handled (eng_history s s') = handled s'" "refused (eng_history s s') = refused s'"
    "accepted (eng_history s s') = accepted s'" "shared (eng_history s s') = shared s'" "net (eng_history s s') = net s'" for s'
    by (simp_all add: eng_history_def split: eng_pc.split)
  ultimately show ?thesis using assms(2) by (simp add: sift_inv_def transit_def)
qed

lemma reachable_inv:
  assumes "pipe_reachable F clk s0 s" and "system_inv F feed_ok trk kept clk st0 s0"
  shows "system_inv F feed_ok trk kept clk st0 s"
  using assms(1)
proof (induction rule: pipe_reachable.induct)
  case init
  show ?case by (rule assms(2))
next
  case (step s s')
  obtain fs where inv: "pipe_inv (fphase F) clk st0 s fs" and ok: "feed_ok (net s)" and sift: "sift_inv trk kept (fphase F) s"
    using step.IH by (auto simp: system_inv_def)
  from step.hyps(2) show ?case
  proof (cases rule: pipe_step.cases)
    case (net inp sh' t')
    moreover have "feed_ok t'" using step_moves [OF ok pipe_inv_pre [OF inv] net(2)] by blast
    ultimately show ?thesis using net_step_inv [OF inv ok net(2)] sift_inv_net [OF inv ok net(2) sift]
      by (auto simp: system_inv_def net_history_def)
  next
    case (eng sh' e')
    moreover have "net s' = net s" using eng by (auto simp: eng_history_def split: eng_pc.split)
    ultimately show ?thesis using consumer_step_inv [OF inv eng(2)] sift_inv_eng [OF inv sift eng(2)] ok
      by (auto simp: system_inv_def)
  qed
qed

text \<open>The matching thread has processed a prefix of what was accepted, and the network thread can go on unless it is stuck.\<close>

lemma in_order:
  assumes "pipe_reachable F clk s0 s" and "system_inv F feed_ok trk kept clk st0 s0"
  shows "\<exists>rest. accepted s = consumed s @ rest \<and>
    process_all clk (consumed s) st0 = Some (case epc (eng s) of EngThrown x r \<Rightarrow> Inl x | _ \<Rightarrow> Inr (est (eng s))) \<and>
    (fstuck F (net s) \<or> fstep F inp (shared s, net s) \<noteq> None) \<and> (rest = [] \<or> epc (eng s) \<noteq> EngDone)"
proof -
  obtain fs where inv: "pipe_inv (fphase F) clk st0 s fs" and ok: "feed_ok (net s)"
    using reachable_inv [OF assms] by (auto simp: system_inv_def)
  note D = pipe_invD [OF inv]
  have "in_hand (epc (eng s)) @ data_refs (ring_queue (sring (shared s))) = []" if "epc (eng s) = EngDone"
    using D(8) that by (simp add: session_end_def)
  moreover have "fstuck F (net s) \<or> fstep F inp (shared s, net s) \<noteq> None" using step_defined [OF ok pipe_inv_pre [OF inv]] by blast
  ultimately show ?thesis using D(6,9) unfolding engine_at_def
    by (intro exI [of _ "map (entry (spool (shared s))) (in_hand (epc (eng s)) @ data_refs (ring_queue (sring (shared s))))"]) auto
qed

text \<open>A run that has ended without a loss has processed exactly what the tracker lets through.\<close>

lemma complete:
  assumes "pipe_reachable F clk s0 s" and "system_inv F feed_ok trk kept clk st0 s0"
    and "refused s = 0" and "epc (eng s) = EngDone" and "\<And>t. feed_ok t \<Longrightarrow> fphase F t = FDone \<Longrightarrow> kept t = []"
  shows "fst (sift (handled s) SeqTracker_new) = map packet_of (consumed s) \<and> list_all good_packet (consumed s) \<and>
    process_all clk (consumed s) st0 = Some (Inr (est (eng s)))"
proof -
  obtain fs where inv: "pipe_inv (fphase F) clk st0 s fs" and ok: "feed_ok (net s)" and sift: "sift_inv trk kept (fphase F) s"
    using reachable_inv [OF assms(1,2)] by (auto simp: system_inv_def)
  note D = pipe_invD [OF inv]
  have nd: "fphase F (net s) = FDone" "ring_queue (sring (shared s)) = []" using D(8) assms(4) by (simp_all add: session_end_def)
  then have "accepted s = consumed s" "list_all good_packet (consumed s)" using D(6,7) assms(4) by simp_all
  then show ?thesis using sift nd assms(3-5) ok D(9) by (auto simp: sift_inv_def transit_def engine_at_def)
qed

text \<open>Each buffer of the pool has one owner.\<close>

lemma reachable_slots:
  assumes "pipe_reachable F clk s0 s" and "system_inv F feed_ok trk kept clk st0 s0"
  shows "length (pslots (spool (shared s))) = length (pslots (spool (shared s0)))"
  using assms(1)
proof (induction rule: pipe_reachable.induct)
  case (step s s')
  obtain fs where inv: "pipe_inv (fphase F) clk st0 s fs" and ok: "feed_ok (net s)"
    using reachable_inv [OF step.hyps(1) assms(2)] by (auto simp: system_inv_def)
  from step.hyps(2) show ?case
  proof (cases rule: pipe_step.cases)
    case (net inp sh' t')
    then show ?thesis using step_moves [OF ok pipe_inv_pre [OF inv] net(2)] step.IH by (auto dest: feed_move_slots)
  qed (use step.IH in \<open>auto dest: consumer_step_slots\<close>)
qed simp

lemma one_owner:
  assumes "pipe_reachable F clk s0 s" and "system_inv F feed_ok trk kept clk st0 s0"
  shows "\<exists>fs. ppool_ok (spool (shared s)) fs \<and>
    distinct (owners fs (fphase F (net s)) (ring_queue (sring (shared s))) (epc (eng s))) \<and>
    set (owners fs (fphase F (net s)) (ring_queue (sring (shared s))) (epc (eng s))) = pool_slots (spool (shared s0))"
proof -
  obtain fs where "pipe_inv (fphase F) clk st0 s fs" using reachable_inv [OF assms] by (auto simp: system_inv_def)
  from pipe_invD(1,3,4) [OF this] reachable_slots [OF assms] show ?thesis by (auto simp: pool_slots_def)
qed

end

section \<open>From the start\<close>

text \<open>The invariant of the whole system holds when both threads start, the network thread in a state of its own.\<close>

lemma system_inv_init:
  assumes "runUdp_start n c e = Some (sh, et)" and "n \<le> unat kPoolInvalid"
    and "feed_ok t" and "net_holds (fphase F t) = []" and "trk t = SeqTracker_new" and "kept t = []"
  shows "system_inv F feed_ok trk kept clk (e, no_output, 0) (pipe_init (sh, t, et))"
proof -
  obtain p r where p: "PacketPool_new n = Some p" and r: "SpscRing_new \<lparr>refIdx = 0, tWireCycles = 0\<rparr> c = Some r"
    and st: "sh = \<lparr>spool = p, sring = r, sstop = False\<rparr>" "et = \<lparr>epc = EngPop 0, est = (e, no_output, 0)\<rparr>"
    using assms(1) by (auto simp: runUdp_start_def no_output_def bind_eq_Some_conv)
  note pk = PacketPool_new_ok [OF p assms(2)] PacketPool_new_slots [OF p assms(2)]
  have "length (fst (slot_content p i)) = kMaxPacketBytes" if "i \<in> pool_slots p" for i
    using PacketPool_new_content [OF p, of i] that pk(2) by (simp add: pool_slots_def)
  moreover have "distinct (map of_nat [0..<n] :: u32 list)" using pk(1) by (simp add: ppool_ok_def)
  moreover have pend: "pending p (fphase F t) = []" using assms(4) by (cases "fphase F t") auto
  ultimately have "pipe_inv (fphase F) clk (e, no_output, 0) (pipe_init (sh, t, et)) (map of_nat [0..<n])"
    using pk SpscRing_new_ok [OF r] assms(4)
    by (simp add: pipe_inv_def pipe_init_def st owners_def session_end_def engine_at_def)
  moreover have "sift_inv trk kept (fphase F) (pipe_init (sh, t, et))"
    using assms(5,6) pend by (simp add: sift_inv_def transit_def pipe_init_def st)
  ultimately show ?thesis using assms(3) by (auto simp: system_inv_def pipe_init_def)
qed

text \<open>A network thread that has returned, whatever comes in: the matching thread polls an empty ring forever.\<close>

lemma dead_thread_spins:
  assumes "pipe_reachable F clk (pipe_init (sh, t, et)) s" and "runUdp_start n c e = Some (sh, et)"
    and "dead t" and dead: "\<And>inp sh t sh' t'. dead t \<Longrightarrow> fstep F inp (sh, t) = Some (sh', t') \<Longrightarrow> sh' = sh \<and> dead t'"
  shows "dead (net s) \<and> shared s = sh \<and> (\<exists>b. eng s = et\<lparr>epc := EngPop b\<rparr>) \<and> consumer_step clk (shared s, eng s) \<noteq> None"
proof -
  obtain r where st: "ring_ok r" "ring_queue r = []" "sring sh = r" "\<not> sstop sh" "epc et = EngPop 0"
    using assms(2) SpscRing_new_ok by (fastforce simp: runUdp_start_def bind_eq_Some_conv)
  have pop: "ring_pop (sring sh) = Some (None, sring sh)" using spsc.pop_none [OF st(1,2)] st(3) by simp
  then have poll: "\<exists>b'. consumer_step clk (sh, et\<lparr>epc := EngPop b\<rparr>) = Some (sh, et\<lparr>epc := EngPop b'\<rparr>)" for b
    using st(4) by (auto simp: consumer_step_def)
  have "dead (net s) \<and> shared s = sh \<and> (\<exists>b. eng s = et\<lparr>epc := EngPop b\<rparr>)" using assms(1)
  proof (induction rule: pipe_reachable.induct)
    case init
    have "et = et\<lparr>epc := EngPop 0\<rparr>" using st(5) by (cases et) simp
    then show ?case using assms(3) by (auto simp: pipe_init_def)
  next
    case (step s s')
    then obtain b where b: "dead (net s)" "shared s = sh" "eng s = et\<lparr>epc := EngPop b\<rparr>" by blast
    from step.hyps(2) show ?case
    proof (cases rule: pipe_step.cases)
      case (net inp sh' t')
      then show ?thesis using dead [OF b(1) net(2)] b by (auto simp: net_history_def)
    next
      case (eng sh' t')
      then show ?thesis using poll [of b] b by (auto simp: eng_history_def)
    qed
  qed
  then show ?thesis using poll by force
qed

text \<open>A small start exists.\<close>

lemma small_start: "\<exists>e st. MatchingEngine_sized 4 = Some e \<and> runUdp_start 2 4 e = Some st"
  by (simp add: MatchingEngine_sized_def FlatHashMap_new_def runUdp_start_def PacketPool_new_def SpscRing_new_def Let_def)

end
