(* ===== verification/Memory_System.thy ===== *)
theory Memory_System
  imports Handover_Races Pipeline
begin

text \<open>
  The matching thread of UDP mode (\<open>runUdp\<close> of \<^verbatim>\<open>src/engine_udp.cpp\<close>) on the memory of \<^theory_text>\<open>Release_Acquire\<close>, access by
  access and with the engine it drives, beside a network thread.  The locale \<open>memory_feed\<close> is the contract of the network thread
  on that memory: each of its accesses is defined and keeps the invariant of \<^theory_text>\<open>Handover_Safety\<close>.
  What holds of the system is proved from it; the two network threads of the program are shown to keep it in
  \<open>Memory_Socket\<close> and \<open>Memory_Xdp\<close>.
\<close>

section \<open>Model\<close>

datatype cons_pc =
    ConsPop nat "PacketRef pop_pc"
  | ConsPacket PacketRef
  | ConsRelease u32 pool_pc
  | ConsDone
  | ConsThrown exn PacketRef

type_synonym published = "PacketRef \<times> bytes \<times> u16"

text \<open>Memory, the views and the local state of both threads, and what was handed over and taken.\<close>

record 't UdpThreads =
  umem :: Memory
  usview :: tview
  ucview :: tview
  unet :: 't
  ucpc :: cons_pc
  uest :: engine_state
  upushed :: "published list"
  uused :: "published list"

text \<open>What an access depends on from outside: which store a load returns, whether a compare-exchange fails, what the
  stop flag shows.\<close>

record Outside =
  oback :: nat
  ofails :: bool
  ostop :: bool

definition UdpThreads_new :: "PacketRef SpscRing \<Rightarrow> PacketPool \<Rightarrow> 't \<Rightarrow> engine_state \<Rightarrow> 't UdpThreads" where
  "UdpThreads_new r p t st = \<lparr>umem = Memory_new r p, usview = view_new, ucview = view_new, unet = t,
     ucpc = ConsPop 0 PopIdle, uest = st, upushed = [], uused = []\<rparr>"

definition cons_access :: "(nat \<Rightarrow> u64 \<times> u64) \<Rightarrow> Outside \<Rightarrow> 't UdpThreads \<Rightarrow> 't UdpThreads option" where
  "cons_access clk out u = (case ucpc u of
      ConsPop spinBudget pc \<Rightarrow> do {
        (m, V, c) \<leftarrow> pop_access (oback out) pc (umem u, ucview u);
        let u = u\<lparr>umem := m, ucview := V\<rparr>;
        Some (case c of
            Running pc \<Rightarrow> u\<lparr>ucpc := ConsPop spinBudget pc\<rparr>
          | Returned None \<Rightarrow>
              if Suc spinBudget \<ge> spinLimit then u\<lparr>ucpc := (if ostop out then ConsDone else ConsPop 0 PopIdle)\<rparr>
              else u\<lparr>ucpc := ConsPop (Suc spinBudget) PopIdle\<rparr>
          | Returned (Some ref) \<Rightarrow>
              if refIdx ref = kPoolInvalid then u\<lparr>ucpc := ConsDone, uused := uused u @ [(ref, [], 0)]\<rparr>
              else u\<lparr>ucpc := ConsPacket ref\<rparr>) }
    | ConsPacket ref \<Rightarrow> do {
        (acc, V) \<leftarrow> plain_read (Packet (refIdx ref)) (mlog (umem u)) (ucview u);
        slot \<leftarrow> vec_at (mslots (umem u)) (refIdx ref);
        r \<leftarrow> consume_packet clk (sdata slot, slength slot) (tWireCycles ref) (uest u);
        let u = u\<lparr>umem := (umem u)\<lparr>mlog := acc\<rparr>, ucview := V, uused := uused u @ [(ref, sdata slot, slength slot)]\<rparr>;
        Some (case r of Inl x \<Rightarrow> u\<lparr>ucpc := ConsThrown x ref\<rparr>
                      | Inr st \<Rightarrow> u\<lparr>ucpc := ConsRelease (refIdx ref) PoolIdle, uest := st\<rparr>) }
    | ConsRelease i pc \<Rightarrow> do {
        (m, V, c) \<leftarrow> release_access (ofails out) (oback out) i pc (umem u, ucview u);
        Some (u\<lparr>umem := m, ucview := V,
                ucpc := (case c of Running pc \<Rightarrow> ConsRelease i pc | Returned _ \<Rightarrow> ConsPop 0 PopIdle)\<rparr>) }
    | _ \<Rightarrow> Some u)"

text \<open>A network thread makes an access on the memory, with its view and its own state, and may publish a packet by it.\<close>

type_synonym ('i, 't) net_access = "'i \<Rightarrow> Memory \<times> tview \<times> 't \<Rightarrow> (Memory \<times> tview \<times> 't \<times> published list) option"

inductive udp_access :: "('i, 't) net_access \<Rightarrow> (nat \<Rightarrow> u64 \<times> u64) \<Rightarrow> 't UdpThreads \<Rightarrow> 't UdpThreads \<Rightarrow> bool" for acc clk where
  net: "acc inp (umem u, usview u, unet u) = Some (m, V, t, xs) \<Longrightarrow>
    udp_access acc clk u (u\<lparr>umem := m, usview := V, unet := t, upushed := upushed u @ xs\<rparr>)"
| cons: "cons_access clk out u = Some u' \<Longrightarrow> udp_access acc clk u u'"

inductive udp_executes :: "('i, 't) net_access \<Rightarrow> (nat \<Rightarrow> u64 \<times> u64) \<Rightarrow> 't UdpThreads \<Rightarrow> 't UdpThreads \<Rightarrow> bool" for acc clk u0 where
  init: "udp_executes acc clk u0 u0"
| step: "udp_executes acc clk u0 u \<Longrightarrow> udp_access acc clk u u' \<Longrightarrow> udp_executes acc clk u0 u'"

text \<open>A given sequence of accesses of the network thread.\<close>

fun net_run :: "('i, 't) net_access \<Rightarrow> 'i list \<Rightarrow> 't UdpThreads \<Rightarrow> 't UdpThreads option" where
  "net_run acc [] u = Some u"
| "net_run acc (inp # inps) u = do {
     (m, V, t, xs) \<leftarrow> acc inp (umem u, usview u, unet u);
     net_run acc inps (u\<lparr>umem := m, usview := V, unet := t, upushed := upushed u @ xs\<rparr>) }"

lemma net_run_executes: "udp_executes acc clk u0 u \<Longrightarrow> net_run acc inps u = Some u' \<Longrightarrow> udp_executes acc clk u0 u'"
proof (induction inps arbitrary: u)
  case (Cons inp inps)
  then obtain m V t xs where a: "acc inp (umem u, usview u, unet u) = Some (m, V, t, xs)"
    "net_run acc inps (u\<lparr>umem := m, usview := V, unet := t, upushed := upushed u @ xs\<rparr>) = Some u'" by (auto split: bind_splits)
  have "udp_access acc clk u (u\<lparr>umem := m, usview := V, unet := t, upushed := upushed u @ xs\<rparr>)" using a(1) by (rule udp_access.net)
  with Cons.prems(1) have "udp_executes acc clk u0 (u\<lparr>umem := m, usview := V, unet := t, upushed := upushed u @ xs\<rparr>)"
    by (rule udp_executes.step)
  from Cons.IH [OF this a(2)] show ?case .
qed simp

section \<open>The matching thread as an instance\<close>

text \<open>A packet that made the engine throw stays with the thread.\<close>

fun cons_match :: "cons_pc \<Rightarrow> match_pc" where
  "cons_match (ConsPop b pc) = MatchPop pc"
| "cons_match (ConsPacket ref) = MatchUse ref"
| "cons_match (ConsRelease i pc) = MatchRelease i pc"
| "cons_match ConsDone = MatchDone"
| "cons_match (ConsThrown x ref) = MatchRelease (refIdx ref) PoolIdle"

definition handover :: "('t \<Rightarrow> feed_pc) \<Rightarrow> 't UdpThreads \<Rightarrow> Handover" where
  "handover ph u = \<lparr>hmem = umem u, nview = usview u, mview = ucview u, hnpc = ph (unet u), hmpc = cons_match (ucpc u),
     hpushed = upushed u, hused = uused u\<rparr>"

lemma handover_simps [simp]:
  "hmem (handover ph u) = umem u" "nview (handover ph u) = usview u" "mview (handover ph u) = ucview u"
  "hnpc (handover ph u) = ph (unet u)" "hmpc (handover ph u) = cons_match (ucpc u)" "hpushed (handover ph u) = upushed u"
  "hused (handover ph u) = uused u"
  by (simp_all add: handover_def)

definition choosing :: "Outside \<Rightarrow> feed_choice \<Rightarrow> choices" where
  "choosing out c = \<lparr>cback = oback out, cfails = ofails out, cfeed = c\<rparr>"

lemma choosing_simps [simp]: "cback (choosing out c) = oback out" "cfails (choosing out c) = ofails out" "cfeed (choosing out c) = c"
  by (simp_all add: choosing_def)

definition packets :: "(PacketRef \<times> bytes \<times> u16) list \<Rightarrow> stamped list" where
  "packets xs = map (\<lambda>(ref, c). (c, tWireCycles ref)) (filter (\<lambda>x. refIdx (fst x) \<noteq> kPoolInvalid) xs)"

definition engine_has :: "(nat \<Rightarrow> u64 \<times> u64) \<Rightarrow> engine_state \<Rightarrow> 't UdpThreads \<Rightarrow> bool" where
  "engine_has clk st0 u \<longleftrightarrow> process_all clk (packets (uused u)) st0 =
     Some (case ucpc u of ConsThrown x ref \<Rightarrow> Inl x | _ \<Rightarrow> Inr (uest u))"

text \<open>The matching thread's step is one of the abstract thread, unless the engine itself is undefined on the packet.\<close>

lemma cons_access_match:
  assumes "\<And>x ref. ucpc u \<noteq> ConsThrown x ref"
  shows "cons_access clk out u = None \<and> (\<exists>ref slot. ucpc u = ConsPacket ref \<and> vec_at (mslots (umem u)) (refIdx ref) = Some slot \<and>
        consume_packet clk (sdata slot, slength slot) (tWireCycles ref) (uest u) = None) \<or>
     (\<exists>ch. match_access ch (handover ph u) = map_option (handover ph) (cons_access clk out u))"
proof (cases "ucpc u")
  case (ConsPop b pc)
  have "match_access (choosing out (if ostop out \<and> Suc b \<ge> spinLimit then Stop else Go)) (handover ph u) = map_option (handover ph) (cons_access clk out u)"
    using ConsPop by (cases "pop_access (oback out) pc (umem u, ucview u)")
      (auto simp: match_access_def cons_access_def handover_def Let_def split: call.split option.split)
  then show ?thesis by blast
next
  case (ConsPacket ref)
  show ?thesis
  proof (cases "\<exists>slot. vec_at (mslots (umem u)) (refIdx ref) = Some slot \<and>
      consume_packet clk (sdata slot, slength slot) (tWireCycles ref) (uest u) = None")
    case True
    then show ?thesis using ConsPacket by (auto simp: cons_access_def split: bind_splits)
  next
    case False
    have "match_access (choosing out Go) (handover ph u) = map_option (handover ph) (cons_access clk out u)"
      using ConsPacket False
      by (cases "plain_read (Packet (refIdx ref)) (mlog (umem u)) (ucview u)"; cases "vec_at (mslots (umem u)) (refIdx ref)")
        (auto simp: match_access_def cons_access_def handover_def Let_def split: bind_splits sum.split)
    then show ?thesis by blast
  qed
next
  case (ConsRelease i pc)
  have "match_access (choosing out Go) (handover ph u) = map_option (handover ph) (cons_access clk out u)"
    using ConsRelease by (cases "release_access (ofails out) (oback out) i pc (umem u, ucview u)")
      (auto simp: match_access_def cons_access_def handover_def split: call.split)
  then show ?thesis by blast
next
  case ConsDone
  then have "match_access (choosing out Go) (handover ph u) = map_option (handover ph) (cons_access clk out u)"
    by (simp add: match_access_def cons_access_def)
  then show ?thesis by blast
qed (use assms in simp)

text \<open>The matching thread writes links, never packets.\<close>

lemma release_access_data:
  "release_access f bk i pc (m, V) = Some (m', V', c) \<Longrightarrow> sdata (mslots m' ! j) = sdata (mslots m ! j)"
  by (auto simp: release_access_def Let_def vec_at_eq_Some vec_put_eq_Some nth_list_update split: pool_pc.splits prod.splits bind_splits)

lemma pop_access_slots: "pop_access bk pc (m, V) = Some (m', V', c) \<Longrightarrow> mslots m' = mslots m"
  by (auto simp: pop_access_def Let_def split: pop_pc.splits prod.splits bind_splits)

lemma cons_access_frame:
  assumes "cons_access clk out u = Some u'"
  shows "unet u' = unet u" "usview u' = usview u" "upushed u' = upushed u" "sdata (mslots (umem u') ! j) = sdata (mslots (umem u) ! j)"
  using assms
  by (auto simp: cons_access_def Let_def split: cons_pc.splits bind_splits call.splits option.splits if_splits sum.splits
      dest: release_access_data pop_access_slots)

lemma cons_access_inv:
  assumes inv: "hinv (handover ph u) F" and st: "cons_access clk out u = Some u'"
  shows "\<exists>F'. hinv (handover ph u') F'"
proof (cases "\<exists>x ref. ucpc u = ConsThrown x ref")
  case True
  with inv st show ?thesis by (auto simp: cons_access_def)
next
  case False
  with cons_access_match [of u clk out ph] st obtain ch where "match_access ch (handover ph u) = Some (handover ph u')" by fastforce
  then show ?thesis using match_access_inv [OF inv, of ch] by auto
qed

lemma cons_access_undefined:
  assumes F: "hinv (handover ph u) F" and st: "cons_access clk out u = None"
  shows "\<exists>ref. ucpc u = ConsPacket ref \<and> consume_packet clk (packet_in (umem u) (refIdx ref)) (tWireCycles ref) (uest u) = None"
proof -
  have nt: "ucpc u \<noteq> ConsThrown x ref" for x ref using st by (auto simp: cons_access_def)
  have "match_access ch (handover ph u) \<noteq> map_option (handover ph) (cons_access clk out u)" for ch
    using match_access_inv [OF F, of ch] st by auto
  with cons_access_match [OF nt, where out = out and clk = clk] obtain ref slot where r: "ucpc u = ConsPacket ref"
    "vec_at (mslots (umem u)) (refIdx ref) = Some slot" "consume_packet clk (sdata slot, slength slot) (tWireCycles ref) (uest u) = None" by blast
  have "refIdx ref \<noteq> kPoolInvalid" using hinvD(4) [OF F] r(1) by (simp add: match_ok_def)
  then show ?thesis using r by (auto simp: packet_in_def vec_at_eq_Some)
qed

lemma packets_simps [simp]:
  "packets [] = []" "packets (xs @ ys) = packets xs @ packets ys"
  "refIdx ref \<noteq> kPoolInvalid \<Longrightarrow> packets [(ref, c)] = [(c, tWireCycles ref)]" "refIdx ref = kPoolInvalid \<Longrightarrow> packets [(ref, c)] = []"
  by (simp_all add: packets_def)

lemma engine_has_step:
  assumes F: "hinv (handover ph u) F" and has: "engine_has clk st0 u" and st: "cons_access clk out u = Some u'"
  shows "engine_has clk st0 u'"
proof (cases "\<exists>ref. ucpc u = ConsPacket ref")
  case True
  then obtain ref where pc: "ucpc u = ConsPacket ref" by blast
  have ref: "refIdx ref \<noteq> kPoolInvalid" using hinvD(4) [OF F] pc by (simp add: match_ok_def)
  have "process_all clk (packets (uused u)) st0 = Some (Inr (uest u))" using has pc by (simp add: engine_has_def)
  note snoc = process_all_snoc [OF this]
  show ?thesis using st pc ref
    by (auto simp: cons_access_def engine_has_def Let_def snoc split: bind_splits sum.splits)
next
  case False
  with has st show ?thesis
    by (auto simp: cons_access_def engine_has_def Let_def split: cons_pc.splits bind_splits call.splits option.splits if_splits)
qed

section \<open>Calls of a network thread\<close>

text \<open>What a network thread may do, one lemma for each kind of access; \<open>s\<close> is the whole state.\<close>

lemma feed_accesses:
  assumes "hinv s F" and "feed_access ch s = Some s'"
  shows "\<exists>F'. hinv s' F'"
  using feed_access_inv [OF assms(1), of ch] assms(2) by auto

lemma net_goes_on:
  assumes "hinv s F" and "hnpc s = FeedTop \<and> pc \<in> {FeedTop, FeedDone, FeedAcquire PoolIdle, FeedSentinel tw PushIdle} \<or>
      hnpc s = FeedHold i \<and> pc \<in> {FeedHold i, FeedPush i tw PushIdle, FeedRelease i k PoolIdle}"
  shows "hinv (s\<lparr>hnpc := pc\<rparr>) F"
  using assms(1) by (rule hinv_feed_pc) (use assms(2) in \<open>auto simp: feed_ok_def\<close>)

lemma net_acquires:
  assumes inv: "hinv s F" and pc: "hnpc s = FeedAcquire pc"
  shows "\<exists>m V c F'. acquire_access f bk pc (hmem s, nview s) = Some (m, V, c) \<and>
    hinv (s\<lparr>hmem := m, nview := V, hnpc := (case c of Running pc \<Rightarrow> FeedAcquire pc
      | Returned i \<Rightarrow> if i = kPoolInvalid then FeedTop else FeedHold i)\<rparr>) F'"
  using feed_access_inv [OF inv, of "\<lparr>cback = bk, cfails = f, cfeed = Go\<rparr>"] pc
  by (cases "acquire_access f bk pc (hmem s, nview s)") (auto simp: feed_access_def)

lemma net_releases:
  assumes inv: "hinv s F" and pc: "hnpc s = FeedRelease i k pc"
  shows "\<exists>m V c F'. release_access f bk i pc (hmem s, nview s) = Some (m, V, c) \<and>
    hinv (s\<lparr>hmem := m, nview := V, hnpc := (case c of Running pc \<Rightarrow> FeedRelease i k pc | Returned _ \<Rightarrow> after_pc k)\<rparr>) F'"
  using feed_access_inv [OF inv, of "\<lparr>cback = bk, cfails = f, cfeed = Go\<rparr>"] pc
  by (cases "release_access f bk i pc (hmem s, nview s)") (auto simp: feed_access_def)

lemma feed_push_result:
  assumes "feed_push bk ref busy full nxt pc s = Some s'"
  obtains m V c where "push_access bk ref pc (hmem s, nview s) = Some (m, V, c)"
    "s' = s\<lparr>hmem := m, nview := V, hnpc := (case c of Running pc \<Rightarrow> busy pc | Returned ok \<Rightarrow> if ok then nxt else full),
       hpushed := hpushed s @ (if c = Returned True then [(ref, packet_in m (refIdx ref))] else [])\<rparr>"
proof -
  obtain m V c where a: "push_access bk ref pc (hmem s, nview s) = Some (m, V, c)"
    using assms by (auto simp: feed_push_def split: bind_splits)
  have "s\<lparr>hmem := m, nview := V, hnpc := x\<rparr> = s\<lparr>hmem := m, nview := V, hnpc := x, hpushed := hpushed s\<rparr>" for x by (cases s) simp
  then have "s' = s\<lparr>hmem := m, nview := V, hnpc := (case c of Running pc \<Rightarrow> busy pc | Returned ok \<Rightarrow> if ok then nxt else full),
       hpushed := hpushed s @ (if c = Returned True then [(ref, packet_in m (refIdx ref))] else [])\<rparr>"
    using assms a by (cases c) (auto simp: feed_push_def Let_def split: bool.splits)
  with a show thesis by (rule that)
qed

lemma net_push:
  assumes inv: "hinv s F" and pc: "hnpc s = FeedPush i tw pc"
  shows "\<exists>m V c F'. push_access bk \<lparr>refIdx = i, tWireCycles = tw\<rparr> pc (hmem s, nview s) = Some (m, V, c) \<and>
    hinv (s\<lparr>hmem := m, nview := V, hnpc := (case c of Running pc \<Rightarrow> FeedPush i tw pc
      | Returned ok \<Rightarrow> if ok then FeedTop else FeedRelease i Continue PoolIdle),
      hpushed := hpushed s @ (if c = Returned True then [(\<lparr>refIdx = i, tWireCycles = tw\<rparr>, packet_in m i)] else [])\<rparr>) F'"
proof -
  let ?ch = "\<lparr>cback = bk, cfails = False, cfeed = Go\<rparr>"
  obtain s' F' where s': "feed_access ?ch s = Some s'" "hinv s' F'" using feed_access_inv [OF inv] by blast
  then have "feed_push bk \<lparr>refIdx = i, tWireCycles = tw\<rparr> (FeedPush i tw) (FeedRelease i Continue PoolIdle) FeedTop pc s = Some s'"
    using pc by (simp add: feed_access_def)
  then show ?thesis by (rule feed_push_result) (use s'(2) in auto)
qed

lemma net_sentinel:
  assumes inv: "hinv s F" and pc: "hnpc s = FeedSentinel tw pc"
  shows "\<exists>m V c F'. push_access bk \<lparr>refIdx = kPoolInvalid, tWireCycles = tw\<rparr> pc (hmem s, nview s) = Some (m, V, c) \<and>
    hinv (s\<lparr>hmem := m, nview := V, hnpc := (case c of Running pc \<Rightarrow> FeedSentinel tw pc
      | Returned ok \<Rightarrow> if ok then FeedDone else if stop then FeedDone else FeedSentinel tw PushIdle),
      hpushed := hpushed s @ (if c = Returned True then [(\<lparr>refIdx = kPoolInvalid, tWireCycles = tw\<rparr>, packet_in m kPoolInvalid)] else [])\<rparr>) F'"
proof -
  let ?ch = "\<lparr>cback = bk, cfails = False, cfeed = if stop then Stop else Go\<rparr>"
  obtain s' F' where s': "feed_access ?ch s = Some s'" "hinv s' F'" using feed_access_inv [OF inv] by blast
  then have "feed_push bk \<lparr>refIdx = kPoolInvalid, tWireCycles = tw\<rparr> (FeedSentinel tw) (if stop then FeedDone else FeedSentinel tw PushIdle) FeedDone pc s = Some s'"
    using pc by (cases stop) (simp_all add: feed_access_def)
  then show ?thesis
  proof (rule feed_push_result)
    fix m V c
    assume "push_access bk \<lparr>refIdx = kPoolInvalid, tWireCycles = tw\<rparr> pc (hmem s, nview s) = Some (m, V, c)"
      and "s' = s\<lparr>hmem := m, nview := V, hnpc := (case c of Running pc \<Rightarrow> FeedSentinel tw pc
        | Returned ok \<Rightarrow> if ok then FeedDone else if stop then FeedDone else FeedSentinel tw PushIdle),
        hpushed := hpushed s @ (if c = Returned True then [(\<lparr>refIdx = kPoolInvalid, tWireCycles = tw\<rparr>,
          packet_in m (refIdx \<lparr>refIdx = kPoolInvalid, tWireCycles = tw\<rparr>))] else [])\<rparr>"
    with s'(2) show ?thesis unfolding PacketRef.select_convs by blast
  qed
qed

text \<open>Writing and reading the packet of the buffer it holds.\<close>

lemma net_holds_slot:
  assumes "hinv s F" and "hnpc s = FeedHold i"
  shows "covers (mlog (hmem s)) (nview s) (Packet i)" "unat i < length (mslots (hmem s))"
  using hinvD(6) [OF assms(1), of i] not_in_ring(2) [OF assms(1), of i] assms(2) by (auto simp: slot_known_def)

lemma net_fills:
  assumes inv: "hinv s F" and pc: "hnpc s = FeedHold i"
  shows "\<exists>F'. hinv (s\<lparr>hmem := (hmem s)\<lparr>mlog := mlog (hmem s) @ [(Write, Packet i)],
      mslots := (mslots (hmem s))[unat i := (mslots (hmem s) ! unat i)\<lparr>sdata := d, slength := n\<rparr>]\<rparr>,
    nview := (nview s)\<lparr>vknown := insert (length (mlog (hmem s))) (vknown (nview s))\<rparr>\<rparr>) F'"
  by (rule feed_accesses [OF inv, where ch = "\<lparr>cback = 0, cfails = False, cfeed = Receive d n\<rparr>"])
    (use net_holds_slot [OF inv pc] pc in \<open>simp add: feed_access_def plain_write_def log_access_def vec_simps\<close>)

lemma net_looks:
  assumes inv: "hinv s F" and pc: "hnpc s = FeedHold i"
  shows "\<exists>F'. hinv (s\<lparr>hmem := (hmem s)\<lparr>mlog := mlog (hmem s) @ [(Read, Packet i)]\<rparr>,
    nview := (nview s)\<lparr>vknown := insert (length (mlog (hmem s))) (vknown (nview s))\<rparr>\<rparr>) F'"
  by (rule feed_accesses [OF inv, where ch = "\<lparr>cback = 0, cfails = False, cfeed = Parse\<rparr>"])
    (use covers_covers_writes [OF net_holds_slot(1) [OF inv pc]] pc in \<open>simp add: feed_access_def plain_read_def log_access_def\<close>)

text \<open>Fields that keep their value.\<close>

lemma same_fields [simp]:
  "s\<lparr>hmem := m, nview := V, hnpc := pc, hpushed := hpushed s\<rparr> = s\<lparr>hmem := m, nview := V, hnpc := pc\<rparr>"
  "s\<lparr>hmem := hmem s, nview := nview s, hnpc := pc\<rparr> = s\<lparr>hnpc := pc\<rparr>"
  by (cases s; simp)+

text \<open>The start, with fresh ring and pool.\<close>

lemma handover_new:
  assumes "SpscRing_new v0 ringSlots = Some r" and "PacketPool_new n = Some p" and "n \<le> unat kPoolInvalid"
    and "ph t = FeedTop \<or> ph t = FeedDone"
  shows "hinv (handover ph (UdpThreads_new r p t st0)) (map of_nat [0..<n])" "engine_has clk st0 (UdpThreads_new r p t st0)"
proof -
  have inv: "hinv (Handover_new r p) (map of_nat [0..<n])" by (rule hinv_new [OF assms(1-3)])
  have "hinv ((Handover_new r p)\<lparr>hnpc := FeedDone\<rparr>) (map of_nat [0..<n])"
    using inv by (rule hinv_feed_pc) (simp_all add: Handover_new_def feed_ok_def)
  with inv assms(4) show "hinv (handover ph (UdpThreads_new r p t st0)) (map of_nat [0..<n])"
    by (auto simp: handover_def UdpThreads_new_def Handover_new_def)
  show "engine_has clk st0 (UdpThreads_new r p t st0)" by (simp add: engine_has_def UdpThreads_new_def)
qed

section \<open>The network thread's contract\<close>

text \<open>An access of a network thread in the state \<open>s\<close> that is defined and keeps the invariant: \<open>phase\<close> is what the thread is in
  terms of \<^theory_text>\<open>Handover\<close>; \<open>ok\<close> is what it knows of its own state and of the packets in the slots, which the matching
  thread does not write.\<close>

definition net_ok :: "('t \<Rightarrow> feed_pc) \<Rightarrow> (Memory \<Rightarrow> 't \<Rightarrow> bool) \<Rightarrow> Handover \<Rightarrow> (Memory \<times> tview \<times> 't \<times> published list) option \<Rightarrow> bool" where
  "net_ok phase ok s r \<longleftrightarrow> (\<exists>m V t xs F. r = Some (m, V, t, xs) \<and> ok m t \<and>
     hinv (s\<lparr>hmem := m, nview := V, hnpc := phase t, hpushed := hpushed s @ xs\<rparr>) F)"

text \<open>It publishes nothing, or does not touch memory at all.\<close>

lemma net_quiet:
  assumes "hinv (s\<lparr>hmem := m, nview := V, hnpc := phase t\<rparr>) F" and "ok m t"
  shows "net_ok phase ok s (Some (m, V, t, []))"
  using assms unfolding net_ok_def by (intro exI conjI) (assumption | simp)+

lemma net_stays:
  assumes "hinv (s\<lparr>hnpc := phase t\<rparr>) F" and "ok (hmem s) t"
  shows "net_ok phase ok s (Some (hmem s, nview s, t, []))"
  by (rule net_quiet [where F = F]) (use assms in simp_all)

lemma net_rests:
  assumes "hinv s F" and "hnpc s = phase t" and "ok (hmem s) t"
  shows "net_ok phase ok s (Some (hmem s, nview s, t, []))"
proof -
  have "s\<lparr>hnpc := phase t\<rparr> = s" using assms(2) by (cases s) simp
  then show ?thesis using assms(1,3) by (intro net_stays [where F = F]) simp_all
qed

text \<open>The calls of pool and ring; \<open>g\<close> is the thread's state after the access.\<close>

lemma net_ok_acquire:
  assumes "hinv s F" and "hnpc s = FeedAcquire pc" and "\<And>pc. phase (g (Running pc)) = FeedAcquire pc"
    and "\<And>i. phase (g (Returned i)) = (if i = kPoolInvalid then FeedTop else FeedHold i)" and "\<And>m c. ok m (g c)"
  shows "net_ok phase ok s (do { (m, V, c) \<leftarrow> acquire_access f bk pc (hmem s, nview s); Some (m, V, g c, []) })"
proof -
  obtain m V c F' where a: "acquire_access f bk pc (hmem s, nview s) = Some (m, V, c)"
    "hinv (s\<lparr>hmem := m, nview := V, hnpc := (case c of Running pc \<Rightarrow> FeedAcquire pc
      | Returned i \<Rightarrow> if i = kPoolInvalid then FeedTop else FeedHold i)\<rparr>) F'" using net_acquires [OF assms(1,2)] by blast
  then have "hinv (s\<lparr>hmem := m, nview := V, hnpc := phase (g c)\<rparr>) F'" by (cases c) (simp_all add: assms(3,4))
  then show ?thesis unfolding a(1) by (simp add: net_quiet assms(5))
qed

lemma net_ok_release:
  assumes "hinv s F" and "hnpc s = FeedRelease i k pc" and "\<And>pc. phase (g (Running pc)) = FeedRelease i k pc"
    and "\<And>x. phase (g (Returned x)) = after_pc k" and "\<And>m c. ok m (g c)"
  shows "net_ok phase ok s (do { (m, V, c) \<leftarrow> release_access f bk i pc (hmem s, nview s); Some (m, V, g c, []) })"
proof -
  obtain m V c F' where a: "release_access f bk i pc (hmem s, nview s) = Some (m, V, c)"
    "hinv (s\<lparr>hmem := m, nview := V, hnpc := (case c of Running pc \<Rightarrow> FeedRelease i k pc | Returned _ \<Rightarrow> after_pc k)\<rparr>) F'"
    using net_releases [OF assms(1,2)] by blast
  then have "hinv (s\<lparr>hmem := m, nview := V, hnpc := phase (g c)\<rparr>) F'" by (cases c) (simp_all add: assms(3,4))
  then show ?thesis unfolding a(1) by (simp add: net_quiet assms(5))
qed

lemma net_ok_published:
  assumes "push_access bk ref pc (hmem s, nview s) = Some (m, V, c)" and "\<And>m. ok m (g c)"
    and "hinv (s\<lparr>hmem := m, nview := V, hnpc := phase (g c),
      hpushed := hpushed s @ (if c = Returned True then [(ref, packet_in m (refIdx ref))] else [])\<rparr>) F"
  shows "net_ok phase ok s (do { (m, V, c) \<leftarrow> push_access bk ref pc (hmem s, nview s);
    Some (m, V, g c, if c = Returned True then [(ref, packet_in m (refIdx ref))] else []) })"
  unfolding net_ok_def assms(1) using assms(2,3) by (intro exI conjI) (assumption | simp)+

lemma net_ok_push:
  assumes "hinv s F" and "hnpc s = FeedPush i tw pc" and "\<And>pc. phase (g (Running pc)) = FeedPush i tw pc"
    and "phase (g (Returned True)) = FeedTop" and "phase (g (Returned False)) = FeedRelease i Continue PoolIdle" and "\<And>m c. ok m (g c)"
  shows "net_ok phase ok s (do { (m, V, c) \<leftarrow> push_access bk \<lparr>refIdx = i, tWireCycles = tw\<rparr> pc (hmem s, nview s);
    Some (m, V, g c, if c = Returned True then [(\<lparr>refIdx = i, tWireCycles = tw\<rparr>, packet_in m (refIdx \<lparr>refIdx = i, tWireCycles = tw\<rparr>))] else []) })"
proof -
  obtain m V c F' where a: "push_access bk \<lparr>refIdx = i, tWireCycles = tw\<rparr> pc (hmem s, nview s) = Some (m, V, c)"
    "hinv (s\<lparr>hmem := m, nview := V, hnpc := (case c of Running pc \<Rightarrow> FeedPush i tw pc
      | Returned ok \<Rightarrow> if ok then FeedTop else FeedRelease i Continue PoolIdle),
      hpushed := hpushed s @ (if c = Returned True then [(\<lparr>refIdx = i, tWireCycles = tw\<rparr>, packet_in m i)] else [])\<rparr>) F'"
    using net_push [OF assms(1,2)] by blast
  moreover have "(case c of Running pc \<Rightarrow> FeedPush i tw pc | Returned ok \<Rightarrow> if ok then FeedTop else FeedRelease i Continue PoolIdle) = phase (g c)"
    using assms(3-5) by (auto split: call.split)
  ultimately show ?thesis by (intro net_ok_published [OF a(1), where F = F']) (auto simp: assms(6) split: if_splits)
qed

lemma net_ok_sentinel:
  assumes "hinv s F" and "hnpc s = FeedSentinel tw pc" and "\<And>pc. phase (g (Running pc)) = FeedSentinel tw pc"
    and "phase (g (Returned True)) = FeedDone" and "phase (g (Returned False)) = (if stop then FeedDone else FeedSentinel tw PushIdle)"
    and "\<And>m c. ok m (g c)"
  shows "net_ok phase ok s (do { (m, V, c) \<leftarrow> push_access bk \<lparr>refIdx = kPoolInvalid, tWireCycles = tw\<rparr> pc (hmem s, nview s);
    Some (m, V, g c, if c = Returned True then [(\<lparr>refIdx = kPoolInvalid, tWireCycles = tw\<rparr>,
      packet_in m (refIdx \<lparr>refIdx = kPoolInvalid, tWireCycles = tw\<rparr>))] else []) })"
proof -
  obtain m V c F' where a: "push_access bk \<lparr>refIdx = kPoolInvalid, tWireCycles = tw\<rparr> pc (hmem s, nview s) = Some (m, V, c)"
    "hinv (s\<lparr>hmem := m, nview := V, hnpc := (case c of Running pc \<Rightarrow> FeedSentinel tw pc
      | Returned ok \<Rightarrow> if ok then FeedDone else if stop then FeedDone else FeedSentinel tw PushIdle),
      hpushed := hpushed s @ (if c = Returned True then [(\<lparr>refIdx = kPoolInvalid, tWireCycles = tw\<rparr>, packet_in m kPoolInvalid)] else [])\<rparr>) F'"
    using net_sentinel [OF assms(1,2)] by blast
  moreover have "(case c of Running pc \<Rightarrow> FeedSentinel tw pc
      | Returned ok \<Rightarrow> if ok then FeedDone else if stop then FeedDone else FeedSentinel tw PushIdle) = phase (g c)"
    using assms(3-5) by (auto split: call.split)
  ultimately show ?thesis by (intro net_ok_published [OF a(1), where F = F']) (auto simp: assms(6) split: if_splits)
qed

text \<open>Filling the buffer it holds, then going on.\<close>

lemma net_ok_fill:
  assumes inv: "hinv s F" and pc: "hnpc s = FeedHold i" and sl: "sl = (mslots (hmem s) ! unat i)\<lparr>sdata := sdata sl, slength := slength sl\<rparr>"
    and ph: "phase t \<in> {FeedHold i, FeedPush i tw PushIdle, FeedRelease i k PoolIdle}"
    and ok: "\<And>m. mslots m = (mslots (hmem s))[unat i := sl] \<Longrightarrow> ok m t"
  shows "net_ok phase ok s (do { (acc, V) \<leftarrow> plain_write (Packet i) (mlog (hmem s)) (nview s); ss \<leftarrow> vec_put (mslots (hmem s)) i sl;
    Some ((hmem s)\<lparr>mlog := acc, mslots := ss\<rparr>, V, t, []) })"
proof -
  note D = net_holds_slot [OF inv pc]
  let ?m = "(hmem s)\<lparr>mlog := mlog (hmem s) @ [(Write, Packet i)], mslots := (mslots (hmem s))[unat i := sl]\<rparr>"
  let ?V = "(nview s)\<lparr>vknown := insert (length (mlog (hmem s))) (vknown (nview s))\<rparr>"
  obtain F1 where F1: "hinv (s\<lparr>hmem := ?m, nview := ?V\<rparr>) F1" using net_fills [OF inv pc, where d = "sdata sl" and n = "slength sl"] sl by metis
  have "hinv (s\<lparr>hmem := ?m, nview := ?V, hnpc := phase t\<rparr>) F1"
    by (rule net_goes_on [OF F1, where i = i and tw = tw and k = k]) (use pc ph in auto)
  then have "net_ok phase ok s (Some (?m, ?V, t, []))" by (rule net_quiet) (rule ok, simp)
  then show ?thesis using D by (simp add: plain_write_def log_access_def vec_simps)
qed

text \<open>The contract; where the thread is \<open>stuck\<close> its access may be undefined.\<close>

locale memory_feed =
  fixes acc :: "('i, 't) net_access" and phase :: "'t \<Rightarrow> feed_pc" and ok :: "Memory \<Rightarrow> 't \<Rightarrow> bool" and stuck :: "'t \<Rightarrow> bool"
  assumes access: "hinv s F \<Longrightarrow> hnpc s = phase t \<Longrightarrow> ok (hmem s) t \<Longrightarrow>
      acc inp (hmem s, nview s, t) = None \<and> stuck t \<or> net_ok phase ok s (acc inp (hmem s, nview s, t))"
    and stable: "ok m t \<Longrightarrow> (\<And>j. sdata (mslots m' ! j) = sdata (mslots m ! j)) \<Longrightarrow> ok m' t"
begin

lemma net_access_inv:
  assumes "hinv (handover phase u) F" and "ok (umem u) (unet u)" and "acc inp (umem u, usview u, unet u) \<noteq> None \<or> \<not> stuck (unet u)"
  shows "\<exists>m V t xs F'. acc inp (umem u, usview u, unet u) = Some (m, V, t, xs) \<and> ok m t \<and>
    hinv (handover phase (u\<lparr>umem := m, usview := V, unet := t, upushed := upushed u @ xs\<rparr>)) F'"
proof -
  obtain m V t xs F' where a: "acc inp (umem u, usview u, unet u) = Some (m, V, t, xs)" "ok m t"
    "hinv ((handover phase u)\<lparr>hmem := m, nview := V, hnpc := phase t, hpushed := upushed u @ xs\<rparr>) F'"
    using access [OF assms(1), of "unet u" inp] assms(2,3) by (auto simp: net_ok_def)
  moreover have "(handover phase u)\<lparr>hmem := m, nview := V, hnpc := phase t, hpushed := upushed u @ xs\<rparr> =
      handover phase (u\<lparr>umem := m, usview := V, unet := t, upushed := upushed u @ xs\<rparr>)" by (simp add: handover_def)
  ultimately show ?thesis by auto
qed

lemma executes_inv:
  assumes "udp_executes acc clk u0 u" and "hinv (handover phase u0) F0" and "ok (umem u0) (unet u0)" and "engine_has clk st0 u0"
  shows "(\<exists>F. hinv (handover phase u) F) \<and> ok (umem u) (unet u) \<and> engine_has clk st0 u"
  using assms(1)
proof (induction rule: udp_executes.induct)
  case init
  then show ?case using assms(2-4) by blast
next
  case (step u u')
  then obtain F where F: "hinv (handover phase u) F" and o: "ok (umem u) (unet u)" and e: "engine_has clk st0 u" by blast
  from step(2) show ?case
  proof (cases rule: udp_access.cases)
    case (net inp m V t xs)
    then show ?thesis using net_access_inv [OF F o, of inp] e by (auto simp: engine_has_def split: cons_pc.split)
  next
    case (cons out)
    note fr = cons_access_frame [OF cons]
    have "ok (umem u') (unet u')" using stable [OF o] fr by simp
    then show ?thesis using cons_access_inv [OF F cons] engine_has_step [OF F e cons] by blast
  qed
qed

text \<open>From a start with fresh ring and pool.\<close>

lemma reached:
  assumes "SpscRing_new v0 ringSlots = Some r" and "PacketPool_new n = Some p" and "n \<le> unat kPoolInvalid"
    and "phase t = FeedTop \<or> phase t = FeedDone" and "ok (Memory_new r p) t" and "udp_executes acc clk (UdpThreads_new r p t st0) u"
  shows "\<exists>F. hinv (handover phase u) F" "ok (umem u) (unet u)" "engine_has clk st0 u"
  using executes_inv [OF assms(6) handover_new(1) [where ph = phase, OF assms(1-4)] _ handover_new(2) [where ph = phase, OF assms(1-4)]]
    assms(5) by (auto simp: UdpThreads_new_def)

lemma in_order:
  assumes "SpscRing_new v0 ringSlots = Some r" and "PacketPool_new n = Some p" and "n \<le> unat kPoolInvalid"
    and "phase t = FeedTop \<or> phase t = FeedDone" and "ok (Memory_new r p) t" and "udp_executes acc clk (UdpThreads_new r p t st0) u"
  shows "(acc inp (umem u, usview u, unet u) = None \<longrightarrow> stuck (unet u)) \<and>
    (cons_access clk out u = None \<longrightarrow> (\<exists>ref. ucpc u = ConsPacket ref \<and>
       consume_packet clk (packet_in (umem u) (refIdx ref)) (tWireCycles ref) (uest u) = None)) \<and>
    uused u = take (length (uused u)) (upushed u) \<and>
    process_all clk (packets (uused u)) st0 = Some (case ucpc u of ConsThrown x ref \<Rightarrow> Inl x | _ \<Rightarrow> Inr (uest u))"
proof -
  obtain F where F: "hinv (handover phase u) F" and o: "ok (umem u) (unet u)" and e: "engine_has clk st0 u"
    using reached [OF assms] by blast
  have "uused u = take (used_count (handover phase u)) (upushed u)" using hinvD(9) [OF F] by simp
  then have "uused u = take (length (uused u)) (upushed u)" by (simp add: min_def)
  moreover have "acc inp (umem u, usview u, unet u) = None \<longrightarrow> stuck (unet u)" using net_access_inv [OF F o, of inp] by (cases "stuck (unet u)") auto
  ultimately show ?thesis using cons_access_undefined [OF F] e by (simp add: engine_has_def)
qed

end

end
