(* ===== verification/Memory_Socket.thy ===== *)
theory Memory_Socket
  imports Memory_System
begin

text \<open>
  The loop of \<open>runFeedHandler\<close> (\<^verbatim>\<open>src/feed_handler.cpp\<close>) on the memory of \<^theory_text>\<open>Release_Acquire\<close>, access by access.  It keeps the
  contract \<open>memory_feed\<close>.
\<close>

section \<open>Model\<close>

datatype sock_pc =
    SockTop
  | SockAcquire pool_pc
  | SockScratch
  | SockRecv u32
  | SockParse u32 u64
  | SockPush u32 u64 "PacketRef push_pc"
  | SockDrop u32 pool_pc
  | SockRelease u32 after_release pool_pc
  | SockSentinel u64 "PacketRef push_pc"
  | SockDone

record SockThread =
  spc :: sock_pc
  stracker :: SeqTracker
  sstats :: FeedStats

definition SockThread_new :: "bool \<Rightarrow> SockThread" where
  "SockThread_new setup_ok = \<lparr>spc = (if setup_ok then SockTop else SockDone), stracker = SeqTracker_new, sstats = FeedStats_new\<rparr>"

text \<open>What comes from outside: the memory's choices, what the socket delivers and when.\<close>

type_synonym sock_input = "Outside \<times> recv_result \<times> u64"

type_synonym sock_result = "(Memory \<times> tview \<times> SockThread \<times> published list) option"

definition sock_push :: "Outside \<Rightarrow> PacketRef \<Rightarrow> (PacketRef push_pc \<Rightarrow> sock_pc) \<Rightarrow> sock_pc \<Rightarrow> sock_pc \<Rightarrow> PacketRef push_pc \<Rightarrow>
    Memory \<times> tview \<times> SockThread \<Rightarrow> sock_result" where
  "sock_push out ref busy full nxt pc = (\<lambda>(m, V, t). do {
     (m, V, c) \<leftarrow> push_access (oback out) ref pc (m, V);
     Some (m, V, t\<lparr>spc := (case c of Running pc \<Rightarrow> busy pc | Returned ok \<Rightarrow> if ok then nxt else full)\<rparr>,
           if c = Returned True then [(ref, packet_in m (refIdx ref))] else []) })"

definition sock_release :: "Outside \<Rightarrow> u32 \<Rightarrow> (pool_pc \<Rightarrow> sock_pc) \<Rightarrow> (SockThread \<Rightarrow> SockThread) \<Rightarrow> pool_pc \<Rightarrow>
    Memory \<times> tview \<times> SockThread \<Rightarrow> sock_result" where
  "sock_release out i busy fin pc = (\<lambda>(m, V, t). do {
     (m, V, c) \<leftarrow> release_access (ofails out) (oback out) i pc (m, V);
     Some (m, V, (case c of Running pc \<Rightarrow> t\<lparr>spc := busy pc\<rparr> | Returned _ \<Rightarrow> fin t), []) })"

text \<open>A datagram into the slot \<open>i\<close>; a short one is given back at once.\<close>

definition sock_receive :: "bytes \<Rightarrow> u64 \<Rightarrow> u32 \<Rightarrow> Memory \<times> tview \<times> SockThread \<Rightarrow> sock_result" where
  "sock_receive d tWire i = (\<lambda>(m, V, t). do {
     (acc, V) \<leftarrow> plain_write (Packet i) (mlog m) V;
     slot \<leftarrow> vec_at (mslots m) i;
     let (n, buf) = recv_into d (sdata slot);
     let short = n < kMoldHeaderBytes;
     ss \<leftarrow> vec_put (mslots m) i (if short then slot\<lparr>sdata := buf\<rparr> else slot\<lparr>sdata := buf, slength := of_nat n\<rparr>);
     Some (m\<lparr>mlog := acc, mslots := ss\<rparr>, V,
           if short then t\<lparr>spc := SockRelease i Continue PoolIdle\<rparr>
           else t\<lparr>spc := SockParse i tWire, sstats := countReceived n (sstats t)\<rparr>, []) })"

text \<open>The header is read back and decided upon.\<close>

definition sock_decide :: "verdict \<Rightarrow> u32 \<Rightarrow> u64 \<Rightarrow> sock_pc" where
  "sock_decide v i tWire = (case v of
      EndSession \<Rightarrow> SockRelease i (SendSentinel tWire) PoolIdle
    | Heartbeat \<Rightarrow> SockRelease i Continue PoolIdle
    | Duplicate \<Rightarrow> SockRelease i Continue PoolIdle
    | Accept \<Rightarrow> SockPush i tWire PushIdle)"

definition sock_parse :: "u64 \<Rightarrow> u32 \<Rightarrow> Memory \<times> tview \<times> SockThread \<Rightarrow> sock_result" where
  "sock_parse tWire i = (\<lambda>(m, V, t). do {
     (acc, V) \<leftarrow> plain_read (Packet i) (mlog m) V;
     slot \<leftarrow> vec_at (mslots m) i;
     hdr \<leftarrow> parseMoldHeader (sdata slot);
     let (v, k, st) = trackHeader hdr (stracker t) (sstats t);
     Some (m\<lparr>mlog := acc\<rparr>, V, \<lparr>spc = sock_decide v i tWire, stracker = k, sstats = st\<rparr>, []) })"

definition sock_after :: "after_release \<Rightarrow> sock_pc" where
  "sock_after k = (case k of Continue \<Rightarrow> SockTop | Break \<Rightarrow> SockDone | SendSentinel tw \<Rightarrow> SockSentinel tw PushIdle)"

definition sock_access :: "(sock_input, SockThread) net_access" where
  "sock_access = (\<lambda>(out, inp, tWire) (m, V, t). case spc t of
      SockTop \<Rightarrow> Some (m, V, t\<lparr>spc := (if ostop out then SockDone else SockAcquire PoolIdle)\<rparr>, [])
    | SockAcquire pc \<Rightarrow> do {
        (m, V, c) \<leftarrow> acquire_access (ofails out) (oback out) pc (m, V);
        Some (m, V, t\<lparr>spc := (case c of Running pc \<Rightarrow> SockAcquire pc
          | Returned i \<Rightarrow> if i = kPoolInvalid then SockScratch else SockRecv i)\<rparr>, []) }
    | SockScratch \<Rightarrow>
        (case inp of
           Datagram d \<Rightarrow>
             (let n = length (take kMaxPacketBytes d) in
              Some (m, V, if n = 0 then t\<lparr>spc := SockTop\<rparr>
                          else t\<lparr>spc := SockTop, sstats := countDropped (countReceived n (sstats t))\<rparr>, []))
         | _ \<Rightarrow> Some (m, V, t\<lparr>spc := SockTop\<rparr>, []))
    | SockRecv i \<Rightarrow>
        (case inp of
           Datagram d \<Rightarrow> sock_receive d tWire i (m, V, t)
         | Interrupted \<Rightarrow> Some (m, V, t\<lparr>spc := SockRelease i Continue PoolIdle\<rparr>, [])
         | Failed \<Rightarrow> Some (m, V, t\<lparr>spc := SockRelease i Break PoolIdle\<rparr>, []))
    | SockParse i tw \<Rightarrow> sock_parse tw i (m, V, t)
    | SockPush i tw pc \<Rightarrow>
        sock_push out \<lparr>refIdx = i, tWireCycles = tw\<rparr> (SockPush i tw) (SockDrop i PoolIdle) SockTop pc (m, V, t)
    | SockDrop i pc \<Rightarrow>
        sock_release out i (SockDrop i) (\<lambda>t. t\<lparr>spc := SockTop, sstats := countDropped (sstats t)\<rparr>) pc (m, V, t)
    | SockRelease i k pc \<Rightarrow> sock_release out i (SockRelease i k) (\<lambda>t. t\<lparr>spc := sock_after k\<rparr>) pc (m, V, t)
    | SockSentinel tw pc \<Rightarrow>
        sock_push out \<lparr>refIdx = kPoolInvalid, tWireCycles = tw\<rparr> (SockSentinel tw)
          (if ostop out then SockDone else SockSentinel tw PushIdle) SockDone pc (m, V, t)
    | SockDone \<Rightarrow> Some (m, V, t, []))"

section \<open>The contract\<close>

fun sock_feed :: "sock_pc \<Rightarrow> feed_pc" where
  "sock_feed SockTop = FeedTop"
| "sock_feed (SockAcquire pc) = FeedAcquire pc"
| "sock_feed SockScratch = FeedTop"
| "sock_feed (SockRecv i) = FeedHold i"
| "sock_feed (SockParse i tw) = FeedHold i"
| "sock_feed (SockPush i tw pc) = FeedPush i tw pc"
| "sock_feed (SockDrop i pc) = FeedRelease i Continue pc"
| "sock_feed (SockRelease i k pc) = FeedRelease i k pc"
| "sock_feed (SockSentinel tw pc) = FeedSentinel tw pc"
| "sock_feed SockDone = FeedDone"

definition sock_phase :: "SockThread \<Rightarrow> feed_pc" where
  "sock_phase t = sock_feed (spc t)"

text \<open>A header is only parsed where one was received.\<close>

definition sock_ok :: "Memory \<Rightarrow> SockThread \<Rightarrow> bool" where
  "sock_ok m t \<longleftrightarrow> (\<forall>i tw. spc t = SockParse i tw \<longrightarrow> kMoldHeaderBytes \<le> length (sdata (mslots m ! unat i)))"

lemma sock_receive_ok:
  assumes inv: "hinv s F" and pc: "hnpc s = FeedHold i"
  shows "net_ok sock_phase sock_ok s (sock_receive d tw i (hmem s, nview s, t))"
proof -
  note D = net_holds_slot [OF inv pc]
  let ?slot = "mslots (hmem s) ! unat i"
  obtain n buf where rv: "recv_into d (sdata ?slot) = (n, buf)" by fastforce
  let ?short = "n < kMoldHeaderBytes"
  define sl where "sl = (if ?short then ?slot\<lparr>sdata := buf\<rparr> else ?slot\<lparr>sdata := buf, slength := of_nat n\<rparr>)"
  define t' where "t' = (if ?short then t\<lparr>spc := SockRelease i Continue PoolIdle\<rparr> else t\<lparr>spc := SockParse i tw, sstats := countReceived n (sstats t)\<rparr>)"
  have "n \<le> length buf" using rv by (auto simp: recv_into_def Let_def)
  then have "net_ok sock_phase sock_ok s (do { (acc, V) \<leftarrow> plain_write (Packet i) (mlog (hmem s)) (nview s); ss \<leftarrow> vec_put (mslots (hmem s)) i sl;
      Some ((hmem s)\<lparr>mlog := acc, mslots := ss\<rparr>, V, t', []) })" using D(2)
    by (intro net_ok_fill [OF inv pc]) (auto simp: sl_def t'_def sock_phase_def sock_ok_def)
  moreover have "sock_receive d tw i (hmem s, nview s, t) = do { (acc, V) \<leftarrow> plain_write (Packet i) (mlog (hmem s)) (nview s);
      ss \<leftarrow> vec_put (mslots (hmem s)) i sl; Some ((hmem s)\<lparr>mlog := acc, mslots := ss\<rparr>, V, t', []) }"
    using D(2) by (simp add: sock_receive_def vec_simps rv sl_def t'_def)
  ultimately show ?thesis by simp
qed

lemma sock_parse_ok:
  assumes inv: "hinv s F" and pc: "hnpc s = FeedHold i" and len: "kMoldHeaderBytes \<le> length (sdata (mslots (hmem s) ! unat i))"
  shows "net_ok sock_phase sock_ok s (sock_parse tw i (hmem s, nview s, t))"
proof -
  note D = net_holds_slot [OF inv pc]
  obtain hdr where hdr: "parseMoldHeader (sdata (mslots (hmem s) ! unat i)) = Some hdr" using parse_total [OF len] by blast
  obtain v k st where tr: "trackHeader hdr (stracker t) (sstats t) = (v, k, st)" by (metis prod_cases3)
  let ?m = "(hmem s)\<lparr>mlog := mlog (hmem s) @ [(Read, Packet i)]\<rparr>" and ?t = "\<lparr>spc = sock_decide v i tw, stracker = k, sstats = st\<rparr>"
  let ?V = "(nview s)\<lparr>vknown := insert (length (mlog (hmem s))) (vknown (nview s))\<rparr>"
  obtain F1 where F1: "hinv (s\<lparr>hmem := ?m, nview := ?V\<rparr>) F1" using net_looks [OF inv pc] by blast
  have "hinv (s\<lparr>hmem := ?m, nview := ?V, hnpc := FeedPush i tw PushIdle\<rparr>) F1"
    "hinv (s\<lparr>hmem := ?m, nview := ?V, hnpc := FeedRelease i kk PoolIdle\<rparr>) F1" for kk
    by (rule net_goes_on [OF F1]; use pc in auto)+
  then have "hinv (s\<lparr>hmem := ?m, nview := ?V, hnpc := sock_phase ?t\<rparr>) F1" by (cases v) (simp_all add: sock_phase_def sock_decide_def)
  moreover have "sock_parse tw i (hmem s, nview s, t) = Some (?m, ?V, ?t, [])"
    using D(2) covers_covers_writes [OF D(1)] hdr tr by (simp add: sock_parse_def plain_read_def log_access_def vec_simps)
  moreover have "sock_ok ?m ?t" by (cases v) (simp_all add: sock_ok_def sock_decide_def)
  ultimately show ?thesis by (simp add: net_quiet)
qed

lemma sock_after_phase: "sock_feed (sock_after k) = after_pc k" "sock_after k \<noteq> SockParse i tw"
  by (simp_all add: sock_after_def after_pc_def split: after_release.split)

lemmas sock_simps = sock_access_def sock_phase_def sock_ok_def

lemma sock_access_ok:
  assumes inv: "hinv s F" and ph: "hnpc s = sock_phase t" and ok: "sock_ok (hmem s) t"
  shows "net_ok sock_phase sock_ok s (sock_access (out, rv, tw) (hmem s, nview s, t))"
proof (cases "spc t")
  case SockTop
  have "hinv (s\<lparr>hnpc := FeedDone\<rparr>) F" "hinv (s\<lparr>hnpc := FeedAcquire PoolIdle\<rparr>) F"
    by (rule net_goes_on [OF inv]; use ph SockTop in \<open>simp add: sock_phase_def\<close>)+
  then show ?thesis using SockTop by (cases "ostop out") (auto simp: sock_simps intro!: net_stays)
next
  case (SockAcquire pc)
  then have "hnpc s = FeedAcquire pc" using ph by (simp add: sock_phase_def)
  from net_ok_acquire [OF inv this, of sock_phase "\<lambda>c. t\<lparr>spc := (case c of Running pc \<Rightarrow> SockAcquire pc
      | Returned i \<Rightarrow> if i = kPoolInvalid then SockScratch else SockRecv i)\<rparr>" sock_ok]
  show ?thesis using SockAcquire by (simp add: sock_simps split: call.split)
next
  case SockScratch
  have "hinv (s\<lparr>hnpc := FeedTop\<rparr>) F" by (rule net_goes_on [OF inv]) (use ph SockScratch in \<open>simp add: sock_phase_def\<close>)
  then show ?thesis using SockScratch by (cases rv) (auto simp: sock_simps Let_def intro!: net_stays)
next
  case (SockRecv i)
  then have hold: "hnpc s = FeedHold i" using ph by (simp add: sock_phase_def)
  have "hinv (s\<lparr>hnpc := FeedRelease i k PoolIdle\<rparr>) F" for k by (rule net_goes_on [OF inv]) (use hold in auto)
  then show ?thesis using SockRecv sock_receive_ok [OF inv hold] by (cases rv) (auto simp: sock_simps intro!: net_stays)
next
  case (SockParse i w)
  then show ?thesis using sock_parse_ok [OF inv, of i] ph ok by (simp add: sock_simps)
next
  case (SockPush i w pc)
  then have "hnpc s = FeedPush i w pc" using ph by (simp add: sock_phase_def)
  then show ?thesis using SockPush
    by (simp add: sock_access_def sock_push_def) (rule net_ok_push [OF inv], auto simp: sock_phase_def sock_ok_def split: call.splits if_splits)
next
  case (SockDrop i pc)
  then have "hnpc s = FeedRelease i Continue pc" using ph by (simp add: sock_phase_def)
  then show ?thesis using SockDrop
    by (simp add: sock_access_def sock_release_def) (rule net_ok_release [OF inv], auto simp: sock_phase_def sock_ok_def after_pc_def split: call.splits)
next
  case (SockRelease i k pc)
  then have "hnpc s = FeedRelease i k pc" using ph by (simp add: sock_phase_def)
  then show ?thesis using SockRelease
    by (simp add: sock_access_def sock_release_def) (rule net_ok_release [OF inv], auto simp: sock_phase_def sock_ok_def sock_after_phase split: call.splits)
next
  case (SockSentinel w pc)
  then have "hnpc s = FeedSentinel w pc" using ph by (simp add: sock_phase_def)
  then show ?thesis using SockSentinel
    by (simp add: sock_access_def sock_push_def split del: if_split) (rule net_ok_sentinel [OF inv, where stop = "ostop out"], auto simp: sock_phase_def sock_ok_def split: call.splits if_splits)
next
  case SockDone
  then show ?thesis using net_rests [OF inv, of sock_phase t sock_ok, OF ph ok] by (simp add: sock_access_def)
qed

interpretation sock: memory_feed sock_access sock_phase sock_ok "\<lambda>t. False"
proof
  show "sock_access inp (hmem s, nview s, t) = None \<and> False \<or> net_ok sock_phase sock_ok s (sock_access inp (hmem s, nview s, t))"
    if "hinv s F" "hnpc s = sock_phase t" "sock_ok (hmem s) t" for s F t inp
    using sock_access_ok [OF that] by (cases inp) simp
  show "sock_ok m' t" if "sock_ok m t" "\<And>j. sdata (mslots m' ! j) = sdata (mslots m ! j)" for m m' t
    using that by (simp add: sock_ok_def)
qed

section \<open>Properties\<close>


definition calm :: "bytes \<Rightarrow> sock_input" where
  "calm d = (\<lparr>oback = 0, ofails = False, ostop = False\<rparr>, Datagram d, 5)"

lemma sock_takes_slot:
  "\<exists>u. net_run sock_access [calm [1], calm [1], calm [1], calm [1], calm [1]] (UdpThreads_new ring2 pool2 (SockThread_new True) st0) = Some u \<and>
     spc (unet u) = SockRelease 0 Continue PoolIdle \<and> uused u = []"
  by (simp add: All_less_Suc access_defs sock_access_def sock_receive_def calm_def recv_into_def kMoldHeaderBytes_def
      UdpThreads_new_def SockThread_new_def Memory_new_def ring2_def pool2_def kMaxPacketBytes_def)


end
