(* ===== verification/Feed_Handler_Xdp.thy ===== *)
theory Feed_Handler_Xdp
  imports Feed_Handler
begin

text \<open>
  The AF_XDP network thread (\<^verbatim>\<open>include/feed_handler_xdp.hpp\<close>, \<^verbatim>\<open>src/feed_handler_xdp.cpp\<close>): a memory area
  of frames shared with the kernel, the ring of filled frames it peeks into and the ring of empty ones it
  refills; filtering raw Ethernet frames down to the MoldUDP64 payload, the same sequence tracking as
  the socket thread, and copying the payload into a pool slot.  The kernel's moves, the two ring
  operations of libxdp that return counts, and the time stamps are arguments.
\<close>

section \<open>Frames\<close>

definition kEthHdrSize :: nat where "kEthHdrSize = 14"

definition kIpHdrMin :: nat where "kIpHdrMin = 20"

definition kUdpHdrSize :: nat where "kUdpHdrSize = 8"

definition kBatchSize :: nat where "kBatchSize = 64"

text \<open>\<open>ETH_P_IP\<close> and \<open>IPPROTO_UDP\<close> of the system headers.\<close>

definition ETH_P_IP :: u16 where "ETH_P_IP = 0x0800"

definition IPPROTO_UDP :: u8 where "IPPROTO_UDP = 17"

text \<open>Reads at an offset of the frame; outside it they are undefined.\<close>

definition byte_at :: "bytes \<Rightarrow> nat \<Rightarrow> u8 option" where
  "byte_at frm off = (if off < length frm then Some (frm ! off) else None)"

definition be16_at :: "bytes \<Rightarrow> nat \<Rightarrow> u16 option" where
  "be16_at frm off = do { (b, _) \<leftarrow> take_bytes 2 (drop off frm); Some (bswap (load_le b)) }"

text \<open>
  The checks of one frame: \<open>Some None\<close> if the frame is skipped, else its MoldUDP64 packet.  The
  EtherType is at offset 12 of the Ethernet header; version and header length are the high and low
  half of the first byte of the IP header, the protocol its tenth byte; the destination port is at
  offset 2 of the UDP header.
\<close>

definition xdp_payload :: "u16 \<Rightarrow> bytes \<Rightarrow> bytes option option" where
  "xdp_payload port frm = (let frameLen = length frm in
     if frameLen < kEthHdrSize + kIpHdrMin + kUdpHdrSize + kMoldHeaderBytes then Some None
     else do {
       proto \<leftarrow> be16_at frm 12;
       if proto \<noteq> ETH_P_IP then Some None
       else do {
         vi \<leftarrow> byte_at frm kEthHdrSize;
         if drop_bit 4 vi \<noteq> 4 then Some None
         else (let ipLen = unat (vi AND 15) * 4 in
           if ipLen < kIpHdrMin then Some None
           else do {
             protocol \<leftarrow> byte_at frm (kEthHdrSize + 9);
             if protocol \<noteq> IPPROTO_UDP then Some None
             else (let udpOffset = kEthHdrSize + ipLen in
               if frameLen < udpOffset + kUdpHdrSize + kMoldHeaderBytes then Some None
               else do {
                 dest \<leftarrow> be16_at frm (udpOffset + 2);
                 if dest \<noteq> port then Some None
                 else (let moldPkt = drop (udpOffset + kUdpHdrSize) frm in
                   if length moldPkt < kMoldHeaderBytes then Some None
                   else Some (Some moldPkt)) }) }) } })"

section \<open>The shared frames\<close>

definition kNumFrames :: nat where "kNumFrames = 4096"

definition kFrameSize :: nat where "kFrameSize = 4096"

record xdp_desc =
  daddr :: u64
  dlen :: u32

text \<open>The memory area with the contents of the fill ring and of the receive ring.\<close>

record Umem =
  area :: bytes
  fillq :: "u64 list"
  rxq :: "xdp_desc list"

text \<open>What is handed to the kernel upfront.\<close>

definition Umem_new :: Umem where
  "Umem_new = \<lparr>area = replicate (kNumFrames * kFrameSize) 0,
     fillq = map (\<lambda>i. of_nat i * of_nat kFrameSize) [0..<kNumFrames], rxq = []\<rparr>"

text \<open>\<open>xsk_umem__get_data\<close> and a read of \<open>len\<close> bytes from there; outside the area it is undefined.\<close>

definition umem_read :: "Umem \<Rightarrow> nat \<Rightarrow> nat \<Rightarrow> bytes option" where
  "umem_read u off len = (if off + len \<le> length (area u) then Some (take len (drop off (area u))) else None)"

text \<open>The two counting operations of libxdp: \<open>peek avail n\<close> of \<open>avail\<close> filled entries, \<open>reserve room n\<close> with
  \<open>room\<close> free entries.\<close>

record Xsk =
  peek :: "nat \<Rightarrow> nat \<Rightarrow> nat"
  reserve :: "nat \<Rightarrow> nat \<Rightarrow> nat"

section \<open>The thread\<close>

datatype xdp_pc =
    XdpTop
  | XdpFrame
  | XdpAcquire nat nat
  | XdpCopy u32 nat nat
  | XdpPush u32
  | XdpDrop u32
  | XdpSentinel
  | XdpRelease
  | XdpRefill
  | XdpDone

text \<open>The locals of the function: \<open>xrcvd\<close>, \<open>xi\<close> and \<open>xwire\<close> are \<open>rcvd\<close>, \<open>i\<close> and \<open>tWire\<close> of the current batch.
  An entry of \<open>batchAddrs\<close> that was not written yet is \<open>None\<close>: the array is not initialised, and
  reading such an entry is undefined.\<close>

record XdpThread =
  xpc :: xdp_pc
  xtracker :: SeqTracker
  xstats :: FeedStats
  batchAddrs :: "u64 option list"
  xrcvd :: nat
  xi :: nat
  xwire :: u64
  xdone :: bool
  xumem :: Umem

definition XdpThread_new :: "Umem option \<Rightarrow> XdpThread" where
  "XdpThread_new setup =
     \<lparr>xpc = (case setup of None \<Rightarrow> XdpDone | Some _ \<Rightarrow> XdpTop), xtracker = SeqTracker_new, xstats = FeedStats_new,
      batchAddrs = replicate kBatchSize None, xrcvd = 0, xi = 0, xwire = 0, xdone = False,
      xumem = (case setup of None \<Rightarrow> Umem_new | Some u \<Rightarrow> u)\<rparr>"

text \<open>\<open>continue\<close> in the loop over the batch.\<close>

definition xdp_next :: "XdpThread \<Rightarrow> XdpThread" where
  "xdp_next t = t\<lparr>xpc := XdpFrame, xi := Suc (xi t)\<rparr>"

text \<open>One frame, lying at \<open>off\<close> in the area, up to the decision.\<close>

definition xdp_frame :: "u16 \<Rightarrow> nat \<Rightarrow> bytes \<Rightarrow> XdpThread \<Rightarrow> XdpThread option" where
  "xdp_frame port off frm t = do {
     payload \<leftarrow> xdp_payload port frm;
     (case payload of
        None \<Rightarrow> Some (xdp_next t)
      | Some moldPkt \<Rightarrow> do {
          hdr \<leftarrow> parseMoldHeader moldPkt;
          let (v, k, st) = trackHeader hdr (xtracker t) (countReceived (length moldPkt) (xstats t));
          let t = t\<lparr>xtracker := k, xstats := st\<rparr>;
          Some (case v of
              EndSession \<Rightarrow> t\<lparr>xpc := XdpSentinel\<rparr>
            | Heartbeat \<Rightarrow> xdp_next t
            | Duplicate \<Rightarrow> xdp_next t
            | Accept \<Rightarrow> t\<lparr>xpc := XdpAcquire (off + (length frm - length moldPkt)) (length moldPkt)\<rparr>) }) }"

text \<open>Copying the payload, cut off at the slot's size, into the acquired slot.\<close>

definition xdp_copy :: "u32 \<Rightarrow> bytes \<Rightarrow> PacketPool \<Rightarrow> PacketPool option" where
  "xdp_copy slotIdx moldPkt p = (let cpyLen = min (length moldPkt) kMaxPacketBytes in do {
     slot \<leftarrow> vec_at (pslots p) slotIdx;
     ss \<leftarrow> vec_put (pslots p) slotIdx
       (slot\<lparr>sdata := take cpyLen moldPkt @ drop cpyLen (sdata slot), slength := of_nat cpyLen\<rparr>);
     Some (p\<lparr>pslots := ss\<rparr>) })"

text \<open>The start of an iteration over the batch: the descriptor is read, its address saved, its frame checked.\<close>

definition xdp_desc_step :: "u16 \<Rightarrow> XdpThread \<Rightarrow> XdpThread option" where
  "xdp_desc_step port t =
     (if xi t < xrcvd t then
        if xi t < length (rxq (xumem t)) \<and> xi t < length (batchAddrs t) then
          (let desc = rxq (xumem t) ! xi t in do {
             frm \<leftarrow> umem_read (xumem t) (unat (daddr desc)) (unat (dlen desc));
             xdp_frame port (unat (daddr desc)) frm (t\<lparr>batchAddrs := (batchAddrs t)[xi t := Some (daddr desc)]\<rparr>) })
        else None
      else Some (t\<lparr>xpc := XdpRelease\<rparr>))"

text \<open>The addresses of the batch go back to the fill ring, as many as could be reserved.\<close>

definition xdp_refill :: "Xsk \<Rightarrow> XdpThread \<Rightarrow> XdpThread option" where
  "xdp_refill xsk t =
     (let u = xumem t; got = reserve xsk (kNumFrames - length (fillq u)) (xrcvd t) in
      if got \<le> length (batchAddrs t)
      then do {
        addrs \<leftarrow> those (take got (batchAddrs t));
        Some (t\<lparr>xpc := XdpTop, xumem := u\<lparr>fillq := fillq u @ addrs\<rparr>\<rparr>) }
      else None)"

text \<open>The loop, cut at its calls of the pool and the rings.\<close>

definition xdp_step :: "Xsk \<Rightarrow> u16 \<Rightarrow> u64 \<Rightarrow> Shared \<times> XdpThread \<Rightarrow> (Shared \<times> XdpThread) option" where
  "xdp_step xsk port tWire = (\<lambda>(sh, t). case xpc t of
      XdpTop \<Rightarrow>
        (if xdone t \<or> sstop sh then Some (sh, t\<lparr>xpc := XdpDone\<rparr>)
         else let rcvd = peek xsk (length (rxq (xumem t))) kBatchSize in
           if rcvd = 0 then Some (sh, t)
           else Some (sh, t\<lparr>xpc := XdpFrame, xrcvd := rcvd, xi := 0, xwire := tWire\<rparr>))
    | XdpFrame \<Rightarrow> map_option (Pair sh) (xdp_desc_step port t)
    | XdpAcquire off len \<Rightarrow> do {
        (slotIdx, p) \<leftarrow> acquire (spool sh);
        if slotIdx = kPoolInvalid
        then Some (sh\<lparr>spool := p\<rparr>, xdp_next (t\<lparr>xstats := countDropped (xstats t)\<rparr>))
        else Some (sh\<lparr>spool := p\<rparr>, t\<lparr>xpc := XdpCopy slotIdx off len\<rparr>) }
    | XdpCopy slotIdx off len \<Rightarrow> do {
        moldPkt \<leftarrow> umem_read (xumem t) off len;
        p \<leftarrow> xdp_copy slotIdx moldPkt (spool sh);
        Some (sh\<lparr>spool := p\<rparr>, t\<lparr>xpc := XdpPush slotIdx\<rparr>) }
    | XdpPush slotIdx \<Rightarrow> do {
        (ok, r) \<leftarrow> ring_push (sring sh) \<lparr>refIdx = slotIdx, tWireCycles = xwire t\<rparr>;
        Some (sh\<lparr>sring := r\<rparr>, if ok then xdp_next t else t\<lparr>xpc := XdpDrop slotIdx\<rparr>) }
    | XdpDrop slotIdx \<Rightarrow> do {
        p \<leftarrow> release (spool sh) slotIdx;
        Some (sh\<lparr>spool := p\<rparr>, xdp_next (t\<lparr>xstats := countDropped (xstats t)\<rparr>)) }
    | XdpSentinel \<Rightarrow> do {
        (ok, r) \<leftarrow> ring_push (sring sh) \<lparr>refIdx = kPoolInvalid, tWireCycles = xwire t\<rparr>;
        Some (sh\<lparr>sring := r\<rparr>, if ok \<or> sstop sh then t\<lparr>xpc := XdpRelease, xdone := True\<rparr> else t) }
    | XdpRelease \<Rightarrow> Some (sh, t\<lparr>xpc := XdpRefill, xumem := (xumem t)\<lparr>rxq := drop (xrcvd t) (rxq (xumem t))\<rparr>\<rparr>)
    | XdpRefill \<Rightarrow> map_option (Pair sh) (xdp_refill xsk t)
    | XdpDone \<Rightarrow> Some (sh, t))"

text \<open>The thread beside the kernel: the kernel changes the shared frames when \<open>kern\<close> allows it.\<close>

datatype xdp_input = KernelMove Umem | ThreadMove u64

definition xdp_system :: "(Umem \<Rightarrow> Umem \<Rightarrow> bool) \<Rightarrow> Xsk \<Rightarrow> u16 \<Rightarrow> xdp_input \<Rightarrow> Shared \<times> XdpThread \<Rightarrow> (Shared \<times> XdpThread) option" where
  "xdp_system kern xsk port inp = (\<lambda>(sh, t). case inp of
      KernelMove u \<Rightarrow> Some (sh, if kern (xumem t) u then t\<lparr>xumem := u\<rparr> else t)
    | ThreadMove w \<Rightarrow> xdp_step xsk port w (sh, t))"

section \<open>The filter\<close>

lemma be16_in_range: "off + 2 \<le> length frm \<Longrightarrow> \<exists>w. be16_at frm off = Some w"
  by (auto simp: be16_at_def take_bytes_def)

lemma byte_in_range: "off < length frm \<Longrightarrow> byte_at frm off = Some (frm ! off)"
  by (simp add: byte_at_def)

lemmas frame_sizes = kEthHdrSize_def kIpHdrMin_def kUdpHdrSize_def kMoldHeaderBytes_def

text \<open>Every read of the filter is inside the frame.\<close>

lemma xdp_payload_defined:
  "\<exists>r. xdp_payload port frm = Some r \<and>
     (\<forall>m. r = Some m \<longrightarrow> kMoldHeaderBytes \<le> length m \<and> (\<exists>pre. frm = pre @ m \<and> kEthHdrSize + kIpHdrMin + kUdpHdrSize \<le> length pre))"
proof (cases "length frm < kEthHdrSize + kIpHdrMin + kUdpHdrSize + kMoldHeaderBytes")
  case True
  then show ?thesis by (simp add: xdp_payload_def)
next
  case False
  then have long: "62 \<le> length frm" by (simp add: frame_sizes)
  obtain proto where p: "be16_at frm 12 = Some proto" using be16_in_range [of 12 frm] long by auto
  have b: "byte_at frm kEthHdrSize = Some (frm ! 14)" "byte_at frm (kEthHdrSize + 9) = Some (frm ! 23)"
    using long byte_in_range [of 14 frm] byte_in_range [of 23 frm] by (simp_all add: kEthHdrSize_def)
  define ipLen where "ipLen = unat (frm ! 14 AND 15) * 4"
  define off where "off = kEthHdrSize + ipLen"
  show ?thesis
  proof (cases "proto = ETH_P_IP \<and> drop_bit 4 (frm ! 14) = 4 \<and> \<not> ipLen < kIpHdrMin \<and> frm ! 23 = IPPROTO_UDP \<and>
      \<not> length frm < off + kUdpHdrSize + kMoldHeaderBytes")
    case True
    then obtain dest where d: "be16_at frm (off + 2) = Some dest"
      using be16_in_range [of "off + 2" frm] by (auto simp: frame_sizes)
    have long2: "\<not> length frm - (off + kUdpHdrSize) < kMoldHeaderBytes" using True by linarith
    have "xdp_payload port frm = Some (if dest \<noteq> port then None else Some (drop (off + kUdpHdrSize) frm))"
      using False True p b d long2 by (simp add: xdp_payload_def Let_def ipLen_def [symmetric] off_def [symmetric])
    moreover have "\<exists>pre. frm = pre @ drop (off + kUdpHdrSize) frm \<and> kEthHdrSize + kIpHdrMin + kUdpHdrSize \<le> length pre"
      by (rule exI [of _ "take (off + kUdpHdrSize) frm"]) (use True in \<open>auto simp: off_def frame_sizes\<close>)
    moreover have "kMoldHeaderBytes \<le> length (drop (off + kUdpHdrSize) frm)" using long2 by simp
    ultimately show ?thesis by (cases "dest = port") simp_all
  next
    case bad: False
    have "xdp_payload port frm = Some None"
      using False bad p b by (auto simp: xdp_payload_def Let_def ipLen_def [symmetric] off_def [symmetric])
    then show ?thesis by simp
  qed
qed

text \<open>A UDP datagram in an IPv4 packet in an Ethernet frame: \<open>ihl\<close> words of IP header, of which the first
  byte, the protocol and the lengths matter, and a UDP header with destination port \<open>dest\<close>.\<close>

definition udp_frame :: "bytes \<Rightarrow> bytes \<Rightarrow> bytes \<Rightarrow> u16 \<Rightarrow> bytes \<Rightarrow> bytes \<Rightarrow> bytes" where
  "udp_frame macs ip src dest lc payload = macs @ store_be 2 ETH_P_IP @ ip @ src @ store_be 2 dest @ lc @ payload"

definition udp_shape :: "bytes \<Rightarrow> nat \<Rightarrow> bytes \<Rightarrow> bytes \<Rightarrow> bytes \<Rightarrow> bool" where
  "udp_shape macs ihl ip src lc \<longleftrightarrow> length macs = 12 \<and> 5 \<le> ihl \<and> ihl \<le> 15 \<and> length ip = 4 * ihl \<and>
     drop_bit 4 (ip ! 0) = 4 \<and> unat (ip ! 0 AND 15) = ihl \<and> ip ! 9 = IPPROTO_UDP \<and> length src = 2 \<and> length lc = 4"

lemma be16_at_store: "length pre = off \<Longrightarrow> be16_at (pre @ store_be 2 w @ post) off = Some w"
  by (simp add: be16_at_def ntoh_store_be)

lemma xdp_payload_frame:
  assumes sh: "udp_shape macs ihl ip src lc" and pl: "kMoldHeaderBytes \<le> length payload"
  shows "xdp_payload port (udp_frame macs ip src dest lc payload) = Some (if dest = port then Some payload else None)"
proof -
  define f where "f = udp_frame macs ip src dest lc payload"
  have len: "length f = 14 + 4 * ihl + 8 + length payload" using sh by (simp add: f_def udp_frame_def udp_shape_def)
  have proto: "be16_at f 12 = Some ETH_P_IP"
    using sh be16_at_store [of macs 12 ETH_P_IP] by (simp add: f_def udp_frame_def udp_shape_def)
  have ipn: "f ! (14 + j) = ip ! j" if "j < length ip" for j
    using sh that by (simp add: f_def udp_frame_def udp_shape_def nth_append)
  have ne: "0 < length ip" "9 < length ip" using sh by (auto simp: udp_shape_def)
  have b0: "byte_at f kEthHdrSize = Some (ip ! 0)" "byte_at f (kEthHdrSize + 9) = Some IPPROTO_UDP"
    using ipn [OF ne(1)] ipn [OF ne(2)] sh len by (simp_all add: byte_at_def kEthHdrSize_def udp_shape_def)
  have dest: "be16_at f (kEthHdrSize + ihl * 4 + 2) = Some dest"
    using sh be16_at_store [of "macs @ store_be 2 ETH_P_IP @ ip @ src" "kEthHdrSize + ihl * 4 + 2" dest "lc @ payload"]
    by (simp add: f_def udp_frame_def udp_shape_def kEthHdrSize_def)
  have dr: "drop (kEthHdrSize + ihl * 4 + kUdpHdrSize) f = payload"
    using sh by (simp add: f_def udp_frame_def udp_shape_def kEthHdrSize_def kUdpHdrSize_def)
  have lens: "\<not> length f < kEthHdrSize + kIpHdrMin + kUdpHdrSize + kMoldHeaderBytes"
    "\<not> length f < kEthHdrSize + ihl * 4 + kUdpHdrSize + kMoldHeaderBytes" "\<not> ihl * 4 < kIpHdrMin"
    "\<not> length payload < kMoldHeaderBytes"
    using sh pl len by (auto simp: udp_shape_def frame_sizes)
  have vi: "drop_bit 4 (ip ! 0) = 4" "unat (ip ! 0 AND 15) = ihl" using sh by (auto simp: udp_shape_def)
  show ?thesis unfolding f_def [symmetric] xdp_payload_def using proto b0 dest vi lens by (simp add: dr Let_def del: length_drop)
qed

section \<open>Properties\<close>

definition ip20 :: bytes where
  "ip20 = 0x45 # replicate 8 0 @ [17] @ replicate 10 0"

lemma ip20_shape: "udp_shape (replicate 12 0) 5 ip20 [0, 0] [0, 0, 0, 0]"
  by (simp add: udp_shape_def ip20_def IPPROTO_UDP_def numeral_eq_Suc [of "num.One"] nth_append)



end
