(* ===== verification/Xdp_Frames.thy ===== *)
theory Xdp_Frames
  imports Feed_Handler_Xdp "HOL-Library.Multiset"
begin

text \<open>
  Who owns the frames of the memory area shared with the kernel (\<^verbatim>\<open>src/feed_handler_xdp.cpp\<close>).  The invariant: every
  frame is in exactly one of the fill ring, the receive ring and the batch being given back, so that
  the fill ring always has room for a batch and the kernel never overwrites a frame the thread still
  reads; it holds until the end of the session.
\<close>

section \<open>What is relied on\<close>

definition frame_no :: "u64 \<Rightarrow> nat" where
  "frame_no a = unat a div kFrameSize"

definition in_frame :: "xdp_desc \<Rightarrow> bool" where
  "in_frame d \<longleftrightarrow> unat (daddr d) mod kFrameSize + unat (dlen d) \<le> kFrameSize"

text \<open>libxdp: peeking gives no more entries than there are and no more than asked for; reserving gives all that is
  asked for if there is room, and never more.\<close>

definition xsk_ok :: "Xsk \<Rightarrow> bool" where
  "xsk_ok xsk \<longleftrightarrow> (\<forall>avail n. peek xsk avail n \<le> min avail n) \<and>
     (\<forall>room n. reserve xsk room n \<le> n \<and> (n \<le> room \<longrightarrow> reserve xsk room n = n))"

text \<open>The kernel: it writes only into frames on the fill ring, and may move the first of them to the receive ring, with
  a descriptor of bytes inside that frame.\<close>

definition kernel_move :: "Umem \<Rightarrow> Umem \<Rightarrow> bool" where
  "kernel_move u u' \<longleftrightarrow> length (area u') = length (area u) \<and>
     (\<forall>j < length (area u). j div kFrameSize \<notin> frame_no ` set (fillq u) \<longrightarrow> area u' ! j = area u ! j) \<and>
     (fillq u' = fillq u \<and> rxq u' = rxq u \<or>
      (\<exists>a d. fillq u = a # fillq u' \<and> rxq u' = rxq u @ [d] \<and> frame_no (daddr d) = frame_no a \<and> in_frame d))"

definition kernel_ok :: "(Umem \<Rightarrow> Umem \<Rightarrow> bool) \<Rightarrow> bool" where
  "kernel_ok kern \<longleftrightarrow> (\<forall>u u'. kern u u' \<longrightarrow> kernel_move u u')"

section \<open>The invariant\<close>

definition umem_frames :: "Umem \<Rightarrow> u64 list \<Rightarrow> nat list" where
  "umem_frames u back = map frame_no (fillq u @ map daddr (rxq u) @ back)"

definition umem_ok :: "Umem \<Rightarrow> u64 list \<Rightarrow> bool" where
  "umem_ok u back \<longleftrightarrow> length (area u) = kNumFrames * kFrameSize \<and>
     mset (umem_frames u back) = mset [0..<kNumFrames] \<and> list_all in_frame (rxq u)"

definition in_batch :: "XdpThread \<Rightarrow> nat \<Rightarrow> bool" where
  "in_batch t n \<longleftrightarrow> xrcvd t \<le> length (rxq (xumem t)) \<and> n \<le> xrcvd t \<and>
     take n (batchAddrs t) = map (\<lambda>d. Some (daddr d)) (take n (rxq (xumem t)))"

definition within :: "XdpThread \<Rightarrow> nat \<Rightarrow> nat \<Rightarrow> bool" where
  "within t off len \<longleftrightarrow> (let d = rxq (xumem t) ! xi t in
     unat (daddr d) \<le> off \<and> off + len \<le> unat (daddr d) + unat (dlen d) \<and> kMoldHeaderBytes \<le> len)"

definition batch_ok :: "XdpThread \<Rightarrow> bool" where
  "batch_ok t \<longleftrightarrow> (case xpc t of
      XdpTop \<Rightarrow> True
    | XdpFrame \<Rightarrow> in_batch t (xi t)
    | XdpAcquire off len \<Rightarrow> in_batch t (Suc (xi t)) \<and> within t off len
    | XdpCopy i off len \<Rightarrow> in_batch t (Suc (xi t)) \<and> within t off len
    | XdpPush i \<Rightarrow> in_batch t (Suc (xi t))
    | XdpDrop i \<Rightarrow> in_batch t (Suc (xi t))
    | XdpSentinel \<Rightarrow> in_batch t (Suc (xi t))
    | XdpRelease \<Rightarrow> in_batch t (xrcvd t)
    | XdpRefill \<Rightarrow> None \<notin> set (take (xrcvd t) (batchAddrs t))
    | XdpDone \<Rightarrow> True)"

text \<open>The addresses the thread has taken off the receive ring and not yet put back.\<close>

definition returning :: "XdpThread \<Rightarrow> u64 list" where
  "returning t = (if xpc t = XdpRefill then map the (take (xrcvd t) (batchAddrs t)) else [])"

definition xdp_ok :: "XdpThread \<Rightarrow> bool" where
  "xdp_ok t \<longleftrightarrow> length (batchAddrs t) = kBatchSize \<and> xrcvd t \<le> kBatchSize \<and>
     (if xdone t then xpc t = XdpRelease \<or> xpc t = XdpRefill \<or> xpc t = XdpTop \<or> xpc t = XdpDone
      else umem_ok (xumem t) (returning t) \<and> batch_ok t)"

section \<open>Reading frames\<close>

lemma umem_okD:
  assumes "umem_ok u back"
  shows "length (area u) = kNumFrames * kFrameSize" "distinct (umem_frames u back)"
    "set (umem_frames u back) = {..<kNumFrames}" "length (fillq u) + length (rxq u) + length back = kNumFrames"
    "\<And>d. d \<in> set (rxq u) \<Longrightarrow> in_frame d"
proof -
  have m: "mset (umem_frames u back) = mset [0..<kNumFrames]" using assms unfolding umem_ok_def by blast
  show "length (area u) = kNumFrames * kFrameSize" using assms unfolding umem_ok_def by blast
  show "\<And>d. d \<in> set (rxq u) \<Longrightarrow> in_frame d" using assms unfolding umem_ok_def list_all_iff by blast
  show "distinct (umem_frames u back)" unfolding mset_eq_imp_distinct_iff [OF m] by (rule distinct_upt)
  show "set (umem_frames u back) = {..<kNumFrames}" unfolding mset_eq_setD [OF m] set_upt by (rule atLeast0LessThan)
  have "length (umem_frames u back) = kNumFrames" using mset_eq_length [OF m] by simp
  then show "length (fillq u) + length (rxq u) + length back = kNumFrames" unfolding umem_frames_def by simp
qed

text \<open>A part of a received frame lies inside the area and inside one frame.\<close>

lemma received_part:
  assumes "umem_ok u back" and "d \<in> set (rxq u)" and "unat (daddr d) \<le> off" and "off + len \<le> unat (daddr d) + unat (dlen d)"
  shows "off + len \<le> length (area u)" "\<And>j. off \<le> j \<Longrightarrow> j < off + len \<Longrightarrow> j div kFrameSize = frame_no (daddr d)"
proof -
  note D = umem_okD [OF assms(1)]
  let ?f = "frame_no (daddr d)"
  have fs: "0 < kFrameSize" by (simp add: kFrameSize_def)
  have "?f < kNumFrames" using D(3) assms(2) by (auto simp: umem_frames_def)
  then have "Suc ?f * kFrameSize \<le> kNumFrames * kFrameSize" by (intro mult_right_mono) simp_all
  moreover have base: "unat (daddr d) = ?f * kFrameSize + unat (daddr d) mod kFrameSize" by (simp add: frame_no_def)
  moreover have "unat (daddr d) mod kFrameSize + unat (dlen d) \<le> kFrameSize" using D(5) [OF assms(2)] by (simp add: in_frame_def)
  ultimately have top: "unat (daddr d) + unat (dlen d) \<le> Suc ?f * kFrameSize" "Suc ?f * kFrameSize \<le> length (area u)"
    using D(1) by simp_all
  then show "off + len \<le> length (area u)" using assms(4) by linarith
  show "j div kFrameSize = ?f" if "off \<le> j" "j < off + len" for j
  proof -
    have "?f * kFrameSize \<le> j" "j < Suc ?f * kFrameSize" using base that assms(3,4) top by linarith+
    then show ?thesis using fs by (metis div_nat_eqI mult.commute)
  qed
qed

text \<open>The kernel leaves received frames alone.\<close>

lemma kernel_keeps_part:
  assumes "umem_ok u back" and "kernel_move u u'" and "d \<in> set (rxq u)"
    and "unat (daddr d) \<le> off" and "off + len \<le> unat (daddr d) + unat (dlen d)"
  shows "umem_read u' off len = umem_read u off len"
proof -
  note r = received_part [OF assms(1,3-5)]
  have "frame_no (daddr d) \<notin> frame_no ` set (fillq u)"
    using umem_okD(2) [OF assms(1)] assms(3) by (auto simp: umem_frames_def image_iff)
  then have "area u' ! j = area u ! j" if "off \<le> j" "j < off + len" for j
    using assms(2) r that by (simp add: kernel_move_def)
  then have "take len (drop off (area u')) = take len (drop off (area u))"
    using r(1) assms(2) by (intro nth_equalityI) (auto simp: kernel_move_def)
  then show ?thesis using assms(2) by (simp add: umem_read_def kernel_move_def)
qed

lemma kernel_umem_ok:
  assumes "umem_ok u back" and "kernel_move u u'"
  shows "umem_ok u' back" "\<And>n. n \<le> length (rxq u) \<Longrightarrow> take n (rxq u') = take n (rxq u)" "length (rxq u) \<le> length (rxq u')"
    "\<And>n. n < length (rxq u) \<Longrightarrow> rxq u' ! n = rxq u ! n"
  using assms by (auto simp: umem_ok_def kernel_move_def umem_frames_def nth_append)

lemma kernel_xdp_ok:
  assumes ok: "xdp_ok t" and k: "kernel_move (xumem t) u"
  shows "xdp_ok (t\<lparr>xumem := u\<rparr>)"
proof (cases "xdone t")
  case False
  then have um: "umem_ok (xumem t) (returning t)" "batch_ok t" using ok by (simp_all add: xdp_ok_def)
  note K = kernel_umem_ok [OF um(1) k]
  have b: "in_batch (t\<lparr>xumem := u\<rparr>) n" if "in_batch t n" for n
    using that K(2) [of n] K(3) by (simp add: in_batch_def)
  have w: "within (t\<lparr>xumem := u\<rparr>) off len" if "within t off len" "in_batch t (Suc (xi t))" for off len
    using that K(4) [of "xi t"] by (simp add: within_def in_batch_def)
  have "batch_ok (t\<lparr>xumem := u\<rparr>)" using um(2) b w by (auto simp: batch_ok_def split: xdp_pc.splits)
  moreover have "returning (t\<lparr>xumem := u\<rparr>) = returning t" by (simp add: returning_def)
  ultimately show ?thesis using ok False K(1) by (simp add: xdp_ok_def)
qed (use ok in \<open>simp add: xdp_ok_def\<close>)

section \<open>One frame of the batch\<close>

definition xdp_save :: "XdpThread \<Rightarrow> XdpThread" where
  "xdp_save t = t\<lparr>batchAddrs := (batchAddrs t)[xi t := Some (daddr (rxq (xumem t) ! xi t))]\<rparr>"

definition xdp_decide :: "verdict \<Rightarrow> nat \<Rightarrow> nat \<Rightarrow> XdpThread \<Rightarrow> XdpThread" where
  "xdp_decide v off len t = (case v of
      EndSession \<Rightarrow> t\<lparr>xpc := XdpSentinel\<rparr> | Heartbeat \<Rightarrow> xdp_next t | Duplicate \<Rightarrow> xdp_next t
    | Accept \<Rightarrow> t\<lparr>xpc := XdpAcquire off len\<rparr>)"

lemma umem_read_suffix:
  assumes "umem_read u off (length frm) = Some frm" and "frm = pre @ m"
  shows "umem_read u (off + length pre) (length m) = Some m"
proof -
  have len: "off + length frm \<le> length (area u)" and t: "take (length frm) (drop off (area u)) = frm"
    using assms(1) by (auto simp: umem_read_def split: if_splits)
  have "take (length m) (drop (off + length pre) (area u)) = drop (length pre) (take (length frm) (drop off (area u)))"
    using assms(2) by (simp add: drop_take add.commute)
  then show ?thesis using len t assms(2) by (simp add: umem_read_def)
qed

lemma umem_read_length: "umem_read u off len = Some frm \<Longrightarrow> length frm = len"
  by (auto simp: umem_read_def split: if_splits)

lemma xdp_frame_cases [consumes 3, case_names over skip packet]:
  assumes ok: "xdp_ok t" and pc: "xpc t = XdpFrame" "\<not> xdone t"
  obtains (over) "\<not> xi t < xrcvd t" "xdp_desc_step port t = Some (t\<lparr>xpc := XdpRelease\<rparr>)"
    | (skip) frm where "xi t < xrcvd t"
        "umem_read (xumem t) (unat (daddr (rxq (xumem t) ! xi t))) (unat (dlen (rxq (xumem t) ! xi t))) = Some frm"
        "xdp_payload port frm = Some None" "xdp_desc_step port t = Some (xdp_next (xdp_save t))"
    | (packet) frm m h v k st off where "xi t < xrcvd t"
        "umem_read (xumem t) (unat (daddr (rxq (xumem t) ! xi t))) (unat (dlen (rxq (xumem t) ! xi t))) = Some frm"
        "xdp_payload port frm = Some (Some m)" "kMoldHeaderBytes \<le> length m" "parseMoldHeader m = Some h"
        "trackHeader h (xtracker t) (countReceived (length m) (xstats t)) = (v, k, st)"
        "umem_read (xumem t) off (length m) = Some m" "within t off (length m)"
        "xdp_desc_step port t = Some (xdp_decide v off (length m) ((xdp_save t)\<lparr>xtracker := k, xstats := st\<rparr>))"
proof (cases "xi t < xrcvd t")
  case False
  then show ?thesis using over by (simp add: xdp_desc_step_def)
next
  case True
  have um: "umem_ok (xumem t) (returning t)" and b: "in_batch t (xi t)" and len: "length (batchAddrs t) = kBatchSize" "xrcvd t \<le> kBatchSize"
    using ok pc by (auto simp: xdp_ok_def batch_ok_def)
  define d where "d = rxq (xumem t) ! xi t"
  have i: "xi t < length (rxq (xumem t))" "xi t < length (batchAddrs t)" using b True len by (auto simp: in_batch_def)
  then have d: "d \<in> set (rxq (xumem t))" by (simp add: d_def)
  obtain frm where frm: "umem_read (xumem t) (unat (daddr d)) (unat (dlen d)) = Some frm"
    using received_part(1) [OF um d order_refl order_refl] by (simp add: umem_read_def)
  then have fl: "umem_read (xumem t) (unat (daddr d)) (length frm) = Some frm" "length frm = unat (dlen d)"
    using umem_read_length [OF frm] by simp_all
  have step: "xdp_desc_step port t = xdp_frame port (unat (daddr d)) frm (xdp_save t)"
    using True i frm by (simp add: xdp_desc_step_def xdp_save_def d_def [symmetric] Let_def)
  obtain r where r: "xdp_payload port frm = Some r"
    "\<And>m. r = Some m \<Longrightarrow> kMoldHeaderBytes \<le> length m \<and> (\<exists>pre. frm = pre @ m)"
    using xdp_payload_defined [of port frm] by blast
  show ?thesis
  proof (cases r)
    case None
    then show ?thesis using skip [of frm] True frm r(1) step by (simp add: d_def xdp_frame_def)
  next
    case (Some m)
    then obtain pre where m: "kMoldHeaderBytes \<le> length m" "frm = pre @ m" using r(2) by blast
    obtain h where h: "parseMoldHeader m = Some h" using parse_total m(1) by blast
    obtain v k st where v: "trackHeader h (xtracker t) (countReceived (length m) (xstats t)) = (v, k, st)" by (metis prod_cases3)
    have "within t (unat (daddr d) + length pre) (length m)"
      using m fl(2) by (simp add: within_def d_def [symmetric] Let_def)
    moreover have "xdp_desc_step port t = Some (xdp_decide v (unat (daddr d) + length pre) (length m) ((xdp_save t)\<lparr>xtracker := k, xstats := st\<rparr>))"
      using r(1) Some h v m(2) by (cases v) (simp_all add: step xdp_frame_def xdp_decide_def xdp_save_def Let_def)
    ultimately show ?thesis
      using packet [of frm m h v k st "unat (daddr d) + length pre"] True frm r(1) Some m(1) h v umem_read_suffix [OF fl(1) m(2)]
      by (simp add: d_def)
  qed
qed

lemma xdp_next_fields [simp]:
  "xpc (xdp_next t) = XdpFrame" "xi (xdp_next t) = Suc (xi t)" "xtracker (xdp_next t) = xtracker t" "xumem (xdp_next t) = xumem t"
  "xdone (xdp_next t) = xdone t" "batchAddrs (xdp_next t) = batchAddrs t" "xrcvd (xdp_next t) = xrcvd t" "xwire (xdp_next t) = xwire t"
  by (simp_all add: xdp_next_def)

lemma xdp_save_fields [simp]:
  "xpc (xdp_save t) = xpc t" "xi (xdp_save t) = xi t" "xtracker (xdp_save t) = xtracker t" "xumem (xdp_save t) = xumem t"
  "xdone (xdp_save t) = xdone t" "length (batchAddrs (xdp_save t)) = length (batchAddrs t)" "xrcvd (xdp_save t) = xrcvd t"
  by (simp_all add: xdp_save_def)

text \<open>A descriptor that was read is a saved address.\<close>

lemma in_batch_save:
  assumes "in_batch t (xi t)" and "xi t < xrcvd t" and "length (batchAddrs t) = kBatchSize" and "xrcvd t \<le> kBatchSize"
  shows "in_batch (xdp_save t) (Suc (xi t))"
  using assms by (auto simp: in_batch_def xdp_save_def take_Suc_conv_app_nth)

lemma xdp_decide_ok:
  assumes len: "length (batchAddrs t) = kBatchSize" "xrcvd t \<le> kBatchSize" and "umem_ok (xumem t) []" and "\<not> xdone t"
    and "in_batch t (Suc (xi t))" and "within t off n"
  shows "xdp_ok (xdp_decide v off n t)"
proof -
  have "in_batch (xdp_next t) (Suc (xi t))" "in_batch (t\<lparr>xpc := x\<rparr>) (Suc (xi t))" "within (t\<lparr>xpc := x\<rparr>) off n" for x
    using assms(5,6) by (simp_all add: in_batch_def within_def)
  then show ?thesis using assms(1-4) by (cases v) (simp_all add: xdp_decide_def xdp_ok_def batch_ok_def returning_def)
qed

section \<open>Taking and giving back a batch\<close>

lemma xdp_okD:
  assumes "xdp_ok t"
  shows "length (batchAddrs t) = kBatchSize" "xrcvd t \<le> kBatchSize"
    "\<not> xdone t \<Longrightarrow> umem_ok (xumem t) (returning t) \<and> batch_ok t"
    "xdone t \<Longrightarrow> xpc t = XdpRelease \<or> xpc t = XdpRefill \<or> xpc t = XdpTop \<or> xpc t = XdpDone"
  using assms by (simp_all add: xdp_ok_def)

lemma xdp_desc_step_ok:
  assumes "xdp_ok t" and "xpc t = XdpFrame" and "\<not> xdone t" and "xdp_desc_step port t = Some t'"
  shows "xdp_ok t'"
proof -
  note D = xdp_okD [OF assms(1)]
  have um: "umem_ok (xumem t) []" and b: "in_batch t (xi t)"
    using D(3) assms(2,3) by (simp_all add: batch_ok_def returning_def)
  have save: "in_batch (xdp_save t) (Suc (xi t))" if "xi t < xrcvd t" using in_batch_save [OF b that] D(1,2) by simp
  from assms(1-3) show ?thesis
  proof (cases rule: xdp_frame_cases [where port = port])
    case over
    then have "xi t = xrcvd t" using b by (simp add: in_batch_def)
    then have "in_batch (t\<lparr>xpc := XdpRelease\<rparr>) (xrcvd t)" using b by (simp add: in_batch_def)
    then show ?thesis using over(2) assms(3,4) um D(1,2) by (auto simp: xdp_ok_def batch_ok_def returning_def)
  next
    case (skip frm)
    have "in_batch (xdp_next (xdp_save t)) (Suc (xi t))" using save [OF skip(1)] by (simp add: in_batch_def)
    then show ?thesis using skip assms(3,4) um D(1,2) by (auto simp: xdp_ok_def batch_ok_def returning_def)
  next
    case (packet frm m h v k st off)
    let ?t = "(xdp_save t)\<lparr>xtracker := k, xstats := st\<rparr>"
    have "in_batch ?t (Suc (xi ?t))" "within ?t off (length m)"
      using save [OF packet(1)] packet(8) by (simp_all add: in_batch_def within_def)
    then show ?thesis using xdp_decide_ok [of ?t off "length m" v] packet(9) assms(3,4) um D(1,2) by simp
  qed
qed

lemma xdp_desc_step_defined:
  "xdp_ok t \<Longrightarrow> xpc t = XdpFrame \<Longrightarrow> \<not> xdone t \<Longrightarrow> \<exists>t'. xdp_desc_step port t = Some t'"
  by (rule xdp_frame_cases [where port = port]) auto

text \<open>Releasing and refilling moves the frames of the batch back, all of them.\<close>

lemma xdp_release_ok:
  assumes "xdp_ok t" and "xpc t = XdpRelease"
  shows "xdp_ok (t\<lparr>xpc := XdpRefill, xumem := (xumem t)\<lparr>rxq := drop (xrcvd t) (rxq (xumem t))\<rparr>\<rparr>)"
proof (cases "xdone t")
  case False
  note D = xdp_okD [OF assms(1)]
  let ?u = "xumem t" and ?n = "xrcvd t"
  have um: "umem_ok ?u []" and b: "in_batch t ?n" using D(3) False assms(2) by (simp_all add: batch_ok_def returning_def)
  have rx: "mset (rxq ?u) = mset (take ?n (rxq ?u)) + mset (drop ?n (rxq ?u))" by (metis append_take_drop_id mset_append)
  have "mset (umem_frames (?u\<lparr>rxq := drop ?n (rxq ?u)\<rparr>) (map the (take ?n (batchAddrs t)))) = mset (umem_frames ?u [])"
    using b unfolding umem_frames_def in_batch_def by (simp add: rx comp_def ac_simps)
  moreover have "list_all in_frame (drop ?n (rxq ?u))" using um by (auto simp: umem_ok_def list_all_iff dest: in_set_dropD)
  moreover have "None \<notin> set (take ?n (batchAddrs t))" using b by (auto simp: in_batch_def)
  ultimately show ?thesis using um D(1,2) False by (simp add: xdp_ok_def batch_ok_def returning_def umem_ok_def)
qed (use assms in \<open>simp add: xdp_ok_def\<close>)

text \<open>After the end of the session the batch may hold entries that were never written.\<close>

definition reads_unset :: "Xsk \<Rightarrow> XdpThread \<Rightarrow> bool" where
  "reads_unset xsk t \<longleftrightarrow> xpc t = XdpRefill \<and> xdone t \<and>
     None \<in> set (take (reserve xsk (kNumFrames - length (fillq (xumem t))) (xrcvd t)) (batchAddrs t))"

lemma xdp_refill_ok:
  assumes "xdp_ok t" and "xpc t = XdpRefill" and "xsk_ok xsk"
  shows "reads_unset xsk t \<Longrightarrow> xdp_refill xsk t = None"
    "\<not> reads_unset xsk t \<Longrightarrow> \<exists>t' addrs. xdp_refill xsk t = Some t' \<and> xdp_ok t' \<and>
      t' = t\<lparr>xpc := XdpTop, xumem := (xumem t)\<lparr>fillq := fillq (xumem t) @ addrs\<rparr>\<rparr> \<and> (\<not> xdone t \<longrightarrow> addrs = returning t)"
proof -
  note D = xdp_okD [OF assms(1)]
  let ?u = "xumem t" and ?got = "reserve xsk (kNumFrames - length (fillq (xumem t))) (xrcvd t)"
  have got: "?got \<le> xrcvd t" "xrcvd t \<le> kNumFrames - length (fillq ?u) \<Longrightarrow> ?got = xrcvd t" using assms(3) by (auto simp: xsk_ok_def)
  have all: "?got = xrcvd t \<and> None \<notin> set (take (xrcvd t) (batchAddrs t)) \<and> umem_ok (?u\<lparr>fillq := fillq ?u @ returning t\<rparr>) []" if "\<not> xdone t"
  proof (intro conjI)
    have um: "umem_ok ?u (returning t)" using D(3) that by blast
    show "None \<notin> set (take (xrcvd t) (batchAddrs t))" using D(3) that assms(2) by (simp add: batch_ok_def)
    have "length (fillq ?u) + length (rxq ?u) + xrcvd t = kNumFrames" using umem_okD(4) [OF um] D(1,2) assms(2) by (simp add: returning_def)
    then show "?got = xrcvd t" using got(2) by simp
    show "umem_ok (?u\<lparr>fillq := fillq ?u @ returning t\<rparr>) []"
      using um unfolding umem_ok_def umem_frames_def by (simp add: ac_simps)
  qed
  have le: "?got \<le> length (batchAddrs t)" using got(1) D(1,2) by simp
  then show "xdp_refill xsk t = None" if "reads_unset xsk t" using those_None [of "take ?got (batchAddrs t)"] that
    by (simp add: xdp_refill_def reads_unset_def Let_def)
  assume "\<not> reads_unset xsk t"
  then have "None \<notin> set (take ?got (batchAddrs t))" using all assms(2) by (auto simp: reads_unset_def)
  then have "xdp_refill xsk t = Some (t\<lparr>xpc := XdpTop, xumem := ?u\<lparr>fillq := fillq ?u @ map the (take ?got (batchAddrs t))\<rparr>\<rparr>)"
    using le by (simp add: xdp_refill_def Let_def those_Some)
  then show "\<exists>t' addrs. xdp_refill xsk t = Some t' \<and> xdp_ok t' \<and>
      t' = t\<lparr>xpc := XdpTop, xumem := ?u\<lparr>fillq := fillq ?u @ addrs\<rparr>\<rparr> \<and> (\<not> xdone t \<longrightarrow> addrs = returning t)"
    using all D(1,2) assms(2) by (cases "xdone t") (auto simp: xdp_ok_def batch_ok_def returning_def)
qed

lemma xdp_next_ok:
  assumes "xdp_ok t" and "\<not> xdone t" and "in_batch t (Suc (xi t))" and "xpc t \<noteq> XdpRefill"
  shows "xdp_ok (xdp_next (t\<lparr>xstats := st\<rparr>))" "xdp_ok (xdp_next t)"
proof -
  have "umem_ok (xumem t) []" using xdp_okD(3) [OF assms(1,2)] assms(4) by (simp add: returning_def)
  moreover have "in_batch (xdp_next (t\<lparr>xstats := st\<rparr>)) (Suc (xi t))" "in_batch (xdp_next t) (Suc (xi t))"
    using assms(3) by (simp_all add: in_batch_def)
  ultimately show "xdp_ok (xdp_next (t\<lparr>xstats := st\<rparr>))" "xdp_ok (xdp_next t)"
    using assms(1,2) by (simp_all add: xdp_ok_def batch_ok_def returning_def)
qed

section \<open>The start\<close>

lemma frame_no_fill: "i < kNumFrames \<Longrightarrow> frame_no (of_nat i * of_nat kFrameSize) = i"
proof -
  assume i: "i < kNumFrames"
  then have "i * kFrameSize < 2 ^ 64" by (simp add: kNumFrames_def kFrameSize_def)
  then have "unat (of_nat (i * kFrameSize) :: u64) = i * kFrameSize" by (intro unat_of_nat_small) simp
  then show ?thesis by (simp add: frame_no_def kFrameSize_def)
qed

lemma umem_ok_new: "umem_ok Umem_new []"
proof -
  have "map frame_no (map (\<lambda>i. of_nat i * of_nat kFrameSize) [0..<kNumFrames]) = [0..<kNumFrames]"
    by (rule map_idI [THEN trans [OF map_map]]) (simp add: frame_no_fill)
  then show ?thesis unfolding umem_ok_def umem_frames_def Umem_new_def by simp
qed

end
