(* ===== verification/Xdp_Pipeline.thy ===== *)
theory Xdp_Pipeline
  imports Pipeline Xdp_Frames
begin

text \<open>
  The AF_XDP thread of \<^verbatim>\<open>src/feed_handler_xdp.cpp\<close> in the two-thread system of \<^verbatim>\<open>src/engine_udp.cpp\<close>, with the kernel as
  a third party that moves frames: it keeps the contract of a network thread, so that the system has
  the properties it has with the socket thread, and the frames of the shared area have one owner.
\<close>

section \<open>The thread as a network thread\<close>

definition xdp_phase :: "XdpThread \<Rightarrow> feed_phase" where
  "xdp_phase t = (if xdone t then FDone else case xpc t of
      XdpCopy i off len \<Rightarrow> FHold i
    | XdpPush i \<Rightarrow> FPush i (xwire t)
    | XdpDrop i \<Rightarrow> FHold i
    | XdpDone \<Rightarrow> FDone
    | _ \<Rightarrow> FIdle)"

definition xdp_heard :: "u16 \<Rightarrow> xdp_input \<Rightarrow> XdpThread \<Rightarrow> bytes list" where
  "xdp_heard port inp t = (case inp of
      KernelMove u \<Rightarrow> []
    | ThreadMove w \<Rightarrow>
        (if xpc t = XdpFrame \<and> xi t < xrcvd t then
           (let d = rxq (xumem t) ! xi t in
            case Option.bind (umem_read (xumem t) (unat (daddr d)) (unat (dlen d))) (xdp_payload port) of
              Some (Some m) \<Rightarrow> [take kMaxPacketBytes m]
            | _ \<Rightarrow> [])
         else []))"

text \<open>The packet that was tracked and is not yet in a buffer.\<close>

definition packet_at :: "Umem \<Rightarrow> nat \<Rightarrow> nat \<Rightarrow> bytes list" where
  "packet_at u off len = (case umem_read u off len of None \<Rightarrow> [] | Some m \<Rightarrow> [take kMaxPacketBytes m])"

definition xdp_kept :: "XdpThread \<Rightarrow> bytes list" where
  "xdp_kept t = (case xpc t of
      XdpAcquire off len \<Rightarrow> packet_at (xumem t) off len
    | XdpCopy i off len \<Rightarrow> packet_at (xumem t) off len
    | _ \<Rightarrow> [])"

definition xdp_lost :: "XdpThread \<Rightarrow> XdpThread \<Rightarrow> bool" where
  "xdp_lost t t' = (case xpc t of
      XdpAcquire off len \<Rightarrow> xpc t' = XdpFrame
    | XdpPush i \<Rightarrow> xpc t' = XdpDrop i
    | _ \<Rightarrow> False)"

definition xdp_feed :: "(Umem \<Rightarrow> Umem \<Rightarrow> bool) \<Rightarrow> Xsk \<Rightarrow> u16 \<Rightarrow> (xdp_input, XdpThread) Feed" where
  "xdp_feed kern xsk port = \<lparr>fstep = xdp_system kern xsk port, fphase = xdp_phase, fheard = xdp_heard port, flost = xdp_lost, fstuck = reads_unset xsk\<rparr>"

lemma xdp_feed_simps [simp]:
  "fstep (xdp_feed kern xsk port) = xdp_system kern xsk port" "fphase (xdp_feed kern xsk port) = xdp_phase"
  "fheard (xdp_feed kern xsk port) = xdp_heard port" "flost (xdp_feed kern xsk port) = xdp_lost"
  "fstuck (xdp_feed kern xsk port) = reads_unset xsk"
  by (simp_all add: xdp_feed_def)

section \<open>Its steps\<close>

text \<open>The copied payload is what was tracked.\<close>

lemma xdp_copy_spec:
  assumes "unat i < length (pslots (spool sh))" and "length (fst (slot_content (spool sh) i)) = kMaxPacketBytes"
    and "kMoldHeaderBytes \<le> length m"
  obtains sl where "xdp_copy i m (spool sh) = Some (spool (put_slot sh i sl))" "length (sdata sl) = kMaxPacketBytes"
    "kMoldHeaderBytes \<le> unat (slength sl)" "unat (slength sl) \<le> kMaxPacketBytes"
    "take (unat (slength sl)) (sdata sl) = take kMaxPacketBytes m"
proof -
  let ?slot = "pslots (spool sh) ! unat i" and ?n = "min (length m) kMaxPacketBytes"
  have len: "length (sdata ?slot) = kMaxPacketBytes" using assms(2) by (simp add: slot_content_def Let_def)
  have n: "unat (of_nat ?n :: u16) = ?n" by (rule unat_of_nat_small) (simp add: kMaxPacketBytes_def)
  have "kMoldHeaderBytes \<le> ?n" using assms(3) by (simp add: kMoldHeaderBytes_def kMaxPacketBytes_def)
  moreover have "take ?n m = take kMaxPacketBytes m" by (cases "length m \<le> kMaxPacketBytes") (simp_all add: min_def)
  ultimately show ?thesis using assms(1) len n
    by (intro that [of "?slot\<lparr>sdata := take ?n m @ drop ?n (sdata ?slot), slength := of_nat ?n\<rparr>"])
      (simp_all add: xdp_copy_def vec_simps put_slot_def Let_def)
qed

lemma within_read:
  assumes "umem_ok (xumem t) back" and "in_batch t (Suc (xi t))" and "within t off len"
  obtains m where "umem_read (xumem t) off len = Some m" "length m = len" "kMoldHeaderBytes \<le> len"
proof -
  have "rxq (xumem t) ! xi t \<in> set (rxq (xumem t))" using assms(2) by (auto simp: in_batch_def)
  from received_part(1) [OF assms(1) this, of off len] assms(3) show ?thesis
    by (intro that [of "take len (drop off (area (xumem t)))"]) (auto simp: within_def umem_read_def Let_def)
qed

lemma xdp_step_defined:
  assumes ok: "xdp_ok t" and xsk: "xsk_ok xsk" and pre: "feed_pre sh fs (xdp_phase t)"
  shows "xdp_step xsk port w (sh, t) = None \<longleftrightarrow> reads_unset xsk t"
proof -
  note P = feed_preD [OF pre] and O = xdp_okD [OF ok]
  obtain i p where acq: "acquire (spool sh) = Some (i, p)" using P(1) by blast
  have nd: "\<not> xdone t" if "xpc t \<notin> {XdpRelease, XdpRefill, XdpTop, XdpDone}" using O(4) that by auto
  show ?thesis
  proof (cases "xpc t")
    case XdpFrame
    then have "\<exists>t'. xdp_desc_step port t = Some t'" using xdp_desc_step_defined [OF ok] nd by simp
    then show ?thesis using XdpFrame by (auto simp: xdp_step_def reads_unset_def)
  next
    case (XdpCopy i off len)
    then have b: "in_batch t (Suc (xi t))" "within t off len" "umem_ok (xumem t) []" "i \<in> set (net_holds (xdp_phase t))"
      using O(3) nd by (simp_all add: batch_ok_def returning_def xdp_phase_def)
    obtain m where m: "umem_read (xumem t) off len = Some m" "length m = len" "kMoldHeaderBytes \<le> len" by (rule within_read [OF b(3,1,2)])
    obtain sl where "xdp_copy i m (spool sh) = Some (spool (put_slot sh i sl))"
      by (rule xdp_copy_spec [of i sh m]) (use P(3,5) [OF b(4)] m in simp_all)
    then show ?thesis using XdpCopy m(1) by (simp add: xdp_step_def reads_unset_def)
  next
    case (XdpPush i)
    then show ?thesis using P(2) [of "\<lparr>refIdx = i, tWireCycles = xwire t\<rparr>"] by (auto simp: xdp_step_def reads_unset_def)
  next
    case (XdpDrop i)
    then have "i \<in> set (net_holds (xdp_phase t))" using nd by (simp add: xdp_phase_def)
    then show ?thesis using P(4) [of i] XdpDrop by (auto simp: xdp_step_def reads_unset_def)
  next
    case XdpSentinel
    then show ?thesis using P(2) [of "\<lparr>refIdx = kPoolInvalid, tWireCycles = xwire t\<rparr>"] by (auto simp: xdp_step_def reads_unset_def)
  next
    case XdpRefill
    then show ?thesis using xdp_refill_ok [OF ok XdpRefill xsk] by (cases "reads_unset xsk t") (auto simp: xdp_step_def)
  qed (use acq in \<open>auto simp: xdp_step_def reads_unset_def Let_def\<close>)
qed

lemma xdp_step_ok:
  assumes ok: "xdp_ok t" and xsk: "xsk_ok xsk" and step: "xdp_step xsk port w (sh, t) = Some (sh', t')"
  shows "xdp_ok t'"
proof -
  note O = xdp_okD [OF ok]
  have nd: "\<not> xdone t" if "xpc t \<notin> {XdpRelease, XdpRefill, XdpTop, XdpDone}" using O(4) that by auto
  have pc: "xdp_ok (t\<lparr>xpc := x\<rparr>)" if "\<not> xdone t" "xpc t \<noteq> XdpRefill" "x \<noteq> XdpRefill" "batch_ok (t\<lparr>xpc := x\<rparr>)" for x
    using that ok by (simp add: xdp_ok_def returning_def)
  show ?thesis
  proof (cases "xpc t")
    case XdpTop
    show ?thesis
    proof (cases "xdone t \<or> sstop sh")
      case True
      then have "t' = t\<lparr>xpc := XdpDone\<rparr>" using step XdpTop by (simp add: xdp_step_def)
      then show ?thesis using ok XdpTop by (auto simp: xdp_ok_def returning_def batch_ok_def)
    next
      case False
      let ?n = "peek xsk (length (rxq (xumem t))) kBatchSize"
      have n: "?n \<le> length (rxq (xumem t))" "?n \<le> kBatchSize" using xsk by (simp_all add: xsk_ok_def)
      have "t' = t \<or> t' = t\<lparr>xpc := XdpFrame, xrcvd := ?n, xi := 0, xwire := w\<rparr>"
        using step XdpTop False by (auto simp: xdp_step_def Let_def split: if_splits)
      then show ?thesis using ok XdpTop False n by (auto simp: xdp_ok_def returning_def batch_ok_def in_batch_def)
    qed
  next
    case XdpFrame
    then show ?thesis using step xdp_desc_step_ok [OF ok XdpFrame] nd by (auto simp: xdp_step_def)
  next
    case (XdpAcquire off len)
    have b: "in_batch t (Suc (xi t))" "within t off len" using O(3) nd XdpAcquire by (simp_all add: batch_ok_def)
    then have "batch_ok (t\<lparr>xpc := XdpCopy i off len\<rparr>)" for i by (simp add: batch_ok_def in_batch_def within_def)
    then show ?thesis using step XdpAcquire nd pc xdp_next_ok [OF ok _ b(1)]
      by (auto simp: xdp_step_def bind_eq_Some_conv split: if_splits)
  next
    case (XdpCopy i off len)
    have "in_batch t (Suc (xi t))" using O(3) nd XdpCopy by (simp add: batch_ok_def)
    then have "batch_ok (t\<lparr>xpc := XdpPush i\<rparr>)" by (simp add: batch_ok_def in_batch_def)
    then show ?thesis using step XdpCopy nd pc by (auto simp: xdp_step_def bind_eq_Some_conv)
  next
    case (XdpPush i)
    have b: "in_batch t (Suc (xi t))" using O(3) nd XdpPush by (simp add: batch_ok_def)
    then have "batch_ok (t\<lparr>xpc := XdpDrop i\<rparr>)" by (simp add: batch_ok_def in_batch_def)
    then show ?thesis using step XdpPush nd pc xdp_next_ok [OF ok _ b] by (auto simp: xdp_step_def bind_eq_Some_conv)
  next
    case (XdpDrop i)
    have b: "in_batch t (Suc (xi t))" using O(3) nd XdpDrop by (simp add: batch_ok_def)
    then show ?thesis using step XdpDrop nd xdp_next_ok [OF ok _ b] by (auto simp: xdp_step_def bind_eq_Some_conv)
  next
    case XdpSentinel
    then have "t' = t \<or> t' = t\<lparr>xpc := XdpRelease, xdone := True\<rparr>"
      using step by (auto simp: xdp_step_def bind_eq_Some_conv)
    then show ?thesis using ok O(1,2) by (auto simp: xdp_ok_def)
  next
    case XdpRelease
    then show ?thesis using step xdp_release_ok [OF ok XdpRelease] by (auto simp: xdp_step_def)
  next
    case XdpRefill
    then show ?thesis using step xdp_refill_ok [OF ok XdpRefill xsk] by (cases "reads_unset xsk t") (auto simp: xdp_step_def)
  next
    case XdpDone
    then show ?thesis using step ok by (auto simp: xdp_step_def)
  qed
qed

lemma xdp_step_moves:
  assumes ok: "xdp_ok t" and xsk: "xsk_ok xsk" and pre: "feed_pre sh fs (xdp_phase t)" and step: "xdp_step xsk port w (sh, t) = Some (sh', t')"
  shows "feed_move (sh, xdp_phase t) (sh', xdp_phase t')"
proof -
  note O = xdp_okD [OF ok]
  have nd: "\<not> xdone t" if "xpc t \<notin> {XdpRelease, XdpRefill, XdpTop, XdpDone}" using O(4) that by auto
  show ?thesis
  proof (cases "xpc t")
    case XdpTop
    then show ?thesis using step feed_move.finish [of sh] feed_move.stay
      by (cases "xdone t") (auto simp: xdp_step_def xdp_phase_def Let_def split: if_splits)
  next
    case XdpFrame
    have t: "sh' = sh" "xdp_desc_step port t = Some t'" "\<not> xdone t" using step XdpFrame nd by (auto simp: xdp_step_def)
    from ok XdpFrame t(3) have "xdp_phase t' = FIdle"
    proof (cases rule: xdp_frame_cases [where port = port])
      case (packet frm m h v k st off)
      then show ?thesis using t(2,3) by (cases v) (auto simp: xdp_phase_def xdp_decide_def)
    qed (use t(2,3) in \<open>auto simp: xdp_phase_def\<close>)
    then show ?thesis using t XdpFrame feed_move.stay [of sh FIdle] by (simp add: xdp_phase_def)
  next
    case (XdpAcquire off len)
    obtain i p where acq: "acquire (spool sh) = Some (i, p)" using feed_preD(1) [OF pre] by blast
    show ?thesis using step XdpAcquire nd acq feed_move.acquire [OF acq]
      by (cases "i = kPoolInvalid") (auto simp: xdp_step_def xdp_phase_def)
  next
    case (XdpCopy i off len)
    then have b: "in_batch t (Suc (xi t))" "within t off len" "umem_ok (xumem t) []" "i \<in> set (net_holds (xdp_phase t))"
      using O(3) nd by (simp_all add: batch_ok_def returning_def xdp_phase_def)
    obtain m where m: "umem_read (xumem t) off len = Some m" "length m = len" "kMoldHeaderBytes \<le> len" by (rule within_read [OF b(3,1,2)])
    obtain sl where sl: "xdp_copy i m (spool sh) = Some (spool (put_slot sh i sl))" "length (sdata sl) = kMaxPacketBytes"
      "kMoldHeaderBytes \<le> unat (slength sl)" "unat (slength sl) \<le> kMaxPacketBytes"
      by (rule xdp_copy_spec [of i sh m]) (use feed_preD(3,5) [OF pre b(4)] m in simp_all)
    show ?thesis using step XdpCopy nd m(1) sl(1) feed_move.fill [OF sl(2-4), of sh i "xwire t"]
      by (auto simp: xdp_step_def xdp_phase_def put_slot_def)
  next
    case (XdpPush i)
    obtain ok r where r: "ring_push (sring sh) \<lparr>refIdx = i, tWireCycles = xwire t\<rparr> = Some (ok, r)" using feed_preD(2) [OF pre] by blast
    show ?thesis using step XdpPush nd r feed_move.push [OF r] by (cases ok) (auto simp: xdp_step_def xdp_phase_def)
  next
    case (XdpDrop i)
    then show ?thesis using step nd by (auto simp: xdp_step_def xdp_phase_def bind_eq_Some_conv intro: feed_move.release)
  next
    case XdpSentinel
    obtain ok r where r: "ring_push (sring sh) \<lparr>refIdx = kPoolInvalid, tWireCycles = xwire t\<rparr> = Some (ok, r)" using feed_preD(2) [OF pre] by blast
    show ?thesis using step XdpSentinel nd r feed_move.sentinel [OF r]
      by (cases "ok \<or> sstop sh") (auto simp: xdp_step_def xdp_phase_def)
  next
    case XdpRefill
    then show ?thesis using step xdp_refill_ok [OF ok XdpRefill xsk]
      by (cases "reads_unset xsk t") (auto simp: xdp_step_def xdp_phase_def intro: feed_move.stay)
  qed (use step in \<open>auto simp: xdp_step_def xdp_phase_def intro: feed_move.stay\<close>)
qed

text \<open>A kernel move leaves the packet on its way alone.\<close>

lemma kernel_keeps_packet:
  assumes ok: "xdp_ok t" and k: "kernel_move (xumem t) u"
  shows "xdp_kept (t\<lparr>xumem := u\<rparr>) = xdp_kept t"
proof -
  have "packet_at u off len = packet_at (xumem t) off len" if "within t off len" "in_batch t (Suc (xi t))" "umem_ok (xumem t) []" for off len
  proof -
    have "rxq (xumem t) ! xi t \<in> set (rxq (xumem t))" using that(2) by (auto simp: in_batch_def)
    from kernel_keeps_part [OF that(3) k this, of off len] that(1) show ?thesis by (simp add: within_def packet_at_def Let_def)
  qed
  moreover have "\<not> xdone t \<and> within t off len \<and> in_batch t (Suc (xi t)) \<and> umem_ok (xumem t) []"
    if "xpc t = XdpAcquire off len \<or> xpc t = XdpCopy i off len" for i off len
  proof -
    have "\<not> xdone t" using xdp_okD(4) [OF ok] that by auto
    then show ?thesis using xdp_okD(3) [OF ok] that by (auto simp: batch_ok_def returning_def)
  qed
  ultimately show ?thesis by (cases "xpc t") (auto simp: xdp_kept_def)
qed

lemma xdp_step_tracks:
  assumes ok: "xdp_ok t" and xsk: "xsk_ok xsk" and pre: "feed_pre sh fs (xdp_phase t)" and step: "xdp_step xsk port w (sh, t) = Some (sh', t')"
  shows "\<exists>new. sift (xdp_heard port (ThreadMove w) t) (xtracker t) = (new, xtracker t') \<and>
    (\<not> xdp_lost t t' \<longrightarrow> transit xdp_kept xdp_phase sh t @ new =
      map packet_of (offered (spool sh) (xdp_phase t) (xdp_phase t')) @ transit xdp_kept xdp_phase sh' t')"
proof -
  note O = xdp_okD [OF ok]
  have nd: "\<not> xdone t" if "xpc t \<notin> {XdpRelease, XdpRefill, XdpTop, XdpDone}" using O(4) that by auto
  note defs = xdp_heard_def xdp_kept_def xdp_lost_def xdp_phase_def transit_def
  show ?thesis
  proof (cases "xpc t")
    case XdpFrame
    have t: "sh' = sh" "xdp_desc_step port t = Some t'" "\<not> xdone t" using step XdpFrame nd by (auto simp: xdp_step_def)
    from ok XdpFrame t(3) show ?thesis
    proof (cases rule: xdp_frame_cases [where port = port])
      case (packet frm m h v k st off)
      obtain st' where tr: "trackHeader h (xtracker t) FeedStats_new = (v, k, st')"
        using trackHeader_stats [of h "xtracker t" FeedStats_new "countReceived (length m) (xstats t)"] packet(6) by auto
      have "kMoldHeaderBytes \<le> length (take kMaxPacketBytes m)" using packet(4) by (simp add: kMoldHeaderBytes_def kMaxPacketBytes_def)
      then have h: "parseMoldHeader (take kMaxPacketBytes m) = Some h"
        using packet(5) parse_prefix [of "take kMaxPacketBytes m" "drop kMaxPacketBytes m"] by simp
      have "xdp_heard port (ThreadMove w) t = [take kMaxPacketBytes m]"
        using XdpFrame packet(1-3) by (simp add: xdp_heard_def Let_def)
      then have "sift (xdp_heard port (ThreadMove w) t) (xtracker t) = (if v = Accept then [take kMaxPacketBytes m] else [], k)"
        using h tr by simp
      moreover have "xtracker t' = k" using packet(9) t(2) by (cases v) (auto simp: xdp_decide_def)
      moreover have "transit xdp_kept xdp_phase sh' t' = (if v = Accept then [take kMaxPacketBytes m] else [])"
        using packet(7,9) t by (cases v) (auto simp: defs xdp_decide_def packet_at_def)
      moreover have "transit xdp_kept xdp_phase sh t = []" "xdp_phase t = FIdle" using XdpFrame t(3) by (simp_all add: defs)
      ultimately show ?thesis by simp
    next
      case over
      then show ?thesis using XdpFrame t by (auto simp: defs)
    next
      case (skip frm)
      then show ?thesis using XdpFrame t by (auto simp: defs Let_def)
    qed
  next
    case (XdpAcquire off len)
    then show ?thesis using step nd by (auto simp: defs xdp_step_def bind_eq_Some_conv split: if_splits)
  next
    case (XdpCopy i off len)
    then have b: "in_batch t (Suc (xi t))" "within t off len" "umem_ok (xumem t) []" "i \<in> set (net_holds (xdp_phase t))"
      using O(3) nd by (simp_all add: batch_ok_def returning_def xdp_phase_def)
    note P = feed_preD(3,5) [OF pre b(4)]
    obtain m where m: "umem_read (xumem t) off len = Some m" "length m = len" "kMoldHeaderBytes \<le> len" by (rule within_read [OF b(3,1,2)])
    obtain sl where sl: "xdp_copy i m (spool sh) = Some (spool (put_slot sh i sl))" "take (unat (slength sl)) (sdata sl) = take kMaxPacketBytes m"
      by (rule xdp_copy_spec [of i sh m]) (use P m in simp_all)
    then have "t' = t\<lparr>xpc := XdpPush i\<rparr>" "spool sh' = spool (put_slot sh i sl)" using step XdpCopy m(1) by (auto simp: xdp_step_def)
    moreover have "packet_of (slot_content (spool (put_slot sh i sl)) i, xwire t) = take kMaxPacketBytes m"
      using sl(2) P(1) by (simp add: packet_of_def put_slot_def slot_content_upd)
    ultimately show ?thesis using XdpCopy nd m(1) by (simp add: defs packet_at_def)
  next
    case (XdpPush i)
    then show ?thesis using step nd by (auto simp: defs xdp_step_def bind_eq_Some_conv split: if_splits)
  next
    case XdpRefill
    then show ?thesis using step xdp_refill_ok [OF ok XdpRefill xsk] by (cases "reads_unset xsk t") (auto simp: defs xdp_step_def)
  qed (use step in \<open>auto simp: defs xdp_step_def bind_eq_Some_conv Let_def split: if_splits\<close>)
qed

text \<open>The contract, for every kernel and every libxdp that behave as documented.\<close>

lemma xdp_feed_thread:
  assumes kern: "kernel_ok kern" and xsk: "xsk_ok xsk"
  shows "feed_thread (xdp_feed kern xsk port) xdp_ok xtracker xdp_kept"
proof unfold_locales
  let ?F = "xdp_feed kern xsk port"
  fix t sh fs sh' t' and inp :: xdp_input
  assume ok: "xdp_ok t" and pre: "feed_pre sh fs (fphase ?F t)"
  show "fstep ?F inp (sh, t) \<noteq> None" if "\<not> fstuck ?F t"
    using xdp_step_defined [OF ok xsk] pre that by (cases inp) (auto simp: xdp_system_def)
  assume step: "fstep ?F inp (sh, t) = Some (sh', t')"
  have "xdp_ok t' \<and> feed_move (sh, xdp_phase t) (sh', xdp_phase t') \<and>
    (\<exists>new. sift (xdp_heard port inp t) (xtracker t) = (new, xtracker t') \<and>
      (\<not> xdp_lost t t' \<longrightarrow> transit xdp_kept xdp_phase sh t @ new =
        map packet_of (offered (spool sh) (xdp_phase t) (xdp_phase t')) @ transit xdp_kept xdp_phase sh' t'))"
  proof (cases inp)
    case (ThreadMove w)
    then have "xdp_step xsk port w (sh, t) = Some (sh', t')" using step by (simp add: xdp_system_def)
    then show ?thesis using xdp_step_ok [OF ok xsk] xdp_step_moves [OF ok xsk] xdp_step_tracks [OF ok xsk] pre ThreadMove by simp
  next
    case (KernelMove u)
    have sh: "sh' = sh" and t': "t' = (if kern (xumem t) u then t\<lparr>xumem := u\<rparr> else t)"
      using step KernelMove by (auto simp: xdp_system_def)
    have "xdp_ok t' \<and> xdp_kept t' = xdp_kept t"
      using t' ok kern kernel_xdp_ok [OF ok] kernel_keeps_packet [OF ok] by (auto simp: kernel_ok_def)
    moreover have ph: "xdp_phase t' = xdp_phase t" "xtracker t' = xtracker t" using t' by (simp_all add: xdp_phase_def split: xdp_pc.split)
    moreover have "offered (spool sh) (xdp_phase t) (xdp_phase t) = []" by (cases "xdp_phase t") auto
    moreover have "xdp_heard port inp t = []" using KernelMove by (simp add: xdp_heard_def)
    ultimately show ?thesis using sh by (auto simp: transit_def intro: feed_move.stay)
  qed
  then show "xdp_ok t' \<and> feed_move (sh, fphase ?F t) (sh', fphase ?F t')"
    "\<exists>new. sift (fheard ?F inp t) (xtracker t) = (new, xtracker t') \<and>
      (\<not> flost ?F t t' \<longrightarrow> transit xdp_kept (fphase ?F) sh t @ new =
        map packet_of (offered (spool sh) (fphase ?F t) (fphase ?F t')) @ transit xdp_kept (fphase ?F) sh' t')" by simp_all
qed

section \<open>Properties\<close>

text \<open>The system of UDP mode with the AF_XDP thread.\<close>

definition xdp_init :: "bool \<Rightarrow> Shared \<times> EngThread \<Rightarrow> XdpThread Pipe" where
  "xdp_init setup_ok = (\<lambda>(sh, et). pipe_init (sh, XdpThread_new (if setup_ok then Some Umem_new else None), et))"

lemma xdp_ok_new: "xdp_ok (XdpThread_new (if setup_ok then Some Umem_new else None))"
  by (simp add: XdpThread_new_def xdp_ok_def batch_ok_def returning_def umem_ok_new)

lemma xdp_inv_init:
  assumes "runUdp_start n c e = Some st" and "n \<le> unat kPoolInvalid"
  shows "system_inv (xdp_feed kern xsk port) xdp_ok xtracker xdp_kept clk (e, no_output, 0) (xdp_init setup_ok st)"
proof -
  obtain sh et where st: "st = (sh, et)" by (cases st)
  have "net_holds (xdp_phase (XdpThread_new x)) = []" "xdp_kept (XdpThread_new x) = []" "xtracker (XdpThread_new x) = SeqTracker_new" for x
    by (simp_all add: XdpThread_new_def xdp_phase_def xdp_kept_def split: option.split)
  then show ?thesis unfolding st xdp_init_def prod.case
    by (intro system_inv_init [where n = n and c = c] xdp_ok_new) (use assms st in simp_all)
qed

text \<open>C11: In every interleaving of the AF_XDP thread, the matching thread and the kernel, whatever frames arrive, the
  matching thread has processed exactly a prefix of the packets the network thread accepted, in the order
  of acceptance and with the contents they had then, so the kernel never overwrites a packet on its way;
  the network thread has a defined step, to the pool, the ring, the shared frames and its array of addresses, in every state but
  one: after the end of the session, if it gives back a batch with addresses it never saved, which it reads from its
  uninitialised array; and when the matching thread has stopped, nothing accepted is left.  It is relied on that the kernel
  writes only into frames on the fill ring, and that libxdp's counts respect what is there.\<close>

theorem xdp_pipeline_processes_in_order:
  assumes "kernel_ok kern" and "xsk_ok xsk"
    and "runUdp_start n c e = Some st" and "n \<le> unat kPoolInvalid"
    and "pipe_reachable (xdp_feed kern xsk port) clk (xdp_init setup_ok st) s"
  shows "\<exists>rest. accepted s = consumed s @ rest \<and>
    process_all clk (consumed s) (e, no_output, 0) =
      Some (case epc (eng s) of EngThrown x r \<Rightarrow> Inl x | _ \<Rightarrow> Inr (est (eng s))) \<and>
    (xdp_step xsk port w (shared s, net s) = None \<longleftrightarrow> reads_unset xsk (net s)) \<and> (rest = [] \<or> epc (eng s) \<noteq> EngDone)"
proof -
  note F = xdp_feed_thread [OF assms(1,2)] and i0 = xdp_inv_init [OF assms(3,4)]
  obtain fs where inv: "pipe_inv xdp_phase clk (e, no_output, 0) s fs" and ok: "xdp_ok (net s)"
    using feed_thread.reachable_inv [OF F assms(5) i0] by (auto simp: system_inv_def)
  have undef: "xdp_step xsk port w (shared s, net s) = None \<longleftrightarrow> reads_unset xsk (net s)"
    by (rule xdp_step_defined [OF ok assms(2) pipe_inv_pre [OF inv]])
  obtain rest where "accepted s = consumed s @ rest" "rest = [] \<or> epc (eng s) \<noteq> EngDone"
    "process_all clk (consumed s) (e, no_output, 0) = Some (case epc (eng s) of EngThrown x r \<Rightarrow> Inl x | _ \<Rightarrow> Inr (est (eng s)))"
    using feed_thread.in_order [OF F assms(5) i0, of "ThreadMove w"] by auto
  with undef show ?thesis by (intro exI [of _ rest] conjI)
qed

text \<open>C17: Until the end of the session every frame of the memory area has exactly one owner: the fill ring, the receive
  ring, or the batch the thread is giving back; descriptors stay inside their frames; and a batch
  always fits back into the fill ring, so that no frame is lost.  At every moment each packet
  buffer has exactly one owner as well.\<close>

theorem xdp_frames_have_one_owner:
  assumes "kernel_ok kern" and "xsk_ok xsk"
    and "runUdp_start n c e = Some st" and "n \<le> unat kPoolInvalid"
    and "pipe_reachable (xdp_feed kern xsk port) clk (xdp_init setup_ok st) s"
  shows "(xdone (net s) \<or>
      distinct (umem_frames (xumem (net s)) (returning (net s))) \<and>
      set (umem_frames (xumem (net s)) (returning (net s))) = {..<kNumFrames} \<and>
      list_all in_frame (rxq (xumem (net s))) \<and>
      (xpc (net s) = XdpRefill \<longrightarrow> (\<exists>t. xdp_refill xsk (net s) = Some t \<and>
        fillq (xumem t) = fillq (xumem (net s)) @ returning (net s)))) \<and>
    (\<exists>fs. ppool_ok (spool (shared s)) fs \<and>
      distinct (owners fs (xdp_phase (net s)) (ring_queue (sring (shared s))) (epc (eng s))) \<and>
      set (owners fs (xdp_phase (net s)) (ring_queue (sring (shared s))) (epc (eng s))) = {i. unat i < n})"
proof
  note F = xdp_feed_thread [OF assms(1,2)] and i0 = xdp_inv_init [OF assms(3,4)]
  have ok: "xdp_ok (net s)" using feed_thread.reachable_inv [OF F assms(5) i0] by (simp add: system_inv_def)
  show "xdone (net s) \<or>
      distinct (umem_frames (xumem (net s)) (returning (net s))) \<and>
      set (umem_frames (xumem (net s)) (returning (net s))) = {..<kNumFrames} \<and>
      list_all in_frame (rxq (xumem (net s))) \<and>
      (xpc (net s) = XdpRefill \<longrightarrow> (\<exists>t. xdp_refill xsk (net s) = Some t \<and>
        fillq (xumem t) = fillq (xumem (net s)) @ returning (net s)))"
  proof (cases "xdone (net s)")
    case False
    then have um: "umem_ok (xumem (net s)) (returning (net s))" using xdp_okD(3) [OF ok] by simp
    have "list_all in_frame (rxq (xumem (net s)))" using um unfolding umem_ok_def by blast
    moreover have "\<exists>t. xdp_refill xsk (net s) = Some t \<and> fillq (xumem t) = fillq (xumem (net s)) @ returning (net s)"
      if "xpc (net s) = XdpRefill" using xdp_refill_ok(2) [OF ok that assms(2)] False by (auto simp: reads_unset_def)
    ultimately show ?thesis using umem_okD(2,3) [OF um] by blast
  qed simp
  have "pool_slots (spool (shared (xdp_init setup_ok st))) = {i. unat i < n}"
    using assms(3) PacketPool_new_ok(2) [OF _ assms(4)]
    by (auto simp: runUdp_start_def bind_eq_Some_conv xdp_init_def pipe_init_def pool_slots_def)
  then show "\<exists>fs. ppool_ok (spool (shared s)) fs \<and>
      distinct (owners fs (xdp_phase (net s)) (ring_queue (sring (shared s))) (epc (eng s))) \<and>
      set (owners fs (xdp_phase (net s)) (ring_queue (sring (shared s))) (epc (eng s))) = {i. unat i < n}"
    using feed_thread.one_owner [OF F assms(5) i0] by simp
qed

text \<open>An instance: libxdp's counting operations as it documents them, and a kernel that moves one frame.\<close>

definition counting_xsk :: Xsk where
  "counting_xsk = \<lparr>peek = min, reserve = (\<lambda>room n. if n \<le> room then n else 0)\<rparr>"

lemma counting_xsk_ok: "xsk_ok counting_xsk"
  by (simp add: xsk_ok_def counting_xsk_def)

definition receive_move :: "Umem \<Rightarrow> Umem \<Rightarrow> bool" where
  "receive_move u u' \<longleftrightarrow> (case fillq u of [] \<Rightarrow> False
     | a # q \<Rightarrow> in_frame \<lparr>daddr = a, dlen = 60\<rparr> \<and> u' = u\<lparr>fillq := q, rxq := rxq u @ [\<lparr>daddr = a, dlen = 60\<rparr>]\<rparr>)"

lemma receive_move_ok: "kernel_ok receive_move"
  by (auto simp: kernel_ok_def receive_move_def kernel_move_def split: list.splits)

lemma first_received: "receive_move Umem_new (Umem_new\<lparr>fillq := tl (fillq Umem_new), rxq := [\<lparr>daddr = 0, dlen = 60\<rparr>]\<rparr>)"
proof -
  have "0 < kNumFrames" by (simp add: kNumFrames_def)
  then have fq: "fillq Umem_new = 0 # tl (fillq Umem_new)" by (simp add: Umem_new_def upt_conv_Cons)
  have "rxq Umem_new = []" by (simp add: Umem_new_def)
  then show ?thesis unfolding receive_move_def by (subst fq) (simp add: in_frame_def kFrameSize_def)
qed

lemma one_received:
  assumes "runUdp_start n c e = Some st"
  obtains s where "pipe_reachable (xdp_feed receive_move counting_xsk port) clk (xdp_init True st) s"
    "length (rxq (xumem (net s))) = 1" "\<not> xdone (net s)"
proof -
  obtain sh et where st: "st = (sh, et)" by (cases st)
  let ?u = "Umem_new\<lparr>fillq := tl (fillq Umem_new), rxq := [\<lparr>daddr = 0, dlen = 60\<rparr>]\<rparr>"
  have "fstep (xdp_feed receive_move counting_xsk port) (KernelMove ?u) (shared (xdp_init True st), net (xdp_init True st)) =
      Some (sh, (XdpThread_new (Some Umem_new))\<lparr>xumem := ?u\<rparr>)"
    using first_received by (simp add: xdp_system_def xdp_init_def pipe_init_def st XdpThread_new_def)
  from pipe_step.net [OF this, of clk] show ?thesis
    by (intro that [OF pipe_reachable.step [OF pipe_reachable.init]]) (auto simp: net_history_def XdpThread_new_def)
qed

theorem xdp_pipeline_processes_in_order_witness:
  "\<exists>e st s rest. runUdp_start 2 4 e = Some st \<and>
     pipe_reachable (xdp_feed receive_move counting_xsk 9) (\<lambda>n. (5, 9)) (xdp_init True st) s \<and>
     length (rxq (xumem (net s))) = 1 \<and> accepted s = consumed s @ rest \<and> xdp_step counting_xsk 9 0 (shared s, net s) \<noteq> None"
proof -
  obtain e st where st: "runUdp_start 2 4 e = Some st" using small_start by blast
  obtain s where s: "pipe_reachable (xdp_feed receive_move counting_xsk 9) (\<lambda>n. (5, 9)) (xdp_init True st) s"
    "length (rxq (xumem (net s))) = 1" "\<not> xdone (net s)" by (rule one_received [OF st])
  have "2 \<le> unat kPoolInvalid" by (simp add: kPoolInvalid_def)
  from xdp_pipeline_processes_in_order [OF receive_move_ok counting_xsk_ok st this s(1), of 0] st s show ?thesis
    unfolding reads_unset_def by blast
qed

theorem xdp_frames_have_one_owner_witness:
  "\<exists>e st s. runUdp_start 2 4 e = Some st \<and>
     pipe_reachable (xdp_feed receive_move counting_xsk 9) (\<lambda>n. (5, 9)) (xdp_init True st) s \<and>
     length (rxq (xumem (net s))) = 1 \<and> distinct (umem_frames (xumem (net s)) (returning (net s)))"
proof -
  obtain e st where st: "runUdp_start 2 4 e = Some st" using small_start by blast
  obtain s where s: "pipe_reachable (xdp_feed receive_move counting_xsk 9) (\<lambda>n. (5, 9)) (xdp_init True st) s"
    "length (rxq (xumem (net s))) = 1" "\<not> xdone (net s)" by (rule one_received [OF st])
  have "2 \<le> unat kPoolInvalid" by (simp add: kPoolInvalid_def)
  from xdp_frames_have_one_owner [OF receive_move_ok counting_xsk_ok st this s(1)] st s show ?thesis by blast
qed

end
