(* ===== verification/Memory_Xdp.thy ===== *)
theory Memory_Xdp
  imports Memory_Socket Xdp_Pipeline
begin

text \<open>
  The loop of \<open>runFeedHandlerXdp\<close> (\<^verbatim>\<open>src/feed_handler_xdp.cpp\<close>) on the memory of \<^theory_text>\<open>Release_Acquire\<close>, access by access,
  with the kernel moving frames.  It keeps the contract \<open>memory_feed\<close>.
\<close>

section \<open>Model\<close>

text \<open>The thread with the calls of pool and ring it is in.\<close>

record XdpCalls =
  xth :: XdpThread
  xpool :: pool_pc
  xpush :: "PacketRef push_pc"

definition XdpCalls_new :: "Umem option \<Rightarrow> XdpCalls" where
  "XdpCalls_new setup = \<lparr>xth = XdpThread_new setup, xpool = PoolIdle, xpush = PushIdle\<rparr>"

text \<open>The head of the loop: the flags, and how many frames there are.\<close>

definition xdp_poll :: "Xsk \<Rightarrow> bool \<Rightarrow> u64 \<Rightarrow> XdpThread \<Rightarrow> XdpThread" where
  "xdp_poll xsk stop tWire x =
     (if xdone x \<or> stop then x\<lparr>xpc := XdpDone\<rparr>
      else let rcvd = peek xsk (length (rxq (xumem x))) kBatchSize in
        if rcvd = 0 then x else x\<lparr>xpc := XdpFrame, xrcvd := rcvd, xi := 0, xwire := tWire\<rparr>)"

text \<open>The payload at \<open>off\<close> in the shared area goes into the slot.\<close>

definition xdp_fill :: "u32 \<Rightarrow> nat \<Rightarrow> nat \<Rightarrow> Memory \<times> tview \<times> XdpCalls \<Rightarrow> (Memory \<times> tview \<times> XdpCalls \<times> published list) option" where
  "xdp_fill slotIdx off len = (\<lambda>(m, V, t). do {
     moldPkt \<leftarrow> umem_read (xumem (xth t)) off len;
     let cpyLen = min len kMaxPacketBytes;
     (acc, V) \<leftarrow> plain_write (Packet slotIdx) (mlog m) V;
     slot \<leftarrow> vec_at (mslots m) slotIdx;
     ss \<leftarrow> vec_put (mslots m) slotIdx (slot\<lparr>sdata := take cpyLen moldPkt @ drop cpyLen (sdata slot), slength := of_nat cpyLen\<rparr>);
     Some (m\<lparr>mlog := acc, mslots := ss\<rparr>, V, t\<lparr>xth := (xth t)\<lparr>xpc := XdpPush slotIdx\<rparr>\<rparr>, []) })"

definition xdp_push :: "Outside \<Rightarrow> PacketRef \<Rightarrow> (bool \<Rightarrow> XdpThread) \<Rightarrow> Memory \<times> tview \<times> XdpCalls \<Rightarrow>
    (Memory \<times> tview \<times> XdpCalls \<times> published list) option" where
  "xdp_push out ref nxt = (\<lambda>(m, V, t). do {
     (m, V, c) \<leftarrow> push_access (oback out) ref (xpush t) (m, V);
     Some (m, V, case c of Running pc \<Rightarrow> t\<lparr>xpush := pc\<rparr> | Returned ok \<Rightarrow> t\<lparr>xth := nxt ok, xpush := PushIdle\<rparr>,
           if c = Returned True then [(ref, packet_in m (refIdx ref))] else []) })"

text \<open>The loop; the kernel's moves are those \<open>kern\<close> allows.\<close>

definition xdp_access :: "(Umem \<Rightarrow> Umem \<Rightarrow> bool) \<Rightarrow> Xsk \<Rightarrow> u16 \<Rightarrow> (Outside \<times> xdp_input, XdpCalls) net_access" where
  "xdp_access kern xsk port = (\<lambda>(out, inp) (m, V, t). let x = xth t in case inp of
      KernelMove u \<Rightarrow> Some (m, V, if kern (xumem x) u then t\<lparr>xth := x\<lparr>xumem := u\<rparr>\<rparr> else t, [])
    | ThreadMove tWire \<Rightarrow> (case xpc x of
        XdpTop \<Rightarrow> Some (m, V, t\<lparr>xth := xdp_poll xsk (ostop out) tWire x\<rparr>, [])
      | XdpFrame \<Rightarrow> do { x \<leftarrow> xdp_desc_step port x; Some (m, V, t\<lparr>xth := x\<rparr>, []) }
      | XdpAcquire off len \<Rightarrow> do {
          (m, V, c) \<leftarrow> acquire_access (ofails out) (oback out) (xpool t) (m, V);
          Some (m, V, case c of
              Running pc \<Rightarrow> t\<lparr>xpool := pc\<rparr>
            | Returned i \<Rightarrow> t\<lparr>xth := (if i = kPoolInvalid then xdp_next (x\<lparr>xstats := countDropped (xstats x)\<rparr>)
                                  else x\<lparr>xpc := XdpCopy i off len\<rparr>), xpool := PoolIdle\<rparr>, []) }
      | XdpCopy i off len \<Rightarrow> xdp_fill i off len (m, V, t)
      | XdpPush i \<Rightarrow>
          xdp_push out \<lparr>refIdx = i, tWireCycles = xwire x\<rparr> (\<lambda>ok. if ok then xdp_next x else x\<lparr>xpc := XdpDrop i\<rparr>) (m, V, t)
      | XdpDrop i \<Rightarrow> do {
          (m, V, c) \<leftarrow> release_access (ofails out) (oback out) i (xpool t) (m, V);
          Some (m, V, case c of
              Running pc \<Rightarrow> t\<lparr>xpool := pc\<rparr>
            | Returned _ \<Rightarrow> t\<lparr>xth := xdp_next (x\<lparr>xstats := countDropped (xstats x)\<rparr>), xpool := PoolIdle\<rparr>, []) }
      | XdpSentinel \<Rightarrow>
          xdp_push out \<lparr>refIdx = kPoolInvalid, tWireCycles = xwire x\<rparr>
            (\<lambda>ok. if ok \<or> ostop out then x\<lparr>xpc := XdpRelease, xdone := True\<rparr> else x) (m, V, t)
      | XdpRelease \<Rightarrow> Some (m, V, t\<lparr>xth := x\<lparr>xpc := XdpRefill, xumem := (xumem x)\<lparr>rxq := drop (xrcvd x) (rxq (xumem x))\<rparr>\<rparr>\<rparr>, [])
      | XdpRefill \<Rightarrow> do { x \<leftarrow> xdp_refill xsk x; Some (m, V, t\<lparr>xth := x\<rparr>, []) }
      | XdpDone \<Rightarrow> Some (m, V, t, [])))"

section \<open>The contract\<close>

definition xdp_handover :: "XdpCalls \<Rightarrow> feed_pc" where
  "xdp_handover t = (if xdone (xth t) then FeedDone else case xpc (xth t) of
      XdpAcquire off len \<Rightarrow> FeedAcquire (xpool t)
    | XdpCopy i off len \<Rightarrow> FeedHold i
    | XdpPush i \<Rightarrow> FeedPush i (xwire (xth t)) (xpush t)
    | XdpDrop i \<Rightarrow> FeedRelease i Continue (xpool t)
    | XdpSentinel \<Rightarrow> FeedSentinel (xwire (xth t)) (xpush t)
    | XdpDone \<Rightarrow> FeedDone
    | _ \<Rightarrow> FeedTop)"

text \<open>Outside a call none is in progress; the frames are as \<^theory_text>\<open>Xdp_Frames\<close> has them.\<close>

definition xdp_calls_ok :: "Memory \<Rightarrow> XdpCalls \<Rightarrow> bool" where
  "xdp_calls_ok m t \<longleftrightarrow> xdp_ok (xth t) \<and> (case xpc (xth t) of
      XdpAcquire off len \<Rightarrow> xpush t = PushIdle
    | XdpDrop i \<Rightarrow> xpush t = PushIdle
    | XdpPush i \<Rightarrow> xpool t = PoolIdle
    | XdpSentinel \<Rightarrow> xpool t = PoolIdle
    | _ \<Rightarrow> xpool t = PoolIdle \<and> xpush t = PushIdle)"

lemma in_call_not_done: "xdp_ok x \<Longrightarrow> xpc x \<notin> {XdpRelease, XdpRefill, XdpTop, XdpDone} \<Longrightarrow> \<not> xdone x"
  using xdp_okD(4) by blast

lemma xdp_pc_ok:
  assumes "xdp_ok x" and "\<not> xdone x" and "xpc x \<noteq> XdpRefill" and "pc \<noteq> XdpRefill" and "batch_ok (x\<lparr>xpc := pc\<rparr>)"
  shows "xdp_ok (x\<lparr>xpc := pc\<rparr>)"
  using assms by (simp add: xdp_ok_def returning_def)

lemma xdp_poll_ok:
  assumes "xdp_ok x" and "xpc x = XdpTop" and "xsk_ok xsk"
  shows "xdp_ok (xdp_poll xsk stop w x)"
proof -
  fix sh :: Shared
  have "xdp_step xsk port w (sh\<lparr>sstop := stop\<rparr>, x) = Some (sh\<lparr>sstop := stop\<rparr>, xdp_poll xsk stop w x)" for port
    using assms(2) by (simp add: xdp_step_def xdp_poll_def Let_def)
  from xdp_step_ok [OF assms(1,3) this] show ?thesis .
qed

text \<open>The frame's verdict: the thread goes on, acquires a buffer or ends the stream.\<close>

lemma xdp_desc_calls:
  assumes ok: "xdp_ok x" and pc: "xpc x = XdpFrame"
  obtains x' where "xdp_desc_step port x = Some x'" "xdp_ok x'" "\<not> xdone x'"
    "xpc x' \<in> {XdpFrame, XdpRelease, XdpSentinel} \<or> (\<exists>off len. xpc x' = XdpAcquire off len)"
proof -
  have nd: "\<not> xdone x" using in_call_not_done [OF ok] pc by simp
  obtain x' where x': "xdp_desc_step port x = Some x'" using xdp_desc_step_defined [OF ok pc nd] by blast
  from ok pc nd have "\<not> xdone x' \<and> (xpc x' \<in> {XdpFrame, XdpRelease, XdpSentinel} \<or> (\<exists>off len. xpc x' = XdpAcquire off len))"
  proof (cases rule: xdp_frame_cases [where port = port])
    case (packet frm m h v k st off)
    then show ?thesis using x' nd by (cases v) (auto simp: xdp_decide_def)
  qed (use x' nd in auto)
  then show thesis using that [OF x' xdp_desc_step_ok [OF ok pc nd x']] by blast
qed

text \<open>A step outside the calls.\<close>

lemma xdp_goes_on:
  assumes inv: "hinv s F" and "hnpc s = FeedTop" and "xdp_ok x" and "xpool t = PoolIdle" and "xpush t = PushIdle"
    and "xdone x \<or> xpc x \<in> {XdpTop, XdpFrame, XdpRelease, XdpRefill, XdpSentinel, XdpDone} \<or> (\<exists>off len. xpc x = XdpAcquire off len)"
  shows "net_ok xdp_handover xdp_calls_ok s (Some (hmem s, nview s, t\<lparr>xth := x\<rparr>, []))"
proof (rule net_stays)
  show "hinv (s\<lparr>hnpc := xdp_handover (t\<lparr>xth := x\<rparr>)\<rparr>) F"
    by (rule net_goes_on [OF inv, where tw = "xwire x"]) (use assms(2,4-6) in \<open>auto simp: xdp_handover_def\<close>)
  show "xdp_calls_ok (hmem s) (t\<lparr>xth := x\<rparr>)" using assms(3-6) by (auto simp: xdp_calls_ok_def split: xdp_pc.splits)
qed

text \<open>And one of a thread that has pushed its end marker.\<close>

lemma xdp_winds_up:
  assumes "hinv s F" and "hnpc s = FeedDone" and "xdp_ok x" and "xpool t = PoolIdle" and "xpush t = PushIdle" and "xdone x \<or> xpc x = XdpDone"
  shows "net_ok xdp_handover xdp_calls_ok s (Some (hmem s, nview s, t\<lparr>xth := x\<rparr>, []))"
  by (rule net_rests [OF assms(1)]) (use assms(2-6) xdp_okD(4) [OF assms(3)] in \<open>auto simp: xdp_handover_def xdp_calls_ok_def\<close>)

lemma xdp_fill_ok:
  assumes inv: "hinv s F" and pc: "hnpc s = FeedHold i" and ok: "xdp_calls_ok (hmem s) t" and x: "xpc (xth t) = XdpCopy i off len"
  shows "net_ok xdp_handover xdp_calls_ok s (xdp_fill i off len (hmem s, nview s, t))"
proof -
  note D = net_holds_slot [OF inv pc]
  have xok: "xdp_ok (xth t)" and idle: "xpool t = PoolIdle" "xpush t = PushIdle" using ok x by (simp_all add: xdp_calls_ok_def)
  have nd: "\<not> xdone (xth t)" using in_call_not_done [OF xok] x by simp
  then have b: "in_batch (xth t) (Suc (xi (xth t)))" "within (xth t) off len" "umem_ok (xumem (xth t)) []"
    using xdp_okD(3) [OF xok] x by (simp_all add: batch_ok_def returning_def)
  obtain pkt where pkt: "umem_read (xumem (xth t)) off len = Some pkt" "length pkt = len" by (rule within_read [OF b(3,1,2)])
  let ?slot = "mslots (hmem s) ! unat i" and ?n = "min len kMaxPacketBytes" and ?t = "t\<lparr>xth := (xth t)\<lparr>xpc := XdpPush i\<rparr>\<rparr>"
  define sl where "sl = ?slot\<lparr>sdata := take ?n pkt @ drop ?n (sdata ?slot), slength := of_nat ?n\<rparr>"
  have "xdp_ok ((xth t)\<lparr>xpc := XdpPush i\<rparr>)"
    by (rule xdp_pc_ok [OF xok nd]) (use x b(1) in \<open>simp_all add: batch_ok_def in_batch_def\<close>)
  then have "net_ok xdp_handover xdp_calls_ok s (do { (acc, V) \<leftarrow> plain_write (Packet i) (mlog (hmem s)) (nview s);
      ss \<leftarrow> vec_put (mslots (hmem s)) i sl; Some ((hmem s)\<lparr>mlog := acc, mslots := ss\<rparr>, V, ?t, []) })" using nd idle
    by (intro net_ok_fill [OF inv pc]) (auto simp: sl_def xdp_handover_def xdp_calls_ok_def)
  moreover have "xdp_fill i off len (hmem s, nview s, t) = do { (acc, V) \<leftarrow> plain_write (Packet i) (mlog (hmem s)) (nview s);
      ss \<leftarrow> vec_put (mslots (hmem s)) i sl; Some ((hmem s)\<lparr>mlog := acc, mslots := ss\<rparr>, V, ?t, []) }"
    using D(2) pkt by (simp add: xdp_fill_def vec_simps sl_def Let_def)
  ultimately show ?thesis by simp
qed

text \<open>The kernel's move is none of the thread.\<close>

lemma xdp_kernel_ok:
  assumes inv: "hinv s F" and ph: "hnpc s = xdp_handover t" and ok: "xdp_calls_ok (hmem s) t" and k: "kernel_ok kern"
  shows "net_ok xdp_handover xdp_calls_ok s (xdp_access kern xsk port (out, KernelMove u) (hmem s, nview s, t))"
proof -
  define t' where "t' = (if kern (xumem (xth t)) u then t\<lparr>xth := (xth t)\<lparr>xumem := u\<rparr>\<rparr> else t)"
  have "xdp_handover t' = xdp_handover t" by (cases "xpc (xth t)") (simp_all add: t'_def xdp_handover_def)
  moreover have "xdp_calls_ok (hmem s) t'"
    using ok k kernel_xdp_ok [of "xth t" u] by (cases "xpc (xth t)") (simp_all add: t'_def xdp_calls_ok_def kernel_ok_def)
  ultimately have "net_ok xdp_handover xdp_calls_ok s (Some (hmem s, nview s, t', []))" using ph by (intro net_rests [OF inv]) simp_all
  then show ?thesis by (simp add: xdp_access_def t'_def Let_def)
qed

text \<open>The calls.\<close>

lemma xdp_acquire_ok:
  assumes inv: "hinv s F" and ph: "hnpc s = xdp_handover t" and ok: "xdp_calls_ok (hmem s) t" and pc: "xpc (xth t) = XdpAcquire off len"
  shows "net_ok xdp_handover xdp_calls_ok s (xdp_access kern xsk port (out, ThreadMove w) (hmem s, nview s, t))"
proof -
  let ?x = "xth t"
  have xok: "xdp_ok ?x" "xpush t = PushIdle" using ok pc by (simp_all add: xdp_calls_ok_def)
  have nd: "\<not> xdone ?x" using in_call_not_done [OF xok(1)] pc by simp
  then have b: "in_batch ?x (Suc (xi ?x))" "within ?x off len" using xdp_okD(3) [OF xok(1)] pc by (simp_all add: batch_ok_def)
  have copy: "xdp_ok (?x\<lparr>xpc := XdpCopy i off len\<rparr>)" for i
    by (rule xdp_pc_ok [OF xok(1) nd]) (use b pc in \<open>simp_all add: batch_ok_def in_batch_def within_def\<close>)
  have nxt: "xdp_ok (xdp_next (?x\<lparr>xstats := st\<rparr>))" for st by (rule xdp_next_ok(1) [OF xok(1) nd b(1)]) (simp add: pc)
  have "hnpc s = FeedAcquire (xpool t)" using ph pc nd by (simp add: xdp_handover_def)
  then show ?thesis using pc
    by (simp add: xdp_access_def Let_def split del: if_split) (rule net_ok_acquire [OF inv],
      use pc nd xok copy nxt in \<open>auto simp: xdp_handover_def xdp_calls_ok_def split: call.split\<close>)
qed

lemma xdp_drop_ok:
  assumes inv: "hinv s F" and ph: "hnpc s = xdp_handover t" and ok: "xdp_calls_ok (hmem s) t" and pc: "xpc (xth t) = XdpDrop i"
  shows "net_ok xdp_handover xdp_calls_ok s (xdp_access kern xsk port (out, ThreadMove w) (hmem s, nview s, t))"
proof -
  let ?x = "xth t"
  have xok: "xdp_ok ?x" "xpush t = PushIdle" using ok pc by (simp_all add: xdp_calls_ok_def)
  have nd: "\<not> xdone ?x" using in_call_not_done [OF xok(1)] pc by simp
  then have b: "in_batch ?x (Suc (xi ?x))" using xdp_okD(3) [OF xok(1)] pc by (simp add: batch_ok_def)
  have nxt: "xdp_ok (xdp_next (?x\<lparr>xstats := st\<rparr>))" for st by (rule xdp_next_ok(1) [OF xok(1) nd b]) (simp add: pc)
  have "hnpc s = FeedRelease i Continue (xpool t)" using ph pc nd by (simp add: xdp_handover_def)
  then show ?thesis using pc
    by (simp add: xdp_access_def Let_def) (rule net_ok_release [OF inv],
      use pc nd xok nxt in \<open>auto simp: xdp_handover_def xdp_calls_ok_def after_pc_def split: call.split\<close>)
qed

lemma xdp_push_ok:
  assumes inv: "hinv s F" and ph: "hnpc s = xdp_handover t" and ok: "xdp_calls_ok (hmem s) t" and pc: "xpc (xth t) = XdpPush i"
  shows "net_ok xdp_handover xdp_calls_ok s (xdp_access kern xsk port (out, ThreadMove w) (hmem s, nview s, t))"
proof -
  let ?x = "xth t"
  have xok: "xdp_ok ?x" "xpool t = PoolIdle" using ok pc by (simp_all add: xdp_calls_ok_def)
  have nd: "\<not> xdone ?x" using in_call_not_done [OF xok(1)] pc by simp
  then have b: "in_batch ?x (Suc (xi ?x))" using xdp_okD(3) [OF xok(1)] pc by (simp add: batch_ok_def)
  have drp: "xdp_ok (?x\<lparr>xpc := XdpDrop i\<rparr>)"
    by (rule xdp_pc_ok [OF xok(1) nd]) (use b pc in \<open>simp_all add: batch_ok_def in_batch_def\<close>)
  have nxt: "xdp_ok (xdp_next ?x)" by (rule xdp_next_ok(2) [OF xok(1) nd b]) (simp add: pc)
  have "hnpc s = FeedPush i (xwire ?x) (xpush t)" using ph pc nd by (simp add: xdp_handover_def)
  then show ?thesis using pc
    by (simp add: xdp_access_def xdp_push_def Let_def split del: if_split) (rule net_ok_push [OF inv],
      use pc nd xok drp nxt in \<open>auto simp: xdp_handover_def xdp_calls_ok_def split: call.split\<close>)
qed

lemma xdp_sentinel_ok:
  assumes inv: "hinv s F" and ph: "hnpc s = xdp_handover t" and ok: "xdp_calls_ok (hmem s) t" and pc: "xpc (xth t) = XdpSentinel"
  shows "net_ok xdp_handover xdp_calls_ok s (xdp_access kern xsk port (out, ThreadMove w) (hmem s, nview s, t))"
proof -
  let ?x = "xth t"
  have xok: "xdp_ok ?x" "xpool t = PoolIdle" using ok pc by (simp_all add: xdp_calls_ok_def)
  have nd: "\<not> xdone ?x" using in_call_not_done [OF xok(1)] pc by simp
  have fin: "xdp_ok (?x\<lparr>xpc := XdpRelease, xdone := True\<rparr>)" using xdp_okD(1,2) [OF xok(1)] by (simp add: xdp_ok_def)
  have "hnpc s = FeedSentinel (xwire ?x) (xpush t)" using ph pc nd by (simp add: xdp_handover_def)
  then show ?thesis using pc
    by (simp add: xdp_access_def xdp_push_def Let_def split del: if_split) (rule net_ok_sentinel [OF inv, where stop = "ostop out"],
      use pc nd xok fin in \<open>auto simp: xdp_handover_def xdp_calls_ok_def split: call.split\<close>)
qed

lemma xdp_access_ok:
  assumes inv: "hinv s F" and ph: "hnpc s = xdp_handover t" and ok: "xdp_calls_ok (hmem s) t" and xsk: "xsk_ok xsk"
    and set: "\<not> reads_unset xsk (xth t)"
  shows "net_ok xdp_handover xdp_calls_ok s (xdp_access kern xsk port (out, ThreadMove w) (hmem s, nview s, t))"
proof -
  let ?x = "xth t"
  have xok: "xdp_ok ?x" using ok by (simp add: xdp_calls_ok_def)
  have top: "hnpc s = (if xdone ?x then FeedDone else FeedTop)" "xpool t = PoolIdle" "xpush t = PushIdle"
    if "xpc ?x \<in> {XdpTop, XdpRelease, XdpRefill}" using that ph ok by (auto simp: xdp_handover_def xdp_calls_ok_def)
  have goes: "net_ok xdp_handover xdp_calls_ok s (Some (hmem s, nview s, t\<lparr>xth := x'\<rparr>, []))"
    if "xpc ?x \<in> {XdpTop, XdpRelease, XdpRefill}" "xdp_ok x'" "xdone x' = xdone ?x" "xpc x' \<in> {XdpTop, XdpFrame, XdpRefill, XdpDone}" for x'
    using xdp_goes_on [OF inv _ that(2) top(2,3)] xdp_winds_up [OF inv _ that(2) top(2,3)] top(1) that by (cases "xdone ?x") auto
  show ?thesis
  proof (cases "xpc ?x")
    case XdpTop
    have "xpc (xdp_poll xsk (ostop out) w ?x) \<in> {XdpTop, XdpFrame, XdpDone}" "xdone (xdp_poll xsk (ostop out) w ?x) = xdone ?x"
      using XdpTop by (simp_all add: xdp_poll_def Let_def)
    then show ?thesis using goes [OF _ xdp_poll_ok [OF xok XdpTop xsk]] XdpTop by (auto simp: xdp_access_def Let_def)
  next
    case XdpFrame
    obtain x' where x': "xdp_desc_step port ?x = Some x'" "xdp_ok x'" "\<not> xdone x'"
      "xpc x' \<in> {XdpFrame, XdpRelease, XdpSentinel} \<or> (\<exists>off len. xpc x' = XdpAcquire off len)" by (rule xdp_desc_calls [OF xok XdpFrame])
    have "hnpc s = FeedTop" "xpool t = PoolIdle" "xpush t = PushIdle"
      using ph ok XdpFrame in_call_not_done [OF xok] by (auto simp: xdp_handover_def xdp_calls_ok_def)
    from xdp_goes_on [OF inv this(1) x'(2) this(2,3)] x'(1,4) XdpFrame show ?thesis by (auto simp: xdp_access_def Let_def)
  next
    case (XdpCopy i off len)
    then have "hnpc s = FeedHold i" using ph in_call_not_done [OF xok] by (simp add: xdp_handover_def)
    from xdp_fill_ok [OF inv this ok XdpCopy] XdpCopy show ?thesis by (simp add: xdp_access_def Let_def)
  next
    case XdpRelease
    then show ?thesis using goes [OF _ xdp_release_ok [OF xok XdpRelease]] by (simp add: xdp_access_def Let_def)
  next
    case XdpRefill
    obtain x' where x': "xdp_refill xsk ?x = Some x'" "xdp_ok x'" "xpc x' = XdpTop" "xdone x' = xdone ?x"
      using xdp_refill_ok(2) [OF xok XdpRefill xsk set] by auto
    then show ?thesis using goes [OF _ x'(2)] XdpRefill by (simp add: xdp_access_def Let_def)
  next
    case XdpDone
    then show ?thesis using net_rests [where phase = xdp_handover and ok = xdp_calls_ok, OF inv ph ok] by (simp add: xdp_access_def Let_def)
  qed (rule xdp_acquire_ok [OF inv ph ok] xdp_drop_ok [OF inv ph ok] xdp_push_ok [OF inv ph ok] xdp_sentinel_ok [OF inv ph ok], assumption)+
qed

lemma xdp_memory_feed:
  assumes "kernel_ok kern" and "xsk_ok xsk"
  shows "memory_feed (xdp_access kern xsk port) xdp_handover xdp_calls_ok (\<lambda>t. reads_unset xsk (xth t))"
proof
  show "xdp_access kern xsk port inp (hmem s, nview s, t) = None \<and> reads_unset xsk (xth t) \<or>
      net_ok xdp_handover xdp_calls_ok s (xdp_access kern xsk port inp (hmem s, nview s, t))"
    if h: "hinv s F" "hnpc s = xdp_handover t" "xdp_calls_ok (hmem s) t" for s F t inp
  proof -
    obtain out mv where inp: "inp = (out, mv)" by (cases inp)
    have "xdp_access kern xsk port (out, ThreadMove w) (hmem s, nview s, t) = None" if "reads_unset xsk (xth t)" for w
      using that xdp_refill_ok(1) [OF _ _ assms(2) that] h(3) by (simp add: reads_unset_def xdp_access_def xdp_calls_ok_def Let_def)
    then show ?thesis using xdp_access_ok [OF h assms(2)] xdp_kernel_ok [OF h assms(1)] by (cases mv) (simp_all add: inp, blast)
  qed
qed (simp add: xdp_calls_ok_def)

section \<open>Properties\<close>

text \<open>C12: The same of the AF_XDP thread, with the kernel moving frames at any time: in every execution on the memory of the C++
  standard, access by access, the thread makes no racing or out-of-range access to ring, pool, packet buffers, frames or its address
  array, its only undefined one being a read of addresses it never saved, after the end of the session; the
  matching thread is undefined only where the engine is on the packet it read; it has read exactly a prefix of the packets pushed, in
  order and as they were pushed; the engine is in the state that processing them gives; and until the end of the session every frame
  of the shared area has one owner.\<close>

theorem memory_xdp_in_order:
  assumes "kernel_ok kern" and "xsk_ok xsk"
    and "SpscRing_new v0 ringSlots = Some r" and "PacketPool_new n = Some p" and "n \<le> unat kPoolInvalid"
    and "udp_executes (xdp_access kern xsk port) clk
      (UdpThreads_new r p (XdpCalls_new (if setup_ok then Some Umem_new else None)) st0) u"
  shows "(xdp_access kern xsk port inp (umem u, usview u, unet u) = None \<longrightarrow> reads_unset xsk (xth (unet u))) \<and>
    (cons_access clk out u = None \<longrightarrow> (\<exists>ref. ucpc u = ConsPacket ref \<and>
       consume_packet clk (packet_in (umem u) (refIdx ref)) (tWireCycles ref) (uest u) = None)) \<and>
    uused u = take (length (uused u)) (upushed u) \<and>
    process_all clk (packets (uused u)) st0 = Some (case ucpc u of ConsThrown x ref \<Rightarrow> Inl x | _ \<Rightarrow> Inr (uest u)) \<and>
    (xdone (xth (unet u)) \<or> distinct (umem_frames (xumem (xth (unet u))) (returning (xth (unet u)))) \<and>
       set (umem_frames (xumem (xth (unet u))) (returning (xth (unet u)))) = {..<kNumFrames})"
proof -
  let ?t = "XdpCalls_new (if setup_ok then Some Umem_new else None)" and ?x = "xth (unet u)"
  have ph: "xdp_handover ?t = FeedTop \<or> xdp_handover ?t = FeedDone" "xdp_calls_ok m ?t" for m
    using xdp_ok_new [of setup_ok]
    by (simp_all add: xdp_handover_def xdp_calls_ok_def XdpCalls_new_def XdpThread_new_def)
  note F = xdp_memory_feed [OF assms(1,2)]
  have "xdp_ok ?x" using memory_feed.reached(2) [OF F assms(3-5) ph assms(6)] by (simp add: xdp_calls_ok_def)
  then have "xdone ?x \<or> distinct (umem_frames (xumem ?x) (returning ?x)) \<and> set (umem_frames (xumem ?x) (returning ?x)) = {..<kNumFrames}"
    using xdp_okD(3) umem_okD(2,3) by blast
  then show ?thesis using memory_feed.in_order [OF F assms(3-5) ph assms(6), of inp out] by blast
qed

text \<open>The kernel delivers a frame, the thread finds it.\<close>

lemma xdp_finds_frame:
  "\<exists>u. net_run (xdp_access receive_move counting_xsk 9)
      [(out, KernelMove (Umem_new\<lparr>fillq := tl (fillq Umem_new), rxq := [\<lparr>daddr = 0, dlen = 60\<rparr>]\<rparr>)), (\<lparr>oback = 0, ofails = False, ostop = False\<rparr>, ThreadMove 5)]
      (UdpThreads_new r p (XdpCalls_new (Some Umem_new)) st0) = Some u \<and> xpc (xth (unet u)) = XdpFrame \<and> \<not> xdone (xth (unet u)) \<and> uused u = []"
  using first_received
  by (simp add: xdp_access_def xdp_poll_def counting_xsk_def kBatchSize_def UdpThreads_new_def XdpCalls_new_def XdpThread_new_def Let_def)

theorem memory_xdp_in_order_witness:
  "\<exists>e st u. MatchingEngine_sized 4 = Some e \<and> st = (e, no_output, 0) \<and>
     udp_executes (xdp_access receive_move counting_xsk 9) (\<lambda>n. (5, 9))
       (UdpThreads_new ring2 pool2 (XdpCalls_new (if True then Some Umem_new else None)) st) u \<and>
     xpc (xth (unet u)) = XdpFrame \<and> distinct (umem_frames (xumem (xth (unet u))) (returning (xth (unet u))))"
proof -
  obtain e where e: "MatchingEngine_sized 4 = Some e" by (simp add: MatchingEngine_sized_def FlatHashMap_new_def)
  let ?st = "(e, no_output, 0)" and ?t = "XdpCalls_new (if True then Some Umem_new else None)"
  obtain inps u where u: "net_run (xdp_access receive_move counting_xsk 9) inps (UdpThreads_new ring2 pool2 ?t ?st) = Some u"
    "xpc (xth (unet u)) = XdpFrame" "\<not> xdone (xth (unet u))"
    using xdp_finds_frame by (metis (full_types))
  have ex: "udp_executes (xdp_access receive_move counting_xsk 9) (\<lambda>n. (5, 9)) (UdpThreads_new ring2 pool2 ?t ?st) u"
    using net_run_executes [OF udp_executes.init u(1)] .
  have "2 \<le> unat kPoolInvalid" by (simp add: kPoolInvalid_def)
  from memory_xdp_in_order [OF receive_move_ok counting_xsk_ok ring2_new pool2_new this ex] show ?thesis
    using e ex u(2,3) by blast
qed

end
