(* ===== verification/Market_Invariants.thy ===== *)
theory Market_Invariants
  imports Engine_Run
begin

text \<open>
  Invariants of the state machine of the engine (\<^verbatim>\<open>src/matching_engine.cpp\<close>), by rule induction:
  both sides of every book are in price-time priority, no book is crossed, no resting order is
  empty; and, when references are fresh, the index holds exactly the resting orders.  Shares are
  conserved by every match.
\<close>

section \<open>Conservation of shares\<close>

definition total :: "('i \<times> Order) list \<Rightarrow> nat" where
  "total qs = sum_list (map (\<lambda>e. unat (shares (snd e))) qs)"

definition traded :: "ItchOrderExecuted list \<Rightarrow> nat" where
  "traded es = sum_list (map (\<lambda>x. unat (executed_shares x)) es)"

lemma total_simps [simp]: "total [] = 0" "total (e # qs) = unat (shares (snd e)) + total qs"
  by (simp_all add: total_def)

lemma traded_simps [simp]: "traded [] = 0" "traded (x # es) = unat (executed_shares x) + traded es"
  by (simp_all add: traded_def)

lemma unat_sub_le: "(a :: 'a::len word) \<le> b \<Longrightarrow> unat (b - a) + unat a = unat b"
  by (simp add: unat_sub word_le_nat_alt)

text \<open>Every share that trades leaves the incoming order and the entries, once each.\<close>

lemma match_conserves:
  assumes "match_against b ord qs = (ord', qs', rs, es)"
  shows "unat (shares ord) = unat (shares ord') + traded es" "total qs = total qs' + traded es"
proof -
  have "unat (shares ord) = unat (shares ord') + traded es \<and> total qs = total qs' + traded es"
    using assms
  proof (induction b ord qs arbitrary: ord' qs' rs es rule: match_against.induct)
    case (2 b ord x r qs)
    show ?case
    proof (cases "shares ord = 0 \<or> \<not> crosses b (price ord) (price r)")
      case True
      with 2 show ?thesis by auto
    next
      case cr: False
      show ?thesis
      proof (cases "shares r \<le> shares ord")
        case True
        obtain o1 q1 r1 e1 where m: "match_against b (ord\<lparr>shares := shares ord - shares r\<rparr>) qs = (o1, q1, r1, e1)"
          by (metis prod_cases4)
        then have eq: "ord' = o1" "qs' = q1" "es = executedOrder (order_ref r) (shares r) # e1"
          using 2(2) cr True by auto
        show ?thesis
          using 2(1) [OF cr True m] unat_sub_le [OF True] by (simp add: eq executedOrder_def)
      next
        case False
        then have eq: "ord' = ord\<lparr>shares := 0\<rparr>" "qs' = (x, r\<lparr>shares := shares r - shares ord\<rparr>) # qs"
          "es = [executedOrder (order_ref r) (shares ord)]" using 2(2) cr by auto
        have "shares ord \<le> shares r" using False by simp
        from unat_sub_le [OF this] show ?thesis by (simp add: eq executedOrder_def)
      qed
    qed
  qed simp
  then show "unat (shares ord) = unat (shares ord') + traded es" "total qs = total qs' + traded es" by simp_all
qed

section \<open>Priority and the spread\<close>

definition side_sorted :: "bool \<Rightarrow> ('i \<times> Order) list \<Rightarrow> bool" where
  "side_sorted b qs \<longleftrightarrow> prioritised (better b) (\<lambda>e. price (snd e)) qs"

text \<open>No resting bid reaches a resting ask.\<close>

definition uncrossed :: "'i book \<Rightarrow> bool" where
  "uncrossed q \<longleftrightarrow> (\<forall>x \<in> set (fst q). \<forall>y \<in> set (snd q). price (snd x) < price (snd y))"

definition book_ok :: "'i book \<Rightarrow> bool" where
  "book_ok q \<longleftrightarrow> side_sorted True (fst q) \<and> side_sorted False (snd q) \<and> uncrossed q \<and>
     (\<forall>e \<in> resting q. 0 < shares (snd e))"

lemma uncrossed_prices: "uncrossed q \<longleftrightarrow> (\<forall>p \<in> set (map (\<lambda>e. price (snd e)) (fst q)).
    \<forall>p' \<in> set (map (\<lambda>e. price (snd e)) (snd q)). p < p')"
  by (simp add: uncrossed_def)

text \<open>Prices of the survivors are prices of the entries, and the order of prices is kept.\<close>

lemma match_prices:
  assumes "match_against b ord qs = (ord', qs', rs, es)"
  shows "map (\<lambda>e. price (snd e)) qs' = drop (length rs) (map (\<lambda>e. price (snd e)) qs)"
  using assms by (induction b ord qs arbitrary: ord' qs' rs es rule: match_against.induct)
    (auto split: if_splits prod.splits)

lemma match_positive:
  assumes "match_against b ord qs = (ord', qs', rs, es)" and "\<forall>e \<in> set qs. 0 < shares (snd e)"
  shows "\<forall>e \<in> set qs'. 0 < shares (snd e)"
  using assms
proof (induction b ord qs arbitrary: ord' qs' rs es rule: match_against.induct)
  case (2 b ord x r qs)
  have "0 < shares r - shares ord" if "\<not> shares r \<le> shares ord"
    using that by (simp add: word_neq_0_conv [symmetric])
  with 2 show ?case by (auto split: if_splits prod.splits)
qed simp

lemma crosses_mono: "\<not> crosses b limit p \<Longrightarrow> \<not> better b q p \<Longrightarrow> \<not> crosses b limit q"
  unfolding crosses_def better_def by (cases b) auto

text \<open>What is left after matching does not cross what is left of the order, if anything is.\<close>

lemma match_complete:
  assumes "match_against b ord qs = (ord', qs', rs, es)" and "side_sorted b qs" and "0 < shares ord'"
  shows "\<forall>e \<in> set qs'. \<not> crosses b (price ord) (price (snd e))"
  using assms
proof (induction b ord qs arbitrary: ord' qs' rs es rule: match_against.induct)
  case (2 b ord x r qs)
  show ?case
  proof (cases "shares ord = 0 \<or> \<not> crosses b (price ord) (price r)")
    case True
    then have eq: "ord' = ord" "qs' = (x, r) # qs" using 2(2) by auto
    then have nc: "\<not> crosses b (price ord) (price r)" using True 2(4) by auto
    have "\<not> better b (price (snd e)) (price r)" if "e \<in> set qs" for e
      using 2(3) that by (auto simp: side_sorted_def prioritised_Cons)
    with nc crosses_mono show ?thesis unfolding eq by fastforce
  next
    case cr: False
    show ?thesis
    proof (cases "shares r \<le> shares ord")
      case True
      obtain o1 q1 r1 e1 where m: "match_against b (ord\<lparr>shares := shares ord - shares r\<rparr>) qs = (o1, q1, r1, e1)"
        by (metis prod_cases4)
      then have eq: "ord' = o1" "qs' = q1" using 2(2) cr True by auto
      have "side_sorted b qs" using 2(3) by (simp add: side_sorted_def prioritised_Cons)
      then show ?thesis using 2(1) [OF cr True m] 2(4) by (simp add: eq)
    next
      case False
      then show ?thesis using 2(2,4) cr by auto
    qed
  qed
qed simp

lemma side_sorted_drop: "map (\<lambda>e. price (snd e)) qs' = drop n (map (\<lambda>e. price (snd e)) qs) \<Longrightarrow>
    side_sorted b qs \<Longrightarrow> side_sorted b qs'"
  by (simp add: side_sorted_def prioritised_prices sorted_wrt_drop)

lemma side_sorted_rest: "side_sorted b qs \<Longrightarrow> side_sorted b (rest_order b i ord qs)"
  by (simp add: side_sorted_def rest_order_def prio.rest_in_prioritised)

text \<open>A bid and an ask that do not trade with each other are apart in price.\<close>

lemma not_crosses: "\<not> crosses b p q \<longleftrightarrow> (if b then q < p else p < q)"
  by (auto simp: crosses_def)

lemma book_ok_handle:
  assumes ok: "book_ok q" and h: "handle_spec i ord q = (ord', q', rs, es)"
  shows "book_ok q'"
proof -
  obtain bq aq where q: "q = (bq, aq)" by (cases q)
  have srt: "side_sorted True bq" "side_sorted False aq"
    and un: "\<And>x y. x \<in> set bq \<Longrightarrow> y \<in> set aq \<Longrightarrow> price (snd x) < price (snd y)"
    and pos: "\<forall>e \<in> set bq. 0 < shares (snd e)" "\<forall>e \<in> set aq. 0 < shares (snd e)"
    using ok by (auto simp: book_ok_def uncrossed_def resting_def q)
  have sub: "price (snd e) \<in> (\<lambda>e. price (snd e)) ` set qs"
    if "match_against b ord qs = (ord', qs', rs, es)" "e \<in> set qs'" for b and qs qs' :: "('a \<times> Order) list" and e
    using arg_cong [OF match_prices [OF that(1)], of set] that(2) set_drop_subset by fastforce
  show ?thesis
  proof (cases "buySellIndicator ord = ch_B")
    case True
    obtain o1 a1 r1 e1 where m: "match_against False ord aq = (o1, a1, r1, e1)" by (metis prod_cases4)
    have eq: "o1 = ord'" "r1 = rs" "e1 = es" "q' = (rest_order True i ord' bq, a1)"
      using h m True by (auto simp: handle_spec_def q)
    note m = m [unfolded eq]
    have "price (snd x) < price (snd y)" if x: "x \<in> set (rest_order True i ord' bq)" and y: "y \<in> set a1" for x y
    proof (cases "x \<in> set bq")
      case True
      obtain y' where "y' \<in> set aq" "price (snd y) = price (snd y')" using sub [OF m y] by blast
      with un [OF True] show ?thesis by simp
    next
      case False
      then have "x = (i, ord')" "0 < shares ord'" using x by (auto simp: set_rest_order split: if_splits)
      then show ?thesis
        using match_complete [OF m srt(2)] y match_keeps_fields(1) [OF m] by (auto simp: not_crosses)
    qed
    moreover have "side_sorted False a1" by (rule side_sorted_drop [OF match_prices [OF m] srt(2)])
    moreover have "\<forall>e \<in> set (rest_order True i ord' bq) \<union> set a1. 0 < shares (snd e)"
      using match_positive [OF m pos(2)] pos(1) by (auto simp: set_rest_order)
    ultimately show ?thesis
      using side_sorted_rest [OF srt(1)] by (auto simp: book_ok_def eq uncrossed_def resting_def)
  next
    case False
    obtain o1 b1 r1 e1 where m: "match_against True ord bq = (o1, b1, r1, e1)" by (metis prod_cases4)
    have eq: "o1 = ord'" "r1 = rs" "e1 = es" "q' = (b1, rest_order False i ord' aq)"
      using h m False by (auto simp: handle_spec_def q)
    note m = m [unfolded eq]
    have "price (snd x) < price (snd y)" if x: "x \<in> set b1" and y: "y \<in> set (rest_order False i ord' aq)" for x y
    proof (cases "y \<in> set aq")
      case True
      obtain x' where "x' \<in> set bq" "price (snd x) = price (snd x')" using sub [OF m x] by blast
      with un [OF _ True] show ?thesis by simp
    next
      case False
      then have "y = (i, ord')" "0 < shares ord'" using y by (auto simp: set_rest_order split: if_splits)
      then show ?thesis
        using match_complete [OF m srt(1)] x match_keeps_fields(1) [OF m] by (auto simp: not_crosses)
    qed
    moreover have "side_sorted True b1" by (rule side_sorted_drop [OF match_prices [OF m] srt(1)])
    moreover have "\<forall>e \<in> set b1 \<union> set (rest_order False i ord' aq). 0 < shares (snd e)"
      using match_positive [OF m pos(1)] pos(2) by (auto simp: set_rest_order)
    ultimately show ?thesis
      using side_sorted_rest [OF srt(2)] by (auto simp: book_ok_def eq uncrossed_def resting_def)
  qed
qed

lemma book_ok_drop: "book_ok q \<Longrightarrow> book_ok (drop_book x q)"
  by (cases q) (auto simp: book_ok_def drop_book_def drop_entry_def side_sorted_def prioritised_filter
      uncrossed_def resting_def)

lemma book_ok_set:
  assumes ok: "book_ok q" and dst: "distinct (map fst (fst q @ snd q))" and x: "(x, r) \<in> resting q"
    and r': "price r' = price r" "0 < shares r'"
  shows "book_ok (set_book x r' q)"
proof -
  have uniq: "snd e = r" if "e \<in> resting q" "fst e = x" for e
  proof -
    have "(x, snd e) \<in> set (fst q @ snd q)" "(x, r) \<in> set (fst q @ snd q)"
      using that x by (auto simp: resting_def)
    then show ?thesis by (rule eq_key_imp_eq_value [OF dst])
  qed
  have pr: "price (snd (if fst e = x then (x, r') else e)) = price (snd e)" if "e \<in> resting q" for e
    using uniq [OF that] r'(1) by auto
  then have maps: "map (\<lambda>e. price (snd e)) (set_entry x r' qs) = map (\<lambda>e. price (snd e)) qs"
    if "set qs \<subseteq> resting q" for qs
    using that unfolding set_entry_def map_map by (intro map_cong refl) (simp only: o_def subset_iff)
  have "side_sorted True (set_entry x r' (fst q))" "side_sorted False (set_entry x r' (snd q))"
    using ok maps [of "fst q"] maps [of "snd q"]
    by (simp_all add: book_ok_def side_sorted_def prioritised_prices resting_def)
  moreover have "uncrossed (set_book x r' q)"
    using ok maps [of "fst q"] maps [of "snd q"] unfolding book_ok_def uncrossed_prices
    by (simp add: set_book_def resting_def del: set_map)
  moreover have "\<forall>e \<in> resting (set_book x r' q). 0 < shares (snd e)"
    using ok r'(2) unfolding resting_set_book book_ok_def by auto
  ultimately show ?thesis by (simp add: book_ok_def set_book_def)
qed

section \<open>Every book of the engine, at every moment\<close>

definition market_ok :: "machine \<times> EngineScratch \<Rightarrow> bool" where
  "market_ok st \<longleftrightarrow> slots_ok (snd (fst st)) \<and> (\<forall>l. book_ok (snd (fst st) l))"

lemma slots_ok_book: "slots_ok Q \<Longrightarrow> distinct (map fst (fst (Q l) @ snd (Q l)))"
  by (simp add: slots_ok_def)

lemma slots_ok_shrink:
  assumes "slots_ok Q" and "own q \<subseteq> own (Q l)" and "distinct (map fst (fst q @ snd q))"
  shows "slots_ok (Q(l := q))"
  using assms unfolding slots_ok_def by (auto simp: disjoint_iff subset_iff)

lemma distinct_drop_book: "distinct (map fst (fst q @ snd q)) \<Longrightarrow>
    distinct (map fst (fst (drop_book x q) @ snd (drop_book x q)))"
  by (cases q) (auto simp: drop_book_def drop_entry_def distinct_map_filter)

lemma distinct_set_book: "distinct (map fst (fst q @ snd q)) \<Longrightarrow>
    distinct (map fst (fst (set_book x r q) @ snd (set_book x r q)))"
  by (cases q) (simp add: set_book_def)

lemma market_ok_step: "engine_step st msg st' \<Longrightarrow> market_ok st \<Longrightarrow> market_ok st'"
proof (induction rule: engine_step.induct)
  case (add i ord Q l ord' q' rs es m s)
  then show ?case using book_ok_handle [OF _ add(1)] by (simp add: market_ok_def)
next
  case (delete m ref loc Q s)
  then show ?case
    using slots_ok_shrink [of Q "drop_book (poolIdx loc) (Q (stockLocate loc))" "stockLocate loc"]
      distinct_drop_book slots_ok_book [of Q] by (auto simp: market_ok_def book_ok_drop own_drop_book)
next
  case (reduce_all m ref loc ord Q n s)
  then show ?case
    using slots_ok_shrink [of Q "drop_book (poolIdx loc) (Q (stockLocate loc))" "stockLocate loc"]
      distinct_drop_book slots_ok_book [of Q] by (auto simp: market_ok_def book_ok_drop own_drop_book)
next
  case (reduce m ref loc ord Q n s)
  let ?l = "stockLocate loc" and ?r = "ord\<lparr>shares := shares ord - n\<rparr>"
  have Q: "slots_ok Q" "\<And>l. book_ok (Q l)" using reduce.prems by (auto simp: market_ok_def)
  have "0 < shares ?r" using reduce.hyps(3) by (simp add: word_neq_0_conv [symmetric])
  then have "book_ok (set_book (poolIdx loc) ?r (Q ?l))"
    using book_ok_set [OF Q(2) slots_ok_book [OF Q(1)] reduce.hyps(2)] by simp
  moreover have "slots_ok (Q(?l := set_book (poolIdx loc) ?r (Q ?l)))"
    by (rule slots_ok_shrink [OF Q(1) _ distinct_set_book [OF slots_ok_book [OF Q(1)]]]) simp
  ultimately show ?case using Q by (simp add: market_ok_def)
next
  case (replace m ref loc ord Q s ref' n p st')
  have Q: "slots_ok Q" "\<And>l. book_ok (Q l)" using replace.prems by (auto simp: market_ok_def)
  have "slots_ok (Q(stockLocate loc := drop_book (poolIdx loc) (Q (stockLocate loc))))"
    by (rule slots_ok_shrink [OF Q(1) _ distinct_drop_book [OF slots_ok_book [OF Q(1)]]]) (auto simp: own_drop_book)
  then show ?case using Q by (intro replace.IH) (simp add: market_ok_def book_ok_drop)
qed auto

section \<open>The index holds every resting order\<close>

definition index_complete :: "machine \<Rightarrow> bool" where
  "index_complete = (\<lambda>(m, Q). \<forall>l x ord. (x, ord) \<in> resting (Q l) \<longrightarrow>
     m (order_ref ord) = Some \<lparr>stockLocate = l, poolIdx = x\<rparr>)"

lemma index_completeD: "index_complete (m, Q) \<Longrightarrow> (x, ord) \<in> resting (Q l) \<Longrightarrow>
    m (order_ref ord) = Some \<lparr>stockLocate = l, poolIdx = x\<rparr>"
  by (simp add: index_complete_def)

text \<open>The references a message introduces.\<close>

fun new_refs :: "message \<Rightarrow> u64 list" where
  "new_refs (AddMsg l ord) = [order_ref ord]"
| "new_refs (ReplaceMsg ref ref' n p) = [ref']"
| "new_refs _ = []"

definition fresh :: "(u64 \<rightharpoonup> OrderLocation) \<Rightarrow> message \<Rightarrow> bool" where
  "fresh m msg \<longleftrightarrow> EMPTY \<notin> set (new_refs msg) \<and> dom m \<inter> set (new_refs msg) = {}"

lemma index_complete_handle:
  assumes c: "index_complete (m, Q)" and h: "handle_spec i ord (Q l) = (ord', q', rs, es)"
    and idx: "i = INVALID_INDEX \<longleftrightarrow> shares ord' = 0" and sl: "slots_ok Q"
    and new: "order_ref ord \<notin> dom m" "order_ref ord \<noteq> EMPTY"
  shows "index_complete (index_after m (order_ref ord) l i rs, Q(l := q'))"
  unfolding index_complete_def split_conv
proof (intro allI impI)
  let ?m = "index_after m (order_ref ord) l i rs"
  have keep: "?m (order_ref r) = m (order_ref r)" if "m (order_ref r) = Some loc" "order_ref r \<notin> set rs" for r loc
    using that new(1) by (auto simp: index_after_def restrict_map_def)
  fix k x r' assume x: "(x, r') \<in> resting ((Q(l := q')) k)"
  show "?m (order_ref r') = Some \<lparr>stockLocate = k, poolIdx = x\<rparr>"
  proof (rule handle_cases [OF h])
    fix b qs qs' ts
    assume m: "match_against b ord qs = (ord', qs', rs, es)" and q: "resting (Q l) = set qs \<union> set ts"
      "resting q' = set qs' \<union> set (rest_order (\<not> b) i ord' ts)"
      and dst: "distinct (map fst (fst (Q l) @ snd (Q l))) \<Longrightarrow> distinct (map fst (qs @ ts))"
    note dst = dst [OF slots_ok_book [OF sl]]
    let ?gone = "take (length rs) qs"
    have rs: "set rs = (\<lambda>e. order_ref (snd e)) ` set ?gone"
      using arg_cong [OF match_slots(2) [OF m], of set] by simp
    have notgone: "order_ref r \<notin> set rs" if "m (order_ref r) = Some \<lparr>stockLocate = k', poolIdx = y\<rparr>"
      "k' = l \<Longrightarrow> y \<notin> fst ` set ?gone" for r k' y
    proof
      assume "order_ref r \<in> set rs"
      then obtain z r2 where z: "(z, r2) \<in> set ?gone" "order_ref r2 = order_ref r" by (auto simp: rs)
      then have "(z, r2) \<in> resting (Q l)" using q(1) in_set_takeD by fastforce
      then have "m (order_ref r) = Some \<lparr>stockLocate = l, poolIdx = z\<rparr>"
        using index_completeD [OF c] z(2) by metis
      with that z(1) show False by (auto simp: rev_image_eqI)
    qed
    have dst2: "distinct (map fst ?gone @ map fst qs')" "set (map fst ?gone) \<inter> fst ` set ts = {}"
    proof -
      have "map fst ?gone @ map fst qs' = map fst qs"
        unfolding match_slots(1) [OF m] by (simp add: take_map [symmetric])
      then show "distinct (map fst ?gone @ map fst qs')" using dst by simp
      show "set (map fst ?gone) \<inter> fst ` set ts = {}" using dst by (auto dest: in_set_takeD)
    qed
    consider (other) "k \<noteq> l" | (survivor) "k = l" "(x, r') \<in> set qs'" | (across) "k = l" "(x, r') \<in> set ts"
      | (fresh) "k = l" "x = i" "r' = ord'" "0 < shares ord'"
      using x q(2) by (auto simp: set_rest_order split: if_splits)
    then show ?thesis
    proof cases
      case other
      then have "m (order_ref r') = Some \<lparr>stockLocate = k, poolIdx = x\<rparr>" using index_completeD [OF c] x by simp
      then show ?thesis using keep notgone other by metis
    next
      case survivor
      obtain r where r: "(x, r) \<in> set qs" "order_ref r' = order_ref r" using match_origin [OF m survivor(2)] by blast
      have at: "m (order_ref r) = Some \<lparr>stockLocate = l, poolIdx = x\<rparr>" using index_completeD [OF c] r(1) q(1) by blast
      have "x \<in> fst ` set qs'" using survivor(2) by (rule rev_image_eqI) simp
      then have "x \<notin> fst ` set ?gone" using dst2(1) by auto
      then show ?thesis using keep [OF at] notgone [OF at] at r(2) survivor(1) by simp
    next
      case across
      then have at: "m (order_ref r') = Some \<lparr>stockLocate = l, poolIdx = x\<rparr>" using index_completeD [OF c] q(1) by blast
      have "x \<in> fst ` set ts" using across(2) by (rule rev_image_eqI) simp
      then have "x \<notin> fst ` set ?gone" using dst2(2) by auto
      then show ?thesis using keep [OF at] notgone [OF at] at across(1) by simp
    next
      case fresh
      then have "i \<noteq> INVALID_INDEX" using idx by auto
      then show ?thesis using fresh new(2) match_keeps_fields(3) [OF m] by (simp add: index_after_def)
    qed
  qed
qed

lemma index_complete_drop:
  assumes c: "index_complete (m, Q)" and m: "m ref = Some loc"
  shows "index_complete (m(ref := None), Q(stockLocate loc := drop_book (poolIdx loc) (Q (stockLocate loc))))"
  unfolding index_complete_def split_conv
proof (intro allI impI)
  let ?Q = "Q(stockLocate loc := drop_book (poolIdx loc) (Q (stockLocate loc)))"
  fix l x r assume x: "(x, r) \<in> resting (?Q l)"
  then have "(x, r) \<in> resting (Q l)" by (auto simp: resting_drop_book split: if_splits)
  then have at: "m (order_ref r) = Some \<lparr>stockLocate = l, poolIdx = x\<rparr>" by (rule index_completeD [OF c])
  have "order_ref r \<noteq> ref"
  proof
    assume "order_ref r = ref"
    then have "loc = \<lparr>stockLocate = l, poolIdx = x\<rparr>" using at m by simp
    with x show False by (simp add: resting_drop_book)
  qed
  with at show "(m(ref := None)) (order_ref r) = Some \<lparr>stockLocate = l, poolIdx = x\<rparr>" by simp
qed

lemma index_complete_set:
  assumes c: "index_complete (m, Q)" and x: "(x, r) \<in> resting (Q l)" and r': "order_ref r' = order_ref r"
  shows "index_complete (m, Q(l := set_book x r' (Q l)))"
  unfolding index_complete_def split_conv
proof (intro allI impI)
  fix k y s assume "(y, s) \<in> resting ((Q(l := set_book x r' (Q l))) k)"
  then consider "(y, s) \<in> resting (Q k)" | "k = l" "y = x" "s = r'"
    by (auto simp: resting_set_book split: if_splits)
  then show "m (order_ref s) = Some \<lparr>stockLocate = k, poolIdx = y\<rparr>"
    using index_completeD [OF c] x r' by cases metis+
qed

definition tracked :: "machine \<times> EngineScratch \<Rightarrow> bool" where
  "tracked st \<longleftrightarrow> market_ok st \<and> index_complete (fst st)"

lemma index_complete_step:
  "engine_step st msg st' \<Longrightarrow> tracked st \<Longrightarrow> fresh (fst (fst st)) msg \<Longrightarrow> index_complete (fst st')"
proof (induction rule: engine_step.induct)
  case (add i ord Q l ord' q' rs es m s)
  then show ?case
    unfolding fst_conv by (intro index_complete_handle) (auto simp: tracked_def market_ok_def fresh_def)
next
  case (reduce m ref loc ord Q n s)
  then show ?case
    unfolding fst_conv by (intro index_complete_set) (auto simp: tracked_def order_ref_def)
next
  case (replace m ref loc ord Q s ref' n p st')
  let ?Q = "Q(stockLocate loc := drop_book (poolIdx loc) (Q (stockLocate loc)))"
  have "market_ok ((m(ref := None), ?Q), s)"
    using market_ok_step [OF engine_step.delete [where m = m and Q = Q and s = s, OF replace.hyps(1)]] replace.prems(1)
    by (simp add: tracked_def)
  moreover have "index_complete (m(ref := None), ?Q)"
    using replace.prems(1) index_complete_drop [where m = m and ref = ref] replace.hyps(1) by (simp add: tracked_def)
  moreover have "fresh (m(ref := None)) (AddMsg (stockLocate loc) (replacement ref' n p (buySellIndicator ord)))"
    using replace.prems(2) by (auto simp: fresh_def)
  ultimately show ?case by (intro replace.IH) (simp_all add: tracked_def del: fun_upd_apply)
qed (auto simp: tracked_def intro: index_complete_drop)

lemma tracked_step:
  "engine_step st msg st' \<Longrightarrow> tracked st \<Longrightarrow> fresh (fst (fst st)) msg \<Longrightarrow> tracked st'"
  using index_complete_step market_ok_step unfolding tracked_def by blast

lemma engine_step_dom: "engine_step st msg st' \<Longrightarrow> dom (fst (fst st')) \<subseteq> dom (fst (fst st)) \<union> set (new_refs msg)"
proof (induction rule: engine_step.induct)
  case (add i ord Q l ord' q' rs es m s)
  show ?case by (auto simp: index_after_def)
next
  case (replace m ref loc ord Q s ref' n p st')
  have "dom (m(ref := None)) \<subseteq> dom m" by auto
  with replace.IH show ?case unfolding fst_conv new_refs.simps order_ref_replacement by blast
next
  case (delete m ref loc Q s)
  have "dom (m(ref := None)) \<subseteq> dom m" by auto
  then show ?case unfolding fst_conv by blast
next
  case (reduce_all m ref loc ord Q n s)
  have "dom (m(ref := None)) \<subseteq> dom m" by auto
  then show ?case unfolding fst_conv by blast
qed auto

text \<open>A message sequence that never reuses a reference keeps the index exact.\<close>

definition all_new :: "message list \<Rightarrow> u64 list" where
  "all_new msgs = concat (map new_refs msgs)"

lemma tracked_steps:
  assumes "engine_steps st msgs st'" and "tracked st" and "distinct (all_new msgs)" and "EMPTY \<notin> set (all_new msgs)"
    and "dom (fst (fst st)) \<inter> set (all_new msgs) = {}"
  shows "tracked st'"
  using assms
proof (induction rule: engine_steps.induct)
  case (Cons st msg st1 msgs st2)
  have new: "set (all_new (msg # msgs)) = set (new_refs msg) \<union> set (all_new msgs)"
    "set (new_refs msg) \<inter> set (all_new msgs) = {}" "distinct (all_new msgs)"
    using Cons.prems(2) by (simp_all add: all_new_def)
  have "fresh (fst (fst st)) msg" using Cons.prems(3,4) new(1) unfolding fresh_def by blast
  then have "tracked st1" by (rule tracked_step [OF Cons.hyps(1) Cons.prems(1)])
  moreover have "dom (fst (fst st1)) \<inter> set (all_new msgs) = {}"
    using engine_step_dom [OF Cons.hyps(1)] Cons.prems(4) new(1,2) by blast
  ultimately show ?case using Cons.IH new(1,3) Cons.prems(3) by auto
qed

lemma tracked_start: "tracked ((Map.empty, \<lambda>l. ([], [])), s)"
  by (simp add: tracked_def market_ok_def slots_ok_def book_ok_def side_sorted_def uncrossed_def
      index_complete_def resting_def)

section \<open>Who trades\<close>

text \<open>The side an incoming order trades with.\<close>

definition opposite :: "Order \<Rightarrow> 'i book \<Rightarrow> ('i \<times> Order) list" where
  "opposite ord q = (if buySellIndicator ord = ch_B then snd q else fst q)"

lemma handle_match:
  assumes "handle_spec i ord q = (ord', q', rs, es)"
  shows "match_against (buySellIndicator ord \<noteq> ch_B) ord (opposite ord q) = (ord', opposite ord q', rs, es)"
proof -
  obtain o1 q1 r1 e1 where m: "match_against (buySellIndicator ord \<noteq> ch_B) ord (opposite ord q) = (o1, q1, r1, e1)"
    by (metis prod_cases4)
  with assms show ?thesis by (cases q) (auto simp: handle_spec_def opposite_def split: if_splits)
qed

text \<open>Executions name a prefix of the entries, in their order, and only entries the limit reaches.\<close>

lemma match_executions:
  assumes "match_against b ord qs = (ord', qs', rs, es)"
  shows "map order_reference_number es = map (\<lambda>e. order_ref (snd e)) (take (length es) qs) \<and>
    (\<forall>e \<in> set (take (length es) qs). crosses b (price ord) (price (snd e)))"
  using assms by (induction b ord qs arbitrary: ord' qs' rs es rule: match_against.induct)
    (auto simp: executedOrder_def split: if_splits prod.splits)

end
