(* ===== verification/Socket_Pipeline.thy ===== *)
theory Socket_Pipeline
  imports Pipeline
begin

text \<open>
  The socket thread of \<^verbatim>\<open>src/feed_handler.cpp\<close> in the two-thread system of \<^verbatim>\<open>src/engine_udp.cpp\<close>: it keeps the
  contract of a network thread, so that ownership of buffers and order of processing hold in every
  interleaving.
\<close>

section \<open>The thread as a network thread\<close>

definition net_phase :: "NetThread \<Rightarrow> feed_phase" where
  "net_phase t = (case npc t of
      NetRecv i \<Rightarrow> FHold i
    | NetPush i w \<Rightarrow> FPush i w
    | NetDrop i \<Rightarrow> FHold i
    | NetRelease i k \<Rightarrow> FHold i
    | NetDone \<Rightarrow> FDone
    | _ \<Rightarrow> FIdle)"

definition net_heard :: "recv_result \<Rightarrow> NetThread \<Rightarrow> bytes list" where
  "net_heard inp t = (case (npc t, inp) of
      (NetRecv i, Datagram d) \<Rightarrow>
        (if kMoldHeaderBytes \<le> length (take kMaxPacketBytes d) then [take kMaxPacketBytes d] else [])
    | _ \<Rightarrow> [])"

definition net_lost :: "NetThread \<Rightarrow> NetThread \<Rightarrow> bool" where
  "net_lost t t' = (case npc t of NetPush i w \<Rightarrow> npc t' \<noteq> NetTop | _ \<Rightarrow> False)"

definition socket_feed :: "(recv_result \<times> u64, NetThread) Feed" where
  "socket_feed = \<lparr>fstep = (\<lambda>(inp, w). net_step inp w), fphase = net_phase,
     fheard = (\<lambda>(inp, w). net_heard inp), flost = net_lost, fstuck = (\<lambda>t. False)\<rparr>"

lemma socket_feed_simps [simp]:
  "fstep socket_feed (inp, w) = net_step inp w" "fphase socket_feed = net_phase"
  "fheard socket_feed (inp, w) = net_heard inp" "flost socket_feed = net_lost" "fstuck socket_feed t \<longleftrightarrow> False"
  by (simp_all add: socket_feed_def)

section \<open>Its steps\<close>

lemma recv_into_spec:
  assumes "length buf = kMaxPacketBytes" and "recv_into d buf = (n, buf')"
  shows "n = length (take kMaxPacketBytes d)" "n \<le> kMaxPacketBytes" "length buf' = kMaxPacketBytes"
    "take n buf' = take kMaxPacketBytes d" "unat (of_nat n :: u16) = n"
proof -
  show n: "n = length (take kMaxPacketBytes d)" and "length buf' = kMaxPacketBytes" "take n buf' = take kMaxPacketBytes d"
    using assms by (auto simp: recv_into_def Let_def min_def)
  then show le: "n \<le> kMaxPacketBytes" by simp
  show "unat (of_nat n :: u16) = n" by (rule unat_of_nat_small) (use le in \<open>simp add: kMaxPacketBytes_def\<close>)
qed

text \<open>Receiving into a slot the thread holds: what it hears, decides and writes.\<close>

lemma net_receive_cases [consumes 3, case_names short packet]:
  assumes run: "net_receive d w i (sh, n) = Some (sh', n')" and "unat i < length (pslots (spool sh))"
    and "length (fst (slot_content (spool sh) i)) = kMaxPacketBytes"
  obtains (short) sl where "\<not> kMoldHeaderBytes \<le> length (take kMaxPacketBytes d)" "sh' = put_slot sh i sl" "length (sdata sl) = kMaxPacketBytes"
      "n' = n\<lparr>npc := NetRelease i Continue\<rparr>"
    | (packet) sl h v k st where "kMoldHeaderBytes \<le> length (take kMaxPacketBytes d)" "sh' = put_slot sh i sl"
      "length (sdata sl) = kMaxPacketBytes" "unat (slength sl) = length (take kMaxPacketBytes d)"
      "take (unat (slength sl)) (sdata sl) = take kMaxPacketBytes d"
      "parseMoldHeader (take kMaxPacketBytes d) = Some h"
      "trackHeader h (tracker n) (countReceived (length (take kMaxPacketBytes d)) (nstats n)) = (v, k, st)"
      "n' = \<lparr>npc = (case v of EndSession \<Rightarrow> NetRelease i (SendSentinel w) | Heartbeat \<Rightarrow> NetRelease i Continue
        | Duplicate \<Rightarrow> NetRelease i Continue | Accept \<Rightarrow> NetPush i w), tracker = k, nstats = st\<rparr>"
proof -
  let ?slot = "pslots (spool sh) ! unat i"
  obtain m buf where rv: "recv_into d (sdata ?slot) = (m, buf)" by fastforce
  have "length (sdata ?slot) = kMaxPacketBytes" using assms(3) by (simp add: slot_content_def Let_def)
  note r = recv_into_spec [OF this rv]
  show ?thesis
  proof (cases "m < kMoldHeaderBytes")
    case True
    then show ?thesis using run rv r(1,3) assms(2)
      by (intro short [of "?slot\<lparr>sdata := buf\<rparr>"]) (auto simp: net_receive_def vec_simps put_slot_def)
  next
    case False
    then obtain h where h: "parseMoldHeader buf = Some h" using run rv assms(2)
      by (auto simp: net_receive_def vec_simps bind_eq_Some_conv)
    have "buf = take kMaxPacketBytes d @ drop m buf" using r(4) by (metis append_take_drop_id)
    moreover have long: "kMoldHeaderBytes \<le> length (take kMaxPacketBytes d)" using False r(1) by linarith
    ultimately have h': "parseMoldHeader (take kMaxPacketBytes d) = Some h"
      using h parse_prefix [of "take kMaxPacketBytes d" "drop m buf"] by metis
    obtain v k st where v: "trackHeader h (tracker n) (countReceived m (nstats n)) = (v, k, st)" by (metis prod_cases3)
    show ?thesis using run rv False h v assms(2) r h' long
      by (intro packet [of "?slot\<lparr>sdata := buf, slength := of_nat m\<rparr>" h v k st])
        (auto simp: net_receive_def vec_simps put_slot_def)
  qed
qed

lemma net_step_defined:
  assumes pre: "feed_pre sh fs (net_phase t)"
  shows "net_step inp w (sh, t) \<noteq> None"
proof -
  note D = feed_preD [OF pre]
  obtain i p where acq: "acquire (spool sh) = Some (i, p)" using D(1) by blast
  show ?thesis
  proof (cases "npc t")
    case (NetRecv i)
    then show ?thesis using net_receive_total D(3) [of i] by (cases inp) (auto simp: net_step_def net_phase_def)
  next
    case (NetPush i w)
    then show ?thesis using D(2) [of "\<lparr>refIdx = i, tWireCycles = w\<rparr>"] by (auto simp: net_step_def)
  next
    case (NetDrop i)
    then show ?thesis using D(4) [of i] by (auto simp: net_step_def net_phase_def)
  next
    case (NetRelease i k)
    then show ?thesis using D(4) [of i] by (auto simp: net_step_def net_phase_def)
  next
    case (NetSentinel w)
    then show ?thesis using D(2) [of "\<lparr>refIdx = kPoolInvalid, tWireCycles = w\<rparr>"] by (auto simp: net_step_def)
  qed (use acq in \<open>auto simp: net_step_def Let_def split: recv_result.split\<close>)
qed

lemma net_step_moves:
  assumes pre: "feed_pre sh fs (net_phase t)" and step: "net_step inp w (sh, t) = Some (sh', t')"
  shows "feed_move (sh, net_phase t) (sh', net_phase t')"
proof (cases "npc t")
  case NetTop
  obtain i p where acq: "acquire (spool sh) = Some (i, p)" using feed_preD(1) [OF pre] by blast
  show ?thesis using step NetTop acq feed_move.acquire [OF acq] feed_move.finish [of sh]
    by (cases "sstop sh"; cases "i = kPoolInvalid") (auto simp: net_step_def net_phase_def)
next
  case (NetRecv i)
  have D: "unat i < length (pslots (spool sh))" "length (fst (slot_content (spool sh) i)) = kMaxPacketBytes"
    using feed_preD(3,5) [OF pre, of i] NetRecv by (simp_all add: net_phase_def)
  show ?thesis
  proof (cases inp)
    case (Datagram d)
    then have run: "net_receive d w i (sh, t) = Some (sh', t')" using step NetRecv by (simp add: net_step_def)
    from run D show ?thesis
    proof (cases rule: net_receive_cases)
      case (short sl)
      then show ?thesis using NetRecv feed_move.store [of sl sh i] by (simp add: net_phase_def)
    next
      case (packet sl h v k st)
      then show ?thesis using NetRecv feed_move.store [of sl sh i] feed_move.fill [of sl sh i w]
        by (cases v) (simp_all add: net_phase_def)
    qed
  qed (use step NetRecv in \<open>auto simp: net_step_def net_phase_def intro: feed_move.stay\<close>)
next
  case (NetPush i w)
  then show ?thesis using step feed_move.push [of sh i w]
    by (fastforce simp: net_step_def net_phase_def bind_eq_Some_conv)
next
  case (NetDrop i)
  then show ?thesis using step by (auto simp: net_step_def net_phase_def bind_eq_Some_conv intro: feed_move.release)
next
  case (NetRelease i k)
  then show ?thesis using step
    by (auto simp: net_step_def net_phase_def bind_eq_Some_conv intro!: feed_move.release split: after_release.split)
next
  case (NetSentinel w)
  then show ?thesis using step feed_move.sentinel [of sh w]
    by (fastforce simp: net_step_def net_phase_def bind_eq_Some_conv)
qed (use step in \<open>auto simp: net_step_def net_phase_def Let_def intro: feed_move.stay split: recv_result.splits if_splits\<close>)

text \<open>What the tracker lets through reaches the ring in order.\<close>

lemma net_step_tracks:
  assumes pre: "feed_pre sh fs (net_phase t)" and step: "net_step inp w (sh, t) = Some (sh', t')"
  shows "\<exists>new. sift (net_heard inp t) (tracker t) = (new, tracker t') \<and>
    (\<not> net_lost t t' \<longrightarrow> transit (\<lambda>_. []) net_phase sh t @ new =
      map packet_of (offered (spool sh) (net_phase t) (net_phase t')) @ transit (\<lambda>_. []) net_phase sh' t')"
proof (cases "npc t")
  case (NetRecv i)
  have D: "unat i < length (pslots (spool sh))" "length (fst (slot_content (spool sh) i)) = kMaxPacketBytes"
    using feed_preD(3,5) [OF pre, of i] NetRecv by (simp_all add: net_phase_def)
  show ?thesis
  proof (cases inp)
    case (Datagram d)
    then have run: "net_receive d w i (sh, t) = Some (sh', t')" using step NetRecv by (simp add: net_step_def)
    from run D show ?thesis
    proof (cases rule: net_receive_cases)
      case (short sl)
      then show ?thesis using NetRecv Datagram by (auto simp: net_heard_def net_phase_def transit_def)
    next
      case (packet sl h v k st)
      have "packet_of (slot_content (spool sh') i, w) = take kMaxPacketBytes d"
        using packet D(1) by (simp add: packet_of_def put_slot_def slot_content_upd)
      moreover obtain st' where "trackHeader h (tracker t) FeedStats_new = (v, k, st')"
        using trackHeader_stats [of h "tracker t" FeedStats_new "countReceived (length (take kMaxPacketBytes d)) (nstats t)"] packet by auto
      ultimately show ?thesis using NetRecv Datagram packet
        by (cases v) (auto simp: net_heard_def net_phase_def transit_def)
    qed
  qed (use step NetRecv in \<open>auto simp: net_step_def net_heard_def net_phase_def transit_def\<close>)
next
  case (NetPush i w)
  then show ?thesis using step
    by (auto simp: net_step_def net_heard_def net_lost_def net_phase_def transit_def bind_eq_Some_conv)
qed (use step in \<open>auto simp: net_step_def net_heard_def net_phase_def transit_def Let_def bind_eq_Some_conv
  split: recv_result.splits if_splits after_release.splits\<close>)

interpretation socket: feed_thread socket_feed "\<lambda>_. True" tracker "\<lambda>_. []"
proof unfold_locales
  fix t sh fs sh' t' and inp :: "recv_result \<times> u64"
  assume pre: "feed_pre sh fs (fphase socket_feed t)"
  obtain r w where inp: "inp = (r, w)" by (cases inp)
  show "fstep socket_feed inp (sh, t) \<noteq> None"
    using net_step_defined [of sh fs t r w] pre by (simp add: inp)
  assume step: "fstep socket_feed inp (sh, t) = Some (sh', t')"
  show "True \<and> feed_move (sh, fphase socket_feed t) (sh', fphase socket_feed t')"
    using net_step_moves [of sh fs t r w sh' t'] pre step by (simp add: inp)
  show "\<exists>new. sift (fheard socket_feed inp t) (tracker t) = (new, tracker t') \<and>
      (\<not> flost socket_feed t t' \<longrightarrow> transit (\<lambda>_. []) (fphase socket_feed) sh t @ new =
        map packet_of (offered (spool sh) (fphase socket_feed t) (fphase socket_feed t')) @ transit (\<lambda>_. []) (fphase socket_feed) sh' t')"
    using net_step_tracks [of sh fs t r w sh' t'] pre step by (simp add: inp)
qed

lemmas socket_step = pipe_step.net [of socket_feed "(inp, w)" for inp w, unfolded socket_feed_simps]

lemmas socket_history = net_history_def net_heard_def net_lost_def net_phase_def

lemma socket_step_inv: "pipe_step socket_feed clk s s' \<Longrightarrow> pipe_inv net_phase clk st0 s fs \<Longrightarrow> \<exists>fs'. pipe_inv net_phase clk st0 s' fs'"
proof (induction rule: pipe_step.induct)
  case (net inp s sh' t')
  then show ?case using socket.net_step_inv [of clk st0 s fs inp sh' t'] by simp
next
  case (eng s sh' t')
  then show ?case using consumer_step_inv by blast
qed

lemma socket_reachable_inv:
  "pipe_reachable socket_feed clk s0 s \<Longrightarrow> pipe_inv net_phase clk st0 s0 fs0 \<Longrightarrow> \<exists>fs. pipe_inv net_phase clk st0 s fs"
  by (induction rule: pipe_reachable.induct) (blast intro: socket_step_inv)+

section \<open>Properties\<close>

text \<open>The system of UDP mode with the socket thread, which starts or not as its socket could be set up.\<close>

definition socket_init :: "bool \<Rightarrow> Shared \<times> EngThread \<Rightarrow> NetThread Pipe" where
  "socket_init setup_ok = (\<lambda>(sh, et). pipe_init (sh, NetThread_new setup_ok, et))"

lemma socket_inv_init:
  assumes "runUdp_start n c e = Some st" and "n \<le> unat kPoolInvalid"
  shows "system_inv socket_feed (\<lambda>_. True) tracker (\<lambda>_. []) clk (e, no_output, 0) (socket_init setup_ok st)"
proof -
  obtain sh et where st: "st = (sh, et)" by (cases st)
  have "net_holds (fphase socket_feed (NetThread_new setup_ok)) = []" by (simp add: NetThread_new_def net_phase_def)
  then show ?thesis using system_inv_init [of n c e sh et "\<lambda>_. True" "NetThread_new setup_ok" socket_feed tracker "\<lambda>_. []" clk] assms
    by (simp add: st socket_init_def) (simp add: NetThread_new_def)
qed

text \<open>C8: In every interleaving of the socket thread and the matching thread, whatever the socket
  delivers, the matching thread has processed exactly a prefix of the packets the network thread
  accepted, in the order of acceptance and with the contents they had then; the network thread never
  makes an undefined access; and when the matching thread has stopped, nothing accepted is left.\<close>

theorem pipeline_processes_in_order:
  assumes "runUdp_start n c e = Some st" and "n \<le> unat kPoolInvalid"
    and "pipe_reachable socket_feed clk (socket_init setup_ok st) s"
  shows "\<exists>rest. accepted s = consumed s @ rest \<and>
    process_all clk (consumed s) (e, no_output, 0) =
      Some (case epc (eng s) of EngThrown x r \<Rightarrow> Inl x | _ \<Rightarrow> Inr (est (eng s))) \<and>
    net_step inp w (shared s, net s) \<noteq> None \<and> (rest = [] \<or> epc (eng s) \<noteq> EngDone)"
  using socket.in_order [OF assms(3) socket_inv_init [OF assms(1,2)], of "(inp, w)"] by simp

text \<open>At every moment each packet buffer has exactly one owner: the free list, the network thread, a
  reference in the ring, or the matching thread.  No buffer is shared and none is lost.\<close>

lemma pipeline_buffers_have_one_owner:
  assumes "runUdp_start n c e = Some st" and "n \<le> unat kPoolInvalid"
    and "pipe_reachable socket_feed clk (socket_init setup_ok st) s"
  shows "\<exists>fs. ppool_ok (spool (shared s)) fs \<and>
    distinct (owners fs (net_phase (net s)) (ring_queue (sring (shared s))) (epc (eng s))) \<and>
    set (owners fs (net_phase (net s)) (ring_queue (sring (shared s))) (epc (eng s))) = {i. unat i < n}"
proof -
  have "pool_slots (spool (shared (socket_init setup_ok st))) = {i. unat i < n}"
    using assms(1) PacketPool_new_ok(2) [OF _ assms(2)]
    by (auto simp: runUdp_start_def bind_eq_Some_conv socket_init_def pipe_init_def pool_slots_def)
  then show ?thesis using socket.one_owner [OF assms(3) socket_inv_init [OF assms(1,2)]] by simp
qed

lemma one_acquired:
  assumes "runUdp_start n c e = Some st"
  obtains s where "pipe_reachable socket_feed clk (socket_init True st) s" "npc (net s) = NetRecv 0"
proof -
  obtain p r where p: "PacketPool_new n = Some p" and r: "SpscRing_new \<lparr>refIdx = 0, tWireCycles = 0\<rparr> c = Some r"
    and st: "st = (\<lparr>spool = p, sring = r, sstop = False\<rparr>, \<lparr>epc = EngPop 0, est = (e, no_output, 0)\<rparr>)"
    using assms by (auto simp: runUdp_start_def no_output_def bind_eq_Some_conv)
  have "pfree p = 0" "0 < length (pslots p)"
    using p nth_link_slots [of "n - 1" "replicate n BufferSlot_zero" 0] by (auto simp: PacketPool_new_def Let_def split: if_splits)
  then obtain p' where "acquire p = Some (0, p')" by (auto simp: acquire_def kPoolInvalid_def vec_at_def)
  then have "fstep socket_feed (Failed, 0) (shared (socket_init True st), net (socket_init True st)) =
      Some ((shared (socket_init True st))\<lparr>spool := p'\<rparr>, (NetThread_new True)\<lparr>npc := NetRecv 0\<rparr>)"
    by (simp add: net_step_def socket_init_def pipe_init_def st NetThread_new_def kPoolInvalid_def)
  from pipe_step.net [OF this, of clk] show ?thesis
    by (intro that [OF pipe_reachable.step [OF pipe_reachable.init]]) (auto simp: net_history_def)
qed

theorem pipeline_processes_in_order_witness:
  "\<exists>e st s rest. runUdp_start 2 4 e = Some st \<and> pipe_reachable socket_feed (\<lambda>n. (5, 9)) (socket_init True st) s \<and> npc (net s) = NetRecv 0 \<and>
     accepted s = consumed s @ rest \<and> net_step (Datagram []) 0 (shared s, net s) \<noteq> None"
proof -
  obtain e st where st: "runUdp_start 2 4 e = Some st" using small_start by blast
  obtain s where s: "pipe_reachable socket_feed (\<lambda>n. (5, 9)) (socket_init True st) s" "npc (net s) = NetRecv 0" by (rule one_acquired [OF st])
  have "2 \<le> unat kPoolInvalid" by (simp add: kPoolInvalid_def)
  from pipeline_processes_in_order [OF st this s(1), of "Datagram []" 0] st s show ?thesis by blast
qed

end
