(* ===== verification/Replay.thy ===== *)
theory Replay
  imports Mold_Udp64 Engine_Run
begin

text \<open>
  The replay sender (\<^verbatim>\<open>src/replay.cpp\<close>): cutting a length-prefixed ITCH file into MoldUDP64 packets and
  sending them, followed by an end-of-session marker.  The bytes of the mapped file from the cursor
  on are a list; what \<open>sendto\<close> returns is an argument.  The clock of the paced sender is in
  \<open>Replay_Pacing\<close>.
\<close>

section \<open>Model\<close>

definition packetBytes :: nat where "packetBytes = 2048"

definition batchSlots :: nat where "batchSlots = 256"

definition replaySession :: bytes where
  "replaySession = [79, 82, 68, 66, 75, 83, 69, 83, 49, 0]"

text \<open>
  The inner loop: messages that still fit are collected as (memory from the pointer on, length).
  Writing past the two arrays of the batch is undefined, as is reading a length past the end of
  the file.
\<close>

function batch_loop :: "u16 \<Rightarrow> u16 \<Rightarrow> u16 \<Rightarrow> (bytes \<times> u16) list \<Rightarrow> bytes \<Rightarrow> ((bytes \<times> u16) list \<times> bytes) option" where
  "batch_loop maxPerPacket batchCount packetUsed batch data =
     (if data \<noteq> [] \<and> batchCount < maxPerPacket then
        (case take_bytes 2 data of
           None \<Rightarrow> None
         | Some (l, rest) \<Rightarrow>
             (let mlen = (bswap (load_le l) :: u16) in
              if unat packetUsed + 2 + unat mlen > packetBytes then Some (batch, data)
              else if unat batchCount \<ge> batchSlots then None
              else batch_loop maxPerPacket (batchCount + 1) (packetUsed + (2 + mlen)) (batch @ [(rest, mlen)])
                     (drop (unat mlen) rest)))
      else Some (batch, data))"
  by pat_completeness auto
termination
  by (relation "measure (\<lambda>(m, c, u, b, data). length data)") (auto simp: take_bytes_def split: if_splits)

declare batch_loop.simps [simp del]

lemma batch_loop_length:
  "batch_loop m c u b data = Some (b', data') \<Longrightarrow> b' = b \<and> data' = data \<or> length data' < length data"
proof (induction m c u b data rule: batch_loop.induct)
  case (1 m c u b data)
  show ?case
  proof (cases "data \<noteq> [] \<and> c < m")
    case False
    then show ?thesis using "1.prems" by (subst (asm) batch_loop.simps) auto
  next
    case True
    then obtain l rest where l: "take_bytes 2 data = Some (l, rest)"
      using "1.prems" by (subst (asm) batch_loop.simps) (auto split: option.splits)
    define mlen :: u16 where "mlen = bswap (load_le l)"
    have len: "length (drop (unat mlen) rest) < length data" using l True by (auto simp: take_bytes_def split: if_splits)
    have u: "batch_loop m c u b data = (if unat u + 2 + unat mlen > packetBytes then Some (b, data)
        else if unat c \<ge> batchSlots then None
        else batch_loop m (c + 1) (u + (2 + mlen)) (b @ [(rest, mlen)]) (drop (unat mlen) rest))"
      using True l by (subst batch_loop.simps) (simp add: mlen_def Let_def)
    show ?thesis
    proof (cases "unat u + 2 + unat mlen > packetBytes")
      case False
      then have "\<not> unat c \<ge> batchSlots" using "1.prems" u by auto
      moreover from this False have "batch_loop m (c + 1) (u + (2 + mlen)) (b @ [(rest, mlen)]) (drop (unat mlen) rest) = Some (b', data')"
        using "1.prems" u by simp
      ultimately show ?thesis using "1.IH" [OF True l refl, of mlen] False len by (auto simp: mlen_def)
    qed (use "1.prems" u in auto)
  qed
qed

text \<open>
  The outer loop: the packets sent, and the sequence number after them.  \<open>send k\<close> says whether sending packet number \<open>k\<close> succeeds.
\<close>

function send_loop :: "(nat \<Rightarrow> bool) \<Rightarrow> u16 \<Rightarrow> nat \<Rightarrow> u64 \<Rightarrow> bytes \<Rightarrow> (bytes list \<times> u64) option" where
  "send_loop send maxPerPacket k sq data =
     (if data = [] then Some ([], sq)
      else case batch_loop maxPerPacket 0 (of_nat kMoldHeaderBytes) [] data of
        None \<Rightarrow> None
      | Some (batch, data') \<Rightarrow>
          (if batch = [] then Some ([], sq)
           else case buildMoldPacket packetBytes replaySession sq batch (of_nat (length batch)) of
             None \<Rightarrow> None
           | Some (n, packet) \<Rightarrow>
               (if n = 0 then Some ([], sq)
                else if \<not> send k then Some ([], sq)
                else map_option (\<lambda>(pkts, sq'). (packet # pkts, sq'))
                  (send_loop send maxPerPacket (Suc k) (sq + of_nat (length batch)) data'))))"
  by pat_completeness auto
termination
  by (relation "measure (\<lambda>(send, m, k, sq, data). length data)") (auto dest!: batch_loop_length)

declare send_loop.simps [simp del]

text \<open>The marker: an empty packet whose count field is overwritten.\<close>

definition endPacket :: "u64 \<Rightarrow> bytes option" where
  "endPacket sq = do {
     (n, packet) \<leftarrow> buildMoldPacket packetBytes replaySession sq [] 0;
     Some (take 18 packet @ store_le 2 (bswap kMoldEndOfSession) @ drop 20 packet) }"

text \<open>The datagrams a run sends; \<open>None\<close> as file means that opening or mapping it failed.\<close>

definition replay :: "(nat \<Rightarrow> bool) \<Rightarrow> u16 \<Rightarrow> bytes option \<Rightarrow> bytes list option" where
  "replay send maxPerPacket file = (case file of
      None \<Rightarrow> Some []
    | Some data \<Rightarrow> do {
        (pkts, sq) \<leftarrow> send_loop send maxPerPacket 0 1 data;
        eos \<leftarrow> endPacket sq;
        Some (pkts @ [eos]) })"

section \<open>Batches\<close>

text \<open>A message that fits into an otherwise empty packet.\<close>

definition fits :: "bytes \<Rightarrow> bool" where
  "fits bs \<longleftrightarrow> kMoldHeaderBytes + 2 + length bs \<le> packetBytes"

lemma fits_short: "fits bs \<Longrightarrow> unat (of_nat (length bs) :: u16) = length bs"
  by (rule unat_of_nat_small) (simp add: fits_def packetBytes_def)

lemma wire_frames: "wire_messages bss = concat (map frame bss)"
  by (simp add: wire_messages_def frame_def [abs_def])

lemma unat_plus_small: "unat a + unat b < 2 ^ LENGTH('a) \<Longrightarrow> unat (a + b :: 'a::len word) = unat a + unat b"
  by (simp add: unat_word_ariths)

lemma batch_loop_step:
  assumes "fits bs" and "c < m"
  shows "batch_loop m c u b (wire_messages (bs # bss)) =
    (if unat u + 2 + length bs > packetBytes then Some (b, wire_messages (bs # bss))
     else if unat c \<ge> batchSlots then None
     else batch_loop m (c + 1) (u + (2 + of_nat (length bs))) (b @ [(bs @ wire_messages bss, of_nat (length bs))]) (wire_messages bss))"
proof -
  let ?len = "of_nat (length bs) :: u16"
  have be: "bswap (load_le (store_be 2 ?len)) = ?len" by (rule ntoh_store_be) simp
  have tb: "take_bytes 2 (wire_messages (bs # bss)) = Some (store_be 2 ?len, bs @ wire_messages bss)" by simp
  have ne: "wire_messages (bs # bss) \<noteq> []" by (auto simp: store_be_def store_le_def)
  show ?thesis unfolding batch_loop.simps [of m c u b "wire_messages (bs # bss)"] tb
    using ne assms(2) be fits_short [OF assms(1)] by (simp add: Let_def)
qed

lemma batch_loop_spec:
  assumes "list_all fits bss" and "unat m \<le> batchSlots" and "c \<le> m" and "unat u \<le> packetBytes"
  shows "\<exists>bt bs1 bs2. batch_loop m c u b (wire_messages bss) = Some (b @ bt, wire_messages bs2) \<and> bss = bs1 @ bs2 \<and>
    payloads bt = bs1 \<and> readable bt \<and> unat c + length bs1 \<le> unat m \<and>
    unat u + length (wire_messages bs1) \<le> packetBytes \<and>
    (bs1 = [] \<longrightarrow> bss = [] \<or> c = m \<or> unat u + 2 + length (hd bss) > packetBytes)"
  using assms
proof (induction bss arbitrary: c u b)
  case Nil
  then show ?case
    by (subst batch_loop.simps) (auto simp: payloads_def readable_def word_le_nat_alt intro!: exI [of _ "[]"])
next
  case (Cons bs bss)
  have fb: "fits bs" "list_all fits bss" using Cons.prems(1) by simp_all
  let ?len = "of_nat (length bs) :: u16"
  show ?case
  proof (cases "c < m \<and> unat u + 2 + length bs \<le> packetBytes")
    case False
    have "batch_loop m c u b (wire_messages (bs # bss)) = Some (b, wire_messages (bs # bss))"
    proof (cases "c < m")
      case True
      then show ?thesis using False batch_loop_step [OF fb(1) True] by simp
    next
      case False
      then show ?thesis by (subst batch_loop.simps) simp
    qed
    moreover have "c = m \<or> packetBytes < unat u + 2 + length bs" using False Cons.prems(3) by auto
    ultimately show ?thesis using Cons.prems(3,4)
      by (intro exI [of _ "[]"] exI [of _ "bs # bss"]) (auto simp: payloads_def readable_def word_le_nat_alt)
  next
    case True
    have cm: "unat c < unat m" using True by (simp add: word_less_nat_alt)
    then have "unat c + unat (1 :: u16) < 2 ^ LENGTH(16)" using unsigned_less [of m, where 'a = nat] by simp
    then have c1: "unat (c + 1) = Suc (unat c)" using unat_plus_small by fastforce
    have ul: "unat ?len = length bs" by (rule fits_short [OF fb(1)])
    have l2: "unat (2 + ?len) = 2 + length bs"
      using unat_plus_small [of 2 ?len] ul True by (simp add: packetBytes_def)
    have u1: "unat (u + (2 + ?len)) = unat u + 2 + length bs"
      using unat_plus_small [of u "2 + ?len"] l2 True by (simp add: packetBytes_def)
    have le: "c + 1 \<le> m" using c1 cm by (simp add: word_le_nat_alt)
    obtain bt bs1 bs2 where ih: "batch_loop m (c + 1) (u + (2 + ?len)) (b @ [(bs @ wire_messages bss, ?len)]) (wire_messages bss)
        = Some ((b @ [(bs @ wire_messages bss, ?len)]) @ bt, wire_messages bs2)" "bss = bs1 @ bs2"
      "payloads bt = bs1" "readable bt" "unat (c + 1) + length bs1 \<le> unat m"
      "unat (u + (2 + ?len)) + length (wire_messages bs1) \<le> packetBytes"
      using Cons.IH [OF fb(2) Cons.prems(2) le, of "u + (2 + ?len)"] u1 True by (metis (no_types, lifting))
    have "batch_loop m c u b (wire_messages (bs # bss)) = Some (b @ ((bs @ wire_messages bss, ?len) # bt), wire_messages bs2)"
      using batch_loop_step [OF fb(1), of c m u b bss] True cm Cons.prems(2) ih(1) by simp
    moreover have "payloads ((bs @ wire_messages bss, ?len) # bt) = bs # bs1" "readable ((bs @ wire_messages bss, ?len) # bt)"
      using ih(3,4) ul by (auto simp: payloads_def readable_def)
    moreover have "unat u + length (wire_messages (bs # bs1)) \<le> packetBytes" "unat c + length (bs # bs1) \<le> unat m"
      using ih(5,6) u1 c1 by simp_all
    ultimately show ?thesis using ih(2) by (intro exI conjI) auto
  qed
qed

section \<open>Packets\<close>

definition data_packet :: "u64 \<Rightarrow> bytes list \<Rightarrow> bytes" where
  "data_packet sq g = mold_header_bytes replaySession sq (of_nat (length g)) @ wire_messages g"

fun packet_stream :: "u64 \<Rightarrow> bytes list list \<Rightarrow> bytes list" where
  "packet_stream sq [] = []"
| "packet_stream sq (g # gs) = data_packet sq g # packet_stream (sq + of_nat (length g)) gs"

definition end_packet :: "u64 \<Rightarrow> bytes" where
  "end_packet sq = mold_header_bytes replaySession sq kMoldEndOfSession"

text \<open>A group of messages that makes one packet.\<close>

definition packet_group :: "u16 \<Rightarrow> bytes list \<Rightarrow> bool" where
  "packet_group m g \<longleftrightarrow> g \<noteq> [] \<and> length g \<le> unat m \<and> kMoldHeaderBytes + length (wire_messages g) \<le> packetBytes"

lemma length_replaySession [simp]: "length replaySession = 10"
  by (simp add: replaySession_def)

lemma build_group:
  assumes "readable bt" and "payloads bt = g" and "length g < 2 ^ 16" and "kMoldHeaderBytes + length (wire_messages g) \<le> packetBytes"
  shows "buildMoldPacket packetBytes replaySession sq bt (of_nat (length bt)) =
    Some (kMoldHeaderBytes + length (wire_messages g), data_packet sq g)"
proof -
  have len: "length bt = length g" using assms(2) by (auto simp: payloads_def)
  have ul: "unat (of_nat (length g) :: u16) = length g" by (rule unat_of_nat_small) (use assms(3) in simp)
  let ?h = "mold_header_bytes replaySession sq (of_nat (length g))"
  obtain w where "build_messages packetBytes ?h bt =
      Some (if length ?h + length (wire_messages (payloads bt)) \<le> packetBytes \<or> bt = []
        then (length ?h + length (wire_messages (payloads bt)), ?h @ wire_messages (payloads bt)) else (0, w))"
    using build_messages_spec [OF assms(1)] by blast
  moreover have "take_bytes 10 replaySession = Some (replaySession, [])" by (simp add: take_bytes_def)
  moreover have "\<not> packetBytes < kMoldHeaderBytes" using assms(4) by simp
  ultimately show ?thesis using assms(2,4) ul len
    by (simp add: buildMoldPacket_def data_packet_def kMoldHeaderBytes_def)
qed

lemma send_loop_spec:
  assumes "list_all fits bss" and "0 < m" and "unat m \<le> batchSlots" and "\<And>k. send k"
  shows "\<exists>gs. send_loop send m k sq (wire_messages bss) = Some (packet_stream sq gs, sq + of_nat (length bss)) \<and>
    concat gs = bss \<and> list_all (packet_group m) gs"
  using assms(1)
proof (induction "length bss" arbitrary: bss k sq rule: less_induct)
  case less
  show ?case
  proof (cases bss)
    case Nil
    then show ?thesis by (subst send_loop.simps) (auto intro!: exI [of _ "[]"])
  next
    case (Cons b0 bss0)
    let ?u = "of_nat kMoldHeaderBytes :: u16"
    have u: "unat ?u = kMoldHeaderBytes" by (simp add: kMoldHeaderBytes_def)
    then have ule: "unat ?u \<le> packetBytes" by (simp add: kMoldHeaderBytes_def packetBytes_def)
    obtain bt bs1 bs2 where bl: "batch_loop m 0 ?u [] (wire_messages bss) = Some ([] @ bt, wire_messages bs2)" "bss = bs1 @ bs2"
      "payloads bt = bs1" "readable bt" "unat (0 :: u16) + length bs1 \<le> unat m" "unat ?u + length (wire_messages bs1) \<le> packetBytes"
      "bs1 = [] \<longrightarrow> bss = [] \<or> 0 = m \<or> unat ?u + 2 + length (hd bss) > packetBytes"
      using batch_loop_spec [OF less.prems assms(3) word_zero_le ule, of "[]"] by blast
    have "fits b0" using less.prems Cons by simp
    then have ne: "bs1 \<noteq> []" using bl(7) assms(2) Cons u by (auto simp: fits_def)
    have bt: "bt \<noteq> []" "length bt = length bs1" using ne bl(3) by (auto simp: payloads_def)
    have fit: "kMoldHeaderBytes + length (wire_messages bs1) \<le> packetBytes" using bl(6) u by simp
    have small: "length bs1 < 2 ^ 16" using bl(5) assms(3) by (simp add: batchSlots_def)
    note build = build_group [OF bl(4,3) small fit, of sq]
    have rest: "list_all fits bs2" "length bs2 < length bss" using less.prems bl(2) ne by auto
    obtain gs where gs: "send_loop send m (Suc k) (sq + of_nat (length bs1)) (wire_messages bs2)
        = Some (packet_stream (sq + of_nat (length bs1)) gs, sq + of_nat (length bs1) + of_nat (length bs2))"
      "concat gs = bs2" "list_all (packet_group m) gs"
      using less.hyps [OF rest(2,1)] by blast
    have nz: "wire_messages bss \<noteq> []" by (simp add: Cons store_be_def store_le_def)
    have "send_loop send m k sq (wire_messages bss) = Some (packet_stream sq (bs1 # gs), sq + of_nat (length bss))"
      unfolding send_loop.simps [of send m k sq "wire_messages bss"] using nz bl(1,2) bt build gs(1) assms(4)
      by (simp add: kMoldHeaderBytes_def algebra_simps)
    moreover have "packet_group m bs1" using ne bl(5) fit by (simp add: packet_group_def)
    ultimately show ?thesis using gs(2,3) bl(2) by (intro exI [of _ "bs1 # gs"]) simp
  qed
qed

lemma endPacket_spec: "endPacket sq = Some (end_packet sq)"
proof -
  have b: "buildMoldPacket packetBytes replaySession sq [] 0 = Some (20, mold_header_bytes replaySession sq 0)"
    using build_group [of "[]" "[]" sq] by (simp add: payloads_def readable_def packetBytes_def kMoldHeaderBytes_def data_packet_def)
  have "take 18 (mold_header_bytes replaySession sq c) = replaySession @ w64 sq"
    "mold_header_bytes replaySession sq c = replaySession @ w64 sq @ store_be 2 c" for c
    by (simp_all add: mold_header_wire w64_def)
  moreover have "store_le 2 (bswap kMoldEndOfSession) = store_be 2 kMoldEndOfSession" by (rule store_hton) simp
  moreover have "drop 20 (mold_header_bytes replaySession sq 0) = []" by simp
  ultimately show ?thesis using b by (simp add: endPacket_def end_packet_def)
qed

lemma replay_spec:
  assumes "list_all fits bss" and "0 < m" and "unat m \<le> batchSlots" and "\<And>k. send k"
  obtains gs where "replay send m (Some (concat (map frame bss))) = Some (packet_stream 1 gs @ [end_packet (1 + of_nat (length bss))])"
    "concat gs = bss" "list_all (packet_group m) gs"
proof -
  obtain gs where "send_loop send m 0 1 (wire_messages bss) = Some (packet_stream 1 gs, 1 + of_nat (length bss))"
    "concat gs = bss" "list_all (packet_group m) gs"
    using send_loop_spec [OF assms(1-3), of send 0 1] assms(4) by blast
  then show ?thesis by (intro that [of gs]) (simp_all add: replay_def endPacket_spec flip: wire_frames)
qed

end
