(* ===== verification/Udp_Session.thy ===== *)
theory Udp_Session
  imports Pipeline Replay
begin

text \<open>
  The packets of the replay sender on the receiving side: they pass the tracker of either network thread, and
  processing what passed takes the engine through exactly the messages of the file, as in file mode.
\<close>

section \<open>The stream passes the tracker\<close>

lemma group_header:
  assumes "packet_group m g" and "unat m \<le> batchSlots"
  shows "parseMoldHeader (data_packet sq g) = Some \<lparr>session = replaySession, sequenceNumber = sq, messageCount = of_nat (length g)\<rparr>"
    "is_data \<lparr>session = replaySession, sequenceNumber = sq, messageCount = of_nat (length g)\<rparr>"
proof -
  show "parseMoldHeader (data_packet sq g) = Some \<lparr>session = replaySession, sequenceNumber = sq, messageCount = of_nat (length g)\<rparr>"
    by (simp add: data_packet_def parse_header)
  have len: "0 < length g" "length g \<le> 256" using assms by (auto simp: packet_group_def batchSlots_def)
  have "unat (of_nat (length g) :: u16) = length g" by (rule unat_of_nat_small) (use len in simp)
  moreover have "unat kMoldEndOfSession = 65535" "unat kMoldHeartbeat = 0" by (simp_all add: kMoldEndOfSession_def kMoldHeartbeat_def)
  ultimately have "of_nat (length g) \<noteq> kMoldEndOfSession" "of_nat (length g) \<noteq> kMoldHeartbeat" using len by auto
  then show "is_data \<lparr>session = replaySession, sequenceNumber = sq, messageCount = of_nat (length g)\<rparr>"
    by (simp add: is_data_def)
qed

lemma track_group:
  assumes "packet_group m g" and "unat m \<le> batchSlots" and "sessionInit k \<Longrightarrow> nextExpected k = sq"
  obtains h k' st where "parseMoldHeader (data_packet sq g) = Some h" "trackHeader h k FeedStats_new = (Accept, k', st)"
    "sessionInit k'" "nextExpected k' = sq + of_nat (length g)"
proof -
  let ?h = "\<lparr>session = replaySession, sequenceNumber = sq, messageCount = of_nat (length g)\<rparr>"
  note hd = group_header [OF assms(1,2), of sq]
  have "sessionInit k \<Longrightarrow> nextExpected k = sequenceNumber ?h" using assms(3) by simp
  then obtain v k1 st1 where t: "trackHeader ?h k FeedStats_new = (v, k1, st1)" "v = Accept \<longleftrightarrow> is_data ?h" "sessionInit k1"
    "nextExpected k1 = (if is_data ?h then sequenceNumber ?h + ucast (messageCount ?h) else sequenceNumber ?h)"
    by (rule trackHeader_in_sequence)
  have "length g < 2 ^ 16" using assms(1,2) by (auto simp: packet_group_def batchSlots_def)
  then have "unat (of_nat (length g) :: u16) = length g" by (intro unat_of_nat_small) simp
  moreover have "(ucast w :: u64) = of_nat (unat w)" for w :: u16 by simp
  ultimately have "(ucast (of_nat (length g) :: u16) :: u64) = of_nat (length g)" by (simp only:)
  then show ?thesis using hd t by (intro that [of ?h k1 st1]) simp_all
qed

lemma sift_stream:
  assumes "list_all (packet_group m) gs" and "unat m \<le> batchSlots" and "sessionInit k \<Longrightarrow> nextExpected k = sq"
  shows "fst (sift (packet_stream sq gs @ [end_packet n]) k) = packet_stream sq gs"
  using assms(1,3)
proof (induction gs arbitrary: sq k)
  case Nil
  have "parseMoldHeader (end_packet n) = Some \<lparr>session = replaySession, sequenceNumber = n, messageCount = kMoldEndOfSession\<rparr>"
    using parse_header [of replaySession n kMoldEndOfSession "[]"] by (simp add: end_packet_def)
  then show ?case by (simp add: trackHeader_def Let_def)
next
  case (Cons g gs)
  obtain h k1 st1 where t: "parseMoldHeader (data_packet sq g) = Some h" "trackHeader h k FeedStats_new = (Accept, k1, st1)"
    "sessionInit k1" "nextExpected k1 = sq + of_nat (length g)"
    by (rule track_group [OF _ assms(2) Cons.prems(2)]) (use Cons.prems(1) in auto)
  have "fst (sift (packet_stream (sq + of_nat (length g)) gs @ [end_packet n]) k1) = packet_stream (sq + of_nat (length g)) gs"
    using Cons.IH t(4) Cons.prems(1) by simp
  then show ?case using t(1,2)
    by (cases "sift (packet_stream (sq + of_nat (length g)) gs @ [end_packet n]) k1") simp
qed

section \<open>Processing the packets of a stream\<close>

definition carries :: "stamped \<Rightarrow> bytes list \<Rightarrow> bool" where
  "carries c g \<longleftrightarrow> good_packet c \<and> (\<exists>sq. packet_of c = data_packet sq g)"

lemma carries_buffer:
  assumes "carries ((buf, len), w) g"
  obtains sq rest where "buf = mold_header_bytes replaySession sq (of_nat (length g)) @ wire_messages g @ rest"
    "unat len = kMoldHeaderBytes + length (wire_messages g)" "kMoldHeaderBytes \<le> unat len"
proof -
  obtain sq where pk: "take (unat len) buf = data_packet sq g" "kMoldHeaderBytes \<le> unat len" "unat len \<le> length buf"
    using assms by (auto simp: carries_def good_packet_def packet_of_def)
  have buf: "buf = mold_header_bytes replaySession sq (of_nat (length g)) @ wire_messages g @ drop (unat len) buf"
    using pk(1) append_take_drop_id [of "unat len" buf] by (simp add: data_packet_def)
  have "unat len = length (data_packet sq g)" using pk(1,3) by (metis length_take min_absorb2)
  then have "unat len = kMoldHeaderBytes + length (wire_messages g)" by (simp add: data_packet_def kMoldHeaderBytes_def)
  then show ?thesis using that buf pk(2) by blast
qed

lemma consume_packet_sim:
  assumes "carries (c, w) g" and "list_all2 wf_message g msgs" and "engine_ok e fs Q" and "room_for (length msgs + k) e Q"
  shows "\<exists>e' s' fs' Q'. consume_packet clk c w (e, s, n) = Some (Inr (e', s', n + length msgs)) \<and>
    engine_ok e' fs' Q' \<and> room_for k e' Q' \<and> engine_steps (view e Q, s) msgs (view e' Q', s')"
proof -
  obtain buf len where c: "c = (buf, len)" by (cases c)
  obtain sq rest where b: "buf = mold_header_bytes replaySession sq (of_nat (length g)) @ wire_messages g @ rest"
    "unat len = kMoldHeaderBytes + length (wire_messages g)" "kMoldHeaderBytes \<le> unat len"
    by (rule carries_buffer [OF assms(1) [unfolded c]])
  have h20: "length (mold_header_bytes replaySession sq (of_nat (length g))) = kMoldHeaderBytes" by (simp add: kMoldHeaderBytes_def)
  show ?thesis
    using packet_loop_sim [OF assms(2) b(1), of "MoldMessageIterator_new kMoldHeaderBytes (unat len - kMoldHeaderBytes)"] assms(3,4) b h20
    by (simp add: consume_packet_def c MoldMessageIterator_new_def)
qed

lemma process_all_sim:
  assumes "list_all2 carries cs gs" and "list_all2 wf_message (concat gs) msgs" and "engine_ok e fs Q" and "room_for (length msgs) e Q"
  shows "\<exists>e' s' fs' Q'. process_all clk cs (e, s, n) = Some (Inr (e', s', n + length msgs)) \<and>
    engine_ok e' fs' Q' \<and> engine_steps (view e Q, s) msgs (view e' Q', s')"
  using assms
proof (induction cs gs arbitrary: msgs e s n fs Q rule: list_all2_induct)
  case Nil
  then show ?case by (auto intro: engine_steps.Nil)
next
  case (Cons c cs g gs)
  obtain a w where c: "c = (a, w)" by (cases c)
  obtain ms1 ms2 where ms: "msgs = ms1 @ ms2" "list_all2 wf_message g ms1" "list_all2 wf_message (concat gs) ms2"
    using Cons.prems(1) by (auto simp: list_all2_append1)
  obtain e1 s1 fs1 Q1 where 1: "consume_packet clk a w (e, s, n) = Some (Inr (e1, s1, n + length ms1))" "engine_ok e1 fs1 Q1"
    "room_for (length ms2) e1 Q1" "engine_steps (view e Q, s) ms1 (view e1 Q1, s1)"
    using consume_packet_sim [OF Cons.hyps(1) [unfolded c] ms(2) Cons.prems(2), of "length ms2" clk s n] Cons.prems(3) ms(1) by auto
  obtain e' s' fs' Q' where 2: "process_all clk cs (e1, s1, n + length ms1) = Some (Inr (e', s', n + length ms1 + length ms2))"
    "engine_ok e' fs' Q'" "engine_steps (view e1 Q1, s1) ms2 (view e' Q', s')"
    using Cons.IH [OF ms(3) 1(2,3)] by blast
  show ?case using 1 2 engine_steps_append [OF 1(4) 2(3)] ms(1) by (auto simp: c add.assoc)
qed

lemma carries_stream:
  assumes "list_all good_packet cs" and "map packet_of cs = packet_stream sq gs"
  shows "list_all2 carries cs gs"
  using assms
proof (induction gs arbitrary: cs sq)
  case (Cons g gs)
  then obtain c cs' where "cs = c # cs'" "packet_of c = data_packet sq g" "map packet_of cs' = packet_stream (sq + of_nat (length g)) gs"
    by (cases cs) auto
  with Cons show ?case by (auto simp: carries_def)
qed simp

text \<open>The packets that pass the tracker are those of the stream.\<close>

lemma stream_carries:
  assumes "list_all fits bss" "0 < m" "unat m \<le> batchSlots" "\<And>k. send k"
    and "replay send m (Some (concat (map frame bss))) = Some pkts"
    and "fst (sift pkts SeqTracker_new) = map packet_of cs" "list_all good_packet cs"
  shows "\<exists>gs. list_all2 carries cs gs \<and> concat gs = bss \<and> butlast pkts = packet_stream 1 gs \<and> map packet_of cs = butlast pkts"
proof -
  obtain gs where gs: "pkts = packet_stream 1 gs @ [end_packet (1 + of_nat (length bss))]" "concat gs = bss" "list_all (packet_group m) gs"
    by (rule replay_spec [where send = send, OF assms(1-3)]) (use assms(4,5) in auto)
  have "fst (sift pkts SeqTracker_new) = packet_stream 1 gs"
    unfolding gs(1) by (rule sift_stream [OF gs(3) assms(3)]) (simp add: SeqTracker_new_def)
  then have "map packet_of cs = packet_stream 1 gs" "butlast pkts = packet_stream 1 gs" using assms(6) gs(1) by simp_all
  then show ?thesis using carries_stream [OF assms(7)] gs(2) by metis
qed

text \<open>Packets that passed the tracker, processed one after the other from the start.\<close>

lemma stream_sim:
  assumes eng: "MatchingEngine_sized cap = Some e" "list_all2 wf_message bss msgs"
      "length msgs < unat cap" "length msgs < unat INVALID_INDEX"
    and fit: "list_all fits bss" "0 < m" "unat m \<le> batchSlots" "\<And>k. send k"
    and sent: "replay send m (Some (concat (map frame bss))) = Some pkts"
    and run: "fst (sift pkts SeqTracker_new) = map packet_of cs" "list_all good_packet cs"
      "process_all clk cs (e, no_output, 0) = Some (Inr (est t))"
  obtains fs Q sc where "engine_ok (runUdp_finish toNs t) fs Q" "engine_steps start msgs (view (runUdp_finish toNs t) Q, sc)"
proof -
  obtain gs where gs: "list_all2 carries cs gs" "concat gs = bss"
    using stream_carries [where send = send, OF fit(1-3) _ sent run(1,2)] fit(4) by blast
  note new = engine_ok_new [OF eng(1)]
  have "room_for (length msgs) e (\<lambda>l. ([], []))" using new eng(3,4) by (simp add: room_for_def slots_of_def)
  then obtain e' s' fs' Q' where r: "process_all clk cs (e, no_output, 0) = Some (Inr (e', s', 0 + length msgs))"
    "engine_ok e' fs' Q'" "engine_steps (view e (\<lambda>l. ([], [])), no_output) msgs (view e' Q', s')"
    using process_all_sim [OF gs(1) _ new(1)] eng(2) gs(2) by blast
  have "est t = (e', s', length msgs)" using run(3) r(1) by simp
  moreover have "view e (\<lambda>l. ([], [])) = (Map.empty, \<lambda>l. ([], []))" by (simp add: view_def new(3))
  ultimately show ?thesis using r(2,3) by (intro that [of fs' Q' s']) (simp_all add: runUdp_finish_def)
qed

end
