(* ===== verification/Delivery.thy ===== *)
theory Delivery
  imports Udp_Session
begin

text \<open>
  A schedule that completes a UDP session.  The contract \<open>delivery\<close> is what is asked of a network thread:
  from a state in which it waits for a packet, the next packet can be brought to it and reaches the ring, and so
  does the end of the session.  Then the packets of the replay sender can all be processed, and both
  threads stop.
\<close>

section \<open>Between two packets\<close>

text \<open>The network thread waits, the matching thread is about to pop, the ring is empty, and there is a buffer and
  room for one reference.\<close>

definition quiet :: "('t \<Rightarrow> bool) \<Rightarrow> 't Pipe \<Rightarrow> bool" where
  "quiet ready s \<longleftrightarrow> ready (net s) \<and> epc (eng s) = EngPop 0 \<and> ring_queue (sring (shared s)) = [] \<and>
     0 < ring_cap (sring (shared s)) \<and> pool_slots (spool (shared s)) \<noteq> {}"

text \<open>The network thread heard one packet and put one reference onto the ring.\<close>

definition passed :: "'t Pipe \<Rightarrow> bytes \<Rightarrow> PacketRef \<Rightarrow> 't Pipe \<Rightarrow> bool" where
  "passed s d ref s' \<longleftrightarrow> eng s' = eng s \<and> ring_queue (sring (shared s')) = [ref] \<and>
     ring_cap (sring (shared s')) = ring_cap (sring (shared s)) \<and> pool_slots (spool (shared s')) = pool_slots (spool (shared s)) \<and>
     handled s' = handled s @ [d] \<and> refused s' = refused s"

lemma pipe_reachable_trans: "pipe_reachable F clk s1 s2 \<Longrightarrow> pipe_reachable F clk s0 s1 \<Longrightarrow> pipe_reachable F clk s0 s2"
  by (induction rule: pipe_reachable.induct) (auto intro: pipe_reachable.step)

locale delivery = feed_thread F feed_ok trk kept
  for F :: "('i, 't) Feed" and feed_ok :: "'t \<Rightarrow> bool" and trk :: "'t \<Rightarrow> SeqTracker" and kept :: "'t \<Rightarrow> bytes list" +
  fixes ready :: "'t \<Rightarrow> bool"
  assumes hands_over: "system_inv F feed_ok trk kept clk st0 s \<Longrightarrow> quiet ready s \<Longrightarrow>
      kMoldHeaderBytes \<le> length d \<Longrightarrow> length d \<le> kMaxPacketBytes \<Longrightarrow> parseMoldHeader d = Some h \<Longrightarrow>
      trackHeader h (trk (net s)) FeedStats_new = (Accept, k, st) \<Longrightarrow>
      \<exists>s' ref. pipe_reachable F clk s s' \<and> passed s d ref s' \<and> refIdx ref \<noteq> kPoolInvalid \<and>
        packet_of (entry (spool (shared s')) ref) = d \<and> ready (net s') \<and> trk (net s') = k"
    and ends: "system_inv F feed_ok trk kept clk st0 s \<Longrightarrow> quiet ready s \<Longrightarrow>
      kMoldHeaderBytes \<le> length d \<Longrightarrow> length d \<le> kMaxPacketBytes \<Longrightarrow> parseMoldHeader d = Some h \<Longrightarrow>
      trackHeader h (trk (net s)) FeedStats_new = (EndSession, k, st) \<Longrightarrow>
      \<exists>s' ref. pipe_reachable F clk s s' \<and> passed s d ref s' \<and> refIdx ref = kPoolInvalid"
begin

text \<open>The matching thread takes the only reference, processes its packet and returns the buffer.\<close>

lemma eng_takes_packet:
  assumes inv: "system_inv F feed_ok trk kept clk st0 s" and pc: "epc (eng s) = EngPop b" and q: "ring_queue (sring (shared s)) = [ref]"
    and ref: "refIdx ref \<noteq> kPoolInvalid"
    and proc: "consume_packet clk (slot_content (spool (shared s)) (refIdx ref)) (tWireCycles ref) (est (eng s)) = Some (Inr st')"
  shows "\<exists>s'. pipe_reachable F clk s s' \<and> net s' = net s \<and> epc (eng s') = EngPop 0 \<and> est (eng s') = st' \<and>
    ring_queue (sring (shared s')) = [] \<and> ring_cap (sring (shared s')) = ring_cap (sring (shared s)) \<and>
    pool_slots (spool (shared s')) = pool_slots (spool (shared s)) \<and> handled s' = handled s \<and> refused s' = refused s"
proof -
  let ?p = "spool (shared s)"
  obtain fs where i0: "pipe_inv (fphase F) clk st0 s fs" using inv by (auto simp: system_inv_def)
  obtain r where r: "ring_pop (sring (shared s)) = Some (Some ref, r)" "ring_queue r = []" "ring_cap r = ring_cap (sring (shared s))"
    using spsc.pop_some [OF pipe_invD(2) [OF i0] q] by blast
  let ?s1 = "s\<lparr>shared := (shared s)\<lparr>sring := r\<rparr>, eng := (eng s)\<lparr>epc := EngPacket ref\<rparr>\<rparr>"
  have 1: "consumer_step clk (shared s, eng s) = Some (shared ?s1, eng ?s1)" "?s1 = eng_history s (s\<lparr>shared := shared ?s1, eng := eng ?s1\<rparr>)"
    using r(1) pc ref by (simp_all add: consumer_step_def eng_history_def)
  obtain fs1 where inv1: "pipe_inv (fphase F) clk st0 ?s1 fs1" using consumer_step_inv [OF i0 1(1)] 1(2) by auto
  have rng: "unat (refIdx ref) < length (pslots ?p)" using held_slot(4) [OF inv1, of "refIdx ref"] by simp
  let ?s2 = "?s1\<lparr>eng := (eng s)\<lparr>epc := EngRelease (refIdx ref), est := st'\<rparr>,
    consumed := consumed s @ [(slot_content ?p (refIdx ref), tWireCycles ref)]\<rparr>"
  have 2: "consumer_step clk (shared ?s1, eng ?s1) = Some (shared ?s2, eng ?s2)"
    "?s2 = eng_history ?s1 (?s1\<lparr>shared := shared ?s2, eng := eng ?s2\<rparr>)"
    using proc rng by (simp_all add: consumer_step_def eng_history_def vec_simps slot_content_def Let_def)
  obtain fs2 where inv2: "pipe_inv (fphase F) clk st0 ?s2 fs2" using consumer_step_inv [OF inv1 2(1)] 2(2) by auto
  obtain p where p: "release (spool (shared ?s2)) (refIdx ref) = Some p" "pool_slots p = pool_slots ?p"
    using packet_pool.release_ok [OF pipe_invD(1) [OF inv2], of "refIdx ref"] held_slot(1,2) [OF inv2, of "refIdx ref"] by auto
  let ?s3 = "?s2\<lparr>shared := (shared ?s2)\<lparr>spool := p\<rparr>, eng := (eng ?s2)\<lparr>epc := EngPop 0\<rparr>\<rparr>"
  have 3: "pipe_step F clk ?s2 ?s3"
    using pipe_step.eng [of clk ?s2 "(shared ?s2)\<lparr>spool := p\<rparr>" "(eng ?s2)\<lparr>epc := EngPop 0\<rparr>"] p(1)
    by (simp add: consumer_step_def eng_history_def)
  have "pipe_step F clk s ?s1" "pipe_step F clk ?s1 ?s2" using pipe_step.eng [OF 1(1)] pipe_step.eng [OF 2(1)] 1(2) 2(2) by simp_all
  then have "pipe_reachable F clk s ?s3" using 3 by (blast intro: pipe_reachable.intros)
  then show ?thesis using r p(2) by (intro exI [of _ ?s3]) simp
qed

text \<open>A data packet in sequence goes through both threads.\<close>

lemma deliver_packet:
  assumes inv: "system_inv F feed_ok trk kept clk st0 s" and q: "quiet ready s"
    and d: "kMoldHeaderBytes \<le> length d" "length d \<le> kMaxPacketBytes" and h: "parseMoldHeader d = Some h"
    and acc: "trackHeader h (trk (net s)) FeedStats_new = (Accept, k, st)"
    and proc: "\<And>c w. good_packet (c, w) \<Longrightarrow> packet_of (c, w) = d \<Longrightarrow> \<exists>x. consume_packet clk c w (est (eng s)) = Some (Inr x) \<and> P x"
  shows "\<exists>s'. pipe_reachable F clk s s' \<and> quiet ready s' \<and> trk (net s') = k \<and> P (est (eng s')) \<and>
    handled s' = handled s @ [d] \<and> refused s' = refused s"
proof -
  obtain s1 ref where 1: "pipe_reachable F clk s s1" "passed s d ref s1" "refIdx ref \<noteq> kPoolInvalid"
    "packet_of (entry (spool (shared s1)) ref) = d" "ready (net s1)" "trk (net s1) = k"
    using hands_over [OF inv q d h acc] by blast
  have inv1: "system_inv F feed_ok trk kept clk st0 s1" by (rule reachable_inv [OF 1(1) inv])
  then obtain fs1 where pi: "pipe_inv (fphase F) clk st0 s1 fs1" by (auto simp: system_inv_def)
  let ?c = "slot_content (spool (shared s1)) (refIdx ref)"
  have pc: "epc (eng s1) = EngPop 0" "ring_queue (sring (shared s1)) = [ref]" "eng s1 = eng s" using 1(2) q by (simp_all add: passed_def quiet_def)
  then have "accepted s1 = consumed s1 @ [entry (spool (shared s1)) ref]" using pipe_invD(6) [OF pi] 1(3) by simp
  then have "good_packet (?c, tWireCycles ref)" using pipe_invD(7) [OF pi] by (simp add: entry_def)
  then obtain x where x: "consume_packet clk ?c (tWireCycles ref) (est (eng s1)) = Some (Inr x)" "P x"
    using proc [of ?c "tWireCycles ref"] 1(4) pc(3) by (auto simp: entry_def)
  obtain s2 where 2: "pipe_reachable F clk s1 s2" "net s2 = net s1" "epc (eng s2) = EngPop 0" "est (eng s2) = x"
    "ring_queue (sring (shared s2)) = []" "ring_cap (sring (shared s2)) = ring_cap (sring (shared s1))"
    "pool_slots (spool (shared s2)) = pool_slots (spool (shared s1))" "handled s2 = handled s1" "refused s2 = refused s1"
    using eng_takes_packet [OF inv1 pc(1,2) 1(3) x(1)] by blast
  have "quiet ready s2" using 2 1(2,5) q by (simp add: quiet_def passed_def)
  then show ?thesis using pipe_reachable_trans [OF 2(1) 1(1)] 2 1(2,6) x(2) by (intro exI [of _ s2]) (simp add: passed_def)
qed

text \<open>The end-of-session marker stops the matching thread.\<close>

lemma deliver_end:
  assumes inv: "system_inv F feed_ok trk kept clk st0 s" and q: "quiet ready s"
  shows "\<exists>s'. pipe_reachable F clk s s' \<and> epc (eng s') = EngDone \<and> handled s' = handled s @ [end_packet n] \<and> refused s' = refused s"
proof -
  let ?d = "end_packet n" and ?h = "\<lparr>session = replaySession, sequenceNumber = n, messageCount = kMoldEndOfSession\<rparr>"
  have h: "parseMoldHeader ?d = Some ?h" using parse_header [of replaySession n kMoldEndOfSession "[]"] by (simp add: end_packet_def)
  have d: "kMoldHeaderBytes \<le> length ?d" "length ?d \<le> kMaxPacketBytes" by (simp_all add: end_packet_def kMoldHeaderBytes_def kMaxPacketBytes_def)
  obtain v k st where t: "trackHeader ?h (trk (net s)) FeedStats_new = (v, k, st)" by (metis prod_cases3)
  then have "v = EndSession" by (auto simp: trackHeader_def Let_def split: if_splits)
  then obtain s1 ref where 1: "pipe_reachable F clk s s1" "passed s ?d ref s1" "refIdx ref = kPoolInvalid"
    using ends [OF inv q d h] t by blast
  obtain fs1 where pi: "pipe_inv (fphase F) clk st0 s1 fs1" using reachable_inv [OF 1(1) inv] by (auto simp: system_inv_def)
  have pc: "epc (eng s1) = EngPop 0" "ring_queue (sring (shared s1)) = [ref]" using 1(2) q by (simp_all add: passed_def quiet_def)
  obtain r where r: "ring_pop (sring (shared s1)) = Some (Some ref, r)" using spsc.pop_some [OF pipe_invD(2) [OF pi] pc(2)] by blast
  let ?s2 = "s1\<lparr>shared := (shared s1)\<lparr>sring := r\<rparr>, eng := (eng s1)\<lparr>epc := EngStop\<rparr>\<rparr>"
  have 2: "pipe_step F clk s1 ?s2"
    using pipe_step.eng [of clk s1 "(shared s1)\<lparr>sring := r\<rparr>" "(eng s1)\<lparr>epc := EngStop\<rparr>"] r pc(1) 1(3)
    by (simp add: consumer_step_def eng_history_def)
  let ?s3 = "?s2\<lparr>shared := (shared ?s2)\<lparr>sstop := True\<rparr>, eng := (eng s1)\<lparr>epc := EngDone\<rparr>\<rparr>"
  have 3: "pipe_step F clk ?s2 ?s3"
    using pipe_step.eng [of clk ?s2 "(shared ?s2)\<lparr>sstop := True\<rparr>" "(eng s1)\<lparr>epc := EngDone\<rparr>"]
    by (simp add: consumer_step_def eng_history_def)
  have "pipe_reachable F clk s ?s3" by (rule pipe_reachable.step [OF pipe_reachable.step [OF 1(1) 2] 3])
  then show ?thesis using 1(2) by (intro exI [of _ ?s3]) (simp add: passed_def)
qed

lemma deliver_stream:
  assumes "system_inv F feed_ok trk kept clk st0 s" and "quiet ready s" and "list_all (packet_group m) gs" and "unat m \<le> batchSlots"
    and "sessionInit (trk (net s)) \<Longrightarrow> nextExpected (trk (net s)) = sq"
    and "list_all2 wf_message (concat gs) msgs" and "est (eng s) = (e, sc, k)" and "engine_ok e fs' Q" and "room_for (length msgs) e Q"
  shows "\<exists>s'. pipe_reachable F clk s s' \<and> epc (eng s') = EngDone \<and>
    handled s' = handled s @ packet_stream sq gs @ [end_packet n] \<and> refused s' = refused s"
  using assms(1-3,5-)
proof (induction gs arbitrary: s sq msgs e sc k fs' Q)
  case Nil
  then show ?case using deliver_end by fastforce
next
  case (Cons g gs)
  let ?d = "data_packet sq g"
  have g: "packet_group m g" using Cons.prems(3) by simp
  obtain h k1 st1 where t: "parseMoldHeader ?d = Some h" "trackHeader h (trk (net s)) FeedStats_new = (Accept, k1, st1)"
    "sessionInit k1" "nextExpected k1 = sq + of_nat (length g)"
    by (rule track_group [OF g assms(4) Cons.prems(4)])
  obtain ms1 ms2 where ms: "msgs = ms1 @ ms2" "list_all2 wf_message g ms1" "list_all2 wf_message (concat gs) ms2"
    using Cons.prems(5) by (auto simp: list_all2_append1)
  let ?P = "\<lambda>x. \<exists>e' sc' k' fs' Q'. x = (e', sc', k') \<and> engine_ok e' fs' Q' \<and> room_for (length ms2) e' Q'"
  have len: "length ?d = kMoldHeaderBytes + length (wire_messages g)" by (simp add: data_packet_def kMoldHeaderBytes_def)
  have d: "kMoldHeaderBytes \<le> length ?d" "length ?d \<le> kMaxPacketBytes"
    using len g by (simp_all add: packet_group_def kMaxPacketBytes_def packetBytes_def)
  have room: "room_for (length ms1 + length ms2) e Q" using Cons.prems(8) ms(1) by simp
  have "\<exists>x. consume_packet clk c w (est (eng s)) = Some (Inr x) \<and> ?P x" if "good_packet (c, w)" "packet_of (c, w) = ?d" for c w
  proof -
    have "carries (c, w) g" using that by (auto simp: carries_def)
    from consume_packet_sim [OF this ms(2) Cons.prems(7) room, of clk sc k] show ?thesis
      unfolding Cons.prems(6) by blast
  qed
  then obtain s1 where s1: "pipe_reachable F clk s s1" "quiet ready s1" "trk (net s1) = k1" "?P (est (eng s1))"
    "handled s1 = handled s @ [?d]" "refused s1 = refused s"
    using deliver_packet [OF Cons.prems(1,2) d t(1,2), of ?P] by blast
  obtain e1 sc1 k2 fs1 Q1 where e1: "est (eng s1) = (e1, sc1, k2)" "engine_ok e1 fs1 Q1" "room_for (length ms2) e1 Q1"
    using s1(4) by blast
  obtain s' where s': "pipe_reachable F clk s1 s'" "epc (eng s') = EngDone"
    "handled s' = handled s1 @ packet_stream (sq + of_nat (length g)) gs @ [end_packet n]" "refused s' = refused s1"
    using Cons.IH [OF reachable_inv [OF s1(1) Cons.prems(1)] s1(2) _ _ ms(3) e1] Cons.prems(3) s1(3) t(4) by auto
  then show ?case using pipe_reachable_trans [OF s'(1) s1(1)] s1 by (intro exI [of _ s']) simp
qed

text \<open>From the start, with the network thread in a state \<open>t\<close> in which it waits for the first packet.\<close>

lemma completes:
  assumes eng: "MatchingEngine_sized cap = Some e" "list_all2 wf_message bss msgs"
      "length msgs < unat cap" "length msgs < unat INVALID_INDEX"
    and fit: "list_all fits bss" "0 < m" "unat m \<le> batchSlots" "\<And>k. send k"
    and start: "runUdp_start n c e = Some (sh, et)" "n \<le> unat kPoolInvalid" "1 < c"
    and t: "feed_ok t" "net_holds (fphase F t) = []" "trk t = SeqTracker_new" "kept t = []" "ready t"
  shows "\<exists>pkts s. replay send m (Some (concat (map frame bss))) = Some pkts \<and>
    pipe_reachable F clk (pipe_init (sh, t, et)) s \<and> handled s = pkts \<and> refused s = 0 \<and> epc (eng s) = EngDone"
proof -
  let ?s0 = "pipe_init (sh, t, et)"
  have i0: "system_inv F feed_ok trk kept clk (e, no_output, 0) ?s0" by (rule system_inv_init) (rule start(1,2) t(1-4))+
  obtain p r where p: "PacketPool_new n = Some p" and r: "SpscRing_new \<lparr>refIdx = 0, tWireCycles = 0\<rparr> c = Some r"
    and st: "sh = \<lparr>spool = p, sring = r, sstop = False\<rparr>" "et = \<lparr>epc = EngPop 0, est = (e, no_output, 0)\<rparr>"
    using start(1) by (auto simp: runUdp_start_def no_output_def bind_eq_Some_conv)
  have "0 < n" using p by (auto simp: PacketPool_new_def split: if_splits)
  then have "pool_slots p \<noteq> {}" using PacketPool_new_ok(2) [OF p start(2)] by (auto simp: pool_slots_def intro!: exI [of _ 0])
  moreover have "1 < unat c" using start(3) by (simp add: word_less_nat_alt)
  ultimately have q: "quiet ready ?s0"
    using SpscRing_new_ok [OF r] t(5) by (simp add: quiet_def pipe_init_def st)
  obtain gs where gs: "replay send m (Some (concat (map frame bss))) = Some (packet_stream 1 gs @ [end_packet (1 + of_nat (length bss))])"
    "concat gs = bss" "list_all (packet_group m) gs"
    by (rule replay_spec [where send = send, OF fit(1-3)]) (use fit(4) in blast)+
  note new = engine_ok_new [OF eng(1)]
  have "room_for (length msgs) e (\<lambda>l. ([], []))" using new eng(3,4) by (simp add: room_for_def slots_of_def)
  then have "\<exists>s'. pipe_reachable F clk ?s0 s' \<and> epc (eng s') = EngDone \<and>
      handled s' = handled ?s0 @ packet_stream 1 gs @ [end_packet (1 + of_nat (length bss))] \<and> refused s' = refused ?s0"
    using eng(2) gs(2) new(1) t(3)
    by (intro deliver_stream [OF i0 q gs(3) fit(3)]) (auto simp: pipe_init_def st SeqTracker_new_def)
  then show ?thesis using gs(1) by (auto simp: pipe_init_def)
qed

end

end
