(* ===== verification/Socket_Session.thy ===== *)
theory Socket_Session
  imports Socket_Pipeline Delivery
begin

text \<open>
  A whole UDP session with the socket thread: the replay sender's packets received, carried through the
  pool and the ring and processed by the matching thread.  If the network delivers the packets in
  order and none is refused, the engine ends in a state that the abstract engine reaches over
  exactly the messages of the file, as in file mode; and there is a schedule that completes.
\<close>

text \<open>A session that has run to its end.\<close>

lemma session_sim:
  assumes eng: "MatchingEngine_sized cap = Some e" "list_all2 wf_message bss msgs"
      "length msgs < unat cap" "length msgs < unat INVALID_INDEX"
    and fit: "list_all fits bss" "0 < m" "unat m \<le> batchSlots" "\<And>k. send k"
    and sent: "replay send m (Some (concat (map frame bss))) = Some pkts"
    and start: "runUdp_start n c e = Some st" "n \<le> unat kPoolInvalid"
    and reach: "pipe_reachable socket_feed clk (socket_init setup_ok st) s" "handled s = pkts" "refused s = 0" "epc (eng s) = EngDone"
  obtains fs Q sc where "engine_ok (runUdp_finish toNs (eng s)) fs Q" "engine_steps start msgs (view (runUdp_finish toNs (eng s)) Q, sc)"
proof -
  have "fst (sift pkts SeqTracker_new) = map packet_of (consumed s) \<and> list_all good_packet (consumed s) \<and>
      process_all clk (consumed s) (e, no_output, 0) = Some (Inr (est (eng s)))"
    using socket.complete [OF reach(1) socket_inv_init [OF start] reach(3,4)] reach(2) by simp
  then show ?thesis using stream_sim [where send = send, OF eng fit(1-3) _ sent] fit(4) that by metis
qed

section \<open>A schedule that completes\<close>

definition net_ready :: "NetThread \<Rightarrow> bool" where
  "net_ready t \<longleftrightarrow> npc t = NetTop"

lemma net_receive_frame:
  assumes run: "net_receive d w i (sh, n) = Some (sh', n')"
  shows "sring sh' = sring sh \<and> pool_slots (spool sh') = pool_slots (spool sh)"
proof -
  obtain slot where slot: "vec_at (pslots (spool sh)) i = Some slot"
    using run by (auto simp: net_receive_def split: bind_splits)
  have i: "unat i < length (pslots (spool sh))" using slot by (simp add: vec_at_eq_Some)
  show ?thesis using run slot i
    by (cases "recv_into d (sdata slot)") (auto simp: net_receive_def vec_simps pool_slots_def Let_def split: if_splits bind_splits prod.splits)
qed

lemma quiet_acquire:
  assumes inv: "pipe_inv net_phase clk st0 s fs" and q: "quiet net_ready s"
  obtains i p where "net_step inp w (shared s, net s) = Some ((shared s)\<lparr>spool := p\<rparr>, (net s)\<lparr>npc := NetRecv i\<rparr>)"
    "pool_slots p = pool_slots (spool (shared s))"
proof -
  note D = pipe_invD [OF inv]
  have "set fs = pool_slots (spool (shared s))" using D(4) q by (simp add: owners_def quiet_def net_ready_def net_phase_def)
  then obtain i fs' where fs: "fs = i # fs'" using q by (cases fs) (auto simp: quiet_def)
  obtain p where p: "acquire (spool (shared s)) = Some (i, p)" "pool_slots p = pool_slots (spool (shared s))"
    using packet_pool.acquire_some [of "spool (shared s)" i fs'] D(1) fs by blast
  have "i \<noteq> kPoolInvalid" using packet_pool.free_valid [OF D(1)] fs by auto
  moreover have "\<not> sstop (shared s)" using D(8) q by (auto simp: quiet_def net_ready_def session_end_def net_phase_def)
  ultimately show ?thesis using q p by (intro that [of p i]) (simp_all add: net_step_def quiet_def net_ready_def)
qed

text \<open>The network thread receives a datagram into a fresh buffer.\<close>

lemma net_takes_datagram:
  assumes inv: "pipe_inv net_phase clk st0 s fs" and q: "quiet net_ready s"
    and d: "kMoldHeaderBytes \<le> length d" "length d \<le> kMaxPacketBytes" and h: "parseMoldHeader d = Some h"
  obtains s' v st' where "pipe_reachable socket_feed clk s s'" "trackHeader h (tracker (net s)) FeedStats_new = (v, tracker (net s'), st')"
    "map packet_of (pending (spool (shared s')) (net_phase (net s'))) = (if v = Accept then [d] else [])"
    "\<exists>i. npc (net s') = (case v of EndSession \<Rightarrow> NetRelease i (SendSentinel w) | Heartbeat \<Rightarrow> NetRelease i Continue
        | Duplicate \<Rightarrow> NetRelease i Continue | Accept \<Rightarrow> NetPush i w)"
    "eng s' = eng s" "sring (shared s') = sring (shared s)" "pool_slots (spool (shared s')) = pool_slots (spool (shared s))"
    "handled s' = handled s @ [d]" "refused s' = refused s"
proof -
  obtain i p where a: "net_step (Datagram d) w (shared s, net s) = Some ((shared s)\<lparr>spool := p\<rparr>, (net s)\<lparr>npc := NetRecv i\<rparr>)"
    "pool_slots p = pool_slots (spool (shared s))" by (rule quiet_acquire [OF inv q])
  let ?s1 = "s\<lparr>shared := (shared s)\<lparr>spool := p\<rparr>, net := (net s)\<lparr>npc := NetRecv i\<rparr>\<rparr>"
  have 1: "pipe_step socket_feed clk s ?s1" using socket_step [OF a(1)] q by (simp add: socket_history quiet_def net_ready_def)
  obtain fs1 where inv1: "pipe_inv net_phase clk st0 ?s1 fs1" using socket_step_inv [OF 1 inv] by blast
  have i: "i \<in> pool_slots p" "unat i < length (pslots p)" using held_slot [OF inv1, of i] by (simp_all add: net_phase_def)
  then have buf: "length (fst (slot_content p i)) = kMaxPacketBytes" using pipe_invD(5) [OF inv1, of i] by simp
  obtain sh' n' where r: "net_receive d w i (shared ?s1, net ?s1) = Some (sh', n')"
    using net_receive_total [of i "shared ?s1" d w "net ?s1"] i(2) by auto
  let ?s2 = "?s1\<lparr>shared := sh', net := n', handled := handled s @ [d]\<rparr>"
  have td: "take kMaxPacketBytes d = d" using d(2) by simp
  have 2: "pipe_step socket_feed clk ?s1 ?s2"
    using socket_step [of "Datagram d" w ?s1 sh' n' clk] r d(1) td by (simp add: net_step_def socket_history)
  obtain v st where t: "trackHeader h (tracker (net s)) (countReceived (length d) (nstats (net s))) = (v, tracker n', st)"
    "map packet_of (pending (spool sh') (net_phase n')) = (if v = Accept then [d] else [])"
    "npc n' = (case v of EndSession \<Rightarrow> NetRelease i (SendSentinel w) | Heartbeat \<Rightarrow> NetRelease i Continue
        | Duplicate \<Rightarrow> NetRelease i Continue | Accept \<Rightarrow> NetPush i w)"
  proof (rule net_receive_cases [OF r])
    fix sl h' v k st
    assume pk: "kMoldHeaderBytes \<le> length (take kMaxPacketBytes d)" "sh' = put_slot (shared ?s1) i sl"
      "take (unat (slength sl)) (sdata sl) = take kMaxPacketBytes d"
      "parseMoldHeader (take kMaxPacketBytes d) = Some h'"
      "trackHeader h' (tracker (net ?s1)) (countReceived (length (take kMaxPacketBytes d)) (nstats (net ?s1))) = (v, k, st)"
      "n' = \<lparr>npc = (case v of EndSession \<Rightarrow> NetRelease i (SendSentinel w) | Heartbeat \<Rightarrow> NetRelease i Continue
        | Duplicate \<Rightarrow> NetRelease i Continue | Accept \<Rightarrow> NetPush i w), tracker = k, nstats = st\<rparr>"
    have "packet_of (slot_content (spool sh') i, w) = d"
      using pk(2,3) i(2) td by (simp add: packet_of_def put_slot_def slot_content_upd)
    then show thesis using pk(4-6) td h by (intro that [of v st]) (auto simp: net_phase_def split: verdict.split)
  qed (use i(2) buf d(1) td in auto)
  obtain st' where "trackHeader h (tracker (net s)) FeedStats_new = (v, tracker n', st')"
    using trackHeader_stats [of h "tracker (net s)" FeedStats_new] t(1) by (metis fst_conv snd_conv)
  moreover have "pipe_reachable socket_feed clk s ?s2" using 1 2 by (blast intro: pipe_reachable.intros)
  ultimately show ?thesis
    using t(2,3) net_receive_frame [OF r] a(2) by (intro that [of ?s2 v st']) auto
qed

text \<open>Pushing what was received, or the sentinel.\<close>

lemma net_hands_over:
  assumes inv: "pipe_inv net_phase clk st0 s fs" and q: "quiet net_ready s"
    and d: "kMoldHeaderBytes \<le> length d" "length d \<le> kMaxPacketBytes" and h: "parseMoldHeader d = Some h"
    and acc: "trackHeader h (tracker (net s)) FeedStats_new = (Accept, k, st)"
  shows "\<exists>s' ref. pipe_reachable socket_feed clk s s' \<and> passed s d ref s' \<and> refIdx ref \<noteq> kPoolInvalid \<and>
    packet_of (entry (spool (shared s')) ref) = d \<and> net_ready (net s') \<and> tracker (net s') = k"
proof -
  obtain s1 v st1 where 1: "pipe_reachable socket_feed clk s s1" "trackHeader h (tracker (net s)) FeedStats_new = (v, tracker (net s1), st1)"
    "map packet_of (pending (spool (shared s1)) (net_phase (net s1))) = (if v = Accept then [d] else [])"
    "\<exists>i. npc (net s1) = (case v of EndSession \<Rightarrow> NetRelease i (SendSentinel 0) | Heartbeat \<Rightarrow> NetRelease i Continue
        | Duplicate \<Rightarrow> NetRelease i Continue | Accept \<Rightarrow> NetPush i 0)"
    "eng s1 = eng s" "sring (shared s1) = sring (shared s)" "pool_slots (spool (shared s1)) = pool_slots (spool (shared s))"
    "handled s1 = handled s @ [d]" "refused s1 = refused s"
    by (rule net_takes_datagram [OF inv q d h, where w = 0])
  have v: "v = Accept" "tracker (net s1) = k" using 1(2) acc by auto
  then obtain i where pc: "npc (net s1) = NetPush i 0" using 1(4) by auto
  obtain fs1 where inv1: "pipe_inv net_phase clk st0 s1 fs1" using socket_reachable_inv [OF 1(1) inv] by blast
  let ?c = "slot_content (spool (shared s1)) i" and ?ref = "\<lparr>refIdx = i, tWireCycles = 0\<rparr>"
  have c: "packet_of (?c, 0) = d" using 1(3) pc v by (simp add: net_phase_def)
  have i: "i \<noteq> kPoolInvalid" using held_slot(3) [OF inv1, of i] pc by (simp add: net_phase_def)
  have ring: "ring_queue (sring (shared s1)) = []" "0 < ring_cap (sring (shared s1))" using q 1(6) by (simp_all add: quiet_def)
  obtain r where r: "ring_push (sring (shared s1)) ?ref = Some (True, r)" "ring_queue r = [?ref]" "ring_cap r = ring_cap (sring (shared s1))"
    using spsc.push_room [OF pipe_invD(2) [OF inv1], of ?ref] ring by auto
  let ?s2 = "s1\<lparr>shared := (shared s1)\<lparr>sring := r\<rparr>, net := (net s1)\<lparr>npc := NetTop\<rparr>, accepted := accepted s1 @ [(?c, 0)]\<rparr>"
  have 2: "pipe_step socket_feed clk s1 ?s2"
    using socket_step [of Failed 0 s1 "(shared s1)\<lparr>sring := r\<rparr>" "(net s1)\<lparr>npc := NetTop\<rparr>" clk] r(1) pc
    by (simp add: net_step_def socket_history)
  show ?thesis using pipe_reachable.step [OF 1(1) 2] 1 r i c v(2)
    by (intro exI [of _ ?s2] exI [of _ ?ref]) (simp add: passed_def entry_def net_ready_def)
qed

lemma net_ends:
  assumes inv: "pipe_inv net_phase clk st0 s fs" and q: "quiet net_ready s"
    and d: "kMoldHeaderBytes \<le> length d" "length d \<le> kMaxPacketBytes" and h: "parseMoldHeader d = Some h"
    and acc: "trackHeader h (tracker (net s)) FeedStats_new = (EndSession, k, st)"
  shows "\<exists>s' ref. pipe_reachable socket_feed clk s s' \<and> passed s d ref s' \<and> refIdx ref = kPoolInvalid"
proof -
  obtain s1 v st1 where 1: "pipe_reachable socket_feed clk s s1" "trackHeader h (tracker (net s)) FeedStats_new = (v, tracker (net s1), st1)"
    "\<exists>i. npc (net s1) = (case v of EndSession \<Rightarrow> NetRelease i (SendSentinel 0) | Heartbeat \<Rightarrow> NetRelease i Continue
        | Duplicate \<Rightarrow> NetRelease i Continue | Accept \<Rightarrow> NetPush i 0)"
    "eng s1 = eng s" "sring (shared s1) = sring (shared s)" "pool_slots (spool (shared s1)) = pool_slots (spool (shared s))"
    "handled s1 = handled s @ [d]" "refused s1 = refused s"
    by (rule net_takes_datagram [OF inv q d h, where w = 0])
  then obtain i where pc: "npc (net s1) = NetRelease i (SendSentinel 0)" using acc by auto
  obtain fs1 where inv1: "pipe_inv net_phase clk st0 s1 fs1" using socket_reachable_inv [OF 1(1) inv] by blast
  obtain p where p: "release (spool (shared s1)) i = Some p" "pool_slots p = pool_slots (spool (shared s1))"
    using packet_pool.release_ok [OF pipe_invD(1) [OF inv1] held_slot(1,2) [OF inv1, of i]] pc by (auto simp: net_phase_def)
  let ?s2 = "s1\<lparr>shared := (shared s1)\<lparr>spool := p\<rparr>, net := (net s1)\<lparr>npc := NetSentinel 0\<rparr>\<rparr>"
  have 2: "pipe_step socket_feed clk s1 ?s2"
    using socket_step [of Failed 0 s1 "(shared s1)\<lparr>spool := p\<rparr>" "(net s1)\<lparr>npc := NetSentinel 0\<rparr>" clk] p(1) pc
    by (simp add: net_step_def socket_history)
  let ?ref = "\<lparr>refIdx = kPoolInvalid, tWireCycles = 0\<rparr>"
  have ring: "ring_queue (sring (shared s1)) = []" "0 < ring_cap (sring (shared s1))" using q 1(5) by (simp_all add: quiet_def)
  obtain r where r: "ring_push (sring (shared s1)) ?ref = Some (True, r)" "ring_queue r = [?ref]" "ring_cap r = ring_cap (sring (shared s1))"
    using spsc.push_room [OF pipe_invD(2) [OF inv1], of ?ref] ring by auto
  let ?s3 = "?s2\<lparr>shared := (shared ?s2)\<lparr>sring := r\<rparr>, net := (net s1)\<lparr>npc := NetDone\<rparr>\<rparr>"
  have 3: "pipe_step socket_feed clk ?s2 ?s3"
    using socket_step [of Failed 0 ?s2 "(shared ?s2)\<lparr>sring := r\<rparr>" "(net s1)\<lparr>npc := NetDone\<rparr>" clk] r(1)
    by (simp add: net_step_def socket_history)
  show ?thesis using pipe_reachable.step [OF pipe_reachable.step [OF 1(1) 2] 3] 1 p(2) r
    by (intro exI [of _ ?s3] exI [of _ ?ref]) (simp add: passed_def)
qed

interpretation socket: delivery socket_feed "\<lambda>_. True" tracker "\<lambda>_. []" net_ready
proof unfold_locales
  fix clk st0 d h k st and s :: "NetThread Pipe"
  assume inv: "system_inv socket_feed (\<lambda>_. True) tracker (\<lambda>_. []) clk st0 s" and q: "quiet net_ready s"
    and d: "kMoldHeaderBytes \<le> length d" "length d \<le> kMaxPacketBytes" and h: "parseMoldHeader d = Some h"
  obtain fs where pi: "pipe_inv net_phase clk st0 s fs" using inv by (auto simp: system_inv_def)
  show "\<exists>s' ref. pipe_reachable socket_feed clk s s' \<and> passed s d ref s' \<and> refIdx ref \<noteq> kPoolInvalid \<and>
      packet_of (entry (spool (shared s')) ref) = d \<and> net_ready (net s') \<and> tracker (net s') = k"
    if "trackHeader h (tracker (net s)) FeedStats_new = (Accept, k, st)"
    by (rule net_hands_over [OF pi q d h that])
  show "\<exists>s' ref. pipe_reachable socket_feed clk s s' \<and> passed s d ref s' \<and> refIdx ref = kPoolInvalid"
    if "trackHeader h (tracker (net s)) FeedStats_new = (EndSession, k, st)"
    by (rule net_ends [OF pi q d h that])
qed

lemma session_completes:
  assumes "MatchingEngine_sized cap = Some e" "list_all2 wf_message bss msgs"
      "length msgs < unat cap" "length msgs < unat INVALID_INDEX"
    and "list_all fits bss" "0 < m" "unat m \<le> batchSlots" "\<And>k. send k"
    and "runUdp_start n c e = Some st" "n \<le> unat kPoolInvalid" "1 < c"
  shows "\<exists>pkts s. replay send m (Some (concat (map frame bss))) = Some pkts \<and>
    pipe_reachable socket_feed clk (socket_init True st) s \<and> handled s = pkts \<and> refused s = 0 \<and> epc (eng s) = EngDone"
proof -
  obtain sh et where st: "st = (sh, et)" by (cases st)
  show ?thesis unfolding st socket_init_def prod.case
    by (rule socket.completes [OF assms(1-8)])
      (use assms(9-11) in \<open>simp_all add: st NetThread_new_def net_ready_def net_phase_def\<close>)
qed

end
