(* ===== verification/Xdp_Session.thy ===== *)
theory Xdp_Session
  imports Xdp_Pipeline Delivery
begin

text \<open>
  A whole UDP session with the AF_XDP thread: if the frames carry the packets of the replay sender and none is
  lost, the engine ends where file mode ends; and there is a schedule of kernel and threads that
  completes.
\<close>

section \<open>A session that has run to its end\<close>

lemma xdp_session_sim:
  assumes eng: "MatchingEngine_sized cap = Some e" "list_all2 wf_message bss msgs"
      "length msgs < unat cap" "length msgs < unat INVALID_INDEX"
    and fit: "list_all fits bss" "0 < m" "unat m \<le> batchSlots" "\<And>k. send k"
    and sent: "replay send m (Some (concat (map frame bss))) = Some pkts"
    and env: "kernel_ok kern" "xsk_ok xsk"
    and start: "runUdp_start n c e = Some st" "n \<le> unat kPoolInvalid"
    and reach: "pipe_reachable (xdp_feed kern xsk port) clk (xdp_init setup_ok st) s" "handled s = pkts" "refused s = 0" "epc (eng s) = EngDone"
  obtains fs Q sc where "engine_ok (runUdp_finish toNs (eng s)) fs Q" "engine_steps start msgs (view (runUdp_finish toNs (eng s)) Q, sc)"
proof -
  have kept: "xdp_kept t = []" if "xdp_ok t" "xdp_phase t = FDone" for t
    using xdp_okD(4) [OF that(1)] that(2) by (cases "xpc t") (auto simp: xdp_kept_def xdp_phase_def split: if_splits)
  have "fst (sift pkts SeqTracker_new) = map packet_of (consumed s) \<and> list_all good_packet (consumed s) \<and>
      process_all clk (consumed s) (e, no_output, 0) = Some (Inr (est (eng s)))"
    using feed_thread.complete [OF xdp_feed_thread [OF env(1,2)] reach(1) xdp_inv_init [OF start] reach(3,4)] kept reach(2) by simp
  then show ?thesis using stream_sim [where send = send, OF eng fit(1-3) _ sent] fit(4) that by metis
qed

section \<open>A schedule that completes\<close>

text \<open>Peeking shows something if there is something.\<close>

definition xsk_live :: "Xsk \<Rightarrow> bool" where
  "xsk_live xsk \<longleftrightarrow> (\<forall>avail n. 0 < avail \<longrightarrow> 0 < n \<longrightarrow> 0 < peek xsk avail n)"

definition xdp_ready :: "XdpThread \<Rightarrow> bool" where
  "xdp_ready t \<longleftrightarrow> xpc t = XdpTop \<and> \<not> xdone t \<and> rxq (xumem t) = []"

text \<open>The kernel stores a frame in the first frame of the fill ring and passes it on.\<close>

definition kernel_stores :: "bytes \<Rightarrow> Umem \<Rightarrow> Umem" where
  "kernel_stores frm u = (let b = frame_no (hd (fillq u)) * kFrameSize in
     \<lparr>area = take b (area u) @ frm @ drop (b + length frm) (area u), fillq = tl (fillq u),
      rxq = rxq u @ [\<lparr>daddr = of_nat b, dlen = of_nat (length frm)\<rparr>]\<rparr>)"

lemma kernel_stores_spec:
  assumes um: "umem_ok u []" and rx: "rxq u = []" and frm: "length frm \<le> kFrameSize"
  obtains d where "kernel_move u (kernel_stores frm u)" "rxq (kernel_stores frm u) = [d]"
    "umem_read (kernel_stores frm u) (unat (daddr d)) (unat (dlen d)) = Some frm"
proof -
  note D = umem_okD [OF um]
  have "length (fillq u) = kNumFrames" using D(4) rx by simp
  then obtain a q where fq: "fillq u = a # q" by (cases "fillq u") (auto simp: kNumFrames_def)
  define b where "b = frame_no a * kFrameSize"
  have fa: "frame_no a < kNumFrames" using D(3) fq by (auto simp: umem_frames_def)
  then have "Suc (frame_no a) * kFrameSize \<le> kNumFrames * kFrameSize" by (intro mult_right_mono) simp_all
  then have b: "b + kFrameSize \<le> length (area u)" "b < 2 ^ 64" using D(1) by (simp_all add: b_def kNumFrames_def kFrameSize_def)
  have ub: "unat (of_nat b :: u64) = b" by (rule unat_of_nat_small) (use b(2) in simp)
  have ul: "unat (of_nat (length frm) :: u32) = length frm" by (rule unat_of_nat_small) (use frm in \<open>simp add: kFrameSize_def\<close>)
  let ?d = "\<lparr>daddr = of_nat b, dlen = of_nat (length frm)\<rparr> :: xdp_desc" and ?u = "kernel_stores frm u"
  have u': "?u = \<lparr>area = take b (area u) @ frm @ drop (b + length frm) (area u), fillq = q, rxq = [?d]\<rparr>"
    by (simp add: kernel_stores_def fq rx b_def Let_def)
  have len: "length (area ?u) = length (area u)" using b(1) frm by (simp add: u')
  have fd: "frame_no (daddr ?d) = frame_no a" "in_frame ?d" using frm ub ul by (simp_all add: frame_no_def in_frame_def b_def kFrameSize_def)
  have "area ?u ! j = area u ! j" if "j < length (area u)" "j div kFrameSize \<notin> frame_no ` set (fillq u)" for j
  proof -
    have "j div kFrameSize \<noteq> frame_no a" using that(2) fq by auto
    then have "j < b \<or> b + kFrameSize \<le> j" unfolding b_def
      by (metis add.commute div_nat_eqI mult.commute mult_Suc not_less)
    then show ?thesis using that(1) b(1) frm by (auto simp: u' nth_append)
  qed
  then have "kernel_move u ?u" using len fd rx fq by (auto simp: kernel_move_def u')
  moreover have "umem_read ?u (unat (daddr ?d)) (unat (dlen ?d)) = Some frm"
    using b(1) frm ub ul len by (simp add: umem_read_def) (simp add: u')
  moreover have "rxq ?u = [?d]" by (simp add: u')
  ultimately show ?thesis using that by blast
qed

lemma kernel_move_ok: "kernel_ok kernel_move"
  by (simp add: kernel_ok_def)

lemma xdp_thread_step:
  assumes "xdp_step xsk port w (shared s, net s) = Some (sh', t')"
  shows "pipe_step (xdp_feed kern xsk port) clk s (net_history (xdp_feed kern xsk port) (ThreadMove w) s t' (s\<lparr>shared := sh', net := t'\<rparr>))"
  by (rule pipe_step.net) (simp add: xdp_system_def assms)

lemmas xdp_history = net_history_def xdp_heard_def xdp_lost_def xdp_phase_def

text \<open>A frame with packet \<open>d\<close> arrives and is taken up to the decision.\<close>

definition packet_frame :: "u16 \<Rightarrow> bytes \<Rightarrow> bytes" where
  "packet_frame port d = udp_frame (replicate 12 0) ip20 [0, 0] port [0, 0, 0, 0] d"

lemma packet_frame_payload: "kMoldHeaderBytes \<le> length d \<Longrightarrow> xdp_payload port (packet_frame port d) = Some (Some d)"
  using xdp_payload_frame [OF ip20_shape] by (simp add: packet_frame_def)

lemma xdp_decide_fields [simp]:
  "xtracker (xdp_decide v off n t) = xtracker t" "xdone (xdp_decide v off n t) = xdone t"
  "xrcvd (xdp_decide v off n t) = xrcvd t" "xumem (xdp_decide v off n t) = xumem t"
  by (simp_all add: xdp_decide_def split: verdict.split)

lemma xdp_takes_frame:
  assumes inv: "system_inv (xdp_feed kernel_move xsk port) xdp_ok xtracker xdp_kept clk st0 s" and q: "quiet xdp_ready s"
    and xsk: "xsk_ok xsk" "xsk_live xsk"
    and d: "kMoldHeaderBytes \<le> length d" "length d \<le> kMaxPacketBytes" and h: "parseMoldHeader d = Some h"
    and tr: "trackHeader h (xtracker (net s)) FeedStats_new = (v, k, st)"
  obtains s' off where "pipe_reachable (xdp_feed kernel_move xsk port) clk s s'" "shared s' = shared s" "eng s' = eng s"
    "handled s' = handled s @ [d]" "refused s' = refused s" "xtracker (net s') = k" "\<not> xdone (net s')"
    "xrcvd (net s') = 1" "length (rxq (xumem (net s'))) = 1"
    "v = Accept \<Longrightarrow> xpc (net s') = XdpAcquire off (length d) \<and> xi (net s') = 0 \<and> umem_read (xumem (net s')) off (length d) = Some d"
    "v = EndSession \<Longrightarrow> xpc (net s') = XdpSentinel"
proof -
  let ?F = "xdp_feed kernel_move xsk port" and ?t = "net s"
  have ok: "xdp_ok ?t" and r: "xpc ?t = XdpTop" "\<not> xdone ?t" "rxq (xumem ?t) = []" using inv q by (simp_all add: system_inv_def quiet_def xdp_ready_def)
  obtain fs where pi: "pipe_inv xdp_phase clk st0 s fs" using inv by (auto simp: system_inv_def)
  have um: "umem_ok (xumem ?t) []" using xdp_okD(3) [OF ok] r by (simp add: returning_def)
  have frm: "length (packet_frame port d) \<le> kFrameSize" using d(2) by (simp add: packet_frame_def udp_frame_def ip20_def kFrameSize_def kMaxPacketBytes_def)
  define u where "u = kernel_stores (packet_frame port d) (xumem ?t)"
  obtain de where u: "kernel_move (xumem ?t) u" "rxq u = [de]" "umem_read u (unat (daddr de)) (unat (dlen de)) = Some (packet_frame port d)"
    using kernel_stores_spec [OF um r(3) frm] by (auto simp: u_def)
  let ?s1 = "s\<lparr>net := ?t\<lparr>xumem := u\<rparr>\<rparr>"
  have 1: "pipe_step ?F clk s ?s1"
    using pipe_step.net [of ?F "KernelMove u" s "shared s" "?t\<lparr>xumem := u\<rparr>" clk] u(1) r by (simp add: xdp_system_def xdp_history)
  have stop: "\<not> sstop (shared s)" using pipe_invD(8) [OF pi] q by (auto simp: quiet_def session_end_def)
  have "peek xsk 1 kBatchSize \<le> min 1 kBatchSize" using xsk(1) unfolding xsk_ok_def by blast
  moreover have "0 < peek xsk 1 kBatchSize" using xsk(2) by (simp add: xsk_live_def kBatchSize_def)
  ultimately have pk: "peek xsk 1 kBatchSize = 1" by linarith
  define t2 where "t2 = ?t\<lparr>xumem := u, xpc := XdpFrame, xrcvd := 1, xi := 0, xwire := 0\<rparr>"
  let ?s2 = "s\<lparr>net := t2\<rparr>"
  have "xdp_step xsk port 0 (shared ?s1, net ?s1) = Some (shared s, t2)"
    using r stop pk u(2) by (simp add: xdp_step_def t2_def)
  from xdp_thread_step [OF this, of kernel_move clk] have 2: "pipe_step ?F clk ?s1 ?s2" using r by (simp add: xdp_history t2_def)
  have reach: "pipe_reachable ?F clk s ?s2" using 1 2 by (blast intro: pipe_reachable.intros)
  have ok2: "xdp_ok t2" using feed_thread.reachable_inv [OF xdp_feed_thread [OF kernel_move_ok xsk(1)] reach inv] by (simp add: system_inv_def)
  have t2: "xpc t2 = XdpFrame" "\<not> xdone t2" using r by (simp_all add: t2_def)
  have de: "rxq (xumem t2) ! xi t2 = de" "xumem t2 = u" "xtracker t2 = xtracker ?t" using u(2) by (simp_all add: t2_def)
  from ok2 t2 show ?thesis
  proof (cases rule: xdp_frame_cases [where port = port])
    case over
    then show ?thesis by (simp add: t2_def)
  next
    case (skip frm)
    then show ?thesis using u(3) packet_frame_payload [OF d(1), of port] de by auto
  next
    case (packet frm m h' v' k' st' off)
    have m: "m = d" "h' = h" using packet(2,3,5) u(3) packet_frame_payload [OF d(1), of port] de h by auto
    have v': "v' = v" "k' = k"
      using trackHeader_stats [of h "xtracker ?t" "countReceived (length m) (xstats t2)" FeedStats_new] tr packet(6) m de by auto
    define t3 where "t3 = xdp_decide v off (length d) ((xdp_save t2)\<lparr>xtracker := k, xstats := st'\<rparr>)"
    have "xdp_step xsk port 0 (shared ?s2, net ?s2) = Some (shared s, t3)"
      using packet(9) t2(1) m v' by (simp add: xdp_step_def t3_def)
    moreover have "xdp_heard port (ThreadMove 0) t2 = [d]"
      using t2(1) u(3) packet_frame_payload [OF d(1), of port] de d(2) by (simp add: xdp_heard_def Let_def t2_def)
    ultimately have 3: "pipe_step ?F clk ?s2 (s\<lparr>net := t3, handled := handled s @ [d]\<rparr>)"
      using xdp_thread_step [of xsk port 0 ?s2 "shared s" t3 kernel_move clk] t2
      by (auto simp: net_history_def xdp_lost_def xdp_phase_def)
    have t3: "xrcvd t3 = 1" "\<not> xdone t3" "xtracker t3 = k" "xumem t3 = u" using t2 de by (simp_all add: t3_def) (simp add: t2_def)
    have acc: "xpc t3 = XdpAcquire off (length d) \<and> xi t3 = 0 \<and> umem_read (xumem t3) off (length d) = Some d" if "v = Accept"
      using that packet(7) m t3(4) de(2) by (simp add: t3_def xdp_decide_def) (simp add: t2_def)
    show ?thesis
      by (rule that [of "s\<lparr>net := t3, handled := handled s @ [d]\<rparr>" off, OF pipe_reachable.step [OF reach 3]])
        (use t3 acc u(2) in \<open>simp_all add: t3_def xdp_decide_def\<close>)
  qed
qed

text \<open>The packet is copied into a buffer and its reference pushed.\<close>

lemma xdp_pushes:
  assumes inv: "system_inv (xdp_feed kernel_move xsk port) xdp_ok xtracker xdp_kept clk st0 s" and xsk: "xsk_ok xsk"
    and pc: "xpc (net s) = XdpAcquire off (length d)" "\<not> xdone (net s)" "umem_read (xumem (net s)) off (length d) = Some d" "length d \<le> kMaxPacketBytes"
    and env: "epc (eng s) = EngPop 0" "ring_queue (sring (shared s)) = []" "0 < ring_cap (sring (shared s))" "pool_slots (spool (shared s)) \<noteq> {}"
  obtains s' ref where "pipe_reachable (xdp_feed kernel_move xsk port) clk s s'" "ring_queue (sring (shared s')) = [ref]"
    "refIdx ref \<noteq> kPoolInvalid" "packet_of (entry (spool (shared s')) ref) = d" "net s' = xdp_next (net s)" "eng s' = eng s"
    "handled s' = handled s" "refused s' = refused s" "ring_cap (sring (shared s')) = ring_cap (sring (shared s))"
    "pool_slots (spool (shared s')) = pool_slots (spool (shared s))"
proof -
  let ?F = "xdp_feed kernel_move xsk port" and ?t = "net s"
  note R = feed_thread.reachable_inv [OF xdp_feed_thread [OF kernel_move_ok xsk] _ inv]
  obtain fs where pi: "pipe_inv xdp_phase clk st0 s fs" using inv by (auto simp: system_inv_def)
  note D = pipe_invD [OF pi]
  have "set fs = pool_slots (spool (shared s))" using D(4) env pc by (simp add: owners_def xdp_phase_def)
  then obtain i fs' where fs: "fs = i # fs'" using env(4) by (cases fs) auto
  obtain p where p: "acquire (spool (shared s)) = Some (i, p)" "pool_slots p = pool_slots (spool (shared s))"
    using packet_pool.acquire_some [of "spool (shared s)" i fs'] D(1) fs by blast
  have i: "i \<noteq> kPoolInvalid" using packet_pool.free_valid [OF D(1)] fs by auto
  let ?s1 = "s\<lparr>shared := (shared s)\<lparr>spool := p\<rparr>, net := ?t\<lparr>xpc := XdpCopy i off (length d)\<rparr>\<rparr>"
  have "xdp_step xsk port 0 (shared s, ?t) = Some (shared ?s1, net ?s1)" using pc p(1) i by (simp add: xdp_step_def)
  from xdp_thread_step [OF this, of kernel_move clk] have 1: "pipe_step ?F clk s ?s1" using pc by (simp add: xdp_history)
  have r1: "pipe_reachable ?F clk s ?s1" using 1 by (blast intro: pipe_reachable.intros)
  obtain fs1 where pi1: "pipe_inv xdp_phase clk st0 ?s1 fs1" using R [OF r1] by (auto simp: system_inv_def)
  have rng: "unat i < length (pslots p)" "i \<in> pool_slots p" using held_slot [OF pi1, of i] pc by (simp_all add: xdp_phase_def)
  have "batch_ok (net ?s1)" using R [OF r1] xdp_okD(3) [of "net ?s1"] pc by (simp add: system_inv_def)
  then have hd: "kMoldHeaderBytes \<le> length d" by (simp add: batch_ok_def within_def Let_def)
  obtain sl where sl: "xdp_copy i d (spool (shared ?s1)) = Some (spool (put_slot (shared ?s1) i sl))"
    "take (unat (slength sl)) (sdata sl) = take kMaxPacketBytes d"
    by (rule xdp_copy_spec [of i "shared ?s1" d]) (use rng pipe_invD(5) [OF pi1, of i] hd in simp_all)
  let ?p = "spool (put_slot (shared ?s1) i sl)"
  have p2: "pool_slots ?p = pool_slots p" "packet_of (slot_content ?p i, w) = d" for w
    using sl(2) rng pc(4) by (simp_all add: put_slot_def pool_slots_def packet_of_def slot_content_upd)
  let ?s2 = "s\<lparr>shared := (shared s)\<lparr>spool := ?p\<rparr>, net := ?t\<lparr>xpc := XdpPush i\<rparr>\<rparr>"
  have "xdp_step xsk port 0 (shared ?s1, net ?s1) = Some (shared ?s2, net ?s2)" using pc sl(1) by (simp add: xdp_step_def)
  from xdp_thread_step [OF this, of kernel_move clk] have 2: "pipe_step ?F clk ?s1 ?s2" using pc by (simp add: xdp_history)
  let ?ref = "\<lparr>refIdx = i, tWireCycles = xwire ?t\<rparr>"
  obtain r where r: "ring_push (sring (shared s)) ?ref = Some (True, r)" "ring_queue r = [?ref]" "ring_cap r = ring_cap (sring (shared s))"
    using spsc.push_room [OF D(2), of ?ref] env by auto
  let ?s3 = "s\<lparr>shared := (shared s)\<lparr>spool := ?p, sring := r\<rparr>, net := xdp_next ?t, accepted := accepted s @ [(slot_content ?p i, xwire ?t)]\<rparr>"
  have "xdp_step xsk port 0 (shared ?s2, net ?s2) = Some (shared ?s3, net ?s3)" using pc r(1) by (simp add: xdp_step_def xdp_next_def)
  from xdp_thread_step [OF this, of kernel_move clk] have 3: "pipe_step ?F clk ?s2 ?s3" using pc by (simp add: xdp_history xdp_next_def)
  show ?thesis
    by (rule that [of ?s3 ?ref, OF pipe_reachable.step [OF pipe_reachable.step [OF r1 2] 3]])
      (use r i p p2 in \<open>simp_all add: entry_def\<close>)
qed

text \<open>At the end of the batch its frames go back.\<close>

lemma xdp_gives_back:
  assumes inv: "system_inv (xdp_feed kernel_move xsk port) xdp_ok xtracker xdp_kept clk st0 s" and xsk: "xsk_ok xsk"
    and pc: "xpc (net s) = XdpFrame" "\<not> xdone (net s)" "xi (net s) = xrcvd (net s)" "length (rxq (xumem (net s))) = xrcvd (net s)"
  obtains s' where "pipe_reachable (xdp_feed kernel_move xsk port) clk s s'" "shared s' = shared s" "eng s' = eng s"
    "handled s' = handled s" "refused s' = refused s" "xtracker (net s') = xtracker (net s)" "xdp_ready (net s')"
proof -
  let ?F = "xdp_feed kernel_move xsk port" and ?t = "net s"
  note R = feed_thread.reachable_inv [OF xdp_feed_thread [OF kernel_move_ok xsk] _ inv]
  let ?s1 = "s\<lparr>net := ?t\<lparr>xpc := XdpRelease\<rparr>\<rparr>" and ?s2 = "s\<lparr>net := ?t\<lparr>xpc := XdpRefill, xumem := (xumem ?t)\<lparr>rxq := []\<rparr>\<rparr>\<rparr>"
  have "xdp_step xsk port 0 (shared s, ?t) = Some (shared s, net ?s1)" "xdp_step xsk port 0 (shared s, net ?s1) = Some (shared s, net ?s2)"
    using pc by (simp_all add: xdp_step_def xdp_desc_step_def)
  from xdp_thread_step [OF this(1), of kernel_move clk] xdp_thread_step [of xsk port 0 ?s1 "shared s" "net ?s2" kernel_move clk] this(2)
  have "pipe_step ?F clk s ?s1" "pipe_step ?F clk ?s1 ?s2" using pc by (simp_all add: xdp_history)
  then have r2: "pipe_reachable ?F clk s ?s2" by (blast intro: pipe_reachable.intros)
  have ok2: "xdp_ok (net ?s2)" using R [OF r2] by (simp add: system_inv_def)
  obtain t3 where t3: "xdp_refill xsk (net ?s2) = Some t3" "xpc t3 = XdpTop" "xdone t3 = xdone ?t" "rxq (xumem t3) = []" "xtracker t3 = xtracker ?t"
    using xdp_refill_ok(2) [OF ok2 _ xsk] pc(2) by (auto simp: reads_unset_def)
  have "xdp_step xsk port 0 (shared ?s2, net ?s2) = Some (shared s, t3)" using t3(1) by (simp add: xdp_step_def)
  from xdp_thread_step [OF this, of kernel_move clk] have "pipe_step ?F clk ?s2 (s\<lparr>net := t3\<rparr>)" using pc t3 by (simp add: xdp_history)
  from pipe_reachable.step [OF r2 this] show ?thesis by (rule that) (use t3 pc in \<open>simp_all add: xdp_ready_def\<close>)
qed

lemma xdp_delivery:
  assumes xsk: "xsk_ok xsk" "xsk_live xsk"
  shows "delivery (xdp_feed kernel_move xsk port) xdp_ok xtracker xdp_kept xdp_ready"
proof (intro delivery.intro delivery_axioms.intro xdp_feed_thread kernel_move_ok xsk(1))
  let ?F = "xdp_feed kernel_move xsk port"
  fix clk st0 d h k st and s :: "XdpThread Pipe"
  assume inv: "system_inv ?F xdp_ok xtracker xdp_kept clk st0 s" and q: "quiet xdp_ready s"
    and d: "kMoldHeaderBytes \<le> length d" "length d \<le> kMaxPacketBytes" and h: "parseMoldHeader d = Some h"
  note R = feed_thread.reachable_inv [OF xdp_feed_thread [OF kernel_move_ok xsk(1)]]
  have qs: "epc (eng s) = EngPop 0" "ring_queue (sring (shared s)) = []" "0 < ring_cap (sring (shared s))" "pool_slots (spool (shared s)) \<noteq> {}"
    using q by (simp_all add: quiet_def)
  show "\<exists>s' ref. pipe_reachable ?F clk s s' \<and> passed s d ref s' \<and> refIdx ref \<noteq> kPoolInvalid \<and>
      packet_of (entry (spool (shared s')) ref) = d \<and> xdp_ready (net s') \<and> xtracker (net s') = k"
    if tr: "trackHeader h (xtracker (net s)) FeedStats_new = (Accept, k, st)"
  proof -
    obtain s1 off where 1: "pipe_reachable ?F clk s s1" "shared s1 = shared s" "eng s1 = eng s"
      "handled s1 = handled s @ [d]" "refused s1 = refused s" "xtracker (net s1) = k" "\<not> xdone (net s1)"
      "xrcvd (net s1) = 1" "length (rxq (xumem (net s1))) = 1"
      "xpc (net s1) = XdpAcquire off (length d) \<and> xi (net s1) = 0 \<and> umem_read (xumem (net s1)) off (length d) = Some d"
      by (rule xdp_takes_frame [OF inv q xsk d h tr]) auto
    obtain s2 ref where 2: "pipe_reachable ?F clk s1 s2" "ring_queue (sring (shared s2)) = [ref]"
      "refIdx ref \<noteq> kPoolInvalid" "packet_of (entry (spool (shared s2)) ref) = d" "net s2 = xdp_next (net s1)" "eng s2 = eng s1"
      "handled s2 = handled s1" "refused s2 = refused s1" "ring_cap (sring (shared s2)) = ring_cap (sring (shared s1))"
      "pool_slots (spool (shared s2)) = pool_slots (spool (shared s1))"
      by (rule xdp_pushes [OF R [OF 1(1) inv] xsk(1), of off d]) (use 1 d(2) qs in simp_all)
    obtain s3 where 3: "pipe_reachable ?F clk s2 s3" "shared s3 = shared s2" "eng s3 = eng s2"
      "handled s3 = handled s2" "refused s3 = refused s2" "xtracker (net s3) = xtracker (net s2)" "xdp_ready (net s3)"
      by (rule xdp_gives_back [OF R [OF 2(1) R [OF 1(1) inv]] xsk(1)]) (use 1 2 in simp_all)
    show ?thesis using pipe_reachable_trans [OF 3(1) pipe_reachable_trans [OF 2(1) 1(1)]] 1 2 3
      by (intro exI [of _ s3] exI [of _ ref]) (simp add: passed_def)
  qed
  show "\<exists>s' ref. pipe_reachable ?F clk s s' \<and> passed s d ref s' \<and> refIdx ref = kPoolInvalid"
    if tr: "trackHeader h (xtracker (net s)) FeedStats_new = (EndSession, k, st)"
  proof -
    obtain s1 where 1: "pipe_reachable ?F clk s s1" "shared s1 = shared s" "eng s1 = eng s"
      "handled s1 = handled s @ [d]" "refused s1 = refused s" "\<not> xdone (net s1)" "xpc (net s1) = XdpSentinel"
      by (rule xdp_takes_frame [OF inv q xsk d h tr]) auto
    let ?ref = "\<lparr>refIdx = kPoolInvalid, tWireCycles = xwire (net s1)\<rparr>"
    obtain fs where pi: "pipe_inv xdp_phase clk st0 s fs" using inv by (auto simp: system_inv_def)
    obtain r where r: "ring_push (sring (shared s)) ?ref = Some (True, r)" "ring_queue r = [?ref]" "ring_cap r = ring_cap (sring (shared s))"
      using spsc.push_room [OF pipe_invD(2) [OF pi], of ?ref] qs by auto
    let ?s2 = "s1\<lparr>shared := (shared s)\<lparr>sring := r\<rparr>, net := (net s1)\<lparr>xpc := XdpRelease, xdone := True\<rparr>\<rparr>"
    have "xdp_step xsk port 0 (shared s1, net s1) = Some (shared ?s2, net ?s2)" using 1 r(1) by (simp add: xdp_step_def)
    from xdp_thread_step [OF this, of kernel_move clk] have "pipe_step ?F clk s1 ?s2" using 1(6,7) by (simp add: xdp_history)
    from pipe_reachable.step [OF 1(1) this] show ?thesis using 1 r by (intro exI [of _ ?s2] exI [of _ ?ref]) (simp add: passed_def)
  qed
qed

lemma xdp_session_completes:
  assumes "MatchingEngine_sized cap = Some e" "list_all2 wf_message bss msgs"
      "length msgs < unat cap" "length msgs < unat INVALID_INDEX"
    and "list_all fits bss" "0 < m" "unat m \<le> batchSlots" "\<And>k. send k"
    and "xsk_ok xsk" "xsk_live xsk"
    and "runUdp_start n c e = Some st" "n \<le> unat kPoolInvalid" "1 < c"
  shows "\<exists>pkts s. replay send m (Some (concat (map frame bss))) = Some pkts \<and>
    pipe_reachable (xdp_feed kernel_move xsk port) clk (xdp_init True st) s \<and> handled s = pkts \<and> refused s = 0 \<and> epc (eng s) = EngDone"
proof -
  obtain sh et where st: "st = (sh, et)" by (cases st)
  have "xdp_ok (XdpThread_new (Some Umem_new))" using xdp_ok_new [of True] by simp
  then show ?thesis unfolding st xdp_init_def prod.case if_True
    by (intro delivery.completes [OF xdp_delivery [OF assms(9,10)] assms(1-8)])
      (use assms(11-13) in \<open>simp_all add: st XdpThread_new_def xdp_ready_def xdp_phase_def xdp_kept_def Umem_new_def\<close>)
qed

section \<open>Properties\<close>

text \<open>C40: The end of a session before the end of a batch: when the frame that carries the end-of-session packet is followed by another one
  of its batch, at a position no earlier batch reached, the thread pushes the end marker, leaves the loop, releases the whole batch and
  then reads from its array an address it never wrote: the refill has no defined outcome.\<close>

theorem end_of_session_reads_unset:
  assumes "xdp_ok t" and "xpc t = XdpFrame" and "Suc (xi t) < xrcvd t" and "batchAddrs t ! Suc (xi t) = None" and "xsk_ok xsk"
    and "umem_read (xumem t) (unat (daddr (rxq (xumem t) ! xi t))) (unat (dlen (rxq (xumem t) ! xi t))) = Some frm"
    and "xdp_payload port frm = Some (Some pkt)" and "parseMoldHeader pkt = Some h" and "messageCount h = kMoldEndOfSession"
    and "ring_ok (sring sh)" and "length (ring_queue (sring sh)) < ring_cap (sring sh)"
  shows "\<exists>sh' t'. do { x1 \<leftarrow> xdp_step xsk port w (sh, t); x2 \<leftarrow> xdp_step xsk port w x1; xdp_step xsk port w x2 } = Some (sh', t') \<and>
    xpc t' = XdpRefill \<and> xdone t' \<and> xdp_step xsk port w (sh', t') = None"
proof -
  note D = xdp_okD [OF assms(1)]
  have nd: "\<not> xdone t" using D(4) assms(2) by auto
  then have um: "umem_ok (xumem t) []" and b: "in_batch t (xi t)" using D(3) assms(2) by (simp_all add: batch_ok_def returning_def)
  obtain k st where tr: "trackHeader h (xtracker t) (countReceived (length pkt) (xstats t)) = (EndSession, k, st)"
    using assms(9) by (simp add: trackHeader_def Let_def)
  let ?t1 = "(xdp_save t)\<lparr>xtracker := k, xstats := st, xpc := XdpSentinel\<rparr>"
  from assms(1,2) nd have "xdp_desc_step port t = Some ?t1"
  proof (cases rule: xdp_frame_cases [where port = port])
    case (packet frm' m h' v k' st' off)
    then show ?thesis using assms(6-8) tr by (auto simp: xdp_decide_def)
  qed (use assms(3,6,7) in auto)
  then have 1: "xdp_step xsk port w (sh, t) = Some (sh, ?t1)" using assms(2) by (simp add: xdp_step_def)
  obtain r where r: "ring_push (sring sh) \<lparr>refIdx = kPoolInvalid, tWireCycles = xwire ?t1\<rparr> = Some (True, r)"
    using spsc.push_room [OF assms(10,11)] by blast
  let ?t2 = "?t1\<lparr>xpc := XdpRelease, xdone := True\<rparr>"
  let ?t3 = "?t2\<lparr>xpc := XdpRefill, xumem := (xumem t)\<lparr>rxq := drop (xrcvd t) (rxq (xumem t))\<rparr>\<rparr>"
  have 2: "xdp_step xsk port w (sh, ?t1) = Some (sh\<lparr>sring := r\<rparr>, ?t2)" "xdp_step xsk port w (sh\<lparr>sring := r\<rparr>, ?t2) = Some (sh\<lparr>sring := r\<rparr>, ?t3)"
    using r by (simp_all add: xdp_step_def)
  have "xrcvd t \<le> kNumFrames - length (fillq (xumem t))" using umem_okD(4) [OF um] b by (auto simp: in_batch_def)
  then have got: "reserve xsk (kNumFrames - length (fillq (xumem t))) (xrcvd t) = xrcvd t" using assms(5) by (simp add: xsk_ok_def)
  have "batchAddrs ?t3 ! Suc (xi t) = None" "Suc (xi t) < length (batchAddrs ?t3)" using assms(3,4) D(1,2) by (simp_all add: xdp_save_def)
  then have "None \<in> set (take (xrcvd t) (batchAddrs ?t3))" using assms(3) by (auto simp: in_set_conv_nth)
  then have "xdp_step xsk port w (sh\<lparr>sring := r\<rparr>, ?t3) = None"
    using got those_None [of "take (xrcvd t) (batchAddrs ?t3)"] by (simp add: xdp_step_def xdp_refill_def Let_def)
  then show ?thesis using 1 2 by (intro exI [of _ "sh\<lparr>sring := r\<rparr>"] exI [of _ ?t3]) simp
qed

text \<open>Two frames, the end-of-session packet in the first.\<close>

lemma two_frames:
  obtains u d d' where "xdp_ok ((XdpThread_new (Some Umem_new))\<lparr>xumem := u\<rparr>)" "rxq u = [d, d']"
    "umem_read u (unat (daddr d)) (unat (dlen d)) = Some (packet_frame 9 (end_packet 1))"
proof -
  let ?t = "XdpThread_new (Some Umem_new)" and ?f = "packet_frame 9 (end_packet 1)"
  have rx: "rxq Umem_new = []" by (simp add: Umem_new_def)
  have len: "length ?f \<le> kFrameSize" by (simp add: packet_frame_def udp_frame_def ip20_def end_packet_def kFrameSize_def)
  obtain d where d: "kernel_move Umem_new (kernel_stores ?f Umem_new)" "rxq (kernel_stores ?f Umem_new) = [d]"
    "umem_read (kernel_stores ?f Umem_new) (unat (daddr d)) (unat (dlen d)) = Some ?f" by (rule kernel_stores_spec [OF umem_ok_new rx len])
  let ?u = "kernel_stores ?f Umem_new"
  have "length (fillq ?u) = kNumFrames - 1" by (simp add: kernel_stores_def Umem_new_def Let_def)
  then obtain a q where fq: "fillq ?u = a # q" by (cases "fillq ?u") (auto simp: kNumFrames_def)
  define u where "u = ?u\<lparr>fillq := q, rxq := [d, \<lparr>daddr = a, dlen = 0\<rparr>]\<rparr>"
  have "unat a mod kFrameSize \<le> kFrameSize" by (rule less_imp_le [OF mod_less_divisor]) (simp add: kFrameSize_def)
  then have "kernel_move ?u u" using fq d(2) by (simp add: kernel_move_def u_def in_frame_def)
  moreover have "xdp_ok (?t\<lparr>xumem := ?u\<rparr>)"
    by (rule kernel_xdp_ok) (use xdp_ok_new [of True] d(1) in \<open>simp_all add: XdpThread_new_def\<close>)
  ultimately have "xdp_ok (?t\<lparr>xumem := u\<rparr>)" using kernel_xdp_ok [of "?t\<lparr>xumem := ?u\<rparr>" u] by simp
  moreover have "umem_read u (unat (daddr d)) (unat (dlen d)) = Some ?f"
  proof -
    have "umem_read u = umem_read ?u" by (intro ext) (simp add: umem_read_def u_def)
    then show ?thesis using d(3) by simp
  qed
  ultimately show ?thesis using that [of u d] by (simp add: u_def)
qed

theorem end_of_session_reads_unset_witness:
  "\<exists>sh t sh' t'. xdp_ok t \<and> xdp_step counting_xsk 9 5 (sh, t) \<noteq> None \<and>
     do { x1 \<leftarrow> xdp_step counting_xsk 9 5 (sh, t); x2 \<leftarrow> xdp_step counting_xsk 9 5 x1; xdp_step counting_xsk 9 5 x2 } = Some (sh', t') \<and>
     xdp_step counting_xsk 9 5 (sh', t') = None"
proof -
  obtain u d d' where u: "xdp_ok ((XdpThread_new (Some Umem_new))\<lparr>xumem := u\<rparr>)" "rxq u = [d, d']"
    "umem_read u (unat (daddr d)) (unat (dlen d)) = Some (packet_frame 9 (end_packet 1))" by (rule two_frames)
  let ?t = "(XdpThread_new (Some Umem_new))\<lparr>xumem := u\<rparr>"
  define t where "t = ?t\<lparr>xpc := XdpFrame, xrcvd := 2, xi := 0, xwire := 5\<rparr>"
  obtain r where r: "SpscRing_new \<lparr>refIdx = 0, tWireCycles = 0\<rparr> 4 = Some r" by (simp add: SpscRing_new_def)
  obtain p where p: "PacketPool_new 1 = Some p" by (simp add: PacketPool_new_def Let_def)
  let ?sh = "\<lparr>spool = p, sring = r, sstop = False\<rparr>"
  have "xdp_step counting_xsk 9 5 (?sh, ?t) = Some (?sh, t)"
    using u(2) by (simp add: xdp_step_def t_def XdpThread_new_def counting_xsk_def kBatchSize_def)
  from xdp_step_ok [OF u(1) counting_xsk_ok this] have ok: "xdp_ok t" .
  have end20: "kMoldHeaderBytes \<le> length (end_packet 1)" by (simp add: end_packet_def kMoldHeaderBytes_def)
  have h: "parseMoldHeader (end_packet 1) = Some \<lparr>session = replaySession, sequenceNumber = 1, messageCount = kMoldEndOfSession\<rparr>"
    using parse_header [of replaySession 1 kMoldEndOfSession "[]"] by (simp add: end_packet_def)
  have pc: "xpc t = XdpFrame" "Suc (xi t) < xrcvd t" "batchAddrs t ! Suc (xi t) = None"
    "umem_read (xumem t) (unat (daddr (rxq (xumem t) ! xi t))) (unat (dlen (rxq (xumem t) ! xi t))) = Some (packet_frame 9 (end_packet 1))"
    using u by (simp_all add: t_def XdpThread_new_def kBatchSize_def)
  have ring: "ring_ok (sring ?sh)" "length (ring_queue (sring ?sh)) < ring_cap (sring ?sh)" using SpscRing_new_ok [OF r] by simp_all
  from end_of_session_reads_unset [OF ok pc(1-3) counting_xsk_ok pc(4) packet_frame_payload [OF end20] h _ ring, of 5]
  obtain sh' t' where run: "do { x1 \<leftarrow> xdp_step counting_xsk 9 5 (?sh, t); x2 \<leftarrow> xdp_step counting_xsk 9 5 x1; xdp_step counting_xsk 9 5 x2 } = Some (sh', t')"
    "xdp_step counting_xsk 9 5 (sh', t') = None" by auto
  moreover from run(1) have "xdp_step counting_xsk 9 5 (?sh, t) \<noteq> None" by (cases "xdp_step counting_xsk 9 5 (?sh, t)") simp_all
  ultimately show ?thesis using ok by blast
qed

end
