(* ===== verification/Latencies.thy ===== *)
theory Latencies
  imports Udp_Session
begin

text \<open>
  The times the engine records (\<open>latencies\<close> and \<open>wireLatencies\<close> of \<^verbatim>\<open>include/matching_engine.hpp\<close>): which message adds
  which entry, in file mode and over the packets of a UDP session.
\<close>

section \<open>Recorded times\<close>

text \<open>What a message adds to the recorded times: an Add Order message the time between its two readings.\<close>

fun add_sample :: "u64 \<times> u64 \<Rightarrow> message \<Rightarrow> u64 list" where
  "add_sample clk (AddMsg l ord) = [snd clk - fst clk]"
| "add_sample clk _ = []"

text \<open>With a time stamp from the network thread, also the time from there to its first reading.\<close>

fun wire_sample :: "u64 \<Rightarrow> u64 \<times> u64 \<Rightarrow> message \<Rightarrow> u64 list" where
  "wire_sample tw clk (AddMsg l ord) = (if tw \<noteq> 0 then [fst clk - tw] else [])"
| "wire_sample tw clk _ = []"

fun add_samples :: "(nat \<Rightarrow> u64 \<times> u64) \<Rightarrow> nat \<Rightarrow> message list \<Rightarrow> u64 list" where
  "add_samples clk n [] = []"
| "add_samples clk n (msg # msgs) = add_sample (clk n) msg @ add_samples clk (Suc n) msgs"

fun wire_samples :: "(nat \<Rightarrow> u64 \<times> u64) \<Rightarrow> nat \<Rightarrow> u64 \<Rightarrow> message list \<Rightarrow> u64 list" where
  "wire_samples clk n tw [] = []"
| "wire_samples clk n tw (msg # msgs) = wire_sample tw (clk n) msg @ wire_samples clk (Suc n) tw msgs"

text \<open>The packets of a session, each with its stamp and its messages.\<close>

fun session_wires :: "(nat \<Rightarrow> u64 \<times> u64) \<Rightarrow> nat \<Rightarrow> (u64 \<times> message list) list \<Rightarrow> u64 list" where
  "session_wires clk n [] = []"
| "session_wires clk n ((w, msgs) # ps) = wire_samples clk n w msgs @ session_wires clk (n + length msgs) ps"

lemma add_samples_append: "add_samples clk n (ms @ ms') = add_samples clk n ms @ add_samples clk (n + length ms) ms'"
  by (induction ms arbitrary: n) simp_all

lemma wire_samples_unstamped: "wire_sample 0 c msg = []" by (cases msg) simp_all

lemma dropOrder_times:
  "dropOrder e loc ref = Some e' \<Longrightarrow> latencies e' = latencies e \<and> wireLatencies e' = wireLatencies e"
  by (auto simp: dropOrder_def bind_eq_Some_conv)

lemma processReplace_times:
  "processReplace e data s = Some (Inr (e', s')) \<Longrightarrow> latencies e' = latencies e \<and> wireLatencies e' = wireLatencies e"
  by (auto simp: processReplace_def Let_def dest!: dropOrder_times split: bind_splits option.split_asm sum.split_asm)

lemma processExecuted_times:
  "processExecuted e data = Some e' \<Longrightarrow> latencies e' = latencies e \<and> wireLatencies e' = wireLatencies e"
  by (auto simp: processExecuted_def bind_eq_Some_conv dest!: dropOrder_times split: option.splits if_splits)

lemma processDelete_times:
  "processDelete e data = Some e' \<Longrightarrow> latencies e' = latencies e \<and> wireLatencies e' = wireLatencies e"
  by (auto simp: processDelete_def Let_def bind_eq_Some_conv dest!: dropOrder_times split: option.splits)

lemma processAdd_times:
  "processAdd clk e data tw = Some (Inr (e', s')) \<Longrightarrow>
     latencies e' = latencies e @ [snd clk - fst clk] \<and> wireLatencies e' = wireLatencies e @ (if tw \<noteq> 0 then [fst clk - tw] else [])"
  by (cases clk) (auto simp: processAdd_def Let_def split: bind_splits sum.split_asm)

lemmas message_times = processAdd_times processDelete_times processExecuted_times processReplace_times

lemma processMessage_times:
  assumes "decode data = Some msg" and "processMessage clk e data len s tw = Some (Inr (e', s'))"
  shows "latencies e' = latencies e @ add_sample clk msg \<and> wireLatencies e' = wireLatencies e @ wire_sample tw clk msg"
  using assms
  by (auto simp: decode_def processMessage_def dest!: message_times split: bind_splits if_splits)

lemma run_loop_times:
  assumes "list_all2 wf_message bss msgs" and "run_loop clk n e s (concat (map frame bss)) = Some (Inr (e', s'))"
  shows "latencies e' = latencies e @ add_samples clk n msgs \<and> wireLatencies e' = wireLatencies e"
  using assms
proof (induction bss msgs arbitrary: n e s rule: list_all2_induct)
  case Nil
  then show ?case by (subst (asm) run_loop.simps) simp
next
  case (Cons bs bss msg msgs)
  let ?rest = "concat (map frame bss)"
  have d: "decode (bs @ ?rest) = Some msg" "length bs < 2 ^ 16"
    using Cons.hyps(1) by (auto simp: wf_message_def decode_more)
  obtain e1 s1 where 1: "processMessage (clk n) e (bs @ ?rest) (of_nat (length bs)) s 0 = Some (Inr (e1, s1))"
    "run_loop clk (Suc n) e1 s1 ?rest = Some (Inr (e', s'))"
    using Cons.prems run_loop_frame [OF d(2), of clk n e s ?rest] by (auto split: option.splits sum.splits)
  show ?case using processMessage_times [OF d(1) 1(1)] Cons.IH [OF 1(2)] by (simp add: wire_samples_unstamped)
qed

section \<open>Over packets\<close>

lemma packet_loop_times:
  assumes "list_all2 wf_message bss msgs" and "mem = pre @ wire_messages bss @ rest"
    and "cursor it = length pre" and "iend it = length pre + length (wire_messages bss)"
    and "packet_loop clk mem it tw (e, s, n) = Some (Inr (e', s', n'))"
  shows "latencies e' = latencies e @ add_samples clk n msgs \<and> wireLatencies e' = wireLatencies e @ wire_samples clk n tw msgs \<and>
    n' = n + length msgs"
  using assms
proof (induction bss msgs arbitrary: pre it e s n rule: list_all2_induct)
  case Nil
  then show ?case by (subst (asm) packet_loop.simps) (auto simp: mold_next_def)
next
  case (Cons bs bss msg msgs)
  let ?rest = "wire_messages bss @ rest" and ?it = "it\<lparr>cursor := length pre + 2 + length bs\<rparr>"
  have d: "decode (bs @ ?rest) = Some msg" "length bs < 2 ^ 16" using Cons.hyps(1) by (auto simp: wf_message_def decode_more)
  have mem: "mem = pre @ store_be 2 (of_nat (length bs) :: u16) @ bs @ ?rest" using Cons.prems(1) by simp
  have "drop (length pre + 2) mem = bs @ ?rest" by (simp add: mem)
  then obtain e1 s1 where 1: "processMessage (clk n) e (bs @ ?rest) (of_nat (length bs)) s tw = Some (Inr (e1, s1))"
    "packet_loop clk mem ?it tw (e1, s1, Suc n) = Some (Inr (e', s', n'))"
    using Cons.prems(4) mold_next_message [OF d(2) mem Cons.prems(2)] Cons.prems(3)
    by (subst (asm) packet_loop.simps) (auto split: option.splits sum.splits)
  have "latencies e' = latencies e1 @ add_samples clk (Suc n) msgs \<and> wireLatencies e' = wireLatencies e1 @ wire_samples clk (Suc n) tw msgs \<and>
      n' = Suc n + length msgs"
    by (rule Cons.IH [OF _ _ _ 1(2), of "pre @ store_be 2 (of_nat (length bs) :: u16) @ bs"]) (use Cons.prems in simp_all)
  then show ?case using processMessage_times [OF d(1) 1(1)] by simp
qed

lemma consume_packet_times:
  assumes "carries (c, w) g" and "list_all2 wf_message g msgs" and "consume_packet clk c w (e, s, n) = Some (Inr (e', s', n'))"
  shows "latencies e' = latencies e @ add_samples clk n msgs \<and> wireLatencies e' = wireLatencies e @ wire_samples clk n w msgs \<and>
    n' = n + length msgs"
proof -
  obtain buf len where c: "c = (buf, len)" by (cases c)
  obtain sq rest where b: "buf = mold_header_bytes replaySession sq (of_nat (length g)) @ wire_messages g @ rest"
    "unat len = kMoldHeaderBytes + length (wire_messages g)" "kMoldHeaderBytes \<le> unat len"
    by (rule carries_buffer [OF assms(1) [unfolded c]])
  have h20: "length (mold_header_bytes replaySession sq (of_nat (length g))) = kMoldHeaderBytes" by (simp add: kMoldHeaderBytes_def)
  show ?thesis
    by (rule packet_loop_times [OF assms(2) b(1), where it = "MoldMessageIterator_new kMoldHeaderBytes (unat len - kMoldHeaderBytes)"])
      (use assms(3) b h20 in \<open>simp_all add: consume_packet_def c MoldMessageIterator_new_def\<close>)
qed

lemma process_all_times:
  assumes "list_all2 carries cs gs" and "list_all2 (list_all2 wf_message) gs mss" and "process_all clk cs (e, s, n) = Some (Inr (e', s', n'))"
  shows "latencies e' = latencies e @ add_samples clk n (concat mss) \<and>
    wireLatencies e' = wireLatencies e @ session_wires clk n (zip (map snd cs) mss) \<and> n' = n + length (concat mss)"
  using assms
proof (induction cs gs arbitrary: mss e s n rule: list_all2_induct)
  case Nil
  then show ?case by simp
next
  case (Cons c cs g gs)
  obtain a w where c: "c = (a, w)" by (cases c)
  obtain ms mss' where ms: "mss = ms # mss'" "list_all2 wf_message g ms" "list_all2 (list_all2 wf_message) gs mss'"
    using Cons.prems(1) by (auto simp: list_all2_Cons1)
  obtain e1 s1 n1 where 1: "consume_packet clk a w (e, s, n) = Some (Inr (e1, s1, n1))" "process_all clk cs (e1, s1, n1) = Some (Inr (e', s', n'))"
    using Cons.prems(2) by (auto simp: c split: option.splits sum.splits)
  show ?case using consume_packet_times [OF Cons.hyps(1) [unfolded c] ms(2) 1(1)] Cons.IH [OF ms(3) 1(2)]
    by (simp add: c ms(1) add_samples_append)
qed

lemma group_messages:
  "list_all2 wf_message (concat gs) msgs \<Longrightarrow> \<exists>mss. concat mss = msgs \<and> list_all2 (list_all2 wf_message) gs mss"
proof (induction gs arbitrary: msgs)
  case (Cons g gs)
  then obtain ms1 ms2 where ms: "msgs = ms1 @ ms2" "list_all2 wf_message g ms1" "list_all2 wf_message (concat gs) ms2"
    by (auto simp: list_all2_append1)
  obtain mss where "concat mss = ms2" "list_all2 (list_all2 wf_message) gs mss" using Cons.IH [OF ms(3)] by blast
  then show ?case using ms by (intro exI [of _ "ms1 # mss"]) simp
qed simp

text \<open>The messages a packet holds: those the iterator yields, decoded.\<close>

definition packet_messages :: "bytes \<Rightarrow> message list" where
  "packet_messages d =
     (case mold_messages d (MoldMessageIterator_new kMoldHeaderBytes (length d - kMoldHeaderBytes)) of
        None \<Rightarrow> []
      | Some offs \<Rightarrow> List.map_filter (\<lambda>x. decode (message_at d x)) offs)"

lemma packet_messages_data:
  assumes "list_all2 wf_message g ms"
  shows "packet_messages (data_packet sq g) = ms"
proof -
  let ?d = "data_packet sq g" and ?h = "mold_header_bytes replaySession sq (of_nat (length g))"
  have h20: "length ?h = kMoldHeaderBytes" by (simp add: kMoldHeaderBytes_def)
  have "short_messages g" using assms by (auto simp: short_messages_def list_all2_conv_all_nth in_set_conv_nth wf_message_def)
  then obtain offs where offs: "mold_messages ?d (MoldMessageIterator_new kMoldHeaderBytes (length ?d - kMoldHeaderBytes)) = Some offs"
    "map (message_at ?d) offs = g"
    using mold_messages_wire [of g ?d ?h "[]" "MoldMessageIterator_new kMoldHeaderBytes (length ?d - kMoldHeaderBytes)"] h20
    by (auto simp: data_packet_def MoldMessageIterator_new_def)
  have "list_all2 wf_message (map (message_at ?d) offs) ms" unfolding offs(2) by (rule assms)
  then have "list_all2 (\<lambda>x msg. decode (message_at ?d x) = Some msg) offs ms"
    unfolding list_all2_map1 by (rule list_all2_mono) (simp add: wf_message_def)
  then have "List.map_filter (\<lambda>x. decode (message_at ?d x)) offs = ms"
    by (induction rule: list_all2_induct) (simp_all add: List.map_filter_def)
  then show ?thesis by (simp add: packet_messages_def offs(1))
qed

lemma packet_messages_stream:
  "list_all2 (list_all2 wf_message) gs mss \<Longrightarrow> map packet_messages (packet_stream sq gs) = mss"
  by (induction gs mss arbitrary: sq rule: list_all2_induct) (simp_all add: packet_messages_data)

text \<open>Packets that passed the tracker, processed one after the other from the start.\<close>

lemma stream_times:
  assumes "list_all2 wf_message bss msgs" and "list_all fits bss" "0 < m" "unat m \<le> batchSlots" "\<And>k. send k"
    and "replay send m (Some (concat (map frame bss))) = Some pkts"
    and "fst (sift pkts SeqTracker_new) = map packet_of cs" "list_all good_packet cs"
    and "process_all clk cs (e, no_output, 0) = Some (Inr (est t))" and "latencies e = []" "wireLatencies e = []"
  shows "map packet_of cs = butlast pkts" "concat (map packet_messages (butlast pkts)) = msgs"
    "latencies (fst (est t)) = add_samples clk 0 msgs"
    "wireLatencies (fst (est t)) = session_wires clk 0 (zip (map snd cs) (map packet_messages (butlast pkts)))"
    "snd (snd (est t)) = length msgs"
proof -
  obtain gs where gs: "list_all2 carries cs gs" "concat gs = bss" "butlast pkts = packet_stream 1 gs" "map packet_of cs = butlast pkts"
    using stream_carries [where send = send, OF assms(2-4) _ assms(6-8)] assms(5) by blast
  obtain mss where mss: "concat mss = msgs" "list_all2 (list_all2 wf_message) gs mss" using group_messages assms(1) gs(2) by blast
  have pm: "map packet_messages (butlast pkts) = mss" using packet_messages_stream [OF mss(2)] gs(3) by simp
  obtain e' s' n' where est: "est t = (e', s', n')" by (metis prod_cases3)
  show "map packet_of cs = butlast pkts" "concat (map packet_messages (butlast pkts)) = msgs" using gs(4) pm mss(1) by simp_all
  show "latencies (fst (est t)) = add_samples clk 0 msgs"
    "wireLatencies (fst (est t)) = session_wires clk 0 (zip (map snd cs) (map packet_messages (butlast pkts)))"
    "snd (snd (est t)) = length msgs"
    using process_all_times [OF gs(1) mss(2), of clk e no_output 0 e' s' n'] assms(9-) mss(1) est pm by auto
qed

end
