(* ===== verification/Command_Line.thy ===== *)
theory Command_Line
  imports Replay
begin

text \<open>
  The two programs around the library: \<open>main\<close> of the engine (\<^verbatim>\<open>src/main.cpp\<close>) with its option parser, its
  choice of mode and the files it writes, and the option parser of the sender (\<^verbatim>\<open>src/replay.cpp\<close>)
  in front of its sending loop.  The number readers of the C and C++ libraries they call are modelled
  with their treatment of ill-formed and out-of-range numbers.
\<close>

section \<open>Numbers in text\<close>

definition isspace :: "char \<Rightarrow> bool" where
  "isspace c \<longleftrightarrow> (let n = of_char c :: nat in n = 32 \<or> 9 \<le> n \<and> n \<le> 13)"

definition isdigit :: "char \<Rightarrow> bool" where
  "isdigit c \<longleftrightarrow> (let n = of_char c :: nat in 48 \<le> n \<and> n \<le> 57)"

definition digits_value :: "string \<Rightarrow> nat" where
  "digits_value = foldl (\<lambda>n c. 10 * n + (of_char c - 48)) 0"

text \<open>What \<open>strtol\<close> and \<open>strtoull\<close> read in base 10: leading white space, a sign, and the longest run of
  digits; \<open>None\<close> if there is no digit.\<close>

definition scan_number :: "string \<Rightarrow> (bool \<times> nat) option" where
  "scan_number s =
     (let s = dropWhile isspace s;
          neg = (take 1 s = ''-'');
          ds = takeWhile isdigit (if neg \<or> take 1 s = ''+'' then drop 1 s else s)
      in if ds = [] then None else Some (neg, digits_value ds))"

definition signed_value :: "bool \<times> nat \<Rightarrow> int" where
  "signed_value = (\<lambda>(neg, n). if neg then - int n else int n)"

definition fits_int :: "int \<Rightarrow> bool" where
  "fits_int i \<longleftrightarrow> - (2 ^ 31) \<le> i \<and> i < 2 ^ 31"

datatype number_exn = invalid_argument | out_of_range

definition stoi :: "string \<Rightarrow> number_exn + int" where
  "stoi s = (case scan_number s of
      None \<Rightarrow> Inl invalid_argument
    | Some r \<Rightarrow> if fits_int (signed_value r) then Inr (signed_value r) else Inl out_of_range)"

text \<open>\<open>atoi\<close> has no defined result outside the range of \<open>int\<close>.\<close>

definition atoi :: "string \<Rightarrow> int option" where
  "atoi s = (case scan_number s of
      None \<Rightarrow> Some 0
    | Some r \<Rightarrow> if fits_int (signed_value r) then Some (signed_value r) else None)"

definition strtoull :: "string \<Rightarrow> u64" where
  "strtoull s = (case scan_number s of
      None \<Rightarrow> 0
    | Some r \<Rightarrow> if snd r < 2 ^ 64 then of_int (signed_value r) else - 1)"

text \<open>Writing a number to a stream.\<close>

fun decimal :: "nat \<Rightarrow> string" where
  "decimal n = (if n < 10 then [char_of (48 + n)] else decimal (n div 10) @ [char_of (48 + n mod 10)])"

declare decimal.simps [simp del]

definition decimal_int :: "int \<Rightarrow> string" where
  "decimal_int i = (if i < 0 then ''-'' @ decimal (nat (- i)) else decimal (nat i))"

lemma digit_char: "k < 10 \<Longrightarrow> of_char (char_of (48 + k)) = 48 + k" for k :: nat
  by (simp add: of_char_of)

lemma isdigit_char: "k < 10 \<Longrightarrow> isdigit (char_of (48 + k))" for k :: nat
  by (simp add: isdigit_def digit_char)

lemma digits_value_snoc: "digits_value (xs @ [c]) = 10 * digits_value xs + (of_char c - 48)"
  by (simp add: digits_value_def)

lemma digits_value_single: "digits_value [c] = of_char c - 48"
  by (simp add: digits_value_def)

lemma decimal_digits: "list_all isdigit (decimal n) \<and> decimal n \<noteq> [] \<and> digits_value (decimal n) = n"
proof (induction n rule: decimal.induct)
  case (1 n)
  then show ?case
    by (subst (1 2 3) decimal.simps)
      (auto simp: digits_value_snoc digits_value_single isdigit_char digit_char)
qed

lemma isdigit_other: "isdigit c \<Longrightarrow> \<not> isspace c \<and> c \<noteq> CHR ''-'' \<and> c \<noteq> CHR ''+''"
  by (auto simp: isdigit_def isspace_def Let_def)

lemma scan_digits:
  assumes "list_all isdigit ds" and "ds \<noteq> []"
  shows "scan_number ds = Some (False, digits_value ds)" "scan_number (CHR ''-'' # ds) = Some (True, digits_value ds)"
proof -
  obtain c cs where ds: "ds = c # cs" using assms(2) by (cases ds) auto
  have all: "takeWhile isdigit ds = ds" using assms(1) by (simp add: list_all_iff takeWhile_eq_all_conv)
  show "scan_number ds = Some (False, digits_value ds)"
    using assms(1) isdigit_other [of c] all by (auto simp: scan_number_def ds list_all_iff takeWhile_eq_all_conv [THEN iffD2])
  have "\<not> isspace (CHR ''-'')" by (simp add: isspace_def)
  then show "scan_number (CHR ''-'' # ds) = Some (True, digits_value ds)"
    using assms(2) by (simp add: scan_number_def all)
qed

lemma scan_decimal_int: "\<exists>r. scan_number (decimal_int i) = Some r \<and> signed_value r = i"
  using decimal_digits [of "nat i"] decimal_digits [of "nat (- i)"]
  by (auto simp: decimal_int_def scan_digits signed_value_def)

lemma stoi_decimal: "fits_int i \<Longrightarrow> stoi (decimal_int i) = Inr i"
  using scan_decimal_int [of i] by (auto simp: stoi_def)

lemma atoi_decimal: "fits_int i \<Longrightarrow> atoi (decimal_int i) = Some i"
  using scan_decimal_int [of i] by (auto simp: atoi_def)

lemma strtoull_decimal: "strtoull (decimal (unat w)) = w"
  using decimal_digits [of "unat w"] unsigned_less [of w, where 'a = nat]
  by (simp add: strtoull_def scan_digits signed_value_def)

section \<open>The options of the engine\<close>

record MainOptions =
  udpMode :: bool
  bindAddr :: string
  port :: u16
  multicastGroup :: string
  netCore :: int
  useXdp :: bool
  iface :: string

definition MainOptions_default :: MainOptions where
  "MainOptions_default = \<lparr>udpMode = False, bindAddr = ''0.0.0.0'', port = 30001, multicastGroup = [],
     netCore = - 1, useXdp = False, iface = []\<rparr>"

text \<open>How a program ends before its work starts: with exit code 1 after a message, or by an exception
  nobody catches.\<close>

datatype early_exit = Exit1 string | Uncaught number_exn

definition missing_arg :: "string \<Rightarrow> early_exit" where
  "missing_arg opt = Exit1 (''missing arg for '' @ opt)"

definition unknown_arg :: "string \<Rightarrow> early_exit" where
  "unknown_arg k = Exit1 (''unknown arg: '' @ k)"

text \<open>The loop over \<open>argv\<close> from the second entry on; \<open>next\<close> takes the value of an option.\<close>

fun parse_main :: "MainOptions \<Rightarrow> string list \<Rightarrow> early_exit + MainOptions" where
  "parse_main a [] = Inr a"
| "parse_main a (k # rest) =
     (if k = ''--udp'' then parse_main (a\<lparr>udpMode := True\<rparr>) rest
      else if k = ''--bind'' then
        (case rest of [] \<Rightarrow> Inl (missing_arg k) | v # rest' \<Rightarrow> parse_main (a\<lparr>bindAddr := v\<rparr>) rest')
      else if k = ''--port'' then
        (case rest of [] \<Rightarrow> Inl (missing_arg k) | v # rest' \<Rightarrow>
          (case stoi v of Inl x \<Rightarrow> Inl (Uncaught x) | Inr i \<Rightarrow> parse_main (a\<lparr>port := of_int i\<rparr>) rest'))
      else if k = ''--multicast'' then
        (case rest of [] \<Rightarrow> Inl (missing_arg k) | v # rest' \<Rightarrow> parse_main (a\<lparr>multicastGroup := v\<rparr>) rest')
      else if k = ''--net-core'' then
        (case rest of [] \<Rightarrow> Inl (missing_arg k) | v # rest' \<Rightarrow>
          (case stoi v of Inl x \<Rightarrow> Inl (Uncaught x) | Inr i \<Rightarrow> parse_main (a\<lparr>netCore := i\<rparr>) rest'))
      else if k = ''--afxdp'' then parse_main (a\<lparr>useXdp := True\<rparr>) rest
      else if k = ''--iface'' then
        (case rest of [] \<Rightarrow> Inl (missing_arg k) | v # rest' \<Rightarrow> parse_main (a\<lparr>iface := v\<rparr>) rest')
      else Inl (unknown_arg k))"

text \<open>The call that \<open>main\<close> makes; an empty string becomes a null pointer.\<close>

datatype engine_call = RunFile | RunUdp string u16 "string option" int bool "string option"

definition opt_str :: "string \<Rightarrow> string option" where
  "opt_str s = (if s = [] then None else Some s)"

definition main_call :: "string list \<Rightarrow> early_exit + engine_call" where
  "main_call argv = (case parse_main MainOptions_default argv of
      Inl x \<Rightarrow> Inl x
    | Inr a \<Rightarrow>
        (if udpMode a then
           (if useXdp a \<and> iface a = [] then Inl (Exit1 ''--afxdp requires --iface IFNAME (e.g. --iface lo)'')
            else Inr (RunUdp (bindAddr a) (port a) (opt_str (multicastGroup a)) (netCore a) (useXdp a) (opt_str (iface a))))
         else Inr RunFile))"

text \<open>The files written at the end: one number per line; the second file only if it has lines.\<close>

definition number_lines :: "u64 list \<Rightarrow> string" where
  "number_lines ls = concat (map (\<lambda>l. decimal (unat l) @ [char_of (10 :: nat)]) ls)"

definition main_files :: "MatchingEngine \<Rightarrow> (string \<times> string) list" where
  "main_files e = (''latencies.txt'', number_lines (latencies e)) #
     (if wireLatencies e = [] then [] else [(''wire_latencies.txt'', number_lines (wireLatencies e))])"

text \<open>File mode from the constructor to the files.\<close>

definition main_file_mode :: "(nat \<Rightarrow> u64 \<times> u64) \<Rightarrow> (u64 \<Rightarrow> u64) option \<Rightarrow> bytes option \<Rightarrow>
    (exn + (string \<times> string) list) option" where
  "main_file_mode clk toNs input = do {
     e \<leftarrow> MatchingEngine_new;
     r \<leftarrow> run clk toNs e input;
     Some (map_sum id main_files r) }"

section \<open>The options of the sender\<close>

record Args =
  afile :: string
  dest :: string
  aport :: u16
  maxPerPacket :: u16
  rateMsgPerSec :: u64
  multicast :: bool

definition Args_default :: Args where
  "Args_default = \<lparr>afile = ''itch_data.NASDAQ_ITCH50'', dest = ''127.0.0.1'', aport = 30001, maxPerPacket = 16,
     rateMsgPerSec = 0, multicast = False\<rparr>"

fun parseArgs :: "Args \<Rightarrow> string list \<Rightarrow> (early_exit + Args) option" where
  "parseArgs a [] = Some (Inr a)"
| "parseArgs a (k # rest) =
     (if k = ''--file'' then
        (case rest of [] \<Rightarrow> Some (Inl (missing_arg k)) | v # rest' \<Rightarrow> parseArgs (a\<lparr>afile := v\<rparr>) rest')
      else if k = ''--target'' then
        (case rest of [] \<Rightarrow> Some (Inl (missing_arg k)) | v # rest' \<Rightarrow> parseArgs (a\<lparr>dest := v\<rparr>) rest')
      else if k = ''--port'' then
        (case rest of [] \<Rightarrow> Some (Inl (missing_arg k)) | v # rest' \<Rightarrow>
          (case atoi v of None \<Rightarrow> None | Some i \<Rightarrow> parseArgs (a\<lparr>aport := of_int i\<rparr>) rest'))
      else if k = ''--max-per-packet'' then
        (case rest of [] \<Rightarrow> Some (Inl (missing_arg k)) | v # rest' \<Rightarrow>
          (case atoi v of None \<Rightarrow> None | Some i \<Rightarrow> parseArgs (a\<lparr>maxPerPacket := of_int i\<rparr>) rest'))
      else if k = ''--rate'' then
        (case rest of [] \<Rightarrow> Some (Inl (missing_arg k)) | v # rest' \<Rightarrow>
          parseArgs (a\<lparr>rateMsgPerSec := (if v = ''max'' then 0 else strtoull v)\<rparr>) rest')
      else if k = ''--multicast'' then parseArgs (a\<lparr>multicast := True\<rparr>) rest
      else Some (Inl (unknown_arg k)))"

text \<open>The sender: \<open>files\<close> is what can be mapped under a name.\<close>

definition replay_main :: "(string \<Rightarrow> bytes option) \<Rightarrow> (nat \<Rightarrow> bool) \<Rightarrow> string list \<Rightarrow> (early_exit + bytes list) option" where
  "replay_main files send argv = do {
     r \<leftarrow> parseArgs Args_default argv;
     (case r of
        Inl x \<Rightarrow> Some (Inl x)
      | Inr a \<Rightarrow> map_option Inr (replay send (maxPerPacket a) (files (afile a)))) }"

section \<open>Reading well-formed options\<close>

text \<open>A parser that consumes one rendered option at a time consumes any sequence of them, in order.\<close>

locale option_loop =
  fixes parse :: "'s \<Rightarrow> string list \<Rightarrow> 'r" and render :: "'o \<Rightarrow> string list" and app :: "'o \<Rightarrow> 's \<Rightarrow> 's"
    and opt_ok :: "'o \<Rightarrow> bool"
  assumes parse_option: "opt_ok x \<Longrightarrow> parse s (render x @ rest) = parse (app x s) rest"
begin

lemma parse_options: "list_all opt_ok xs \<Longrightarrow> parse s (concat (map render xs) @ rest) = parse (fold app xs s) rest"
  by (induction xs arbitrary: s) (simp_all add: parse_option)

end

datatype main_option = OptUdp | OptBind string | OptPort int | OptMulticast string | OptNetCore int | OptAfxdp | OptIface string

fun main_render :: "main_option \<Rightarrow> string list" where
  "main_render OptUdp = [''--udp'']"
| "main_render (OptBind v) = [''--bind'', v]"
| "main_render (OptPort i) = [''--port'', decimal_int i]"
| "main_render (OptMulticast v) = [''--multicast'', v]"
| "main_render (OptNetCore i) = [''--net-core'', decimal_int i]"
| "main_render OptAfxdp = [''--afxdp'']"
| "main_render (OptIface v) = [''--iface'', v]"

fun main_apply :: "main_option \<Rightarrow> MainOptions \<Rightarrow> MainOptions" where
  "main_apply OptUdp a = a\<lparr>udpMode := True\<rparr>"
| "main_apply (OptBind v) a = a\<lparr>bindAddr := v\<rparr>"
| "main_apply (OptPort i) a = a\<lparr>port := of_int i\<rparr>"
| "main_apply (OptMulticast v) a = a\<lparr>multicastGroup := v\<rparr>"
| "main_apply (OptNetCore i) a = a\<lparr>netCore := i\<rparr>"
| "main_apply OptAfxdp a = a\<lparr>useXdp := True\<rparr>"
| "main_apply (OptIface v) a = a\<lparr>iface := v\<rparr>"

fun main_option_ok :: "main_option \<Rightarrow> bool" where
  "main_option_ok (OptPort i) = fits_int i"
| "main_option_ok (OptNetCore i) = fits_int i"
| "main_option_ok _ = True"

interpretation main_args: option_loop parse_main main_render main_apply main_option_ok
proof
  fix x a rest
  assume "main_option_ok x"
  then show "parse_main a (main_render x @ rest) = parse_main (main_apply x a) rest"
    by (cases x) (simp_all add: stoi_decimal)
qed

datatype sender_option = OptFile string | OptTarget string | OptSendPort int | OptMaxPerPacket int | OptRateMax | OptRate u64
  | OptSendMulticast

fun sender_render :: "sender_option \<Rightarrow> string list" where
  "sender_render (OptFile v) = [''--file'', v]"
| "sender_render (OptTarget v) = [''--target'', v]"
| "sender_render (OptSendPort i) = [''--port'', decimal_int i]"
| "sender_render (OptMaxPerPacket i) = [''--max-per-packet'', decimal_int i]"
| "sender_render OptRateMax = [''--rate'', ''max'']"
| "sender_render (OptRate r) = [''--rate'', decimal (unat r)]"
| "sender_render OptSendMulticast = [''--multicast'']"

fun sender_apply :: "sender_option \<Rightarrow> Args \<Rightarrow> Args" where
  "sender_apply (OptFile v) a = a\<lparr>afile := v\<rparr>"
| "sender_apply (OptTarget v) a = a\<lparr>dest := v\<rparr>"
| "sender_apply (OptSendPort i) a = a\<lparr>aport := of_int i\<rparr>"
| "sender_apply (OptMaxPerPacket i) a = a\<lparr>maxPerPacket := of_int i\<rparr>"
| "sender_apply OptRateMax a = a\<lparr>rateMsgPerSec := 0\<rparr>"
| "sender_apply (OptRate r) a = a\<lparr>rateMsgPerSec := r\<rparr>"
| "sender_apply OptSendMulticast a = a\<lparr>multicast := True\<rparr>"

fun sender_option_ok :: "sender_option \<Rightarrow> bool" where
  "sender_option_ok (OptSendPort i) = fits_int i"
| "sender_option_ok (OptMaxPerPacket i) = fits_int i"
| "sender_option_ok _ = True"

lemma decimal_not_max: "decimal n \<noteq> ''max''"
  using decimal_digits [of n] by (auto simp: isdigit_def)

interpretation sender_args: option_loop parseArgs sender_render sender_apply sender_option_ok
proof
  fix x a rest
  assume "sender_option_ok x"
  then show "parseArgs a (sender_render x @ rest) = parseArgs (sender_apply x a) rest"
    by (cases x) (simp_all add: atoi_decimal strtoull_decimal decimal_not_max)
qed

section \<open>Limits of the sender\<close>

lemma batch_loop_zero: "batch_loop 0 c u b data = Some (b, data)"
  by (subst batch_loop.simps) simp

lemma replay_zero: "replay send 0 (Some data) = Some [end_packet 1]"
  by (simp add: replay_def send_loop.simps [of send 0] batch_loop_zero endPacket_spec)

text \<open>Empty messages go into a batch until its arrays are full.\<close>

lemma batch_loop_empty:
  assumes "c < m" and "unat u + 2 \<le> packetBytes"
  shows "batch_loop m c u b (0 # 0 # rest) =
    (if unat c \<ge> batchSlots then None else batch_loop m (c + 1) (u + 2) (b @ [(rest, 0)]) rest)"
proof -
  have "bswap (load_le [0, 0]) = (0 :: u16)" by (simp add: byte_simps upt_rec)
  then show ?thesis using assms by (subst batch_loop.simps) (simp add: take_bytes_def)
qed

lemma batch_loop_overflow:
  assumes "256 < unat m" and "n \<le> 256" and "256 - n < k"
  shows "batch_loop m (of_nat n) (of_nat (20 + 2 * n)) b (concat (replicate k [0, 0]) @ rest) = None"
  using assms
proof (induction "256 - n" arbitrary: n k b)
  case 0
  then obtain k' where k: "k = Suc k'" by (cases k) auto
  have n: "n = 256" using 0 by simp
  then show ?case using 0
    by (simp add: k batch_loop_empty batchSlots_def packetBytes_def word_less_nat_alt)
next
  case (Suc d)
  then obtain k' where k: "k = Suc k'" by (cases k) auto
  have un: "unat (of_nat n :: u16) = n" "unat (of_nat (20 + 2 * n) :: u16) = 20 + 2 * n"
    using Suc.prems(2) by (simp_all only: unat_of_nat) simp_all
  have lt: "(of_nat n :: u16) < m" using Suc.prems(1,2) un by (simp add: word_less_nat_alt)
  have small: "n < 256" using Suc.hyps(2) by simp
  let ?rest = "concat (replicate k' [0, 0]) @ rest"
  have "batch_loop m (of_nat n) (of_nat (20 + 2 * n)) b (0 # 0 # ?rest) =
      batch_loop m (of_nat n + 1) (of_nat (20 + 2 * n) + 2) (b @ [(?rest, 0)]) ?rest"
    using un small by (subst batch_loop_empty [OF lt]) (simp_all add: batchSlots_def packetBytes_def)
  also have "\<dots> = batch_loop m (of_nat (Suc n)) (of_nat (20 + 2 * Suc n)) (b @ [(?rest, 0)]) ?rest"
    by (simp add: algebra_simps)
  also have "\<dots> = None" using Suc.hyps(1) [of "Suc n" k'] Suc.hyps(2) Suc.prems k by simp
  finally show ?case by (simp add: k)
qed

section \<open>Properties\<close>

text \<open>A command line of well-formed options sets exactly those options, in order, a later one
  overriding an earlier one, with a port taken modulo 65536; after it, an argument that is no option
  ends the program with exit code 1, as does an option whose value is missing, and a port that does not
  start with a number ends it with an exception.\<close>

lemma main_reads_options:
  assumes "list_all main_option_ok opts"
  shows "parse_main MainOptions_default (concat (map main_render opts)) = Inr (fold main_apply opts MainOptions_default) \<and>
    (k \<notin> {''--udp'', ''--bind'', ''--port'', ''--multicast'', ''--net-core'', ''--afxdp'', ''--iface''} \<longrightarrow>
       parse_main MainOptions_default (concat (map main_render opts) @ k # rest) = Inl (unknown_arg k)) \<and>
    (k \<in> {''--bind'', ''--port'', ''--multicast'', ''--net-core'', ''--iface''} \<longrightarrow>
       parse_main MainOptions_default (concat (map main_render opts) @ [k]) = Inl (missing_arg k)) \<and>
    (scan_number v = None \<longrightarrow>
       parse_main MainOptions_default (concat (map main_render opts) @ ''--port'' # v # rest) = Inl (Uncaught invalid_argument))"
  using main_args.parse_options [OF assms, of MainOptions_default]
    main_args.parse_options [OF assms, of MainOptions_default "[]"]
  by (auto simp: stoi_def)

text \<open>C23: The sender started with well-formed options on a file of messages that all fit into a packet, with
  sends that succeed: a limit per packet between 1 and 256 makes it send the whole file and the end
  marker; a limit that is a multiple of 65536 makes it send nothing but the end marker, whatever
  the file holds.\<close>

theorem sender_follows_options:
  assumes "list_all sender_option_ok opts" and "a = fold sender_apply opts Args_default"
    and "files (afile a) = Some (concat (map frame bss))" and "list_all fits bss" and "\<And>k. send k"
  shows "(maxPerPacket a = 0 \<longrightarrow> replay_main files send (concat (map sender_render opts)) = Some (Inr [end_packet 1])) \<and>
    (0 < maxPerPacket a \<and> unat (maxPerPacket a) \<le> batchSlots \<longrightarrow>
      (\<exists>gs. replay_main files send (concat (map sender_render opts)) =
          Some (Inr (packet_stream 1 gs @ [end_packet (1 + of_nat (length bss))])) \<and>
        concat gs = bss \<and> list_all (packet_group (maxPerPacket a)) gs))"
proof -
  have p: "parseArgs Args_default (concat (map sender_render opts)) = Some (Inr a)"
    using sender_args.parse_options [OF assms(1), of Args_default "[]"] assms(2) by simp
  have "\<exists>gs. replay send (maxPerPacket a) (Some (concat (map frame bss))) =
          Some (packet_stream 1 gs @ [end_packet (1 + of_nat (length bss))]) \<and>
        concat gs = bss \<and> list_all (packet_group (maxPerPacket a)) gs"
    if "0 < maxPerPacket a" "unat (maxPerPacket a) \<le> batchSlots"
    by (rule replay_spec [where send = send, OF assms(4) that]) (use assms(5) in blast)+
  then show ?thesis using p assms(3) by (auto simp: replay_main_def replay_zero)
qed

theorem sender_follows_options_witness:
  "replay_main (\<lambda>f. Some (concat (map frame [[83, 1], [83, 2]]))) (\<lambda>k. True) [''--max-per-packet'', ''65536''] =
     Some (Inr [end_packet 1])"
proof -
  have "decimal_int 65536 = ''65536''" by (simp add: decimal_int_def decimal.simps char_of_def bit_0)
  with sender_follows_options [OF _ refl, of "[OptMaxPerPacket 65536]" "\<lambda>f. Some (concat (map frame [[83, 1], [83, 2]]))"
      "[[83, 1], [83, 2]]" "\<lambda>k. True"] show ?thesis
    by (simp add: fits_int_def fits_def kMoldHeaderBytes_def packetBytes_def)
qed

text \<open>C39: A limit per packet above 256 is accepted, and a file that starts with more than 256 empty messages then makes
  the sender write behind its arrays: the run has no defined outcome.\<close>

theorem sender_batch_overflow:
  assumes "256 < unat (of_int i :: u16)" and "fits_int i" and "256 < k"
    and "files (afile Args_default) = Some (concat (replicate k [0, 0]) @ rest)"
  shows "replay_main files send [''--max-per-packet'', decimal_int i] = None"
proof -
  have "batch_loop (of_int i) 0 20 [] (concat (replicate k [0, 0]) @ rest) = None"
    using batch_loop_overflow [OF assms(1), of 0 k "[]" rest] assms(3) by simp
  moreover have "concat (replicate k [0, 0 :: u8]) \<noteq> []" using assms(3) by (cases k) auto
  ultimately have "send_loop send (of_int i) 0 1 (concat (replicate k [0, 0]) @ rest) = None"
    by (subst send_loop.simps) (simp add: kMoldHeaderBytes_def)
  then show ?thesis
    using assms(4) by (simp add: replay_main_def atoi_decimal [OF assms(2)] Args_default_def replay_def)
qed

theorem sender_batch_overflow_witness:
  "replay_main (\<lambda>f. Some (concat (replicate 257 [0, 0]) @ [0, 1, 65])) (\<lambda>k. True) [''--max-per-packet'', ''300''] = None"
proof -
  have "decimal_int 300 = ''300''" by (simp add: decimal_int_def decimal.simps char_of_def bit_0)
  with sender_batch_overflow [of 300 257 "\<lambda>f. Some (concat (replicate 257 [0, 0]) @ [0, 1, 65])" "[0, 1, 65]" "\<lambda>k. True"] show ?thesis
    by (simp add: fits_int_def)
qed

end
