(* ===== verification/Report.thy ===== *)
theory Report
  imports Socket_Session Latencies Command_Line
begin

text \<open>
  The counters of the feed handler and the report at the end of UDP mode (\<^verbatim>\<open>src/engine_udp.cpp\<close>).  In every interleaving
  the counters of the socket thread are what the tracker counts over the packets heard, plus one received and one
  dropped packet, and its bytes, for each datagram discarded for want of a buffer, plus one dropped for each packet the
  ring refused.
\<close>

section \<open>The report\<close>

definition newline :: string where "newline = [char_of (10 :: nat)]"

definition report_line :: "string \<times> u64 \<Rightarrow> string" where
  "report_line = (\<lambda>(label, n). ''  '' @ label @ decimal (unat n) @ newline)"

definition runUdp_report :: "u64 \<Rightarrow> FeedStats \<Rightarrow> string" where
  "runUdp_report processed st = ''UDP run complete:'' @ newline @
     concat (map report_line
       [(''matched messages: '', processed),
        (''packets received: '', packetsReceived st),
        (''packets dropped:  '', packetsDropped st),
        (''bytes received:   '', bytesReceived st),
        (''gaps detected:    '', gapsDetected st),
        (''duplicates:       '', duplicatesIgnored st)])"

section \<open>What the tracker counts\<close>

definition add_stats :: "FeedStats \<Rightarrow> FeedStats \<Rightarrow> FeedStats" where
  "add_stats a b = \<lparr>packetsReceived = packetsReceived a + packetsReceived b, packetsDropped = packetsDropped a + packetsDropped b,
     bytesReceived = bytesReceived a + bytesReceived b, gapsDetected = gapsDetected a + gapsDetected b,
     duplicatesIgnored = duplicatesIgnored a + duplicatesIgnored b, endOfSession = endOfSession a + endOfSession b\<rparr>"

fun account :: "bytes list \<Rightarrow> SeqTracker \<times> FeedStats \<Rightarrow> SeqTracker \<times> FeedStats" where
  "account [] x = x"
| "account (d # ds) x = (case parseMoldHeader d of
      None \<Rightarrow> account ds x
    | Some h \<Rightarrow> account ds (snd (trackHeader h (fst x) (countReceived (length d) (snd x)))))"

lemma account_append: "account (ds @ ds') x = account ds' (account ds x)"
  by (induction ds arbitrary: x) (auto split: option.split)

lemma track_adds:
  "trackHeader h k (countReceived n (add_stats a b)) =
     (fst (trackHeader h k (countReceived n a)), fst (snd (trackHeader h k (countReceived n a))),
      add_stats (snd (snd (trackHeader h k (countReceived n a)))) b)"
  by (simp add: trackHeader_def add_stats_def countReceived_def Let_def)

section \<open>The counters of the socket thread\<close>

text \<open>\<open>a\<close> packets refused by the ring and counted, the datagrams \<open>xs\<close> discarded for want of a buffer.\<close>

definition losses :: "nat \<Rightarrow> bytes list \<Rightarrow> FeedStats" where
  "losses a xs = FeedStats_new\<lparr>packetsReceived := of_nat (length xs), packetsDropped := of_nat (a + length xs),
     bytesReceived := of_nat (sum_list (map length xs))\<rparr>"

text \<open>What a step of the thread discards: a datagram received into the scratch buffer.\<close>

definition net_discards :: "recv_result \<Rightarrow> NetThread \<Rightarrow> bytes list" where
  "net_discards inp t = (case (npc t, inp) of
      (NetScratch, Datagram d) \<Rightarrow> if take kMaxPacketBytes d = [] then [] else [take kMaxPacketBytes d]
    | _ \<Rightarrow> [])"

text \<open>Executions of the system with the record of the datagrams that were discarded.\<close>

inductive recorded :: "(nat \<Rightarrow> u64 \<times> u64) \<Rightarrow> NetThread Pipe \<Rightarrow> NetThread Pipe \<Rightarrow> bytes list \<Rightarrow> bool" for clk s0 where
  init: "recorded clk s0 s0 []"
| net: "recorded clk s0 s xs \<Longrightarrow> net_step inp w (shared s, net s) = Some (sh', t') \<Longrightarrow>
    recorded clk s0 (net_history socket_feed (inp, w) s t' (s\<lparr>shared := sh', net := t'\<rparr>)) (xs @ net_discards inp (net s))"
| eng: "recorded clk s0 s xs \<Longrightarrow> consumer_step clk (shared s, eng s) = Some (sh', e') \<Longrightarrow>
    recorded clk s0 (eng_history s (s\<lparr>shared := sh', eng := e'\<rparr>)) xs"

lemma recorded_reachable: "recorded clk s0 s xs \<Longrightarrow> pipe_reachable socket_feed clk s0 s"
proof (induction rule: recorded.induct)
  case (net s xs inp w sh' t')
  then show ?case using socket_step by (blast intro: pipe_reachable.step)
next
  case (eng s xs sh' e')
  then show ?case by (blast intro: pipe_reachable.step pipe_step.eng)
qed (rule pipe_reachable.init)

lemma reachable_recorded: "pipe_reachable socket_feed clk s0 s \<Longrightarrow> \<exists>xs. recorded clk s0 s xs"
proof (induction rule: pipe_reachable.induct)
  case init
  show ?case using recorded.init by blast
next
  case (step s s')
  then obtain xs where xs: "recorded clk s0 s xs" by blast
  from step.hyps(2) show ?case
  proof (cases rule: pipe_step.cases)
    case (net inp sh' t')
    obtain r w where i: "inp = (r, w)" by (cases inp)
    show ?thesis using recorded.net [OF xs, of r w sh' t'] net by (auto simp: i)
  next
    case (eng sh' e')
    then show ?thesis using recorded.eng [OF xs] by blast
  qed
qed

definition uncounted :: "NetThread \<Rightarrow> nat" where
  "uncounted t = (case npc t of NetDrop i \<Rightarrow> 1 | _ \<Rightarrow> 0)"

definition counted :: "bytes list \<Rightarrow> nat \<Rightarrow> bytes list \<Rightarrow> NetThread \<Rightarrow> bool" where
  "counted ds n xs t \<longleftrightarrow> (\<exists>a st. account ds (SeqTracker_new, FeedStats_new) = (tracker t, st) \<and>
     nstats t = add_stats st (losses a xs) \<and> a + uncounted t = n)"

lemma countedI:
  "account ds (SeqTracker_new, FeedStats_new) = (tracker t, st) \<Longrightarrow> nstats t = add_stats st (losses a xs) \<Longrightarrow>
   a + uncounted t = n \<Longrightarrow> counted ds n xs t"
  unfolding counted_def by blast

lemma losses_add:
  "countDropped (add_stats st (losses a xs)) = add_stats st (losses (Suc a) xs)"
  "countDropped (countReceived (length d) (add_stats st (losses a xs))) = add_stats st (losses a (xs @ [d]))"
  by (simp_all add: countDropped_def countReceived_def add_stats_def losses_def FeedStats_new_def)

lemma counted_net:
  assumes inv: "pipe_inv net_phase clk st0 s fs" and c: "counted (handled s) (refused s) xs (net s)"
    and step: "net_step inp w (shared s, net s) = Some (sh', t')"
  shows "counted (handled s @ net_heard inp (net s)) (refused s + (if net_lost (net s) t' then 1 else 0))
    (xs @ net_discards inp (net s)) t'"
proof -
  obtain a st where a: "account (handled s) (SeqTracker_new, FeedStats_new) = (tracker (net s), st)"
    "nstats (net s) = add_stats st (losses a xs)" "a + uncounted (net s) = refused s"
    using c by (auto simp: counted_def)
  have quiet: ?thesis if "net_heard inp (net s) = []" "tracker t' = tracker (net s)" "nstats t' = add_stats st (losses a' (xs @ net_discards inp (net s)))"
    "a' + uncounted t' = refused s + (if net_lost (net s) t' then 1 else 0)" for a'
    using countedI [of "handled s" t' st a' "xs @ net_discards inp (net s)"] a(1) that by simp
  note defs = uncounted_def net_heard_def net_lost_def net_discards_def
  show ?thesis
  proof (cases "npc (net s)")
    case NetTop
    show ?thesis by (rule quiet [of a]) (use step a NetTop in \<open>auto simp: defs net_step_def split: bind_splits if_splits\<close>)
  next
    case NetScratch
    show ?thesis
    proof (cases "\<exists>d. inp = Datagram d \<and> length (take kMaxPacketBytes d) \<noteq> 0")
      case True
      then obtain d where d: "inp = Datagram d" "length (take kMaxPacketBytes d) \<noteq> 0" by blast
      then have dis: "net_discards inp (net s) = [take kMaxPacketBytes d]" using NetScratch by (auto simp: net_discards_def)
      have "t' = (net s)\<lparr>npc := NetTop, nstats := add_stats st (losses a (xs @ [take kMaxPacketBytes d]))\<rparr>"
        using step NetScratch d a(2) losses_add(2) [of "take kMaxPacketBytes d" st a xs] by (simp add: net_step_def Let_def del: length_take)
      then show ?thesis using NetScratch a(3) dis by (intro quiet [of a]) (simp_all add: uncounted_def net_heard_def net_lost_def)
    next
      case False
      show ?thesis by (rule quiet [of a])
          (use step a NetScratch False in \<open>auto simp: defs net_step_def Let_def split: recv_result.splits if_splits\<close>)
    qed
  next
    case (NetRecv i)
    have D: "unat i < length (pslots (spool (shared s)))" "length (fst (slot_content (spool (shared s)) i)) = kMaxPacketBytes"
      using feed_preD(3,5) [OF pipe_inv_pre [OF inv], of i] NetRecv by (simp_all add: net_phase_def)
    show ?thesis
    proof (cases inp)
      case (Datagram d)
      then have run: "net_receive d w i (shared s, net s) = Some (sh', t')" using step NetRecv by (simp add: net_step_def)
      from run D show ?thesis
      proof (cases rule: net_receive_cases)
        case (short sl)
        show ?thesis by (rule quiet [of a]) (use NetRecv Datagram short a in \<open>auto simp: defs\<close>)
      next
        case (packet sl h v k' st')
        let ?d = "take kMaxPacketBytes d" and ?r = "trackHeader h (tracker (net s)) (countReceived (length (take kMaxPacketBytes d)) st)"
        have r: "fst (snd ?r) = k'" "st' = add_stats (snd (snd ?r)) (losses a xs)"
          using packet(7) track_adds [of h "tracker (net s)" "length ?d" st "losses a xs"] a(2) by simp_all
        have "account (handled s @ [?d]) (SeqTracker_new, FeedStats_new) = (k', snd (snd ?r))"
          using packet(6) a(1) r(1) by (simp add: account_append prod_eq_iff)
        then show ?thesis using NetRecv Datagram packet(1,8) r(2) a(3) countedI [of "handled s @ [?d]" t' "snd (snd ?r)" a xs "refused s"]
          by (cases v) (simp_all add: defs)
      qed
    next
      case Interrupted
      show ?thesis by (rule quiet [of a]) (use step NetRecv Interrupted a in \<open>auto simp: defs net_step_def\<close>)
    next
      case Failed
      show ?thesis by (rule quiet [of a]) (use step NetRecv Failed a in \<open>auto simp: defs net_step_def\<close>)
    qed
  next
    case (NetPush i w')
    show ?thesis by (rule quiet [of a]) (use step a NetPush in \<open>auto simp: defs net_step_def split: bind_splits if_splits\<close>)
  next
    case (NetDrop i)
    show ?thesis by (rule quiet [of "Suc a"]) (use step a NetDrop losses_add(1) [of st a xs] in \<open>auto simp: defs net_step_def split: bind_splits\<close>)
  next
    case (NetRelease i k2)
    show ?thesis by (rule quiet [of a])
        (use step a NetRelease in \<open>auto simp: defs net_step_def split: bind_splits after_release.splits\<close>)
  next
    case (NetSentinel w')
    show ?thesis by (rule quiet [of a]) (use step a NetSentinel in \<open>auto simp: defs net_step_def split: bind_splits if_splits\<close>)
  next
    case NetDone
    show ?thesis by (rule quiet [of a]) (use step a NetDone in \<open>auto simp: defs net_step_def\<close>)
  qed
qed

lemma counted_recorded:
  assumes "recorded clk s0 s xs" and "pipe_inv net_phase clk st0 s0 fs0" and "counted (handled s0) (refused s0) [] (net s0)"
  shows "counted (handled s) (refused s) xs (net s)"
  using assms(1)
proof (induction rule: recorded.induct)
  case init
  show ?case by (rule assms(3))
next
  case (net s xs inp w sh' t')
  obtain fs where inv: "pipe_inv net_phase clk st0 s fs" using socket_reachable_inv [OF recorded_reachable [OF net.hyps(1)] assms(2)] by blast
  show ?case using counted_net [OF inv net.IH net.hyps(2)] by (simp add: net_history_def)
next
  case (eng s xs sh' e')
  then show ?case by (auto simp: eng_history_def split: eng_pc.split)
qed

section \<open>The packets of the sender\<close>

lemma account_stream:
  assumes "list_all (packet_group m) gs" and "unat m \<le> batchSlots" and "sessionInit k \<Longrightarrow> nextExpected k = sq"
  shows "\<exists>k'. account (packet_stream sq gs @ [end_packet n]) (k, st) = (k', st\<lparr>
    packetsReceived := packetsReceived st + of_nat (Suc (length gs)),
    bytesReceived := bytesReceived st + of_nat (sum_list (map length (packet_stream sq gs @ [end_packet n]))),
    endOfSession := endOfSession st + 1\<rparr>)"
  using assms(1,3)
proof (induction gs arbitrary: sq k st)
  case Nil
  have "parseMoldHeader (end_packet n) = Some \<lparr>session = replaySession, sequenceNumber = n, messageCount = kMoldEndOfSession\<rparr>"
    using parse_header [of replaySession n kMoldEndOfSession "[]"] by (simp add: end_packet_def)
  then show ?case by (simp add: trackHeader_def countReceived_def Let_def)
next
  case (Cons g gs)
  let ?d = "data_packet sq g"
  obtain h k1 st1 where t: "parseMoldHeader ?d = Some h" "trackHeader h k FeedStats_new = (Accept, k1, st1)"
    "sessionInit k1" "nextExpected k1 = sq + of_nat (length g)"
    by (rule track_group [OF _ assms(2) Cons.prems(2)]) (use Cons.prems(1) in auto)
  have h: "sequenceNumber h = sq" using t(1) group_header(1) [of m g sq] Cons.prems(1) assms(2) by auto
  have "trackHeader h k (countReceived (length ?d) st) = (Accept, k1, countReceived (length ?d) st)"
    using t(2) h Cons.prems(2) by (cases "sessionInit k") (auto simp: trackHeader_def Let_def split: if_splits)
  moreover obtain k' where "account (packet_stream (sq + of_nat (length g)) gs @ [end_packet n]) (k1, countReceived (length ?d) st) =
      (k', (countReceived (length ?d) st)\<lparr>
        packetsReceived := packetsReceived (countReceived (length ?d) st) + of_nat (Suc (length gs)),
        bytesReceived := bytesReceived (countReceived (length ?d) st) +
          of_nat (sum_list (map length (packet_stream (sq + of_nat (length g)) gs @ [end_packet n]))),
        endOfSession := endOfSession (countReceived (length ?d) st) + 1\<rparr>)"
    using Cons.IH [of k1 "sq + of_nat (length g)" "countReceived (length ?d) st"] Cons.prems(1) t(4) by auto
  ultimately show ?case using t(1) by (simp add: countReceived_def algebra_simps)
qed

lemma length_packet_stream: "length (packet_stream sq gs) = length gs"
  by (induction gs arbitrary: sq) simp_all

end
