(* ===== verification/Clock.thy ===== *)
theory Clock
  imports Prelude
begin

text \<open>
  Time: the nanoseconds of the monotonic clock (\<^verbatim>\<open>include/tsc.hpp\<close> and the helpers \<open>monoNs\<close>), the calibration of the time
  stamp counter against it (\<open>calibrateTsc\<close> of \<^verbatim>\<open>src/matching_engine.cpp\<close>, \<open>calibrateTscUdp\<close> of
  \<^verbatim>\<open>src/engine_udp.cpp\<close>), and the wait of the paced sender.  The readings are arguments: \<open>ns j\<close> is the \<open>j\<close>-th
  reading of the clock.  Both loops are shown to end exactly if the clock gets there.
\<close>

section \<open>Model\<close>

text \<open>What \<open>clock_gettime\<close> fills in, and the product and sum taken in 64 bits.\<close>

record timespec =
  tv_sec :: u64
  tv_nsec :: u64

definition monoNs :: "timespec \<Rightarrow> u64" where
  "monoNs ts = tv_sec ts * 1000000000 + tv_nsec ts"

text \<open>The time stamp counter where there is one, else the clock; \<open>rdtscp\<close> is the instruction's result.\<close>

datatype platform = X86 | OtherPlatform

definition tscNow :: "platform \<Rightarrow> u64 \<Rightarrow> timespec \<Rightarrow> u64" where
  "tscNow pf rdtscp ts = (case pf of X86 \<Rightarrow> rdtscp | OtherPlatform \<Rightarrow> monoNs ts)"

definition tscIsCycles :: "platform \<Rightarrow> bool" where
  "tscIsCycles pf = (pf = X86)"

text \<open>The calibration loop: the first reading that is a tenth of a second behind the start.\<close>

partial_function (option) calibrate_loop :: "(nat \<Rightarrow> u64) \<Rightarrow> u64 \<Rightarrow> nat \<Rightarrow> u64 option" where
  "calibrate_loop ns calNs0 j =
     (let calNs1 = ns j in if calNs1 - calNs0 < 100000000 then calibrate_loop ns calNs0 (Suc j) else Some calNs1)"

text \<open>The cycles and the nanoseconds that passed; the code returns their quotient.\<close>

definition calibrateTsc :: "(nat \<Rightarrow> u64) \<Rightarrow> u64 \<Rightarrow> u64 \<Rightarrow> (u64 \<times> u64) option" where
  "calibrateTsc ns calCycles0 calCycles1 = do {
     let calNs0 = ns 0;
     calNs1 \<leftarrow> calibrate_loop ns calNs0 1;
     Some (calCycles1 - calCycles0, calNs1 - calNs0) }"

text \<open>UDP mode has a copy of its own.\<close>

definition calibrateTscUdp :: "(nat \<Rightarrow> u64) \<Rightarrow> u64 \<Rightarrow> u64 \<Rightarrow> (u64 \<times> u64) option" where
  "calibrateTscUdp ns calCycles0 calCycles1 = do {
     let calNs0 = ns 0;
     calNs1 \<leftarrow> calibrate_loop ns calNs0 1;
     Some (calCycles1 - calCycles0, calNs1 - calNs0) }"

lemma calibrate_same: "calibrateTscUdp = calibrateTsc"
  by (intro ext) (simp add: calibrateTscUdp_def calibrateTsc_def)

text \<open>The sender's wait: the reading that ends it, and the number of readings taken so far.\<close>

partial_function (option) pace_loop :: "(nat \<Rightarrow> u64) \<Rightarrow> u64 \<Rightarrow> nat \<Rightarrow> (u64 \<times> nat) option" where
  "pace_loop ns targetNs j = (if ns j < targetNs then pace_loop ns targetNs (Suc j) else Some (ns j, Suc j))"

section \<open>Loops over readings\<close>

text \<open>Both loops look for the first reading with a property.\<close>

locale first_reading =
  fixes loop :: "nat \<Rightarrow> 'r option" and stop :: "nat \<Rightarrow> bool" and result :: "nat \<Rightarrow> 'r"
  assumes ends: "stop j \<Longrightarrow> loop j = Some (result j)"
    and goes_on: "\<not> stop j \<Longrightarrow> loop j = loop (Suc j)"
begin

lemma skip: "(\<And>l. j \<le> l \<Longrightarrow> l < j + n \<Longrightarrow> \<not> stop l) \<Longrightarrow> loop j = loop (j + n)"
proof (induction n arbitrary: j)
  case (Suc n)
  have "loop (Suc j) = loop (Suc j + n)" by (rule Suc.IH) (use Suc.prems in simp)
  then show ?case using goes_on [of j] Suc.prems by simp
qed simp

lemma finds_first:
  assumes "\<exists>i \<ge> j. stop i"
  shows "\<exists>i \<ge> j. stop i \<and> (\<forall>l. j \<le> l \<and> l < i \<longrightarrow> \<not> stop l) \<and> loop j = Some (result i)"
proof -
  define i where "i = (LEAST i. j \<le> i \<and> stop i)"
  have i: "j \<le> i" "stop i" using LeastI_ex [of "\<lambda>i. j \<le> i \<and> stop i"] assms by (auto simp: i_def)
  have below: "\<not> stop l" if "j \<le> l" "l < i" for l using not_less_Least [of l "\<lambda>i. j \<le> i \<and> stop i"] that by (auto simp: i_def)
  have "loop j = loop (j + (i - j))" by (rule skip) (use below i(1) in simp)
  then show ?thesis using i below ends [OF i(2)] by auto
qed

end

text \<open>A loop that stops nowhere does not return.\<close>

lemma calibrate_loop_stops: "calibrate_loop ns calNs0 j = Some y \<Longrightarrow> \<exists>i \<ge> j. \<not> ns i - calNs0 < 100000000"
proof (rule calibrate_loop.raw_induct [of "\<lambda>ns c j y. \<exists>i \<ge> j. \<not> ns i - c < 100000000"])
  fix loop :: "(nat \<Rightarrow> u64) \<Rightarrow> u64 \<Rightarrow> nat \<Rightarrow> u64 option" and ns c j y
  assume IH: "\<And>ns c j y. loop ns c j = Some y \<Longrightarrow> \<exists>i \<ge> j. \<not> ns i - c < 100000000"
    and run: "(let calNs1 = ns j in if calNs1 - c < 100000000 then loop ns c (Suc j) else Some calNs1) = Some y"
  show "\<exists>i \<ge> j. \<not> ns i - c < 100000000"
  proof (cases "ns j - c < 100000000")
    case True
    then show ?thesis using IH [of ns c "Suc j" y] run by (auto dest: Suc_leD)
  qed auto
qed

lemma calibrate_loop_diverges:
  "(\<And>i. j \<le> i \<Longrightarrow> ns i - calNs0 < 100000000) \<Longrightarrow> calibrate_loop ns calNs0 j = None"
  using calibrate_loop_stops [of ns calNs0 j] by (cases "calibrate_loop ns calNs0 j") auto

interpretation calibrate: first_reading "calibrate_loop ns calNs0" "\<lambda>j. \<not> ns j - calNs0 < 100000000" ns for ns calNs0
  by unfold_locales (subst calibrate_loop.simps, simp)+

interpretation pace: first_reading "pace_loop ns targetNs" "\<lambda>j. \<not> ns j < targetNs" "\<lambda>j. (ns j, Suc j)" for ns targetNs
  by unfold_locales (subst pace_loop.simps, simp)+

lemma pace_loop_defined: "\<exists>i \<ge> j. targetNs \<le> ns i \<Longrightarrow> \<exists>now j'. pace_loop ns targetNs j = Some (now, j')"
  using pace.finds_first [of j ns targetNs] by (auto simp: not_less)

lemma pace_loop_after: "pace_loop ns targetNs j = Some r \<Longrightarrow> targetNs \<le> fst r \<and> j < snd r"
proof (rule pace_loop.raw_induct [of "\<lambda>ns targetNs j r. targetNs \<le> fst r \<and> j < snd r"])
  fix loop :: "(nat \<Rightarrow> u64) \<Rightarrow> u64 \<Rightarrow> nat \<Rightarrow> (u64 \<times> nat) option" and ns targetNs j r
  assume IH: "\<And>ns targetNs j r. loop ns targetNs j = Some r \<Longrightarrow> targetNs \<le> fst r \<and> j < snd r"
    and run: "(if ns j < targetNs then loop ns targetNs (Suc j) else Some (ns j, Suc j)) = Some r"
  show "targetNs \<le> fst r \<and> j < snd r"
    using IH [of ns targetNs "Suc j" r] run by (cases "ns j < targetNs") auto
qed

section \<open>Properties\<close>

text \<open>C37: Calibration returns exactly if the clock is at some reading a tenth of a second behind its first one, and then
  with the cycles and nanoseconds up to the first such reading; the nanoseconds are at least 100000000, so
  that the quotient is never a division by zero.\<close>

theorem calibration_returns:
  "if \<exists>j \<ge> 1. 100000000 \<le> ns j - ns 0
   then \<exists>j \<ge> 1. calibrateTsc ns c0 c1 = Some (c1 - c0, ns j - ns 0) \<and> 100000000 \<le> ns j - ns 0 \<and>
     (\<forall>i. 1 \<le> i \<and> i < j \<longrightarrow> ns i - ns 0 < 100000000)
   else calibrateTsc ns c0 c1 = None"
proof (cases "\<exists>j \<ge> 1. 100000000 \<le> ns j - ns 0")
  case True
  then have "\<exists>i \<ge> 1. \<not> ns i - ns 0 < 100000000" by (simp add: not_less)
  from calibrate.finds_first [OF this] obtain j where j: "j \<ge> 1" "\<not> ns j - ns 0 < 100000000"
    "\<forall>i. 1 \<le> i \<and> i < j \<longrightarrow> ns i - ns 0 < 100000000" "calibrate_loop ns (ns 0) 1 = Some (ns j)" by blast
  then have "calibrateTsc ns c0 c1 = Some (c1 - c0, ns j - ns 0) \<and> 100000000 \<le> ns j - ns 0 \<and>
      (\<forall>i. 1 \<le> i \<and> i < j \<longrightarrow> ns i - ns 0 < 100000000)" by (simp add: calibrateTsc_def not_less)
  then show ?thesis using True j(1) by (simp only: if_True) blast
next
  case False
  then have "calibrate_loop ns (ns 0) 1 = None" by (intro calibrate_loop_diverges) (metis not_le)
  then show ?thesis using False by (simp only: if_False calibrateTsc_def Let_def bind.bind_lzero)
qed

theorem calibration_returns_witness:
  "\<exists>j \<ge> 1. calibrateTsc (\<lambda>j. of_nat j * 40000000) 100 700 = Some (600, of_nat j * 40000000) \<and> (100000000 :: u64) \<le> of_nat j * 40000000"
proof -
  have "\<exists>j \<ge> 1. (100000000 :: u64) \<le> of_nat j * 40000000 - of_nat 0 * 40000000" by (rule exI [of _ 3]) simp
  then show ?thesis using calibration_returns [of "\<lambda>j. of_nat j * 40000000" 100 700] by auto
qed

end
