(* ===== verification/Replay_Pacing.thy ===== *)
theory Replay_Pacing
  imports Replay Clock
begin

text \<open>
  The sender of \<^verbatim>\<open>src/replay.cpp\<close> with its clock and its counters: with a rate given it waits before every packet
  until the time at which the messages sent so far are due.  It is shown to send exactly what the
  sender without a clock sends, each packet not before its time, and to end if the clock goes on.
\<close>

section \<open>Model\<close>

text \<open>The counters of \<open>main\<close>, and how many times the clock was read.\<close>

record Progress =
  pseq :: u64
  totalMsgs :: u64
  totalPkts :: u64
  readings :: nat

definition nsPerMsg :: "u64 \<Rightarrow> u64" where
  "nsPerMsg rate = (if rate \<noteq> 0 then 1000000000 div rate else 0)"

text \<open>The wait before a packet; without a rate the clock is not read.\<close>

definition pace :: "(nat \<Rightarrow> u64) \<Rightarrow> u64 \<Rightarrow> u64 \<Rightarrow> Progress \<Rightarrow> (u64 option \<times> nat) option" where
  "pace ns startNs perMsg p =
     (if perMsg \<noteq> 0
      then map_option (\<lambda>(now, j). (Some now, j)) (pace_loop ns (startNs + totalMsgs p * perMsg) (readings p))
      else Some (None, readings p))"

definition count_sent :: "nat \<Rightarrow> Progress \<Rightarrow> Progress" where
  "count_sent batchCount p = p\<lparr>pseq := pseq p + of_nat batchCount, totalMsgs := totalMsgs p + of_nat batchCount,
     totalPkts := totalPkts p + 1\<rparr>"

function send_paced :: "(nat \<Rightarrow> u64) \<Rightarrow> u64 \<Rightarrow> u64 \<Rightarrow> (nat \<Rightarrow> bool) \<Rightarrow> u16 \<Rightarrow> nat \<Rightarrow> Progress \<Rightarrow> bytes \<Rightarrow>
    ((u64 option \<times> bytes) list \<times> Progress) option" where
  "send_paced ns startNs perMsg send maxPerPacket k p data =
     (if data = [] then Some ([], p)
      else case batch_loop maxPerPacket 0 (of_nat kMoldHeaderBytes) [] data of
        None \<Rightarrow> None
      | Some (batch, data') \<Rightarrow>
          (if batch = [] then Some ([], p)
           else case buildMoldPacket packetBytes replaySession (pseq p) batch (of_nat (length batch)) of
             None \<Rightarrow> None
           | Some (n, packet) \<Rightarrow>
               (if n = 0 then Some ([], p)
                else case pace ns startNs perMsg p of
                  None \<Rightarrow> None
                | Some (now, j) \<Rightarrow>
                    (if \<not> send k then Some ([], p\<lparr>readings := j\<rparr>)
                     else map_option (\<lambda>(pkts, p'). ((now, packet) # pkts, p'))
                       (send_paced ns startNs perMsg send maxPerPacket (Suc k)
                         (count_sent (length batch) (p\<lparr>readings := j\<rparr>)) data')))))"
  by pat_completeness auto
termination
  by (relation "measure (\<lambda>(ns, st, pm, send, m, k, p, data). length data)") (auto dest!: batch_loop_length)

declare send_paced.simps [simp del]

text \<open>The run: the packets with the times at which their waits ended, the marker, and the counters reported.\<close>

definition replay_paced :: "(nat \<Rightarrow> u64) \<Rightarrow> u64 \<Rightarrow> (nat \<Rightarrow> bool) \<Rightarrow> u16 \<Rightarrow> bytes \<Rightarrow>
    ((u64 option \<times> bytes) list \<times> bytes \<times> Progress) option" where
  "replay_paced ns rate send maxPerPacket data = do {
     let startNs = ns 0;
     (pkts, p) \<leftarrow> send_paced ns startNs (nsPerMsg rate) send maxPerPacket 0
       \<lparr>pseq = 1, totalMsgs = 0, totalPkts = 0, readings = 1\<rparr> data;
     eos \<leftarrow> endPacket (pseq p);
     Some (pkts, eos, p) }"

section \<open>The same packets, each in time\<close>

lemma build_messages_prefix: "build_messages cap out msgs = Some (n, packet) \<Longrightarrow> \<exists>rest. packet = out @ rest"
proof (induction msgs arbitrary: out)
  case (Cons m msgs)
  obtain msg len where m: "m = (msg, len)" by (cases m)
  show ?case
  proof (cases "length out + 2 + unat len > cap")
    case False
    then obtain payload where "build_messages cap ((out @ store_le 2 (bswap len)) @ payload) msgs = Some (n, packet)"
      using Cons.prems by (auto simp: m Let_def bind_eq_Some_conv)
    from Cons.IH [OF this] show ?thesis by auto
  qed (use Cons.prems m in simp)
qed simp

lemma buildMoldPacket_header:
  assumes "buildMoldPacket cap replaySession sq msgs cnt = Some (n, packet)" and "n \<noteq> 0"
  shows "parseMoldHeader packet = Some \<lparr>session = replaySession, sequenceNumber = sq, messageCount = cnt\<rparr>"
proof -
  have "\<exists>rest. packet = mold_header_bytes replaySession sq cnt @ rest"
    using assms build_messages_prefix by (auto simp: buildMoldPacket_def take_bytes_def bind_eq_Some_conv split: if_splits)
  then show ?thesis using parse_header [of replaySession sq cnt] by auto
qed

definition in_time :: "u64 \<Rightarrow> u64 \<Rightarrow> u64 option \<times> bytes \<Rightarrow> bool" where
  "in_time startNs perMsg = (\<lambda>(now, packet). case (now, parseMoldHeader packet) of
      (None, Some h) \<Rightarrow> perMsg = 0
    | (Some t, Some h) \<Rightarrow> startNs + (sequenceNumber h - 1) * perMsg \<le> t
    | _ \<Rightarrow> False)"

lemma pace_in_time:
  assumes "pace ns startNs perMsg p = Some (now, j)" and "parseMoldHeader packet = Some h" and "sequenceNumber h = totalMsgs p + 1"
  shows "in_time startNs perMsg (now, packet)"
  using assms by (cases "perMsg = 0") (auto simp: pace_def in_time_def dest: pace_loop_after)

text \<open>The paced loop against the loop without a clock.\<close>

lemma send_paced_sound:
  "send_paced ns startNs perMsg send m k p data = Some (ts, p') \<Longrightarrow> pseq p = totalMsgs p + 1 \<Longrightarrow>
   send_loop send m k (pseq p) data = Some (map snd ts, pseq p') \<and> pseq p' = totalMsgs p' + 1 \<and>
   totalPkts p' = totalPkts p + of_nat (length ts) \<and> list_all (in_time startNs perMsg) ts"
proof (induction ns startNs perMsg send m k p data arbitrary: ts p' rule: send_paced.induct)
  case (1 ns startNs perMsg send m k p data)
  note run = "1.prems"(1) [unfolded send_paced.simps [of ns startNs perMsg send m k p data]]
    and un = send_loop.simps [of send m k "pseq p" data]
  show ?case
  proof (cases "data = []")
    case True
    then show ?thesis using run un "1.prems"(2) by simp
  next
    case ne: False
    then obtain batch data' where b: "batch_loop m 0 (of_nat kMoldHeaderBytes) [] data = Some (batch, data')"
      using run by (auto split: option.splits)
    show ?thesis
    proof (cases "batch = []")
      case True
      then show ?thesis using run un ne b "1.prems"(2) by simp
    next
      case nb: False
      then obtain n packet where pk: "buildMoldPacket packetBytes replaySession (pseq p) batch (of_nat (length batch)) = Some (n, packet)"
        using run ne b by (auto split: option.splits)
      show ?thesis
      proof (cases "n = 0")
        case True
        then show ?thesis using run un ne b nb pk "1.prems"(2) by simp
      next
        case nz: False
        then obtain now j where w: "pace ns startNs perMsg p = Some (now, j)" using run ne b nb pk by (auto split: option.splits)
        show ?thesis
        proof (cases "send k")
          case False
          then show ?thesis using run un ne b nb pk nz w "1.prems"(2) by auto
        next
          case True
          let ?p = "count_sent (length batch) (p\<lparr>readings := j\<rparr>)"
          obtain ts2 where r: "send_paced ns startNs perMsg send m (Suc k) ?p data' = Some (ts2, p')" "ts = (now, packet) # ts2"
            using run ne b nb pk nz w True by auto
          have inv: "pseq ?p = totalMsgs ?p + 1" using "1.prems"(2) by (simp add: count_sent_def)
          have "in_time startNs perMsg (now, packet)"
            by (rule pace_in_time [OF w buildMoldPacket_header [OF pk nz]]) (use "1.prems"(2) in simp)
          moreover note ih = "1.IH" [OF ne b refl nb pk refl nz w refl _ r(1) inv]
          ultimately show ?thesis using r(2) un ne b nb pk nz True by (simp add: count_sent_def)
        qed
      qed
    qed
  qed
qed

text \<open>If every due time is reached, the paced loop returns when the loop without a clock does.\<close>

lemma batch_loop_count:
  "batch_loop m c u b data = Some (b', data') \<Longrightarrow> length b' + length data' \<le> length b + length data"
proof (induction m c u b data rule: batch_loop.induct)
  case (1 m c u b data)
  show ?case
  proof (cases "data \<noteq> [] \<and> c < m")
    case False
    then show ?thesis using "1.prems" by (subst (asm) batch_loop.simps) auto
  next
    case True
    then obtain l rest where l: "take_bytes 2 data = Some (l, rest)"
      using "1.prems" by (subst (asm) batch_loop.simps) (auto split: option.splits)
    define mlen :: u16 where "mlen = bswap (load_le l)"
    have u: "batch_loop m c u b data = (if unat u + 2 + unat mlen > packetBytes then Some (b, data)
        else if unat c \<ge> batchSlots then None
        else batch_loop m (c + 1) (u + (2 + mlen)) (b @ [(rest, mlen)]) (drop (unat mlen) rest))"
      using True l by (subst batch_loop.simps) (simp add: mlen_def Let_def)
    have len: "length rest + 2 = length data" using l by (auto simp: take_bytes_def split: if_splits)
    show ?thesis
    proof (cases "unat u + 2 + unat mlen > packetBytes")
      case False
      then have c: "\<not> unat c \<ge> batchSlots" using "1.prems" u by auto
      then have "batch_loop m (c + 1) (u + (2 + mlen)) (b @ [(rest, mlen)]) (drop (unat mlen) rest) = Some (b', data')"
        using "1.prems" u False by simp
      from "1.IH" [OF True l refl, of mlen] this c False len show ?thesis by (auto simp: mlen_def)
    qed (use "1.prems" u in auto)
  qed
qed

lemma send_paced_total:
  assumes reach: "\<And>n j. n \<le> N \<Longrightarrow> \<exists>i \<ge> j. startNs + of_nat n * perMsg \<le> ns i"
  shows "send_loop send m k (pseq p) data = Some r \<Longrightarrow> totalMsgs p = of_nat c \<Longrightarrow> c + length data \<le> N \<Longrightarrow>
    \<exists>ts p'. send_paced ns startNs perMsg send m k p data = Some (ts, p')"
proof (induction "length data" arbitrary: k p data r c rule: less_induct)
  case less
  note run = less.prems(1) [unfolded send_loop.simps [of send m k "pseq p" data]]
    and pa = send_paced.simps [of ns startNs perMsg send m k p data]
  show ?case
  proof (cases "data = []")
    case ne: False
    then obtain batch data' where b: "batch_loop m 0 (of_nat kMoldHeaderBytes) [] data = Some (batch, data')"
      using run by (auto split: option.splits)
    show ?thesis
    proof (cases "batch = []")
      case nb: False
      then obtain n packet where pk: "buildMoldPacket packetBytes replaySession (pseq p) batch (of_nat (length batch)) = Some (n, packet)"
        using run ne b by (auto split: option.splits)
      have "\<exists>now j. pace ns startNs perMsg p = Some (now, j)"
        using pace_loop_defined [OF reach, of c "readings p"] less.prems(2,3) by (auto simp: pace_def)
      then obtain now j where w: "pace ns startNs perMsg p = Some (now, j)" by blast
      show ?thesis
      proof (cases "n = 0 \<or> \<not> send k")
        case True
        then show ?thesis using w pa ne b nb pk by auto
      next
        case False
        let ?p = "count_sent (length batch) (p\<lparr>readings := j\<rparr>)"
        obtain r' where r': "send_loop send m (Suc k) (pseq ?p) data' = Some r'" using run ne b nb pk False by (auto simp: count_sent_def)
        have len: "length data' < length data" "length batch + length data' \<le> length data"
          using batch_loop_length [OF b] batch_loop_count [OF b] nb by auto
        have "\<exists>ts p'. send_paced ns startNs perMsg send m (Suc k) ?p data' = Some (ts, p')"
          by (rule less.hyps [OF len(1) r', of "c + length batch"]) (use less.prems(2,3) len(2) in \<open>simp_all add: count_sent_def\<close>)
        then show ?thesis using pa ne b nb pk False w by auto
      qed
    qed (use pa ne b in simp)
  qed (use pa in simp)
qed

section \<open>Properties\<close>

text \<open>C32: With a rate given the sender sends exactly the packets it sends without one, whatever the file and whichever sends
  fail, and no packet before its time, which is the start plus the due time of the messages sent before
  it (its sequence number less one); the counters it reports are the messages and packets sent.  It
  ends if the clock reaches every due time.\<close>

theorem paced_sender_in_time:
  assumes "replay send m (Some data) = Some pkts"
    and "\<And>n j. n \<le> length data \<Longrightarrow> \<exists>i \<ge> j. ns 0 + of_nat n * nsPerMsg rate \<le> ns i"
  shows "\<exists>ts eos p. replay_paced ns rate send m data = Some (ts, eos, p) \<and> pkts = map snd ts @ [eos] \<and>
    list_all (in_time (ns 0) (nsPerMsg rate)) ts \<and>
    totalPkts p = of_nat (length ts) \<and> eos = end_packet (totalMsgs p + 1)"
proof -
  let ?p0 = "\<lparr>pseq = 1, totalMsgs = 0, totalPkts = 0, readings = 1\<rparr>"
  obtain ps sq where sl: "send_loop send m 0 1 data = Some (ps, sq)" "pkts = ps @ [end_packet sq]"
    using assms(1) by (auto simp: replay_def endPacket_spec bind_eq_Some_conv)
  obtain ts p where sp: "send_paced ns (ns 0) (nsPerMsg rate) send m 0 ?p0 data = Some (ts, p)"
    using send_paced_total [of "length data" "ns 0" "nsPerMsg rate" ns send m 0 ?p0 data _ 0] assms(2) sl(1) by auto
  have "send_loop send m 0 1 data = Some (map snd ts, pseq p)" "pseq p = totalMsgs p + 1" "totalPkts p = of_nat (length ts)"
    "list_all (in_time (ns 0) (nsPerMsg rate)) ts"
    using send_paced_sound [OF sp] by simp_all
  then show ?thesis using sp sl by (simp add: replay_paced_def endPacket_spec)
qed

theorem paced_sender_in_time_witness:
  "\<exists>ts eos p. replay_paced (\<lambda>j. of_nat (min j 100)) 500000000 (\<lambda>k. True) 1 (concat (map frame [[83, 1], [83, 2]])) = Some (ts, eos, p) \<and>
     list_all (in_time 0 2) ts \<and> eos = end_packet (totalMsgs p + 1)"
proof -
  let ?d = "concat (map frame [[83, 1], [83, 2 :: u8]])" and ?ns = "\<lambda>j. of_nat (min j 100) :: u64"
  obtain pkts where r: "replay (\<lambda>k. True) 1 (Some ?d) = Some pkts"
    by (rule replay_spec [of "[[83, 1], [83, 2]]" 1 "\<lambda>k. True"]) (simp_all add: fits_def kMoldHeaderBytes_def packetBytes_def batchSlots_def)
  have len: "length ?d = 8" by (simp add: frame_def)
  have rate: "nsPerMsg 500000000 = 2" by (simp add: nsPerMsg_def)
  have "\<exists>i \<ge> j. ?ns 0 + of_nat n * nsPerMsg 500000000 \<le> ?ns i" if "n \<le> length ?d" for n j
  proof (rule exI [of _ "j + 100"])
    have "unat (of_nat n * 2 :: u64) = n * 2" using that len unat_of_nat_small [of "n * 2", where 'a = 64] by simp
    then show "j \<le> j + 100 \<and> ?ns 0 + of_nat n * nsPerMsg 500000000 \<le> ?ns (j + 100)"
      using that len by (simp add: rate word_le_nat_alt)
  qed
  from paced_sender_in_time [OF r, of ?ns 500000000, OF this] show ?thesis by (auto simp: rate)
qed

end
