(* ===== verification/System_Calls.thy ===== *)
theory System_Calls
  imports Command_Line Xdp_Frames
begin

text \<open>
  The system resources of the programs: the socket of the feed handler, the memory area, its registration and the
  AF_XDP socket, and the mapped file of the engine and of the sender.  Each part is the sequence of calls
  it makes, depending on which of them succeed (\<open>os\<close>); \<open>track\<close> follows what is held.  Every path of
  both network threads gives back what it took, each resource once and in an order that is allowed.
\<close>

section \<open>Calls and resources\<close>

record sockaddr_in =
  sin_port :: u16
  sin_addr :: u32

datatype sys_call =
    SocketCall | ReuseAddr | ReusePort | RecvBuf nat | MulticastTtl nat | BindCall sockaddr_in | AddMembership u32 u32 | CloseSocket
  | OpenFile string | MapFile | UnmapFile | CloseFile
  | MemAlign nat | UmemCreate | FillReserve nat | XskCreate "string option" nat | XskDelete | UmemDelete | FreeArea

datatype resource = RSocket | RFile | RMap | RArea | RUmem | RXsk

text \<open>What a call needs, what must be gone before it, what it takes if it succeeds, and what it gives back.\<close>

fun needs :: "sys_call \<Rightarrow> resource list" where
  "needs SocketCall = []"
| "needs ReuseAddr = [RSocket]"
| "needs ReusePort = [RSocket]"
| "needs (RecvBuf n) = [RSocket]"
| "needs (MulticastTtl n) = [RSocket]"
| "needs (BindCall a) = [RSocket]"
| "needs (AddMembership g i) = [RSocket]"
| "needs CloseSocket = [RSocket]"
| "needs (OpenFile f) = []"
| "needs MapFile = [RFile]"
| "needs UnmapFile = [RMap]"
| "needs CloseFile = [RFile]"
| "needs (MemAlign n) = []"
| "needs UmemCreate = [RArea]"
| "needs (FillReserve n) = [RUmem]"
| "needs (XskCreate i q) = [RUmem]"
| "needs XskDelete = [RXsk]"
| "needs UmemDelete = [RUmem]"
| "needs FreeArea = [RArea]"

fun users :: "sys_call \<Rightarrow> resource list" where
  "users UmemDelete = [RXsk]"
| "users FreeArea = [RUmem]"
| "users _ = []"

fun takes :: "sys_call \<Rightarrow> resource list" where
  "takes SocketCall = [RSocket]"
| "takes (OpenFile f) = [RFile]"
| "takes MapFile = [RMap]"
| "takes (MemAlign n) = [RArea]"
| "takes UmemCreate = [RUmem]"
| "takes (XskCreate i q) = [RXsk]"
| "takes _ = []"

fun gives :: "sys_call \<Rightarrow> resource list" where
  "gives CloseSocket = [RSocket]"
| "gives UnmapFile = [RMap]"
| "gives CloseFile = [RFile]"
| "gives XskDelete = [RXsk]"
| "gives UmemDelete = [RUmem]"
| "gives FreeArea = [RArea]"
| "gives _ = []"

text \<open>The resources held after a sequence of calls; \<open>None\<close> if a call misuses one.\<close>

fun track :: "(sys_call \<Rightarrow> bool) \<Rightarrow> sys_call list \<Rightarrow> resource list \<Rightarrow> resource list option" where
  "track os [] R = Some R"
| "track os (c # cs) R =
     (if list_all (\<lambda>r. r \<in> set R) (needs c) \<and> list_all (\<lambda>r. r \<notin> set R) (users c @ takes c)
      then track os cs (filter (\<lambda>r. r \<notin> set (gives c)) (if os c then takes c @ R else R))
      else None)"

section \<open>The socket thread\<close>

text \<open>A C string that is neither null nor empty.\<close>

definition given :: "string option \<Rightarrow> bool" where
  "given s \<longleftrightarrow> s \<noteq> None \<and> s \<noteq> Some []"

definition INADDR_ANY :: u32 where "INADDR_ANY = 0"

definition feed_addr :: "(string \<Rightarrow> u32) \<Rightarrow> string option \<Rightarrow> u16 \<Rightarrow> sockaddr_in" where
  "feed_addr inet_addr addr prt = \<lparr>sin_port = bswap prt,
     sin_addr = (if given addr then inet_addr (the addr) else bswap INADDR_ANY)\<rparr>"

text \<open>\<open>reuseport\<close> says whether the platform defines \<open>SO_REUSEPORT\<close>.\<close>

definition open_feed :: "bool \<Rightarrow> (string \<Rightarrow> u32) \<Rightarrow> (sys_call \<Rightarrow> bool) \<Rightarrow> string option \<Rightarrow> u16 \<Rightarrow> string option \<Rightarrow> sys_call list \<times> bool" where
  "open_feed reuseport inet_addr os addr prt grp =
     (if \<not> os SocketCall then ([SocketCall], False)
      else let bnd = BindCall (feed_addr inet_addr addr prt);
               calls = [SocketCall, ReuseAddr] @ (if reuseport then [ReusePort] else []) @ [RecvBuf (8 * 1024 * 1024), bnd] in
        if \<not> os bnd then (calls @ [CloseSocket], False)
        else if given grp then
          (let join = AddMembership (inet_addr (the grp)) (bswap INADDR_ANY) in
           if \<not> os join then (calls @ [join, CloseSocket], False) else (calls @ [join], True))
        else (calls, True))"

text \<open>The whole function: the loop runs between set-up and \<open>close\<close> and makes no such call.\<close>

definition feed_calls :: "bool \<Rightarrow> (string \<Rightarrow> u32) \<Rightarrow> (sys_call \<Rightarrow> bool) \<Rightarrow> string option \<Rightarrow> u16 \<Rightarrow> string option \<Rightarrow> sys_call list" where
  "feed_calls reuseport inet_addr os addr prt grp =
     (let (calls, ok) = open_feed reuseport inet_addr os addr prt grp in if ok then calls @ [CloseSocket] else calls)"

section \<open>The AF_XDP thread\<close>

definition open_xdp :: "(sys_call \<Rightarrow> bool) \<Rightarrow> Xsk \<Rightarrow> string option \<Rightarrow> sys_call list \<times> Umem option" where
  "open_xdp os xsk ifc =
     (let mem = MemAlign (kNumFrames * kFrameSize) in
      if \<not> os mem then ([mem], None)
      else if \<not> os UmemCreate then ([mem, UmemCreate, FreeArea], None)
      else let reserved = reserve xsk kNumFrames kNumFrames in
        if reserved \<noteq> kNumFrames then ([mem, UmemCreate, FillReserve kNumFrames, UmemDelete, FreeArea], None)
        else let sock = XskCreate ifc 0 in
          if \<not> os sock then ([mem, UmemCreate, FillReserve kNumFrames, sock, UmemDelete, FreeArea], None)
          else ([mem, UmemCreate, FillReserve kNumFrames, sock], Some Umem_new))"

definition xdp_calls :: "(sys_call \<Rightarrow> bool) \<Rightarrow> Xsk \<Rightarrow> string option \<Rightarrow> sys_call list" where
  "xdp_calls os xsk ifc = (let (calls, u) = open_xdp os xsk ifc in
     if u = None then calls else calls @ [XskDelete, UmemDelete, FreeArea])"

text \<open>The network thread that \<open>runUdp\<close> spawns.\<close>

definition net_thread_calls :: "bool \<Rightarrow> (string \<Rightarrow> u32) \<Rightarrow> (sys_call \<Rightarrow> bool) \<Rightarrow> Xsk \<Rightarrow> string option \<Rightarrow> u16 \<Rightarrow> string option \<Rightarrow>
    bool \<Rightarrow> string option \<Rightarrow> sys_call list" where
  "net_thread_calls reuseport inet_addr os xsk addr prt grp xdp ifc =
     (if xdp then xdp_calls os xsk ifc else feed_calls reuseport inet_addr os addr prt grp)"

section \<open>The mapped files\<close>

text \<open>File mode does not look at what \<open>open\<close> returned; mapping fails without a file.\<close>

definition run_calls :: "(sys_call \<Rightarrow> bool) \<Rightarrow> sys_call list" where
  "run_calls os = [OpenFile ''itch_data.NASDAQ_ITCH50'', MapFile] @ (if os MapFile then [UnmapFile, CloseFile] else [CloseFile])"

text \<open>The sender, with its exit code.\<close>

definition replay_calls :: "(sys_call \<Rightarrow> bool) \<Rightarrow> Args \<Rightarrow> sys_call list \<times> nat" where
  "replay_calls os a =
     (let opn = OpenFile (afile a) in
      if \<not> os opn then ([opn], 1)
      else if \<not> os MapFile then ([opn, MapFile, CloseFile], 1)
      else if \<not> os SocketCall then ([opn, MapFile, SocketCall], 1)
      else ([opn, MapFile, SocketCall] @ (if multicast a then [MulticastTtl 1] else []) @ [UnmapFile, CloseFile, CloseSocket], 0))"

text \<open>Where it sends to.  With the defaults of both programs the sender sends to the port the engine listens on.\<close>

definition replay_dst :: "(string \<Rightarrow> u32) \<Rightarrow> Args \<Rightarrow> sockaddr_in" where
  "replay_dst inet_addr a = \<lparr>sin_port = bswap (aport a), sin_addr = inet_addr (dest a)\<rparr>"

lemma default_ports_meet:
  "sin_port (replay_dst inet_addr Args_default) = sin_port (feed_addr inet_addr addr (port MainOptions_default))"
  by (simp add: replay_dst_def feed_addr_def Args_default_def MainOptions_default_def)

section \<open>Properties\<close>

text \<open>The socket thread goes on if an option of its socket cannot be set; every other failure of its set-up it looks at.\<close>

fun checked :: "sys_call \<Rightarrow> bool" where
  "checked ReuseAddr = False"
| "checked ReusePort = False"
| "checked (RecvBuf n) = False"
| "checked _ = True"

text \<open>Whether a call did what it was to do: reserving counts what libxdp gives.\<close>

definition succeeds :: "(sys_call \<Rightarrow> bool) \<Rightarrow> Xsk \<Rightarrow> sys_call \<Rightarrow> bool" where
  "succeeds os xsk c = (case c of FillReserve n \<Rightarrow> reserve xsk n n = n | _ \<Rightarrow> os c)"

text \<open>C28: Both network threads give back every resource on every path, whichever calls fail and whatever libxdp
  reserves: nothing is used before it was obtained, nothing is released twice or while something
  depends on it, and nothing is left at the end.  The socket thread enters its loop exactly if all calls of its set-up succeeded but
  those for the socket options SO_REUSEADDR, SO_REUSEPORT and SO_RCVBUF, whose failure it ignores; the AF_XDP thread exactly if all
  did, and it starts with every frame on the fill ring, once.\<close>

theorem network_threads_release_all:
  "track os (net_thread_calls reuseport inet_addr os xsk addr prt grp xdp ifc) [] = Some [] \<and>
   (snd (open_feed reuseport inet_addr os addr prt grp) \<longleftrightarrow>
      list_all (\<lambda>c. checked c \<longrightarrow> os c) (fst (open_feed reuseport inet_addr os addr prt grp))) \<and>
   (snd (open_xdp os xsk ifc) \<noteq> None \<longleftrightarrow> list_all (succeeds os xsk) (fst (open_xdp os xsk ifc))) \<and>
   (\<forall>u. snd (open_xdp os xsk ifc) = Some u \<longrightarrow> mset (map frame_no (fillq u)) = mset [0..<kNumFrames] \<and> rxq u = [])"
proof -
  have "track os (xdp_calls os xsk ifc) [] = Some []"
    by (simp add: xdp_calls_def open_xdp_def Let_def)
  moreover have "track os (feed_calls reuseport inet_addr os addr prt grp) [] = Some []"
    by (simp add: feed_calls_def open_feed_def Let_def)
  moreover have "snd (open_feed reuseport inet_addr os addr prt grp) \<longleftrightarrow>
      list_all (\<lambda>c. checked c \<longrightarrow> os c) (fst (open_feed reuseport inet_addr os addr prt grp))"
    by (simp add: open_feed_def Let_def)
  moreover have "snd (open_xdp os xsk ifc) \<noteq> None \<longleftrightarrow> list_all (succeeds os xsk) (fst (open_xdp os xsk ifc))"
    by (simp add: open_xdp_def succeeds_def Let_def)
  moreover have "u = Umem_new" if "snd (open_xdp os xsk ifc) = Some u" for u
    using that by (simp add: open_xdp_def Let_def split: if_splits)
  moreover have "mset (map frame_no (fillq Umem_new)) = mset [0..<kNumFrames]" "rxq Umem_new = []"
    using umem_ok_new by (simp_all add: umem_ok_def umem_frames_def Umem_new_def)
  ultimately show ?thesis by (auto simp: net_thread_calls_def)
qed

theorem network_threads_release_all_witness:
  "track (\<lambda>c. c \<noteq> XskCreate (Some ''lo'') 0)
     (net_thread_calls True (\<lambda>s. 0) (\<lambda>c. c \<noteq> XskCreate (Some ''lo'') 0) \<lparr>peek = min, reserve = min\<rparr> None 30001 None True (Some ''lo'')) [] = Some [] \<and>
   snd (open_feed True (\<lambda>s. 0) (\<lambda>c. c \<noteq> ReuseAddr) None 30001 None) \<and>
   (\<exists>u. snd (open_xdp (\<lambda>c. True) \<lparr>peek = min, reserve = min\<rparr> None) = Some u \<and> mset (map frame_no (fillq u)) = mset [0..<kNumFrames])"
proof -
  let ?xsk = "\<lparr>peek = min, reserve = min\<rparr>"
  have "list_all (\<lambda>c. checked c \<longrightarrow> c \<noteq> ReuseAddr) (fst (open_feed True (\<lambda>s. 0) (\<lambda>c. c \<noteq> ReuseAddr) None 30001 None))"
    by (simp add: open_feed_def Let_def given_def)
  moreover have "list_all (succeeds (\<lambda>c. True) ?xsk) (fst (open_xdp (\<lambda>c. True) ?xsk None))"
    by (simp add: open_xdp_def succeeds_def Let_def)
  ultimately show ?thesis
    using network_threads_release_all [of "\<lambda>c. c \<noteq> XskCreate (Some ''lo'') 0" True "\<lambda>s. 0" ?xsk None 30001 None True "Some ''lo''"]
      network_threads_release_all [of "\<lambda>c. c \<noteq> ReuseAddr" True "\<lambda>s. 0" ?xsk None 30001 None]
      network_threads_release_all [of "\<lambda>c. True" True "\<lambda>s. 0" ?xsk None 30001 None True None] by blast
qed

text \<open>The sender gives back the file and the mapping on every path but one: when no socket can be made it ends with
  code 1 and both still held.  It ends with code 0 exactly if file, mapping and socket were
  obtained.\<close>

lemma sender_leaks_without_socket:
  "track os (fst (replay_calls os a)) [] =
     Some (if os (OpenFile (afile a)) \<and> os MapFile \<and> \<not> os SocketCall then [RMap, RFile] else []) \<and>
   (snd (replay_calls os a) = 0 \<longleftrightarrow> os (OpenFile (afile a)) \<and> os MapFile \<and> os SocketCall)"
  by (simp add: replay_calls_def Let_def)

text \<open>File mode gives back file and mapping if the file could be opened; if not, it closes a file it does not have.\<close>

lemma run_releases: "os (OpenFile ''itch_data.NASDAQ_ITCH50'') \<Longrightarrow> track os (run_calls os) [] = Some []"
  by (simp add: run_calls_def)

end
