(* ===== verification/Spec2Isabelle.thy ===== *)
theory Spec2Isabelle
  imports Memory_Xdp Market_Invariants Socket_Session Xdp_Session Report Replay_Pacing System_Calls
begin

text \<open>
  A verification development for a limit order book and matching engine written in C++: it reads a
  stream of ITCH 5.0 messages, from a file or from MoldUDP64 packets over UDP, and keeps one order book
  per stock with price-time priority.

  \<^bold>\<open>The program and how its parts interact.\<close>
  In file mode \<open>MatchingEngine::run\<close> (\<^verbatim>\<open>src/matching_engine.cpp\<close>) walks over a memory-mapped file of
  length-prefixed messages and calls \<open>processMessage\<close> on each.  The engine owns three things: one arena of
  order nodes (\<^verbatim>\<open>include/order_pool.hpp\<close>), one index from order reference to location
  (\<^verbatim>\<open>include/flat_hash_map.hpp\<close>), and an array of 65536 books (\<^verbatim>\<open>src/orderbook.cpp\<close>), each made of two
  sides (\<^verbatim>\<open>include/ladder_side.hpp\<close>) whose levels are lists of arena slots.  Handling an order matches it
  against the opposite side, rests what is left, and reports the references that left the book, which the
  engine then erases from its index.  In UDP mode (\<^verbatim>\<open>src/engine_udp.cpp\<close>) a network thread
  (\<^verbatim>\<open>src/feed_handler.cpp\<close>, or \<^verbatim>\<open>src/feed_handler_xdp.cpp\<close> over AF_XDP) takes buffers from a lock-free pool
  (\<^verbatim>\<open>include/packet_pool.hpp\<close>), tracks sequence numbers, and pushes references to accepted packets onto a
  single-producer single-consumer ring (\<^verbatim>\<open>include/spsc_ring.hpp\<close>); the matching thread pops them, runs
  \<open>processMessage\<close> on each message of the packet (\<^verbatim>\<open>include/moldudp64.hpp\<close>) and returns the buffer.
  \<^verbatim>\<open>src/replay.cpp\<close> is the sender that cuts a file into such packets.

  \<^bold>\<open>Theories and sources.\<close>
  \<^item> \<open>Prelude\<close>: widths of the C++ integers, checked vector access, little-endian memory access with the
    byte swaps, folds that may fail, and the simplification sets shared by the components.
  \<^item> \<open>Interfaces\<close>: the contracts as locales.  \<open>key_map\<close> is interpreted on the hash table, \<open>slot_pool\<close> on
    both free lists, \<open>bounded_fifo\<close> on the ring, \<open>price_priority\<close> on bids and on asks; the matching loops
    of the two sides share one further locale in \<open>Order_Book\<close>.
  \<^item> \<open>Itch\<close>: \<^verbatim>\<open>itch.hpp\<close> and \<^verbatim>\<open>itch.cpp\<close>, the message records and their readers.
  \<^item> \<open>Order_Pool\<close>, \<open>Flat_Hash_Map\<close>: the arena and the index, with their invariants.
  \<^item> \<open>Ladder_Side\<close> (definitions), \<open>Ladder_Refinement\<close> and \<open>Ladder_Operations\<close>: one side of a book and the
    proof that its operations act on a list of entries in price-time priority.
  \<^item> \<open>Order_Book\<close>, \<open>Book_Refinement\<close>: the matching loops and the whole handler against the reference
    matcher \<open>handle_spec\<close>.
  \<^item> \<open>Matching_Engine\<close> (definitions), \<open>Engine_Invariant\<close>, \<open>Engine_Steps\<close>, \<open>Engine_Run\<close>,
    \<open>Market_Invariants\<close>: the engine, its invariant, the abstract engine as an inductive step relation,
    the file loop, and what holds of every state the abstract engine reaches.
  \<^item> \<open>Mold_Udp64\<close>, \<open>Spsc_Ring\<close>, \<open>Packet_Pool\<close>, \<open>Feed_Handler\<close>, \<open>Feed_Handler_Xdp\<close>, \<open>Engine_Udp\<close>,
    \<open>Replay\<close>: the components of UDP mode.
  \<^item> \<open>Pipeline\<close>: a network thread and the matching thread together.  Its locale \<open>feed_thread\<close> is the contract
    of a network thread towards pool and ring; \<open>Socket_Pipeline\<close> shows that the socket thread keeps it,
    \<open>Xdp_Frames\<close> and \<open>Xdp_Pipeline\<close> that the AF_XDP thread does, beside a kernel that moves frames.  A thread has a
    defined step in every state but the ones the contract names as stuck: there are none for the socket thread, and for the
    AF_XDP thread those of \<open>reads_unset\<close>, where it gives back a batch, after the end of the session, with addresses it never saved.
  \<^item> \<open>Release_Acquire\<close>: the memory of the C++ standard as far as the lock-free code relies on it.  \<open>Handover\<close>,
    \<open>Handover_Views\<close>, \<open>Handover_Safety\<close>, \<open>Handover_Races\<close>: ring and pool on that memory, every access with the
    memory order it has in the code, used by a network thread that is free to choose what it does between its calls and by the matching
    thread.
  \<^item> \<open>Memory_System\<close>: the loop of \<open>runUdp\<close> on that memory beside a network thread; its locale \<open>memory_feed\<close> is the contract of
    such a thread, access by access.  \<open>Memory_Socket\<close> and \<open>Memory_Xdp\<close>: the loops of \<open>runFeedHandler\<close> and \<open>runFeedHandlerXdp\<close>
    on that memory, which keep it.
  \<^item> \<open>Udp_Session\<close>, \<open>Delivery\<close>, \<open>Socket_Session\<close>, \<open>Xdp_Session\<close>: the sender in front of either thread; the
    locale \<open>delivery\<close> is what a thread has to do for a session to complete.
  \<^item> \<open>Latencies\<close>, \<open>Report\<close>: the times recorded in both modes, the counters of the socket thread and the report at the
    end of UDP mode.
  \<^item> \<open>Clock\<close>, \<open>Replay_Pacing\<close>: \<^verbatim>\<open>include/tsc.hpp\<close>, the calibration loops, and the sender with its clock and counters;
    the two loops over clock readings share the locale \<open>first_reading\<close>.
  \<^item> \<open>System_Calls\<close>: the calls that open and close sockets, files and memory areas in the network threads,
    file mode and the sender, and what is held after them.
  \<^item> \<open>Command_Line\<close>: the option parsers of \<^verbatim>\<open>src/main.cpp\<close> and \<^verbatim>\<open>src/replay.cpp\<close>, one locale
    \<open>option_loop\<close> interpreted on both, the choice of mode and the files written at the end.

  \<^bold>\<open>How the model reads the code.\<close>
  Integers keep their width (\<open>8 word\<close> to \<open>64 word\<close>) and wrap.  A struct is a record, a vector a list, an
  access outside a vector or a buffer is the value \<open>None\<close>; \<open>None\<close> thus stands for undefined behaviour,
  for a loop that does not end, and for an aborting call, and every theorem that an operation works states
  that its value is \<open>Some\<close>.  An entry of an uninitialised array is \<open>None\<close> until it is written, and reading it
  before makes the step undefined.  An exception is \<open>Inl\<close>.  Loops over data are structural recursions; loops that
  may run forever (probing, matching, calibration, the spinning pop) are
  \<^theory_text>\<open>partial_function (option)\<close>.  No fuel is used anywhere, so no bound had to be chosen for it.
  Code outside the repository is an argument: the readings of the time stamp counter and of the clock, the
  conversion of cycles to nanoseconds, the datagrams a socket delivers, the outcome of each system call and of each
  send, whether the platform has SO_REUSEPORT, the moves of the kernel on the frames it shares with the AF_XDP thread, and the counts that two
  operations of libxdp return.  What is relied on of the last two is stated by \<open>kernel_ok\<close> (the kernel writes only into
  frames on the fill ring and passes the first of them on with a descriptor inside it) and \<open>xsk_ok\<close> (peeking
  shows no more than there is, reserving gives all that is asked for if there is room).

  \<^bold>\<open>Capacity.\<close>
  The arena is indexed by 32-bit numbers and the index has a fixed number of slots and no bound on probing.
  \<open>room_for\<close> says that an engine can still take a number of messages; it is a hypothesis of the theorems on
  runs, and the initial engine satisfies it for every file the theorems are applied to.  What happens
  without it is proved as well: a lookup of an absent key in a full table does not return.

  \<^bold>\<open>Threads.\<close>
  \<open>push_step\<close>, \<open>pop_step\<close>, \<open>acquire_step\<close> and \<open>release_step\<close> execute one access to shared memory at a
  time; reachability over arbitrary interleavings gives the safety theorems on the ring and the pool.
  In these theories all accesses act on one memory in the order they are made.  \<open>Handover\<close> and its companions do without that: an
  atomic object is the list of its stores, a load may return an old one, and only an acquire load of a release store orders the
  plain accesses around it; a plain access that conflicts with one the thread does not know of is a data race and makes
  the step undefined.  There, too, no access is a race or out of range, the packets are read in order and as
  they were pushed, and every buffer has one owner.  What is lost on that memory is shown as well: a push may be turned away by an old
  head although the ring has room (\<open>push_turned_away\<close>).
  \<open>Pipeline\<close> interleaves whole pool and ring operations, which the theorems on the single accesses
  justify, and keeps history variables for what was heard, accepted, lost and processed.  The kernel is a third party of the
  AF_XDP system: between any two steps of the threads it may write into free frames and deliver one.

  \<^bold>\<open>What the theorems show.\<close>
  File mode: every file of well-formed messages is processed to its end, each message as one step of the
  abstract engine; in every state so reached no book is crossed, both sides are in price-time priority, and
  the index finds exactly the resting orders; a handled order fills the opposite side from the front and
  shares are conserved.  Components: the hash table is a map under insertion and backward-shift erasure,
  the ladder is a priority list, the arena and the pool never hand out a slot twice, readers and builders
  round trip, and parsers stay inside their buffers on arbitrary bytes.  UDP mode: both threads are free of data races on the memory of the C++ standard; in every interleaving the
  matching thread processes exactly a prefix of the accepted packets, buffers have one owner, accepted
  numbers increase strictly as long as they stay below \<open>2 ^ 64\<close> (\<open>accepted_numbers_wrap\<close> shows what happens beyond); a session in which nothing is lost ends where file mode over the same file
  ends, and such a session exists, over the socket and over AF_XDP; the frames shared with the kernel have one owner
  each until the end of the session, so no packet is overwritten on its way; the recorded times are written
  to the right files, each wire time counted from the stamp of the packet that holds the message, and the report accounts for
  every packet, the discarded ones recorded along the execution.  Surroundings: every path of the network threads gives back its resources, the
  paced sender keeps its rate and sends the same packets, calibration ends and never divides by zero.
  Error behaviour: unknown references, invalid sides, the sentinel key, full tables, a full ring, a network
  thread that cannot be set up (the matching thread then never ends), truncated files, ill-formed command
  lines, a batch cut off by the end of the session (\<open>end_of_session_reads_unset\<close>), a second acquiring thread on the pool
  (\<open>two_acquirers_share_a_slot\<close>).

  \<^bold>\<open>Not modelled.\<close>
  Pinning of threads, huge pages, prefetching and printing (\<open>logExecutedOrders\<close> included), which have no effect on the
  modelled state; the quotient of the calibration and the division by it, which are in floating point and
  stay an argument.  The stop flag and the
  counters, which are accessed with relaxed order and guard nothing, are an argument of the threads in \<open>Memory_System\<close>
  and fields of one thread.  The frames shared with the kernel are one memory in the order of the accesses, on either model of the threads: libxdp
  and the kernel order them.  After the end of a session the AF_XDP thread may put
  addresses of an earlier batch on the fill ring: the invariant on frames ends there, and nothing is claimed of the frames from then on.
  Reads past the end of a truncated file are \<open>None\<close>: what the hardware returns there is not described.
\<close>

section \<open>One book\<close>

text \<open>C6: Handling a buy or sell order on a well-formed book returns, and does what matching in
  price-time priority prescribes: the same fills in the same order, the same remaining entries, the
  remainder resting behind its equals; the index of the remainder is reported exactly if something
  is left, and the book owns exactly the slots of its resting orders while every slot of another
  owner is untouched.\<close>

theorem handle_order_price_time:
  assumes "handle_pre arena fs book q" and "buySellIndicator ord \<in> {ch_B, ch_S}"
  shows "\<exists>res fs' q' rs es. handleOrder arena book ord rm ex = Some (Inr res) \<and>
    handle_spec (restingIdx res) ord q = (rorder res, q', rs, es) \<and>
    removedRefs res = rm @ rs \<and> executedOrders res = ex @ es \<and>
    (restingIdx res = INVALID_INDEX \<longleftrightarrow> shares (rorder res) = 0) \<and>
    book_rel (nodes (rpool res)) (rbook res) q' \<and> pool_step arena fs (own q) (rpool res) fs' (own q')"
proof -
  obtain res fs' q' where "handleOrder arena book ord rm ex = Some (Inr res)"
    "handle_post arena fs q ord rm ex res fs' q'" by (rule handleOrder_spec [OF assms])
  then show ?thesis unfolding handle_post_def by blast
qed

lemma new_book_pre: "handle_pre OrderPool_new [] OrderBook_new ([], [])"
  using book_rel_new [of "nodes OrderPool_new"]
  by (simp add: handle_pre_def OrderPool_new_def pool_ok_def in_use_def slots_def INVALID_INDEX_def)

lemma one_order_side: "buySellIndicator one_order \<in> {ch_B, ch_S}"
  by (simp add: one_order_def)

lemma book_with_bid: "\<exists>arena fs book i. handle_pre arena fs book ([(i, one_order)], [])"
proof (rule handleOrder_spec [OF new_book_pre one_order_side, where rm = "[]" and ex = "[]"])
  fix res fs' q'
  assume post: "handle_post OrderPool_new [] ([], []) one_order [] [] res fs' q'"
  have "q' = ([(restingIdx res, one_order)], [])"
    using post by (auto simp: handle_post_def handle_spec_def one_order_def rest_order_def)
  moreover have "book_rel (nodes (rpool res)) (rbook res) q'" "pool_step OrderPool_new [] {} (rpool res) fs' (own q')"
    using post by (auto simp: handle_post_def)
  moreover have "in_use OrderPool_new [] = {}" by (simp add: in_use_def slots_def OrderPool_new_def)
  ultimately have "handle_pre (rpool res) fs' (rbook res) ([(restingIdx res, one_order)], [])"
    by (auto simp: handle_pre_def pool_step_def INVALID_INDEX_def)
  then show ?thesis by blast
qed

definition one_sell :: Order where
  "one_sell = \<lparr>orderReferenceNumberHigh = 0, orderReferenceNumberLow = 2, shares = 4, price = 1400000,
     buySellIndicator = ch_S\<rparr>"

theorem handle_order_price_time_witness:
  "\<exists>arena fs book i res. handle_pre arena fs book ([(i, one_order)], []) \<and>
     handleOrder arena book one_sell [] [] = Some (Inr res) \<and> executedOrders res = [executedOrder 1 4] \<and>
     restingIdx res = INVALID_INDEX"
proof -
  obtain arena fs book i where pre: "handle_pre arena fs book ([(i, one_order)], [])" using book_with_bid by blast
  have ref: "order_ref one_order = 1" by (simp add: order_ref_def one_order_def join_ref_def)
  have side: "buySellIndicator one_sell \<in> {ch_B, ch_S}" by (simp add: one_sell_def)
  have spec: "handle_spec j one_sell ([(i, one_order)], []) =
      (one_sell\<lparr>shares := 0\<rparr>, ([(i, one_order\<lparr>shares := 6\<rparr>)], []), [], [executedOrder 1 4])" for j
    using ref by (simp add: handle_spec_def one_sell_def one_order_def crosses_def rest_order_def order_ref_def)
  obtain res q' rs es where res: "handleOrder arena book one_sell [] [] = Some (Inr res)"
    "handle_spec (restingIdx res) one_sell ([(i, one_order)], []) = (rorder res, q', rs, es)"
    "executedOrders res = [] @ es" "restingIdx res = INVALID_INDEX \<longleftrightarrow> shares (rorder res) = 0"
    using handle_order_price_time [OF pre side, of "[]" "[]"] by blast
  from res(2) have "rorder res = one_sell\<lparr>shares := 0\<rparr>" "es = [executedOrder 1 4]" unfolding spec by simp_all
  then have "executedOrders res = [executedOrder 1 4]" "restingIdx res = INVALID_INDEX" using res(3,4) by simp_all
  with pre res(1) show ?thesis by blast
qed

text \<open>C14: Every execution of a handled order names a resting order of the opposite side, taken from
  the front in price-time priority without skipping any, and at a price the incoming order accepts.\<close>

theorem executions_follow_priority:
  assumes "handle_pre arena fs book q" and "buySellIndicator ord \<in> {ch_B, ch_S}"
  shows "\<exists>res. handleOrder arena book ord [] [] = Some (Inr res) \<and>
    (let n = length (executedOrders res) in
     map order_reference_number (executedOrders res) = map (\<lambda>e. order_ref (snd e)) (take n (opposite ord q)) \<and>
     list_all (\<lambda>e. if buySellIndicator ord = ch_B then price (snd e) \<le> price ord else price ord \<le> price (snd e))
       (take n (opposite ord q)))"
proof (rule handleOrder_spec [OF assms, where rm = "[]" and ex = "[]"])
  fix res fs' q'
  assume run: "handleOrder arena book ord [] [] = Some (Inr res)" and "handle_post arena fs q ord [] [] res fs' q'"
  then have "handle_spec (restingIdx res) ord q = (rorder res, q', removedRefs res, executedOrders res)"
    by (auto simp: handle_post_def)
  from match_executions [OF handle_match [OF this]] run show ?thesis
    by (auto simp: Let_def list_all_iff crosses_def)
qed

theorem executions_follow_priority_witness:
  "\<exists>arena fs book i res. handle_pre arena fs book ([(i, one_order)], []) \<and>
     handleOrder arena book one_sell [] [] = Some (Inr res) \<and>
     map order_reference_number (executedOrders res) =
       map (\<lambda>e. order_ref (snd e)) (take (length (executedOrders res)) [(i, one_order)])"
proof -
  obtain arena fs book i where pre: "handle_pre arena fs book ([(i, one_order)], [])" using book_with_bid by blast
  have side: "buySellIndicator one_sell \<in> {ch_B, ch_S}"
    and opp: "opposite one_sell ([(i, one_order)], []) = [(i, one_order)]"
    by (simp_all add: one_sell_def opposite_def)
  show ?thesis
    using executions_follow_priority [OF pre side] pre unfolding Let_def opp by blast
qed

text \<open>C15: Shares are conserved: the executed shares of a handled order are exactly what the order lost
  and exactly what the opposite side lost.\<close>

theorem shares_conserved:
  assumes "handle_pre arena fs book q" and "buySellIndicator ord \<in> {ch_B, ch_S}"
  shows "\<exists>res fs' q'. handleOrder arena book ord [] [] = Some (Inr res) \<and>
    book_rel (nodes (rpool res)) (rbook res) q' \<and> pool_step arena fs (own q) (rpool res) fs' (own q') \<and>
    unat (shares ord) = unat (shares (rorder res)) + traded (executedOrders res) \<and>
    total (opposite ord q) = total (opposite ord q') + traded (executedOrders res)"
proof (rule handleOrder_spec [OF assms, where rm = "[]" and ex = "[]"])
  fix res fs' q'
  assume run: "handleOrder arena book ord [] [] = Some (Inr res)"
    and post: "handle_post arena fs q ord [] [] res fs' q'"
  have "handle_spec (restingIdx res) ord q = (rorder res, q', removedRefs res, executedOrders res)"
    using post by (auto simp: handle_post_def)
  note m = match_conserves [OF handle_match [OF this]]
  show ?thesis using run post m unfolding handle_post_def by blast
qed

theorem shares_conserved_witness:
  "\<exists>arena fs book i res. handle_pre arena fs book ([(i, one_order)], []) \<and>
     handleOrder arena book one_sell [] [] = Some (Inr res) \<and>
     4 = unat (shares (rorder res)) + traded (executedOrders res)"
proof -
  obtain arena fs book i where pre: "handle_pre arena fs book ([(i, one_order)], [])" using book_with_bid by blast
  have "buySellIndicator one_sell \<in> {ch_B, ch_S}" "unat (shares one_sell) = 4" by (simp_all add: one_sell_def)
  with shares_conserved [OF pre, of one_sell] pre show ?thesis by metis
qed

text \<open>Removing a resting order by its arena index takes exactly that order out of the book, keeps the
  others in their order, and gives its slot back to the arena.\<close>

lemma remove_by_index:
  assumes "book_rel (nodes arena) book q" and "pool_ok arena fs" and "own q \<subseteq> in_use arena fs"
    and "(x, ord) \<in> resting q"
  shows "\<exists>arena' book'. removeByIndex arena book x = Some (arena', book') \<and>
    book_rel (nodes arena') book' (drop_book x q) \<and> pool_ok arena' (x # fs) \<and>
    in_use arena' (x # fs) = in_use arena fs - {x}"
proof -
  obtain bq aq where q: "q = (bq, aq)" by (cases q)
  have x: "(x, ord) \<in> set bq \<union> set aq" using assms(4) by (simp add: q resting_def)
  obtain p' book' where r: "removeByIndex arena book x = Some (p', book')"
    "book_rel (nodes p') book' (drop_book x (bq, aq))"
    "pool_step arena fs (own (bq, aq)) p' (x # fs) (own (drop_book x (bq, aq)))"
    by (rule removeByIndex_spec [OF _ assms(2) _ x]) (use assms q in auto)
  have "in_use p' (x # fs) = (in_use arena fs - own q) \<union> (own q - {x})"
    using r(3) by (simp add: pool_step_def own_drop_book q)
  moreover have "x \<in> own q" using assms(4) by (auto simp: own_resting rev_image_eqI)
  ultimately have "in_use p' (x # fs) = in_use arena fs - {x}" using assms(3) by blast
  then show ?thesis using r pool_step_ok [OF r(3)] q by blast
qed

section \<open>The engine\<close>

text \<open>C5: Processing any well-formed message on an engine with room returns, keeps the invariant (every
  arena slot is free or rests in exactly one book, every book is well formed, every index entry
  points at a resting order with that reference), and makes a step of the state machine.\<close>

theorem process_message_simulates:
  assumes "engine_ok e fs Q" and "room e Q" and "decode data = Some msg" and "valid_side msg"
  shows "\<exists>e' s' fs' Q'. processMessage clk e data len s tw = Some (Inr (e', s')) \<and> engine_ok e' fs' Q' \<and>
    engine_step (view e Q, s) msg (view e' Q', s')"
  using processMessage_sim [OF assms] by blast

definition add_message :: "Order \<Rightarrow> bytes" where
  "add_message ord = ch_A # wire_header 7 1 [0, 0, 0, 0, 0, 9] @ wire_add ord [65, 65, 80, 76, 32, 32, 32, 32]"

definition add_bytes :: bytes where
  "add_bytes = add_message one_order"

lemma decode_add_message: "decode (add_message ord) = Some (AddMsg 7 ord)"
proof -
  let ?h = "wire_header 7 1 [0, 0, 0, 0, 0, 9]" and ?b = "wire_add ord [65, 65, 80, 76, 32, 32, 32, 32]"
  have "take_bytes 2 (?h @ ?b) = Some (store_be 2 (7 :: u16), store_be 2 (1 :: u16) @ [0, 0, 0, 0, 0, 9] @ ?b)"
    by (simp add: wire_header_def)
  moreover have "readAddOrder (?h @ ?b) = Some (ord, [])"
    using readAddOrder_wire [of "[0, 0, 0, 0, 0, 9]" "[65, 65, 80, 76, 32, 32, 32, 32]" 7 1 ord "[]"] by simp
  ultimately show ?thesis
    by (simp add: decode_def add_message_def readByte_def ntoh_store_be)
qed

lemma decode_add: "decode add_bytes = Some (AddMsg 7 one_order)"
  by (simp add: add_bytes_def decode_add_message)

lemma small_engine: "\<exists>e. MatchingEngine_sized 4 = Some e"
  by (simp add: MatchingEngine_sized_def FlatHashMap_new_def)

theorem process_message_simulates_witness:
  "\<exists>e e' s' fs' Q'. MatchingEngine_sized 4 = Some e \<and>
     processMessage (5, 9) e add_bytes 36 no_output 0 = Some (Inr (e', s')) \<and> engine_ok e' fs' Q'"
proof -
  obtain e where e: "MatchingEngine_sized 4 = Some e" using small_engine by blast
  note new = engine_ok_new [OF e]
  have "room e (\<lambda>l. ([], []))" using new by (simp add: room_def INVALID_INDEX_def)
  moreover have "valid_side (AddMsg 7 one_order)" by (simp add: valid_side_def one_order_def)
  ultimately show ?thesis
    using process_message_simulates [OF new(1) _ decode_add] e by blast
qed

text \<open>C7: The outcomes of processing arbitrary bytes on an engine with room are told apart by what the
  bytes decode to: they are read past their end exactly when they hold no complete message, the documented
  error is thrown exactly for an Add Order message whose side is neither B nor S, and in every other case
  there is a new engine, which again satisfies the invariant.  Nothing else can happen.\<close>

theorem process_message_type_sound:
  assumes "engine_ok e fs Q" and "room e Q"
  shows "case processMessage clk e data len s tw of
      None \<Rightarrow> decode data = None
    | Some (Inl x) \<Rightarrow> x = runtime_error ''Invalid buy/sell indicator'' \<and>
        (\<exists>loc ord. decode data = Some (AddMsg loc ord) \<and> buySellIndicator ord \<notin> {ch_B, ch_S})
    | Some (Inr (e', s')) \<Rightarrow> (\<exists>msg. decode data = Some msg \<and> valid_side msg) \<and> (\<exists>fs' Q'. engine_ok e' fs' Q')"
proof (cases "decode data")
  case None
  then show ?thesis by (simp add: processMessage_undecoded)
next
  case (Some msg)
  show ?thesis
  proof (cases "valid_side msg")
    case True
    then obtain e' s' fs' Q' where "processMessage clk e data len s tw = Some (Inr (e', s'))" "engine_ok e' fs' Q'"
      using processMessage_sim [OF assms Some] by blast
    with True Some show ?thesis by (simp, blast)
  next
    case False
    then obtain loc ord where "msg = AddMsg loc ord" "buySellIndicator ord \<notin> {ch_B, ch_S}"
      by (cases msg) (auto simp: valid_side_def)
    with processMessage_throws [OF Some False, of clk e len s tw] Some show ?thesis by simp
  qed
qed

theorem process_message_type_sound_witness:
  "\<exists>e. MatchingEngine_sized 4 = Some e \<and>
     processMessage (5, 9) e (add_message (one_order\<lparr>buySellIndicator := 0\<rparr>)) 36 no_output 0
       = Some (Inl (runtime_error ''Invalid buy/sell indicator''))"
proof -
  obtain e where e: "MatchingEngine_sized 4 = Some e" using small_engine by blast
  note new = engine_ok_new [OF e]
  have room: "room e (\<lambda>l. ([], []))" using new by (simp add: room_def INVALID_INDEX_def)
  show ?thesis
    using process_message_type_sound [OF new(1) room, where clk = "(5, 9)" and len = 36 and s = no_output and tw = 0
        and data = "add_message (one_order\<lparr>buySellIndicator := 0\<rparr>)"] e
    by (auto simp: decode_add_message valid_side_def split: option.splits sum.splits)
qed

text \<open>A delete, execution, cancel or replace for a reference that is not in the index, and a message of
  any other type, leave the engine and the output buffers exactly as they were.\<close>

lemma unknown_reference_ignored:
  assumes "engine_ok e fs Q" and "decode data = Some msg" and "idle (hm_map (orderMap e)) msg"
  shows "processMessage clk e data len s tw = Some (Inr (e, s))"
  using assms by (rule processMessage_idle)

text \<open>C1: A file of length-prefixed well-formed messages is processed to its end: \<open>run\<close> returns, the engine
  satisfies its invariant, and the run is a sequence of state-machine steps, one per message in
  file order.  It suffices that there are fewer messages than index slots and arena indices.\<close>

theorem run_processes_file:
  assumes "MatchingEngine_sized c = Some e" and "list_all2 wf_message bss msgs"
    and "length msgs < unat c" and "length msgs < unat INVALID_INDEX"
  shows "\<exists>e' fs Q s. run clk toNs e (Some (concat (map frame bss))) = Some (Inr e') \<and> engine_ok e' fs Q \<and>
    engine_steps start msgs (view e' Q, s)"
  using run_sim [OF assms, of clk toNs] by metis

lemma wf_add: "wf_message add_bytes (AddMsg 7 one_order)"
  using decode_add by (simp add: wf_message_def valid_side_def one_order_def add_bytes_def add_message_def wire_header_def wire_add_def w64_def)

theorem run_processes_file_witness:
  "\<exists>e e' fs Q s. MatchingEngine_sized 4 = Some e \<and>
     run (\<lambda>n. (5, 9)) None e (Some (concat (map frame [add_bytes]))) = Some (Inr e') \<and> engine_ok e' fs Q \<and>
     engine_steps start [AddMsg 7 one_order] (view e' Q, s)"
proof -
  obtain e where e: "MatchingEngine_sized 4 = Some e" using small_engine by blast
  have "list_all2 wf_message [add_bytes] [AddMsg 7 one_order]" using wf_add by simp
  from run_processes_file [OF e this, of "\<lambda>n. (5, 9)" None] e show ?thesis by (auto simp: INVALID_INDEX_def)
qed

text \<open>C34: A file that does not end with a message is read past its end: behind well-formed messages, a single byte, a length
  with nothing behind it, or an Add Order message that is cut off makes the run undefined, after all
  messages before it were processed.\<close>

theorem truncated_file_undefined:
  assumes "MatchingEngine_sized c = Some e" and "list_all2 wf_message bss msgs"
    and "length msgs < unat c" and "length msgs < unat INVALID_INDEX" and "cut_off t"
  shows "run clk toNs e (Some (concat (map frame bss) @ t)) = None \<and>
    (\<exists>e' fs Q s. run clk toNs e (Some (concat (map frame bss))) = Some (Inr e') \<and> engine_ok e' fs Q \<and>
      engine_steps start msgs (view e' Q, s))"
proof
  note new = engine_ok_new [OF assms(1)]
  have "room_for (length msgs) e (\<lambda>l. ([], []))" using new assms(3,4) by (simp add: room_for_def slots_of_def)
  then obtain e' s' where "run_loop clk 0 e \<lparr>scratchRemoved = [], scratchExecuted = []\<rparr> (concat (map frame bss) @ t) = run_loop clk (length msgs) e' s' t"
    using run_loop_prefix [OF assms(2) new(1), of clk 0] by fastforce
  then show "run clk toNs e (Some (concat (map frame bss) @ t)) = None" using run_loop_cut_off [OF assms(5)] by (simp add: run_def)
  show "\<exists>e' fs Q s. run clk toNs e (Some (concat (map frame bss))) = Some (Inr e') \<and> engine_ok e' fs Q \<and>
      engine_steps start msgs (view e' Q, s)"
    using run_sim [OF assms(1-4), of clk toNs] by metis
qed

theorem truncated_file_undefined_witness:
  "\<exists>e. MatchingEngine_sized 4 = Some e \<and> run (\<lambda>n. (5, 9)) None e (Some (concat (map frame [add_bytes]) @ [0])) = None"
proof -
  obtain e where e: "MatchingEngine_sized 4 = Some e" using small_engine by blast
  have "list_all2 wf_message [add_bytes] [AddMsg 7 one_order]" using wf_add by simp
  from truncated_file_undefined [OF e this, of "[0]" "\<lambda>n. (5, 9)" None] e show ?thesis by (auto simp: INVALID_INDEX_def cut_off_def)
qed

text \<open>C24: Started without options the engine runs in file mode, and on a file of well-formed messages it ends by
  writing one file, \<open>latencies.txt\<close>, with one line for each Add Order message, in file order: the time between
  the two counter readings around its handling, in nanoseconds where the counter counts cycles.\<close>

theorem file_mode_writes_latencies:
  assumes "list_all2 wf_message bss msgs" and "length msgs < 8388608"
  shows "main_call [] = Inr RunFile \<and>
    main_file_mode clk toNs (Some (concat (map frame bss))) =
      Some (Inr [(''latencies.txt'', number_lines (map (case toNs of None \<Rightarrow> id | Some f \<Rightarrow> f) (add_samples clk 0 msgs)))])"
proof -
  obtain e where e: "MatchingEngine_new = Some e" using MatchingEngine_new_exists by blast
  then have sz: "MatchingEngine_sized 8388608 = Some e" by (simp add: MatchingEngine_new_def)
  have ini: "latencies e = [] \<and> wireLatencies e = []" using sz by (auto simp: MatchingEngine_sized_def bind_eq_Some_conv)
  obtain e' where r: "run clk toNs e (Some (concat (map frame bss))) = Some (Inr e')"
    by (rule run_sim [OF sz assms(1), of clk toNs]) (use assms(2) in \<open>simp_all add: INVALID_INDEX_def\<close>)
  then obtain e1 s1 where 1: "run_loop clk 0 e \<lparr>scratchRemoved = [], scratchExecuted = []\<rparr> (concat (map frame bss)) = Some (Inr (e1, s1))"
    "e' = convertLatencies toNs e1"
    by (auto simp: run_def map_option_case split: option.splits) (metis (no_types, lifting) Inl_Inr_False map_sum.simps old.prod.exhaust old.sum.exhaust prod.case sum.inject(2))
  note t = run_loop_times [OF assms(1) 1(1)]
  have "main_file_mode clk toNs (Some (concat (map frame bss))) = Some (Inr (main_files e'))"
    unfolding main_file_mode_def e using r by simp
  moreover have "main_files e' =
      [(''latencies.txt'', number_lines (map (case toNs of None \<Rightarrow> id | Some f \<Rightarrow> f) (add_samples clk 0 msgs)))]"
    using 1(2) t ini by (cases toNs) (simp_all add: main_files_def convertLatencies_def)
  ultimately show ?thesis by (simp add: main_call_def MainOptions_default_def)
qed

theorem file_mode_writes_latencies_witness:
  "main_file_mode (\<lambda>n. (5, 9)) None (Some (concat (map frame [add_bytes]))) =
     Some (Inr [(''latencies.txt'', [CHR ''4'', CHR 0x0A])])"
proof -
  have "list_all2 wf_message [add_bytes] [AddMsg 7 one_order]" using wf_add by simp
  from file_mode_writes_latencies [OF this, of "\<lambda>n. (5, 9)" None] show ?thesis
    by (simp add: number_lines_def decimal.simps char_of_def bit_0)
qed

text \<open>C3: After any such file, every book of the engine is in price-time priority on both sides, holds no
  empty order, and is not crossed: every resting bid is below every resting ask.\<close>

theorem books_never_crossed:
  assumes "MatchingEngine_sized c = Some e" and "list_all2 wf_message bss msgs"
    and "length msgs < unat c" and "length msgs < unat INVALID_INDEX"
  shows "\<exists>e' Q. run clk toNs e (Some (concat (map frame bss))) = Some (Inr e') \<and>
    (\<forall>l. book_rel (nodes (pool e')) (orderBooks e' l) (Q l) \<and> book_ok (Q l))"
proof -
  obtain e' fs Q s where r: "run clk toNs e (Some (concat (map frame bss))) = Some (Inr e')" "engine_ok e' fs Q"
    "engine_steps start msgs (view e' Q, s)" by (rule run_sim [OF assms])
  have "market_ok start" using tracked_start by (simp add: tracked_def)
  then have "market_ok (view e' Q, s)" by (rule engine_steps_invariant [OF r(3)]) (rule market_ok_step)
  then show ?thesis using r(1,2) by (auto simp: market_ok_def view_def engine_ok_def store_ok_def)
qed

theorem books_never_crossed_witness:
  "\<exists>e e' Q. MatchingEngine_sized 4 = Some e \<and>
     run (\<lambda>n. (5, 9)) None e (Some (concat (map frame [add_bytes, add_bytes]))) = Some (Inr e') \<and>
     (\<forall>l. book_rel (nodes (pool e')) (orderBooks e' l) (Q l) \<and> book_ok (Q l))"
proof -
  obtain e where e: "MatchingEngine_sized 4 = Some e" using small_engine by blast
  have "list_all2 wf_message [add_bytes, add_bytes] [AddMsg 7 one_order, AddMsg 7 one_order]" using wf_add by simp
  from books_never_crossed [OF e this, of "\<lambda>n. (5, 9)" None] e show ?thesis by (auto simp: INVALID_INDEX_def)
qed

text \<open>C4: If moreover no two messages introduce the same reference and none introduces the sentinel, the
  index is exact at the end: a lookup of a reference finds a location if and only if an order with
  that reference rests at that slot of that book.\<close>

theorem index_is_exact:
  assumes "MatchingEngine_sized c = Some e" and "list_all2 wf_message bss msgs"
    and "length msgs < unat c" and "length msgs < unat INVALID_INDEX"
    and "distinct (all_new msgs)" and "EMPTY \<notin> set (all_new msgs)"
  shows "\<exists>e' Q. run clk toNs e (Some (concat (map frame bss))) = Some (Inr e') \<and>
    (\<forall>l. book_rel (nodes (pool e')) (orderBooks e' l) (Q l)) \<and>
    (\<forall>ref l x. hm_find (orderMap e') ref = Some (Some \<lparr>stockLocate = l, poolIdx = x\<rparr>) \<longleftrightarrow>
       (\<exists>ord. (x, ord) \<in> resting (Q l) \<and> order_ref ord = ref))"
proof -
  obtain e' fs Q s where r: "run clk toNs e (Some (concat (map frame bss))) = Some (Inr e')" "engine_ok e' fs Q"
    "engine_steps start msgs (view e' Q, s)" by (rule run_sim [OF assms(1-4)])
  have "tracked (view e' Q, s)" by (rule tracked_steps [OF r(3) tracked_start assms(5,6)]) simp
  then have c: "index_complete (hm_map (orderMap e'), Q)" by (simp add: tracked_def view_def)
  have snd: "index_sound (hm_map (orderMap e')) Q" and ok: "hm_ok (orderMap e')"
    and rel: "\<forall>l. book_rel (nodes (pool e')) (orderBooks e' l) (Q l)"
    using r(2) by (auto simp: engine_ok_def store_ok_def)
  have "hm_map (orderMap e') ref = Some \<lparr>stockLocate = l, poolIdx = x\<rparr> \<longleftrightarrow>
      (\<exists>ord. (x, ord) \<in> resting (Q l) \<and> order_ref ord = ref)" for ref l x
    using index_completeD [OF c] snd unfolding index_sound_def by (metis OrderLocation.select_convs)
  then show ?thesis using r(1) rel ok by (auto simp: hm_find_spec)
qed

theorem index_is_exact_witness:
  "\<exists>e e' Q. MatchingEngine_sized 4 = Some e \<and> run (\<lambda>n. (5, 9)) None e (Some (concat (map frame [add_bytes]))) = Some (Inr e') \<and>
     (\<forall>l. book_rel (nodes (pool e')) (orderBooks e' l) (Q l)) \<and>
     (\<forall>ref l x. hm_find (orderMap e') ref = Some (Some \<lparr>stockLocate = l, poolIdx = x\<rparr>) \<longleftrightarrow>
       (\<exists>ord. (x, ord) \<in> resting (Q l) \<and> order_ref ord = ref))"
proof -
  obtain e where e: "MatchingEngine_sized 4 = Some e" using small_engine by blast
  have wf: "list_all2 wf_message [add_bytes] [AddMsg 7 one_order]" using wf_add by simp
  have "all_new [AddMsg 7 one_order] = [1]"
    by (simp add: all_new_def one_order_def order_ref_def join_ref_def)
  then have "distinct (all_new [AddMsg 7 one_order])" "EMPTY \<notin> set (all_new [AddMsg 7 one_order])"
    by (simp_all add: EMPTY_def)
  from index_is_exact [OF e wf _ _ this, of "\<lambda>n. (5, 9)" None] e show ?thesis by (auto simp: INVALID_INDEX_def)
qed

section \<open>A UDP session\<close>

lemma books_ok_reached:
  assumes "engine_steps start msgs (view e Q, sc)"
  shows "\<forall>l. book_ok (Q l)"
proof -
  have "market_ok start" using tracked_start by (simp add: tracked_def)
  then have "market_ok (view e Q, sc)" by (rule engine_steps_invariant [OF assms]) (rule market_ok_step)
  then show ?thesis by (auto simp: market_ok_def view_def)
qed

text \<open>C2: End to end: the replay sender cuts a file of well-formed messages into packets; if the network
  thread was handed exactly these packets and the ring refused none, then in every interleaving in
  which the matching thread has stopped, the engine satisfies its invariant and has made exactly the
  machine steps of the messages of the file, in file order, and no book is crossed: the same steps
  that file mode makes.\<close>

theorem udp_session_processes_file:
  assumes "MatchingEngine_sized cap = Some e" and "list_all2 wf_message bss msgs"
    and "length msgs < unat cap" and "length msgs < unat INVALID_INDEX"
    and "list_all fits bss" and "0 < m" and "unat m \<le> batchSlots" and "\<And>k. send k"
    and "replay send m (Some (concat (map frame bss))) = Some pkts"
    and "runUdp_start n c e = Some st" and "n \<le> unat kPoolInvalid"
    and "pipe_reachable socket_feed clk (socket_init setup_ok st) s" and "handled s = pkts" and "refused s = 0" and "epc (eng s) = EngDone"
  shows "\<exists>fs Q sc. engine_ok (runUdp_finish toNs (eng s)) fs Q \<and>
    engine_steps start msgs (view (runUdp_finish toNs (eng s)) Q, sc) \<and> (\<forall>l. book_ok (Q l))"
proof -
  obtain fs Q sc where r: "engine_ok (runUdp_finish toNs (eng s)) fs Q"
    "engine_steps start msgs (view (runUdp_finish toNs (eng s)) Q, sc)"
    by (rule session_sim [where send = send, OF assms(1-7) _ assms(9-15)]) (use assms(8) in blast)+
  then show ?thesis using books_ok_reached [OF r(2)] by blast
qed

lemma add_session:
  "list_all2 wf_message [add_bytes] [AddMsg 7 one_order]" "list_all fits [add_bytes]" "(0 :: u16) < 16" "unat (16 :: u16) \<le> batchSlots"
  "length [AddMsg 7 one_order] < unat (4 :: u64)" "length [AddMsg 7 one_order] < unat INVALID_INDEX" "2 \<le> unat kPoolInvalid" "(1 :: u64) < 4"
  using wf_add by (simp_all add: fits_def add_bytes_def add_message_def wire_header_def wire_add_def w64_def kMoldHeaderBytes_def packetBytes_def
      batchSlots_def INVALID_INDEX_def kPoolInvalid_def)

theorem udp_session_processes_file_witness:
  "\<exists>e st pkts s fs Q sc. MatchingEngine_sized 4 = Some e \<and> runUdp_start 2 4 e = Some st \<and>
     replay (\<lambda>k. True) 16 (Some (concat (map frame [add_bytes]))) = Some pkts \<and>
     pipe_reachable socket_feed (\<lambda>n. (5, 9)) (socket_init True st) s \<and> handled s = pkts \<and> epc (eng s) = EngDone \<and>
     engine_steps start [AddMsg 7 one_order] (view (runUdp_finish None (eng s)) Q, sc)"
proof -
  note a = add_session
  obtain e st where e: "MatchingEngine_sized 4 = Some e" "runUdp_start 2 4 e = Some st" using small_start by blast
  obtain pkts s where s: "replay (\<lambda>k. True) 16 (Some (concat (map frame [add_bytes]))) = Some pkts"
    "pipe_reachable socket_feed (\<lambda>n. (5, 9)) (socket_init True st) s" "handled s = pkts" "refused s = 0" "epc (eng s) = EngDone"
    using session_completes [OF e(1) a(1,5,6,2-4) TrueI e(2) a(7,8), of "\<lambda>n. (5, 9)"] by blast
  from udp_session_processes_file [OF e(1) a(1,5,6,2-4) TrueI s(1) e(2) a(7) s(2-5), of None] show ?thesis
    using e s by blast
qed

text \<open>C25: A session can complete: with at least one buffer and a ring of at least two slots there is an
  interleaving in which the network thread handles every packet of the sender and the marker, none is
  refused, and the matching thread processes them all and stops.\<close>

theorem udp_session_completes:
  assumes "MatchingEngine_sized cap = Some e" and "list_all2 wf_message bss msgs"
    and "length msgs < unat cap" and "length msgs < unat INVALID_INDEX"
    and "list_all fits bss" and "0 < m" and "unat m \<le> batchSlots" and "\<And>k. send k"
    and "runUdp_start n c e = Some st" and "n \<le> unat kPoolInvalid" and "1 < c"
  shows "\<exists>pkts s. replay send m (Some (concat (map frame bss))) = Some pkts \<and>
    pipe_reachable socket_feed clk (socket_init True st) s \<and> handled s = pkts \<and> refused s = 0 \<and> epc (eng s) = EngDone"
  using assms by (rule session_completes)

theorem udp_session_completes_witness:
  "\<exists>e st pkts s. MatchingEngine_sized 4 = Some e \<and> runUdp_start 2 4 e = Some st \<and>
     replay (\<lambda>k. True) 16 (Some (concat (map frame [add_bytes]))) = Some pkts \<and>
     pipe_reachable socket_feed (\<lambda>n. (5, 9)) (socket_init True st) s \<and> handled s = pkts \<and> epc (eng s) = EngDone"
proof -
  note a = add_session
  obtain e st where e: "MatchingEngine_sized 4 = Some e" "runUdp_start 2 4 e = Some st" using small_start by blast
  from udp_session_completes [OF e(1) a(1,5,6,2-4) TrueI e(2) a(7,8), of "\<lambda>n. (5, 9)"] e show ?thesis by blast
qed

text \<open>C26: After such a session the engine program writes \<open>latencies.txt\<close> with one line for each Add Order message of the
  file, in file order, the time between the two counter readings around its handling, as file mode
  does; and \<open>wire_latencies.txt\<close> with the time to the first of these readings from the stamp the network thread gave the
  packet the message came in, for the packets whose stamp is not 0; the packets are those of the sender before the end
  marker, the messages of a packet those its bytes hold.\<close>

theorem udp_mode_writes_latencies:
  assumes "MatchingEngine_sized cap = Some e" and "list_all2 wf_message bss msgs"
    and "list_all fits bss" and "0 < m" and "unat m \<le> batchSlots" and "\<And>k. send k"
    and "replay send m (Some (concat (map frame bss))) = Some pkts"
    and "runUdp_start n c e = Some st" and "n \<le> unat kPoolInvalid"
    and "pipe_reachable socket_feed clk (socket_init setup_ok st) s" and "handled s = pkts" and "refused s = 0" and "epc (eng s) = EngDone"
  shows "map packet_of (consumed s) = butlast pkts \<and> concat (map packet_messages (butlast pkts)) = msgs \<and>
    (let conv = (case toNs of None \<Rightarrow> id | Some f \<Rightarrow> f);
         wires = session_wires clk 0 (zip (map snd (consumed s)) (map packet_messages (butlast pkts))) in
     main_files (runUdp_finish toNs (eng s)) = (''latencies.txt'', number_lines (map conv (add_samples clk 0 msgs))) #
       (if wires = [] then [] else [(''wire_latencies.txt'', number_lines (map conv wires))]))"
proof -
  have c: "fst (sift pkts SeqTracker_new) = map packet_of (consumed s)" "list_all good_packet (consumed s)"
      "process_all clk (consumed s) (e, no_output, 0) = Some (Inr (est (eng s)))"
    using socket.complete [OF assms(10) socket_inv_init [OF assms(8,9)] assms(12,13)] assms(11) by simp_all
  have "latencies e = []" "wireLatencies e = []" using assms(1) by (auto simp: MatchingEngine_sized_def bind_eq_Some_conv)
  note T = stream_times [where send = send, OF assms(2-6,7) c this]
  show ?thesis using T(1,2) by (cases toNs) (simp_all add: main_files_def runUdp_finish_def convertLatencies_def Let_def T(3,4))
qed

theorem udp_mode_writes_latencies_witness:
  "\<exists>e st s w. MatchingEngine_sized 4 = Some e \<and> runUdp_start 2 4 e = Some st \<and>
     pipe_reachable socket_feed (\<lambda>n. (5, 9)) (socket_init True st) s \<and> epc (eng s) = EngDone \<and> map snd (consumed s) = [w] \<and>
     main_files (runUdp_finish None (eng s)) = (''latencies.txt'', number_lines [4]) #
       (if w = 0 then [] else [(''wire_latencies.txt'', number_lines [5 - w])])"
proof -
  note a = add_session
  obtain e st where e: "MatchingEngine_sized 4 = Some e" "runUdp_start 2 4 e = Some st" using small_start by blast
  obtain pkts s where s: "replay (\<lambda>k. True) 16 (Some (concat (map frame [add_bytes]))) = Some pkts"
    "pipe_reachable socket_feed (\<lambda>n. (5, 9)) (socket_init True st) s" "handled s = pkts" "refused s = 0" "epc (eng s) = EngDone"
    using session_completes [OF e(1) a(1,5,6,2-4) TrueI e(2) a(7,8), of "\<lambda>n. (5, 9)"] by blast
  obtain gs where gs: "butlast pkts = packet_stream 1 gs" "concat gs = [add_bytes]" "list_all (packet_group 16) gs"
    by (rule replay_spec [where send = "\<lambda>k. True", OF a(2-4)]) (use s(1) in auto)
  have "gs = [[add_bytes]]"
  proof (cases gs)
    case (Cons g gs')
    then show ?thesis using gs(2,3) by (cases g; cases gs') (auto simp: packet_group_def append_eq_Cons_conv)
  qed (use gs(2) in simp)
  then have one: "length (butlast pkts) = 1" using gs(1) by simp
  from udp_mode_writes_latencies [OF e(1) a(1-4) TrueI s(1) e(2) a(7) s(2-5), of None]
  have r: "map packet_of (consumed s) = butlast pkts" "concat (map packet_messages (butlast pkts)) = [AddMsg 7 one_order]"
    "main_files (runUdp_finish None (eng s)) = (let wires = session_wires (\<lambda>n. (5, 9)) 0 (zip (map snd (consumed s)) (map packet_messages (butlast pkts))) in
      (''latencies.txt'', number_lines (map id (add_samples (\<lambda>n. (5, 9)) 0 [AddMsg 7 one_order]))) #
       (if wires = [] then [] else [(''wire_latencies.txt'', number_lines (map id wires))]))" by (simp_all add: Let_def)
  obtain p where p: "butlast pkts = [p]" using one by (cases "butlast pkts") (auto simp del: length_butlast)
  then obtain x where x: "consumed s = [x]" using r(1) by (cases "consumed s") auto
  have "main_files (runUdp_finish None (eng s)) = (''latencies.txt'', number_lines [4]) #
       (if snd x = 0 then [] else [(''wire_latencies.txt'', number_lines [5 - snd x])])"
    using r(2,3) p x by (simp add: Let_def)
  then show ?thesis using e s(2,5) x by (intro exI [of _ e] exI [of _ st] exI [of _ s] exI [of _ "snd x"]) simp
qed

text \<open>C27: The report of a complete session without refused packets: as many messages as the file holds, as many packets and
  bytes received as the sender sent plus those of the datagrams discarded for want of a buffer, as recorded during the execution,
  which are exactly the dropped packets, no gap and no duplicate; all counts modulo \<open>2 ^ 64\<close>, as the counters are.\<close>

theorem udp_report_accounts:
  assumes "MatchingEngine_sized cap = Some e" and "list_all2 wf_message bss msgs"
    and "list_all fits bss" and "0 < m" and "unat m \<le> batchSlots" and "\<And>k. send k"
    and "replay send m (Some (concat (map frame bss))) = Some pkts"
    and "runUdp_start n c e = Some st" and "n \<le> unat kPoolInvalid"
    and "recorded clk (socket_init setup_ok st) s xs" and "handled s = pkts" and "refused s = 0" and "epc (eng s) = EngDone"
  shows "runUdp_report (of_nat (snd (snd (est (eng s))))) (nstats (net s)) =
    ''UDP run complete:'' @ newline @ concat (map report_line
      [(''matched messages: '', of_nat (length msgs)),
       (''packets received: '', of_nat (length pkts + length xs)),
       (''packets dropped:  '', of_nat (length xs)),
       (''bytes received:   '', of_nat (sum_list (map length pkts) + sum_list (map length xs))),
       (''gaps detected:    '', 0),
       (''duplicates:       '', 0)])"
proof -
  note i0 = socket_inv_init [OF assms(8,9), of clk setup_ok] and reach = recorded_reachable [OF assms(10)]
  have c: "fst (sift pkts SeqTracker_new) = map packet_of (consumed s)" "list_all good_packet (consumed s)"
      "process_all clk (consumed s) (e, no_output, 0) = Some (Inr (est (eng s)))"
    using socket.complete [OF reach i0 assms(12,13)] assms(11) by simp_all
  have "latencies e = []" "wireLatencies e = []" using assms(1) by (auto simp: MatchingEngine_sized_def bind_eq_Some_conv)
  note cnt = stream_times(5) [where send = send, OF assms(2-6,7) c this]
  obtain gs where gs: "pkts = packet_stream 1 gs @ [end_packet (1 + of_nat (length bss))]" "list_all (packet_group m) gs"
    by (rule replay_spec [where send = send, OF assms(3-5)]) (use assms(6,7) in auto)
  obtain k where k: "account pkts (SeqTracker_new, FeedStats_new) = (k, FeedStats_new\<lparr>
    packetsReceived := of_nat (length pkts), bytesReceived := of_nat (sum_list (map length pkts)), endOfSession := 1\<rparr>)"
    using account_stream [OF gs(2) assms(5), of SeqTracker_new 1 "1 + of_nat (length bss)" FeedStats_new]
    by (auto simp: gs(1) length_packet_stream FeedStats_new_def SeqTracker_new_def)
  have "counted [] 0 [] (NetThread_new setup_ok)"
    by (rule countedI [of _ _ FeedStats_new 0 "[]"])
      (simp_all add: NetThread_new_def uncounted_def add_stats_def losses_def FeedStats_new_def)
  then have "counted (handled (socket_init setup_ok st)) (refused (socket_init setup_ok st)) [] (net (socket_init setup_ok st))"
    by (simp add: socket_init_def pipe_init_def split: prod.split)
  moreover obtain fs0 where "pipe_inv net_phase clk (e, no_output, 0) (socket_init setup_ok st) fs0" using i0 by (auto simp: system_inv_def)
  ultimately have "counted pkts 0 xs (net s)" using counted_recorded [OF assms(10)] assms(11,12) by metis
  then have "nstats (net s) = add_stats (snd (account pkts (SeqTracker_new, FeedStats_new))) (losses 0 xs)"
    by (auto simp: counted_def)
  then have "nstats (net s) = FeedStats_new\<lparr>packetsReceived := of_nat (length pkts + length xs), packetsDropped := of_nat (length xs),
      bytesReceived := of_nat (sum_list (map length pkts) + sum_list (map length xs)), endOfSession := 1\<rparr>"
    unfolding k snd_conv by (simp add: add_stats_def losses_def FeedStats_new_def)
  then show ?thesis by (simp add: runUdp_report_def cnt FeedStats_new_def)
qed

theorem udp_report_accounts_witness:
  "\<exists>e st pkts s xs. MatchingEngine_sized 4 = Some e \<and> runUdp_start 2 4 e = Some st \<and>
     replay (\<lambda>k. True) 16 (Some (concat (map frame [add_bytes]))) = Some pkts \<and>
     recorded (\<lambda>n. (5, 9)) (socket_init True st) s xs \<and> epc (eng s) = EngDone \<and>
     runUdp_report (of_nat (snd (snd (est (eng s))))) (nstats (net s)) =
       ''UDP run complete:'' @ newline @ concat (map report_line
         [(''matched messages: '', 1),
          (''packets received: '', of_nat (length pkts + length xs)),
          (''packets dropped:  '', of_nat (length xs)),
          (''bytes received:   '', of_nat (sum_list (map length pkts) + sum_list (map length xs))),
          (''gaps detected:    '', 0),
          (''duplicates:       '', 0)])"
proof -
  note a = add_session
  obtain e st where e: "MatchingEngine_sized 4 = Some e" "runUdp_start 2 4 e = Some st" using small_start by blast
  obtain pkts s where s: "replay (\<lambda>k. True) 16 (Some (concat (map frame [add_bytes]))) = Some pkts"
    "pipe_reachable socket_feed (\<lambda>n. (5, 9)) (socket_init True st) s" "handled s = pkts" "refused s = 0" "epc (eng s) = EngDone"
    using session_completes [OF e(1) a(1,5,6,2-4) TrueI e(2) a(7,8), of "\<lambda>n. (5, 9)"] by blast
  obtain xs where xs: "recorded (\<lambda>n. (5, 9)) (socket_init True st) s xs" using reachable_recorded [OF s(2)] by blast
  have "of_nat (length [AddMsg 7 one_order]) = (1 :: u64)" by simp
  note udp_report_accounts [OF e(1) a(1-4) TrueI s(1) e(2) a(7) xs s(3-5), unfolded this]
  with e s(1,5) xs show ?thesis by blast
qed

text \<open>C29: When the set-up of the network thread fails, it returns without a word to the matching thread, which then never ends: in
  every state that is reached it is still polling the empty ring, with nothing processed, and its next
  poll is defined.  This holds for both network threads, whatever the kernel does.\<close>

theorem failed_setup_never_ends:
  assumes "runUdp_start n c e = Some st"
  shows "(\<not> snd (open_feed reuseport inet_addr os addr prt grp) \<longrightarrow>
      pipe_reachable socket_feed clk (socket_init (snd (open_feed reuseport inet_addr os addr prt grp)) st) s \<longrightarrow>
      (\<exists>b. epc (eng s) = EngPop b) \<and> est (eng s) = (e, no_output, 0) \<and> consumer_step clk (shared s, eng s) \<noteq> None) \<and>
    (snd (open_xdp os xsk ifc) = None \<longrightarrow>
      pipe_reachable (xdp_feed kern xsk pt) clk (xdp_init (snd (open_xdp os xsk ifc) \<noteq> None) st) s' \<longrightarrow>
      (\<exists>b. epc (eng s') = EngPop b) \<and> est (eng s') = (e, no_output, 0) \<and> consumer_step clk (shared s', eng s') \<noteq> None)"
proof -
  obtain sh et where st: "st = (sh, et)" by (cases st)
  have et: "est et = (e, no_output, 0)" using assms by (auto simp: st runUdp_start_def no_output_def bind_eq_Some_conv)
  have "npc (net s) = NetDone \<and> shared s = sh \<and> (\<exists>b. eng s = et\<lparr>epc := EngPop b\<rparr>) \<and> consumer_step clk (shared s, eng s) \<noteq> None"
    if "pipe_reachable socket_feed clk (socket_init False st) s"
    by (rule dead_thread_spins [OF that [unfolded st socket_init_def prod.case] assms [unfolded st]])
      (auto simp: NetThread_new_def socket_feed_def net_step_def)
  moreover have "xpc (net s') = XdpDone \<and> shared s' = sh \<and> (\<exists>b. eng s' = et\<lparr>epc := EngPop b\<rparr>) \<and> consumer_step clk (shared s', eng s') \<noteq> None"
    if "pipe_reachable (xdp_feed kern xsk pt) clk (xdp_init False st) s'"
    by (rule dead_thread_spins [OF that [unfolded st xdp_init_def prod.case] assms [unfolded st]])
      (auto simp: XdpThread_new_def xdp_system_def xdp_step_def split: xdp_input.splits if_splits)
  ultimately show ?thesis using et by auto
qed

theorem failed_setup_never_ends_witness:
  "\<exists>e st s s'. runUdp_start 2 4 e = Some st \<and>
     s = socket_init (snd (open_feed True (\<lambda>a. 0) (\<lambda>c. c \<noteq> SocketCall) None 30001 None)) st \<and>
     s' = xdp_init (snd (open_xdp (\<lambda>c. c \<noteq> XskCreate None 0) counting_xsk None) \<noteq> None) st \<and>
     (\<exists>b. epc (eng s) = EngPop b) \<and> consumer_step (\<lambda>n. (5, 9)) (shared s, eng s) \<noteq> None \<and>
     (\<exists>b. epc (eng s') = EngPop b) \<and> consumer_step (\<lambda>n. (5, 9)) (shared s', eng s') \<noteq> None"
proof -
  obtain e st where st: "runUdp_start 2 4 e = Some st" using small_start by blast
  have off: "\<not> snd (open_feed True (\<lambda>a. 0) (\<lambda>c. c \<noteq> SocketCall) None 30001 None)"
    "snd (open_xdp (\<lambda>c. c \<noteq> XskCreate None 0) counting_xsk None) = None" by (simp_all add: open_feed_def open_xdp_def Let_def)
  define s where "s = socket_init (snd (open_feed True (\<lambda>a. 0) (\<lambda>c. c \<noteq> SocketCall) None 30001 None)) st"
  define s' where "s' = xdp_init (snd (open_xdp (\<lambda>c. c \<noteq> XskCreate None 0) counting_xsk None) \<noteq> None) st"
  have reach: "pipe_reachable socket_feed (\<lambda>n. (5, 9)) s s" "pipe_reachable (xdp_feed kernel_move counting_xsk 30001) (\<lambda>n. (5, 9)) s' s'"
    by (rule pipe_reachable.init)+
  note end_of = failed_setup_never_ends [OF st, THEN conjunct1, rule_format, OF off(1) reach(1) [unfolded s_def], folded s_def]
    failed_setup_never_ends [OF st, THEN conjunct2, rule_format, OF off(2) reach(2) [unfolded s'_def], folded s'_def]
  show ?thesis
    by (intro exI [of _ e] exI [of _ st] exI [of _ s] exI [of _ s'] conjI) (use end_of st in \<open>simp_all add: s_def s'_def\<close>)
qed

text \<open>C10: End to end over AF_XDP: if the frames handed to the thread carried exactly the packets of the replay
  sender and none was lost for want of a buffer or of room in the ring, then in every interleaving of
  the kernel and the two threads in which the matching thread has stopped, the engine satisfies its
  invariant and has made exactly the machine steps of the messages of the file, in file order, and no
  book is crossed.\<close>

theorem xdp_session_processes_file:
  assumes "MatchingEngine_sized cap = Some e" and "list_all2 wf_message bss msgs"
    and "length msgs < unat cap" and "length msgs < unat INVALID_INDEX"
    and "list_all fits bss" and "0 < m" and "unat m \<le> batchSlots" and "\<And>k. send k"
    and "replay send m (Some (concat (map frame bss))) = Some pkts"
    and "kernel_ok kern" and "xsk_ok xsk"
    and "runUdp_start n c e = Some st" and "n \<le> unat kPoolInvalid"
    and "pipe_reachable (xdp_feed kern xsk pt) clk (xdp_init setup_ok st) s" and "handled s = pkts" and "refused s = 0" and "epc (eng s) = EngDone"
  shows "\<exists>fs Q sc. engine_ok (runUdp_finish toNs (eng s)) fs Q \<and>
    engine_steps start msgs (view (runUdp_finish toNs (eng s)) Q, sc) \<and> (\<forall>l. book_ok (Q l))"
proof -
  obtain fs Q sc where r: "engine_ok (runUdp_finish toNs (eng s)) fs Q"
    "engine_steps start msgs (view (runUdp_finish toNs (eng s)) Q, sc)"
    by (rule xdp_session_sim [where send = send, OF assms(1-7) _ assms(9-17)]) (use assms(8) in blast)+
  then show ?thesis using books_ok_reached [OF r(2)] by blast
qed

theorem xdp_session_processes_file_witness:
  "\<exists>e st pkts s fs Q sc. MatchingEngine_sized 4 = Some e \<and> runUdp_start 2 4 e = Some st \<and>
     replay (\<lambda>k. True) 16 (Some (concat (map frame [add_bytes]))) = Some pkts \<and>
     pipe_reachable (xdp_feed kernel_move counting_xsk 30001) (\<lambda>n. (5, 9)) (xdp_init True st) s \<and>
     handled s = pkts \<and> epc (eng s) = EngDone \<and>
     engine_steps start [AddMsg 7 one_order] (view (runUdp_finish None (eng s)) Q, sc)"
proof -
  note a = add_session
  obtain e st where e: "MatchingEngine_sized 4 = Some e" "runUdp_start 2 4 e = Some st" using small_start by blast
  have live: "xsk_live counting_xsk" by (simp add: xsk_live_def counting_xsk_def)
  obtain pkts s where s: "replay (\<lambda>k. True) 16 (Some (concat (map frame [add_bytes]))) = Some pkts"
    "pipe_reachable (xdp_feed kernel_move counting_xsk 30001) (\<lambda>n. (5, 9)) (xdp_init True st) s"
    "handled s = pkts" "refused s = 0" "epc (eng s) = EngDone"
    using xdp_session_completes [OF e(1) a(1,5,6,2-4) TrueI counting_xsk_ok live e(2) a(7,8)] by blast
  from xdp_session_processes_file [OF e(1) a(1,5,6,2-4) TrueI s(1) kernel_move_ok counting_xsk_ok e(2) a(7) s(2-5), of None]
  show ?thesis using e s by blast
qed

end
